(* ===== verification/Prelude.thy ===== *)
theory Prelude
  imports Main "HOL-Library.Word"
begin

text \<open>
  Shared material of the development: the integer types of \<open>include/types.h\<close>, the two
  virtual windows through which the kernel reaches physical memory, the theorem
  collections, and the generic lemmas on words and lists that the component theories use.
\<close>

unbundle bit_operations_syntax

type_synonym u8 = "8 word"
type_synonym u16 = "16 word"
type_synonym u32 = "32 word"
type_synonym i32 = "32 word"

named_theorems list_simps \<open>rewriting of the list_node field accesses\<close>
named_theorems heap_frame \<open>fields an operation leaves alone\<close>

section \<open>The kernel's two windows on physical memory\<close>

text \<open>
  \<open>pmm.h\<close> links the kernel at \<open>VERTUAL_MEM\<close>. \<open>kern_init\<close> (\<open>entry/entry.c\<close>) maps the first
  4 MB twice, at 0 and at \<open>VERTUAL_MEM\<close>, and \<open>page_init\<close> (\<open>mm/pmm.c\<close>) continues the upper window to the
  end of memory, so one physical cell is reached through a low and through a high pointer.
  \<open>kpa\<close> is the physical address behind a kernel pointer. Every memory access of the model
  goes through it, so that two pointers to one struct really are aliases.
\<close>

abbreviation VERTUAL_MEM :: u32 where
  "VERTUAL_MEM \<equiv> 0xC0000000"

abbreviation PAGE_SIZE :: u32 where
  "PAGE_SIZE \<equiv> 4096"

abbreviation NULL :: u32 where
  "NULL \<equiv> 0"

definition kpa :: "u32 \<Rightarrow> u32" where
  "kpa a = (if VERTUAL_MEM \<le> a then a - VERTUAL_MEM else a)"

lemma kpa_low [simp]: "a < VERTUAL_MEM \<Longrightarrow> kpa a = a"
  by (simp add: kpa_def)

lemma kpa_lt: "kpa a < VERTUAL_MEM"
proof (cases "VERTUAL_MEM \<le> a")
  case True
  then have "unat (a - VERTUAL_MEM) = unat a - unat VERTUAL_MEM"
    by (simp add: unat_sub)
  moreover have "unat a < 2 ^ 32" using unsigned_less [of a] by simp
  ultimately have "a - VERTUAL_MEM < VERTUAL_MEM"
    by (simp add: word_less_nat_alt)
  with True show ?thesis by (simp add: kpa_def)
next
  case False
  then show ?thesis by (simp add: kpa_def)
qed

lemma kpa_idem [simp]: "kpa (kpa a) = kpa a"
  by (simp add: kpa_lt)

lemma kpa_neqI: "kpa x \<notin> kpa ` S \<Longrightarrow> y \<in> S \<Longrightarrow> kpa x \<noteq> kpa y"
  by auto

lemma kpa_add_VERTUAL_MEM:
  assumes "a < 0x40000000"
  shows "kpa (a + VERTUAL_MEM) = a"
proof -
  have "unat a + unat VERTUAL_MEM < 2 ^ 32"
    using assms by (simp add: word_less_nat_alt)
  then have "unat (a + VERTUAL_MEM) = unat a + unat VERTUAL_MEM"
    by (simp add: unat_word_ariths)
  then have "VERTUAL_MEM \<le> a + VERTUAL_MEM"
    by (simp add: word_le_nat_alt)
  then show ?thesis by (simp add: kpa_def)
qed

text \<open>Inside one window the translation keeps offsets.\<close>

lemma kpa_offset_high:
  assumes "VERTUAL_MEM \<le> p" and "unat p + unat x < 4294967296"
  shows "kpa (p + x) = kpa p + x"
proof -
  have "unat (p + x) = unat p + unat x"
    using assms(2) by (simp add: unat_word_ariths)
  with assms(1) have "VERTUAL_MEM \<le> p + x"
    by (simp add: word_le_nat_alt)
  with assms(1) show ?thesis by (simp add: kpa_def)
qed

lemma kpa_offset_low:
  assumes "unat p + unat x < 3221225472"
  shows "kpa (p + x) = kpa p + x"
proof -
  have "unat (p + x) = unat p + unat x"
    using assms by (simp add: unat_word_ariths)
  with assms have "p + x < VERTUAL_MEM" and "p < VERTUAL_MEM"
    by (simp_all add: word_less_nat_alt)
  then show ?thesis by simp
qed

section \<open>Generic lemmas\<close>

text \<open>
  The bits of the masks the code writes as hexadecimal constants. The simplifier turns a bit
  of a word numeral into a bit of an integer numeral, hence the type.
\<close>

lemma bit_masks:
  "bit (0x1FF :: int) n \<longleftrightarrow> n < 9"
  "bit (0xFFF :: int) n \<longleftrightarrow> n < 12"
  "bit (0x3FF :: int) n \<longleftrightarrow> n < 10"
  "bit (0xFFFFF :: int) n \<longleftrightarrow> n < 20"
  "bit (0x7 :: int) n \<longleftrightarrow> n < 3"
  "bit (0xE00 :: int) n \<longleftrightarrow> 9 \<le> n \<and> n < 12"
  "bit (0x7FFFFF :: int) n \<longleftrightarrow> n < 23"
  "bit (0x7FFFF8 :: int) n \<longleftrightarrow> 3 \<le> n \<and> n < 23"
proof -
  have m: "(0x1FF :: int) = mask 9" "(0xFFF :: int) = mask 12" "(0x3FF :: int) = mask 10"
    "(0xFFFFF :: int) = mask 20" "(0x7 :: int) = mask 3" "(0xE00 :: int) = push_bit 9 (mask 3)"
    "(0x7FFFFF :: int) = mask 23" "(0x7FFFF8 :: int) = push_bit 3 (mask 20)"
    by (simp_all add: mask_eq_exp_minus_1 push_bit_eq_mult)
  show "bit (0x1FF :: int) n \<longleftrightarrow> n < 9" "bit (0xFFF :: int) n \<longleftrightarrow> n < 12" "bit (0x3FF :: int) n \<longleftrightarrow> n < 10"
    "bit (0xFFFFF :: int) n \<longleftrightarrow> n < 20" "bit (0x7 :: int) n \<longleftrightarrow> n < 3" "bit (0xE00 :: int) n \<longleftrightarrow> 9 \<le> n \<and> n < 12"
    "bit (0x7FFFFF :: int) n \<longleftrightarrow> n < 23" "bit (0x7FFFF8 :: int) n \<longleftrightarrow> 3 \<le> n \<and> n < 23"
    unfolding m by (auto simp: bit_simps)
qed

lemma bit_masks_ide:
  "bit (0xF000000 :: int) n \<longleftrightarrow> 24 \<le> n \<and> n < 28"
  "bit (0xE0 :: int) n \<longleftrightarrow> 5 \<le> n \<and> n < 8"
  "bit (0x10 :: int) n \<longleftrightarrow> n = 4"
proof -
  have m: "(0xF000000 :: int) = push_bit 24 (mask 4)" "(0xE0 :: int) = push_bit 5 (mask 3)"
    by (simp_all add: mask_eq_exp_minus_1 push_bit_eq_mult)
  show "bit (0xF000000 :: int) n \<longleftrightarrow> 24 \<le> n \<and> n < 28" "bit (0xE0 :: int) n \<longleftrightarrow> 5 \<le> n \<and> n < 8"
    unfolding m by (auto simp: bit_simps)
  show "bit (0x10 :: int) n \<longleftrightarrow> n = 4"
    using bit_exp_iff [of 4 n, where ?'a = int] by simp
qed

lemma word_lt_exp_bit:
  assumes "unat (w :: 'a::len word) < 2 ^ k" and "bit w n"
  shows "n < k"
proof -
  have "take_bit k (unat w) = unat w" using assms(1) by (simp add: take_bit_nat_eq_self)
  moreover have "bit (unat w) n" using assms(2) by (simp add: bit_unsigned_iff)
  ultimately have "bit (take_bit k (unat w)) n" by simp
  then show ?thesis by (simp add: bit_take_bit_iff)
qed

lemma unat_lt_2_32: "unat (w :: u32) < 4294967296"
  using unsigned_less [of w] by simp

lemma unat_add_small:
  "unat (a :: u32) + unat b < 4294967296 \<Longrightarrow> unat (a + b) = unat a + unat b"
  by (simp add: unat_word_ariths)

lemma unat_minus_1_u32 [simp]: "unat (- 1 :: u32) = 4294967295"
  by (simp add: unsigned_minus_1_eq_mask mask_eq_exp_minus_1)

lemma sint_small: "unat (n :: u32) < 2147483648 \<Longrightarrow> sint n = int (unat n)"
proof -
  assume "unat n < 2147483648"
  moreover have "uint n = int (unat n)" by simp
  ultimately have "uint n < 2147483648" by linarith
  then have "uint n < 2 ^ 31" by simp
  moreover have "- (2 ^ 31) \<le> uint n" by (rule order_trans [of _ 0]) simp_all
  ultimately have "signed_take_bit 31 (uint n) = uint n"
    by (intro signed_take_bit_int_eq_self)
  then show ?thesis by (simp add: sint_uint)
qed

lemma nat_sint_small: "unat (n :: u32) < 2147483648 \<Longrightarrow> nat (sint n) = unat n"
  by (simp add: sint_small)

lemma unat_of_nat_small: "n < 4294967296 \<Longrightarrow> unat (of_nat n :: u32) = n"
  by (simp add: unat_of_nat)

lemma sless_small:
  "unat (m :: u32) < 2147483648 \<Longrightarrow> unat n < 2147483648 \<Longrightarrow> m <s n \<longleftrightarrow> unat m < unat n"
  by (simp add: word_sless_alt sint_small del: int_nat_eq of_nat_unat)

lemma word_less_Suc:
  assumes "Suc n < 4294967296"
  shows "(x :: u32) < of_nat (Suc n) \<longleftrightarrow> x = 0 \<or> x - 1 < of_nat n"
proof (cases "x = 0")
  case True
  then show ?thesis using assms by (simp add: word_less_nat_alt unat_of_nat del: of_nat_Suc)
next
  case False
  then have "unat (x - 1) = unat x - 1"
    by (simp add: unat_minus_one)
  moreover have "unat x \<noteq> 0" using False by (simp add: unat_eq_0)
  ultimately show ?thesis
    using assms False by (auto simp: word_less_nat_alt unat_of_nat simp del: of_nat_Suc)
qed

lemma last_Cons_append: "last (x # ys @ zs) = (if zs = [] then last (x # ys) else last zs)"
  by simp

end
