(* ===== verification/KList.thy ===== *)
theory KList
  imports Prelude
begin

text \<open>
  \<open>include/list.h\<close>: the intrusive circular doubly linked list that every kernel structure
  (free pages, malloc chunks, vmas, the FIFO of swappable pages, processes, semaphore queues)
  is threaded on. The heap is split by field; \<open>ring h hd ns\<close> says that the nodes \<open>ns\<close>,
  in this order, hang on the head \<open>hd\<close>. The locale \<open>circular_list\<close> is the contract that
  the clients rely on; it is interpreted on the code of \<open>list.h\<close> at the end.
\<close>

section \<open>The heap of list nodes and the operations\<close>

record list_heap =
  ln_prev :: "u32 \<Rightarrow> u32"
  ln_next :: "u32 \<Rightarrow> u32"

definition get_prev :: "'a list_heap_scheme \<Rightarrow> u32 \<Rightarrow> u32" where
  "get_prev h p = ln_prev h (kpa p)"

definition get_next :: "'a list_heap_scheme \<Rightarrow> u32 \<Rightarrow> u32" where
  "get_next h p = ln_next h (kpa p)"

definition set_prev :: "u32 \<Rightarrow> u32 \<Rightarrow> 'a list_heap_scheme \<Rightarrow> 'a list_heap_scheme" where
  "set_prev p v h = h\<lparr>ln_prev := (ln_prev h)(kpa p := v)\<rparr>"

definition set_next :: "u32 \<Rightarrow> u32 \<Rightarrow> 'a list_heap_scheme \<Rightarrow> 'a list_heap_scheme" where
  "set_next p v h = h\<lparr>ln_next := (ln_next h)(kpa p := v)\<rparr>"

definition list_init :: "u32 \<Rightarrow> 'a list_heap_scheme \<Rightarrow> 'a list_heap_scheme" where
  "list_init node h =
     (let h = set_prev node node h
      in set_next node node h)"

definition list_insert_before :: "u32 \<Rightarrow> u32 \<Rightarrow> 'a list_heap_scheme \<Rightarrow> 'a list_heap_scheme" where
  "list_insert_before node new_node h =
     (let h = set_prev new_node (get_prev h node) h;
          h = set_next (get_prev h node) new_node h;
          h = set_next new_node node h
      in set_prev node new_node h)"

definition list_insert_after :: "u32 \<Rightarrow> u32 \<Rightarrow> 'a list_heap_scheme \<Rightarrow> 'a list_heap_scheme" where
  "list_insert_after node new_node h =
     (let h = set_next new_node (get_next h node) h;
          h = set_prev (get_next h node) new_node h;
          h = set_prev new_node node h
      in set_next node new_node h)"

definition list_delete :: "u32 \<Rightarrow> 'a list_heap_scheme \<Rightarrow> 'a list_heap_scheme" where
  "list_delete node h =
     (let h = set_prev (get_next h node) (get_prev h node) h
      in set_next (get_prev h node) (get_next h node) h)"

lemmas list_op_defs = list_init_def list_insert_before_def list_insert_after_def list_delete_def

lemma get_set_list [list_simps, simp]:
  "get_next (set_next p v h) q = (if kpa q = kpa p then v else get_next h q)"
  "get_prev (set_prev p v h) q = (if kpa q = kpa p then v else get_prev h q)"
  "get_next (set_prev p v h) q = get_next h q"
  "get_prev (set_next p v h) q = get_prev h q"
  by (simp_all add: get_next_def get_prev_def set_next_def set_prev_def)

lemma set_list_more [heap_frame, simp]:
  "list_heap.more (set_next p v h) = list_heap.more h"
  "list_heap.more (set_prev p v h) = list_heap.more h"
  by (simp_all add: set_next_def set_prev_def)

lemma list_ops_more [heap_frame, simp]:
  "list_heap.more (list_init a h) = list_heap.more h"
  "list_heap.more (list_insert_before a b h) = list_heap.more h"
  "list_heap.more (list_insert_after a b h) = list_heap.more h"
  "list_heap.more (list_delete a h) = list_heap.more h"
  by (simp_all add: list_op_defs Let_def)

section \<open>Segments and rings\<close>

text \<open>
  \<open>seg h x as y\<close>: following \<open>next\<close> from \<open>x\<close> one meets exactly the nodes \<open>as\<close> and then \<open>y\<close>,
  and every \<open>prev\<close> on the way points back.
\<close>

fun seg :: "'a list_heap_scheme \<Rightarrow> u32 \<Rightarrow> u32 list \<Rightarrow> u32 \<Rightarrow> bool" where
  "seg h x [] y \<longleftrightarrow> get_next h x = y \<and> get_prev h y = x"
| "seg h x (a # as) y \<longleftrightarrow> get_next h x = a \<and> get_prev h a = x \<and> seg h a as y"

definition ring :: "'a list_heap_scheme \<Rightarrow> u32 \<Rightarrow> u32 list \<Rightarrow> bool" where
  "ring h hn ns \<longleftrightarrow> seg h hn ns hn \<and> distinct (map kpa (hn # ns))"

text \<open>The node after a prefix of the ring: the first of the rest, or the head again.\<close>

definition first_or :: "'b \<Rightarrow> 'b list \<Rightarrow> 'b" where
  "first_or y bs = (case bs of [] \<Rightarrow> y | b # _ \<Rightarrow> b)"

lemma first_or_simps [simp]: "first_or y [] = y" "first_or y (b # bs) = b"
  by (simp_all add: first_or_def)

lemma first_or_in: "first_or y bs \<in> set (bs @ [y])"
  by (cases bs) auto

lemma seg_append_Cons: "seg h x (as @ b # bs) y \<longleftrightarrow> seg h x as b \<and> seg h b bs y"
  by (induction as arbitrary: x) auto

lemma seg_next: "seg h x (as @ bs) y \<Longrightarrow> get_next h (last (x # as)) = first_or y bs"
  by (induction as arbitrary: x) (auto simp: first_or_def split: list.splits)

lemma seg_prev: "seg h x (as @ bs) y \<Longrightarrow> get_prev h (first_or y bs) = last (x # as)"
  by (induction as arbitrary: x) (auto simp: first_or_def split: list.splits)

text \<open>A segment depends only on \<open>next\<close> of all its nodes but the end and on \<open>prev\<close> of all but the start.\<close>

lemma seg_cong:
  assumes "\<And>p. p \<in> set (x # as) \<Longrightarrow> get_next h' p = get_next h p"
    and "\<And>p. p \<in> set (as @ [y]) \<Longrightarrow> get_prev h' p = get_prev h p"
  shows "seg h' x as y = seg h x as y"
  using assms by (induction as arbitrary: x) auto

lemma ring_frame:
  assumes "\<And>p. kpa p \<in> kpa ` set (hn # ns) \<Longrightarrow> get_next h' p = get_next h p"
    and "\<And>p. kpa p \<in> kpa ` set (hn # ns) \<Longrightarrow> get_prev h' p = get_prev h p"
  shows "ring h' hn ns = ring h hn ns"
  unfolding ring_def by (subst seg_cong [of hn ns h' h]) (auto intro: assms)

text \<open>Splicing one node in and out of a segment, for any heap with the links the code writes.\<close>

lemma seg_splice_in:
  assumes "seg h x (as @ bs) y"
    and "distinct (map kpa (x # as @ bs))" and "distinct (map kpa (as @ bs @ [y]))"
    and "kpa new \<notin> kpa ` set (x # as @ bs @ [y])"
    and next': "\<And>p. get_next h' p =
      (if kpa p = kpa (last (x # as)) then new else if kpa p = kpa new then first_or y bs else get_next h p)"
    and prev': "\<And>p. get_prev h' p =
      (if kpa p = kpa (first_or y bs) then new else if kpa p = kpa new then last (x # as) else get_prev h p)"
  shows "seg h' x (as @ new # bs) y"
  using assms
proof (induction as arbitrary: x)
  case Nil
  note next' = Nil.prems(5) and prev' = Nil.prems(6)
  have tail: "seg h' b bs' y" if "bs = b # bs'" for b bs'
  proof -
    have "seg h b bs' y" using Nil.prems(1) that by simp
    moreover have "seg h' b bs' y = seg h b bs' y"
      using Nil.prems(2-4) that by (intro seg_cong) (auto simp: next' prev' image_iff)
    ultimately show ?thesis by simp
  qed
  show ?case
    using Nil.prems(4) tail by (cases bs) (auto simp: next' prev')
next
  case (Cons a as)
  note next' = Cons.prems(5) and prev' = Cons.prems(6)
  have "kpa x \<noteq> kpa (last (a # as))"
    using Cons.prems(2) last_in_set [of "a # as"] by auto
  moreover have "kpa x \<noteq> kpa new" and "kpa a \<noteq> kpa new"
    using Cons.prems(4) by auto
  moreover have "kpa a \<noteq> kpa (first_or y bs)"
    using Cons.prems(3) first_or_in [of y bs] by auto
  ultimately have "get_next h' x = a" and "get_prev h' a = x"
    using Cons.prems(1) by (simp_all add: next' prev')
  moreover have "seg h' a (as @ new # bs) y"
    by (rule Cons.IH) (use Cons.prems(1-4) in \<open>auto simp: next' prev'\<close>)
  ultimately show ?case by simp
qed

lemma seg_splice_out:
  assumes "seg h x (as @ d # bs) y"
    and "distinct (map kpa (x # as @ d # bs))" and "distinct (map kpa (as @ d # bs @ [y]))"
    and next': "\<And>p. get_next h' p =
      (if kpa p = kpa (last (x # as)) then first_or y bs else get_next h p)"
    and prev': "\<And>p. get_prev h' p =
      (if kpa p = kpa (first_or y bs) then last (x # as) else get_prev h p)"
  shows "seg h' x (as @ bs) y"
  using assms
proof (induction as arbitrary: x)
  case Nil
  note next' = Nil.prems(4) and prev' = Nil.prems(5)
  have tail: "seg h' b bs' y" if "bs = b # bs'" for b bs'
  proof -
    have "seg h b bs' y" using Nil.prems(1) that by simp
    moreover have "seg h' b bs' y = seg h b bs' y"
      using Nil.prems(2-3) that by (intro seg_cong) (auto simp: next' prev' image_iff)
    ultimately show ?thesis by simp
  qed
  show ?case
    using tail by (cases bs) (auto simp: next' prev')
next
  case (Cons a as)
  note next' = Cons.prems(4) and prev' = Cons.prems(5)
  have "kpa x \<noteq> kpa (last (a # as))"
    using Cons.prems(2) last_in_set [of "a # as"] by auto
  moreover have "kpa a \<noteq> kpa (first_or y bs)"
    using Cons.prems(3) first_or_in [of y bs] by auto
  ultimately have "get_next h' x = a" and "get_prev h' a = x"
    using Cons.prems(1) by (simp_all add: next' prev')
  moreover have "seg h' a (as @ bs) y"
    by (rule Cons.IH) (use Cons.prems(1-3) in \<open>auto simp: next' prev'\<close>)
  ultimately show ?case by simp
qed

text \<open>A ring is a matter of the two link fields only, whatever else the state holds.\<close>

lemma ring_links:
  assumes "get_next h' = get_next h" and "get_prev h' = get_prev h"
  shows "ring h' hn ns = ring h hn ns"
proof -
  have "seg h' x as y = seg h x as y" for x as y
    by (induction as arbitrary: x) (simp_all add: assms)
  then show ?thesis by (simp add: ring_def)
qed

lemma same_more_modifies:
  "list_heap.more h' = list_heap.more h \<Longrightarrow> \<exists>a b. h' = h\<lparr>ln_prev := a, ln_next := b\<rparr>"
  by (cases h; cases h') simp

lemmas list_delete_modifies = same_more_modifies [OF list_ops_more(4)]
lemmas list_insert_before_modifies = same_more_modifies [OF list_ops_more(2)]

lemma fold_modifies:
  assumes "\<And>x h. \<exists>a b. f x h = h\<lparr>ln_prev := a, ln_next := b\<rparr>"
  shows "\<exists>a b. fold f xs h = h\<lparr>ln_prev := a, ln_next := b\<rparr>"
proof (induction xs arbitrary: h)
  case Nil
  show ?case by (rule exI [of _ "ln_prev h"], rule exI [of _ "ln_next h"]) simp
next
  case (Cons x xs)
  obtain a b where 1: "f x h = h\<lparr>ln_prev := a, ln_next := b\<rparr>" using assms by blast
  obtain a' b' where "fold f xs (f x h) = (f x h)\<lparr>ln_prev := a', ln_next := b'\<rparr>"
    using Cons.IH by blast
  then show ?case by (auto simp: 1)
qed

section \<open>What each operation writes\<close>

lemma list_insert_before_links:
  assumes "kpa new \<noteq> kpa n" and "kpa new \<noteq> kpa (get_prev h n)"
  shows "get_next (list_insert_before n new h) p =
      (if kpa p = kpa (get_prev h n) then new else if kpa p = kpa new then n else get_next h p)"
    and "get_prev (list_insert_before n new h) p =
      (if kpa p = kpa n then new else if kpa p = kpa new then get_prev h n else get_prev h p)"
  using assms by (auto simp: list_insert_before_def Let_def)

lemma list_insert_after_links:
  assumes "kpa new \<noteq> kpa n" and "kpa new \<noteq> kpa (get_next h n)"
  shows "get_next (list_insert_after n new h) p =
      (if kpa p = kpa n then new else if kpa p = kpa new then get_next h n else get_next h p)"
    and "get_prev (list_insert_after n new h) p =
      (if kpa p = kpa (get_next h n) then new else if kpa p = kpa new then n else get_prev h p)"
  using assms by (auto simp: list_insert_after_def Let_def)

lemma list_delete_links:
  assumes "kpa (get_next h d) \<noteq> kpa d"
  shows "get_next (list_delete d h) p =
      (if kpa p = kpa (get_prev h d) then get_next h d else get_next h p)"
    and "get_prev (list_delete d h) p =
      (if kpa p = kpa (get_next h d) then get_prev h d else get_prev h p)"
  using assms by (auto simp: list_delete_def Let_def)

lemma ring_next: "ring h hn (as @ bs) \<Longrightarrow> get_next h (last (hn # as)) = first_or hn bs"
  unfolding ring_def by (blast intro: seg_next)

lemma ring_prev: "ring h hn (as @ bs) \<Longrightarrow> get_prev h (first_or hn bs) = last (hn # as)"
  unfolding ring_def by (blast intro: seg_prev)

lemma ring_neighbours:
  assumes "ring h hn ns" and "n \<in> set (hn # ns)"
  shows "get_next h n \<in> set (hn # ns)" and "get_prev h n \<in> set (hn # ns)"
proof -
  from assms(2) obtain as bs where sp: "hn # ns = as @ n # bs"
    by (blast dest: split_list)
  show "get_next h n \<in> set (hn # ns)"
  proof (cases as)
    case Nil
    with sp assms(1) have "get_next h n = first_or hn ns" using ring_next [of h hn "[]" ns] by simp
    then show ?thesis using first_or_in [of hn ns] by auto
  next
    case (Cons a as')
    with sp have ns: "ns = (as' @ [n]) @ bs" and "a = hn" by auto
    with assms(1) have "get_next h n = first_or hn bs"
      using ring_next [of h hn "as' @ [n]" bs] by simp
    then show ?thesis using first_or_in [of hn bs] ns by auto
  qed
  show "get_prev h n \<in> set (hn # ns)"
  proof (cases as)
    case Nil
    with sp assms(1) have "get_prev h n = last (hn # ns)" using ring_prev [of h hn ns "[]"] by simp
    then show ?thesis using last_in_set [of "hn # ns"] by simp
  next
    case (Cons a as')
    with sp have ns: "ns = as' @ n # bs" by simp
    with assms(1) have "get_prev h n = last (hn # as')"
      using ring_prev [of h hn as' "n # bs"] by simp
    then show ?thesis using last_in_set [of "hn # as'"] ns by auto
  qed
qed

lemma ring_list_init: "ring (list_init hn h) hn []"
  by (simp add: ring_def list_init_def)

lemma ring_splice_in:
  assumes "ring h hn (as @ bs)" and "kpa new \<notin> kpa ` set (hn # as @ bs)"
    and "\<And>p. get_next h' p =
      (if kpa p = kpa (last (hn # as)) then new else if kpa p = kpa new then first_or hn bs else get_next h p)"
    and "\<And>p. get_prev h' p =
      (if kpa p = kpa (first_or hn bs) then new else if kpa p = kpa new then last (hn # as) else get_prev h p)"
  shows "ring h' hn (as @ new # bs)"
proof -
  have d: "distinct (map kpa (hn # as @ bs))" and s: "seg h hn (as @ bs) hn"
    using assms(1) by (auto simp: ring_def)
  have "seg h' hn (as @ new # bs) hn"
    by (rule seg_splice_in [OF s d _ _ assms(3,4)]) (use d assms(2) in auto)
  with d assms(2) show ?thesis by (auto simp: ring_def)
qed

lemma ring_splice_out:
  assumes "ring h hn (as @ d # bs)"
    and "\<And>p. get_next h' p = (if kpa p = kpa (last (hn # as)) then first_or hn bs else get_next h p)"
    and "\<And>p. get_prev h' p = (if kpa p = kpa (first_or hn bs) then last (hn # as) else get_prev h p)"
  shows "ring h' hn (as @ bs)"
proof -
  have d: "distinct (map kpa (hn # as @ d # bs))" and s: "seg h hn (as @ d # bs) hn"
    using assms(1) by (auto simp: ring_def)
  have "seg h' hn (as @ bs) hn"
    by (rule seg_splice_out [OF s d _ assms(2,3)]) (use d in auto)
  with d show ?thesis by (auto simp: ring_def)
qed

lemma ring_list_insert_before:
  assumes "ring h hn (as @ bs)" and "kpa new \<notin> kpa ` set (hn # as @ bs)"
  shows "ring (list_insert_before (first_or hn bs) new h) hn (as @ new # bs)"
proof -
  have m: "get_prev h (first_or hn bs) = last (hn # as)"
    by (rule ring_prev [OF assms(1)])
  have i: "last (hn # as) \<in> set (hn # as @ bs)" "first_or hn bs \<in> set (hn # as @ bs)"
    using last_in_set [of "hn # as"] first_or_in [of hn bs] by auto
  note n = kpa_neqI [OF assms(2) i(2)] kpa_neqI [OF assms(2) i(1), folded m]
  show ?thesis
    by (rule ring_splice_in [OF assms]) (simp_all only: list_insert_before_links [OF n] m)
qed

lemma ring_list_insert_after:
  assumes "ring h hn (as @ bs)" and "kpa new \<notin> kpa ` set (hn # as @ bs)"
  shows "ring (list_insert_after (last (hn # as)) new h) hn (as @ new # bs)"
proof -
  have m: "get_next h (last (hn # as)) = first_or hn bs"
    by (rule ring_next [OF assms(1)])
  have i: "last (hn # as) \<in> set (hn # as @ bs)" "first_or hn bs \<in> set (hn # as @ bs)"
    using last_in_set [of "hn # as"] first_or_in [of hn bs] by auto
  note n = kpa_neqI [OF assms(2) i(1)] kpa_neqI [OF assms(2) i(2), folded m]
  show ?thesis
    by (rule ring_splice_in [OF assms]) (simp_all only: list_insert_after_links [OF n] m)
qed

lemma ring_next_of:
  assumes "ring h hn (as @ d # bs)"
  shows "get_next h d = first_or hn bs" and "get_prev h d = last (hn # as)"
    and "kpa (first_or hn bs) \<noteq> kpa d"
proof -
  show "get_next h d = first_or hn bs"
    using ring_next [of h hn "as @ [d]" bs] assms by simp
  show "get_prev h d = last (hn # as)"
    using ring_prev [OF assms] by simp
  have "kpa d \<notin> kpa ` set (bs @ [hn])"
    using assms by (auto simp: ring_def)
  then show "kpa (first_or hn bs) \<noteq> kpa d"
    using kpa_neqI [OF _ first_or_in [of hn bs]] by metis
qed

lemma ring_list_delete:
  assumes "ring h hn (as @ d # bs)"
  shows "ring (list_delete d h) hn (as @ bs)"
proof -
  note nb = ring_next_of [OF assms]
  have n: "kpa (get_next h d) \<noteq> kpa d" unfolding nb(1) by (rule nb(3))
  show ?thesis
    by (rule ring_splice_out [OF assms]) (simp_all only: list_delete_links [OF n] nb(1,2))
qed

text \<open>Operations on one ring leave every disjoint ring alone.\<close>

lemma kpa_disjoint_neq:
  "kpa ` S \<inter> kpa ` T = {} \<Longrightarrow> x \<in> S \<Longrightarrow> kpa p \<in> kpa ` T \<Longrightarrow> kpa p \<noteq> kpa x"
  by (metis disjoint_iff imageI)

lemma ring_other_insert_before:
  assumes "ring h hn ns" and "n \<in> set (hn # ns)" and "ring h hn' ms"
    and "kpa new \<notin> kpa ` set (hn # ns)"
    and dj: "kpa ` set (new # hn # ns) \<inter> kpa ` set (hn' # ms) = {}"
  shows "ring (list_insert_before n new h) hn' ms"
proof -
  have p: "get_prev h n \<in> set (hn # ns)" by (rule ring_neighbours(2) [OF assms(1,2)])
  note neq = kpa_neqI [OF assms(4) assms(2)] kpa_neqI [OF assms(4) p]
  have i: "new \<in> set (new # hn # ns)" "n \<in> set (new # hn # ns)" "get_prev h n \<in> set (new # hn # ns)"
    using assms(2) p by auto
  have "kpa q \<noteq> kpa new \<and> kpa q \<noteq> kpa n \<and> kpa q \<noteq> kpa (get_prev h n)"
    if "kpa q \<in> kpa ` set (hn' # ms)" for q
    using that i by (blast dest: kpa_disjoint_neq [OF dj])
  then have "ring (list_insert_before n new h) hn' ms = ring h hn' ms"
    by (intro ring_frame) (simp_all add: list_insert_before_links [OF neq])
  with assms(3) show ?thesis by simp
qed

lemma ring_other_insert_after:
  assumes "ring h hn ns" and "n \<in> set (hn # ns)" and "ring h hn' ms"
    and "kpa new \<notin> kpa ` set (hn # ns)"
    and dj: "kpa ` set (new # hn # ns) \<inter> kpa ` set (hn' # ms) = {}"
  shows "ring (list_insert_after n new h) hn' ms"
proof -
  have p: "get_next h n \<in> set (hn # ns)" by (rule ring_neighbours(1) [OF assms(1,2)])
  note neq = kpa_neqI [OF assms(4) assms(2)] kpa_neqI [OF assms(4) p]
  have i: "new \<in> set (new # hn # ns)" "n \<in> set (new # hn # ns)" "get_next h n \<in> set (new # hn # ns)"
    using assms(2) p by auto
  have "kpa q \<noteq> kpa new \<and> kpa q \<noteq> kpa n \<and> kpa q \<noteq> kpa (get_next h n)"
    if "kpa q \<in> kpa ` set (hn' # ms)" for q
    using that i by (blast dest: kpa_disjoint_neq [OF dj])
  then have "ring (list_insert_after n new h) hn' ms = ring h hn' ms"
    by (intro ring_frame) (simp_all add: list_insert_after_links [OF neq])
  with assms(3) show ?thesis by simp
qed

lemma ring_other_delete:
  assumes "ring h hn ns" and "d \<in> set ns" and "ring h hn' ms"
    and dj: "kpa ` set (hn # ns) \<inter> kpa ` set (hn' # ms) = {}"
  shows "ring (list_delete d h) hn' ms"
proof -
  from assms(2) obtain as bs where ns: "ns = as @ d # bs" by (blast dest: split_list)
  with assms(1) have n: "kpa (get_next h d) \<noteq> kpa d"
    using ring_next_of [of h hn as d bs] by simp
  have "d \<in> set (hn # ns)" using assms(2) by simp
  note p = ring_neighbours [OF assms(1) this]
  have "kpa q \<noteq> kpa (get_next h d) \<and> kpa q \<noteq> kpa (get_prev h d)"
    if "kpa q \<in> kpa ` set (hn' # ms)" for q
    using that p by (blast dest: kpa_disjoint_neq [OF dj])
  then have "ring (list_delete d h) hn' ms = ring h hn' ms"
    by (intro ring_frame) (simp_all add: list_delete_links [OF n])
  with assms(3) show ?thesis by simp
qed

lemma ring_other_init:
  assumes "kpa a \<notin> kpa ` set (hn # ns)"
  shows "ring (list_init a h) hn ns = ring h hn ns"
proof (rule ring_frame)
  fix p
  assume "kpa p \<in> kpa ` set (hn # ns)"
  then have "kpa p \<noteq> kpa a" using assms by metis
  then show "get_next (list_init a h) p = get_next h p" "get_prev (list_init a h) p = get_prev h p"
    by (simp_all add: list_init_def)
qed

section \<open>The search loop of the clients\<close>

text \<open>
  Most clients search a ring with
  \<^verbatim>\<open>p = &hn; while(p->next != &hn){ if(P(p->next)) break; p = p->next; }\<close>
  \<open>ring_find P hn p h\<close> is the value of \<open>p\<close> when the loop is left; \<open>None\<close> means that it never
  is, which can only happen on a damaged list.
\<close>

partial_function (option) ring_find ::
  "(u32 \<Rightarrow> bool) \<Rightarrow> u32 \<Rightarrow> u32 \<Rightarrow> 'a list_heap_scheme \<Rightarrow> u32 option" where
  "ring_find tst hn p h =
     (if get_next h p = hn then Some p
      else if tst (get_next h p) then Some p
      else ring_find tst hn (get_next h p) h)"

lemma ring_find_seg:
  assumes "seg h x ns hn" and "hn \<notin> set ns"
  shows "ring_find P hn x h = Some (last (x # takeWhile (\<lambda>n. \<not> P n) ns))"
  using assms
proof (induction ns arbitrary: x)
  case Nil
  then show ?case by (subst ring_find.simps) simp
next
  case (Cons a ns)
  then have "get_next h x = a" and "a \<noteq> hn" by auto
  moreover have "ring_find P hn a h = Some (last (a # takeWhile (\<lambda>n. \<not> P n) ns))"
    by (rule Cons.IH) (use Cons.prems in auto)
  ultimately show ?case by (subst ring_find.simps) simp
qed

lemma ring_not_head: "ring h hn ns \<Longrightarrow> hn \<notin> set ns"
  by (auto simp: ring_def)

lemma ring_find_ring:
  assumes "ring h hn ns"
  shows "ring_find P hn hn h = Some (last (hn # takeWhile (\<lambda>n. \<not> P n) ns))"
    and "get_next h (last (hn # takeWhile (\<lambda>n. \<not> P n) ns)) = first_or hn (dropWhile (\<lambda>n. \<not> P n) ns)"
proof -
  show "ring_find P hn hn h = Some (last (hn # takeWhile (\<lambda>n. \<not> P n) ns))"
    using assms ring_not_head by (intro ring_find_seg) (auto simp: ring_def)
  show "get_next h (last (hn # takeWhile (\<lambda>n. \<not> P n) ns)) = first_or hn (dropWhile (\<lambda>n. \<not> P n) ns)"
    by (rule ring_next) (simp add: assms)
qed

text \<open>On a node that is its own successor the loop never ends unless the node itself satisfies \<open>P\<close>.\<close>

lemma ring_find_self_loop:
  assumes "get_next h p = p" and "p \<noteq> hn" and "\<not> tst p"
  shows "ring_find tst hn p h = None"
proof (rule ccontr)
  assume "ring_find tst hn p h \<noteq> None"
  then obtain r where ret: "ring_find tst hn p h = Some r" by blast
  have "get_next h p = p \<longrightarrow> p \<noteq> hn \<longrightarrow> \<not> tst p \<longrightarrow> False"
    by (rule ring_find.raw_induct
          [where P = "\<lambda>t hn p h r. get_next h p = p \<longrightarrow> p \<noteq> hn \<longrightarrow> \<not> t p \<longrightarrow> False", OF _ ret])
       (auto split: if_splits, blast)
  with assms show False by simp
qed

section \<open>The contract the clients rely on\<close>

text \<open>
  \<open>rep h hn ns\<close> is the abstraction relation of a circular list; \<open>key\<close> identifies the cell
  behind a pointer. The laws say what the links read, what each operation does to the list
  it works on, and that it leaves every list on other cells alone.
\<close>

locale circular_list =
  fixes rep :: "'h \<Rightarrow> 'p \<Rightarrow> 'p list \<Rightarrow> bool"
    and key :: "'p \<Rightarrow> 'k"
    and nxt :: "'h \<Rightarrow> 'p \<Rightarrow> 'p"
    and prv :: "'h \<Rightarrow> 'p \<Rightarrow> 'p"
    and init :: "'p \<Rightarrow> 'h \<Rightarrow> 'h"
    and ins_before :: "'p \<Rightarrow> 'p \<Rightarrow> 'h \<Rightarrow> 'h"
    and ins_after :: "'p \<Rightarrow> 'p \<Rightarrow> 'h \<Rightarrow> 'h"
    and del :: "'p \<Rightarrow> 'h \<Rightarrow> 'h"
  assumes rep_distinct: "rep h hn ns \<Longrightarrow> distinct (map key (hn # ns))"
    and rep_next: "rep h hn (as @ bs) \<Longrightarrow> nxt h (last (hn # as)) = first_or hn bs"
    and rep_prev: "rep h hn (as @ bs) \<Longrightarrow> prv h (first_or hn bs) = last (hn # as)"
    and rep_init: "rep (init hn h) hn []"
    and rep_ins_before: "rep h hn (as @ bs) \<Longrightarrow> key new \<notin> key ` set (hn # as @ bs) \<Longrightarrow>
      rep (ins_before (first_or hn bs) new h) hn (as @ new # bs)"
    and rep_ins_after: "rep h hn (as @ bs) \<Longrightarrow> key new \<notin> key ` set (hn # as @ bs) \<Longrightarrow>
      rep (ins_after (last (hn # as)) new h) hn (as @ new # bs)"
    and rep_del: "rep h hn (as @ d # bs) \<Longrightarrow> rep (del d h) hn (as @ bs)"
    and frame_ins_before: "rep h hn ns \<Longrightarrow> n \<in> set (hn # ns) \<Longrightarrow> rep h hn' ms \<Longrightarrow>
      key new \<notin> key ` set (hn # ns) \<Longrightarrow>
      key ` set (new # hn # ns) \<inter> key ` set (hn' # ms) = {} \<Longrightarrow> rep (ins_before n new h) hn' ms"
    and frame_del: "rep h hn ns \<Longrightarrow> d \<in> set ns \<Longrightarrow> rep h hn' ms \<Longrightarrow>
      key ` set (hn # ns) \<inter> key ` set (hn' # ms) = {} \<Longrightarrow> rep (del d h) hn' ms"
begin

lemma head_fresh: "rep h hn ns \<Longrightarrow> hn \<notin> set ns"
  using rep_distinct [of h hn ns] by auto

lemma next_head: "rep h hn ns \<Longrightarrow> nxt h hn = first_or hn ns"
  using rep_next [of h hn "[]" ns] by simp

lemma prev_head: "rep h hn ns \<Longrightarrow> prv h hn = last (hn # ns)"
  using rep_prev [of h hn ns "[]"] by simp

lemma empty_iff: "rep h hn ns \<Longrightarrow> nxt h hn = hn \<longleftrightarrow> ns = []"
  using next_head [of h hn ns] head_fresh [of h hn ns] by (cases ns) auto

lemma enqueue: "rep h hn q \<Longrightarrow> key new \<notin> key ` set (hn # q) \<Longrightarrow> rep (ins_before hn new h) hn (q @ [new])"
  using rep_ins_before [of h hn q "[]" new] by simp

lemma dequeue: "rep h hn (a # q) \<Longrightarrow> nxt h hn = a \<and> rep (del (nxt h hn) h) hn q"
  using next_head [of h hn "a # q"] rep_del [of h hn "[]" a q] by simp

lemma push_front: "rep h hn q \<Longrightarrow> key new \<notin> key ` set (hn # q) \<Longrightarrow> rep (ins_after hn new h) hn (new # q)"
  using rep_ins_after [of h hn "[]" q new] by simp

text \<open>A run of nodes inserted one by one before the same node ends up there in order.\<close>

lemma ins_before_all:
  assumes "rep h hn (as @ bs)" and "n = first_or hn bs"
    and "distinct (map key news)" and "key ` set news \<inter> key ` set (hn # as @ bs) = {}"
  shows "rep (fold (ins_before n) news h) hn (as @ news @ bs)"
  using assms
proof (induction news arbitrary: h as)
  case Nil
  then show ?case by simp
next
  case (Cons x xs)
  have "rep (ins_before n x h) hn (as @ x # bs)"
    using rep_ins_before [of h hn as bs x] Cons.prems by auto
  then have "rep (fold (ins_before n) xs (ins_before n x h)) hn ((as @ [x]) @ xs @ bs)"
    using Cons.prems by (intro Cons.IH) auto
  then show ?case by simp
qed

lemma del_all: "rep h hn (as @ xs @ bs) \<Longrightarrow> rep (fold del xs h) hn (as @ bs)"
  by (induction xs arbitrary: h) (auto dest: rep_del)

lemma del_all_frame:
  assumes "rep h hn (as @ xs @ bs)" and "rep h hn' ms"
    and "key ` set (hn # as @ xs @ bs) \<inter> key ` set (hn' # ms) = {}"
  shows "rep (fold del xs h) hn' ms"
  using assms
proof (induction xs arbitrary: h)
  case (Cons x xs)
  have "rep (del x h) hn' ms" by (rule frame_del [OF Cons.prems(1) _ Cons.prems(2,3)]) simp
  moreover have "rep (del x h) hn (as @ xs @ bs)" using rep_del [of h hn as x] Cons.prems(1) by simp
  ultimately show ?case using Cons.IH Cons.prems(3) by auto
qed simp

end

interpretation kl: circular_list ring kpa get_next get_prev list_init list_insert_before
  list_insert_after list_delete
proof
  fix h :: "'a list_heap_scheme" and hn ns
  show "ring h hn ns \<Longrightarrow> distinct (map kpa (hn # ns))" by (simp add: ring_def)
qed (rule ring_next ring_prev ring_list_init ring_list_insert_before ring_list_insert_after
  ring_list_delete ring_other_insert_before ring_other_delete; assumption)+

end
