(* ===== verification/Machine.thy ===== *)
theory Machine
  imports KList
begin

text \<open>
  The memory state that \<open>mm/pmm.c\<close>, \<open>mm/malloc.c\<close>, \<open>mm/vmm.c\<close> and \<open>mm/swap.c\<close> share. Structs are
  split by field, each field a function of the struct's physical address (\<open>kpa\<close> of the
  pointer the code holds); page tables and the contents of page frames are the untyped
  words \<open>pmem\<close>; the two IDE disks are functions of drive, sector number and word. The global variables of the
  four files are fields too, and so are the addresses at which the linker places the list
  heads: nothing in the code fixes them.
\<close>

section \<open>State\<close>

record machine = list_heap +
  \<comment> \<open>struct Page (\<open>include/pmm.h\<close>), its node is in \<open>list_heap\<close>\<close>
  pg_ref :: "u32 \<Rightarrow> i32"
  pg_flags :: "u32 \<Rightarrow> u32"
  pg_free_pages :: "u32 \<Rightarrow> u32"
  pg_va :: "u32 \<Rightarrow> u32"
  \<comment> \<open>struct mm_struct and struct vma_struct (\<open>include/vmm.h\<close>)\<close>
  mm_pde :: "u32 \<Rightarrow> u32"
  mm_cache :: "u32 \<Rightarrow> u32"
  mm_num :: "u32 \<Rightarrow> u32"
  vma_start :: "u32 \<Rightarrow> u32"
  vma_end :: "u32 \<Rightarrow> u32"
  vma_flags :: "u32 \<Rightarrow> u32"
  vma_back_link :: "u32 \<Rightarrow> u32"
  \<comment> \<open>struct Chunk (\<open>include/malloc.h\<close>): \<open>allocated:1\<close> and \<open>size:31\<close>\<close>
  ck_allocated :: "u32 \<Rightarrow> 1 word"
  ck_size :: "u32 \<Rightarrow> 31 word"
  \<comment> \<open>aligned words of physical memory that hold page tables and page contents\<close>
  pmem :: "u32 \<Rightarrow> u32"
  \<comment> \<open>the IDE disks: drive, sector number, word within the sector\<close>
  disk :: "u32 \<Rightarrow> u32 \<Rightarrow> u32 \<Rightarrow> u32"
  \<comment> \<open>global variables\<close>
  free_page_num :: i32
  pages :: u32
  pt_begin :: u32
  pd :: u32
  is_vmm_inited :: i32
  mm :: u32
  \<comment> \<open>link-time addresses of the list heads\<close>
  free_pages_head :: u32
  chunk_head :: u32

text \<open>The operations of \<open>list.h\<close> change list nodes only.\<close>

lemma frame_list_init [simp, heap_frame]:
  "pg_ref (list_init a s) = pg_ref s"
  "pg_flags (list_init a s) = pg_flags s"
  "pg_free_pages (list_init a s) = pg_free_pages s"
  "pg_va (list_init a s) = pg_va s"
  "mm_pde (list_init a s) = mm_pde s"
  "mm_cache (list_init a s) = mm_cache s"
  "mm_num (list_init a s) = mm_num s"
  "vma_start (list_init a s) = vma_start s"
  "vma_end (list_init a s) = vma_end s"
  "vma_flags (list_init a s) = vma_flags s"
  "vma_back_link (list_init a s) = vma_back_link s"
  "ck_allocated (list_init a s) = ck_allocated s"
  "ck_size (list_init a s) = ck_size s"
  "pmem (list_init a s) = pmem s"
  "disk (list_init a s) = disk s"
  "free_page_num (list_init a s) = free_page_num s"
  "pages (list_init a s) = pages s"
  "pt_begin (list_init a s) = pt_begin s"
  "pd (list_init a s) = pd s"
  "is_vmm_inited (list_init a s) = is_vmm_inited s"
  "mm (list_init a s) = mm s"
  "free_pages_head (list_init a s) = free_pages_head s"
  "chunk_head (list_init a s) = chunk_head s"
  by (simp_all add: list_init_def set_next_def set_prev_def Let_def)

lemma frame_list_insert_before [simp, heap_frame]:
  "pg_ref (list_insert_before a b s) = pg_ref s"
  "pg_flags (list_insert_before a b s) = pg_flags s"
  "pg_free_pages (list_insert_before a b s) = pg_free_pages s"
  "pg_va (list_insert_before a b s) = pg_va s"
  "mm_pde (list_insert_before a b s) = mm_pde s"
  "mm_cache (list_insert_before a b s) = mm_cache s"
  "mm_num (list_insert_before a b s) = mm_num s"
  "vma_start (list_insert_before a b s) = vma_start s"
  "vma_end (list_insert_before a b s) = vma_end s"
  "vma_flags (list_insert_before a b s) = vma_flags s"
  "vma_back_link (list_insert_before a b s) = vma_back_link s"
  "ck_allocated (list_insert_before a b s) = ck_allocated s"
  "ck_size (list_insert_before a b s) = ck_size s"
  "pmem (list_insert_before a b s) = pmem s"
  "disk (list_insert_before a b s) = disk s"
  "free_page_num (list_insert_before a b s) = free_page_num s"
  "pages (list_insert_before a b s) = pages s"
  "pt_begin (list_insert_before a b s) = pt_begin s"
  "pd (list_insert_before a b s) = pd s"
  "is_vmm_inited (list_insert_before a b s) = is_vmm_inited s"
  "mm (list_insert_before a b s) = mm s"
  "free_pages_head (list_insert_before a b s) = free_pages_head s"
  "chunk_head (list_insert_before a b s) = chunk_head s"
  by (simp_all add: list_insert_before_def set_next_def set_prev_def Let_def)

lemma frame_list_insert_after [simp, heap_frame]:
  "pg_ref (list_insert_after a b s) = pg_ref s"
  "pg_flags (list_insert_after a b s) = pg_flags s"
  "pg_free_pages (list_insert_after a b s) = pg_free_pages s"
  "pg_va (list_insert_after a b s) = pg_va s"
  "mm_pde (list_insert_after a b s) = mm_pde s"
  "mm_cache (list_insert_after a b s) = mm_cache s"
  "mm_num (list_insert_after a b s) = mm_num s"
  "vma_start (list_insert_after a b s) = vma_start s"
  "vma_end (list_insert_after a b s) = vma_end s"
  "vma_flags (list_insert_after a b s) = vma_flags s"
  "vma_back_link (list_insert_after a b s) = vma_back_link s"
  "ck_allocated (list_insert_after a b s) = ck_allocated s"
  "ck_size (list_insert_after a b s) = ck_size s"
  "pmem (list_insert_after a b s) = pmem s"
  "disk (list_insert_after a b s) = disk s"
  "free_page_num (list_insert_after a b s) = free_page_num s"
  "pages (list_insert_after a b s) = pages s"
  "pt_begin (list_insert_after a b s) = pt_begin s"
  "pd (list_insert_after a b s) = pd s"
  "is_vmm_inited (list_insert_after a b s) = is_vmm_inited s"
  "mm (list_insert_after a b s) = mm s"
  "free_pages_head (list_insert_after a b s) = free_pages_head s"
  "chunk_head (list_insert_after a b s) = chunk_head s"
  by (simp_all add: list_insert_after_def set_next_def set_prev_def Let_def)

lemma frame_list_delete [simp, heap_frame]:
  "pg_ref (list_delete a s) = pg_ref s"
  "pg_flags (list_delete a s) = pg_flags s"
  "pg_free_pages (list_delete a s) = pg_free_pages s"
  "pg_va (list_delete a s) = pg_va s"
  "mm_pde (list_delete a s) = mm_pde s"
  "mm_cache (list_delete a s) = mm_cache s"
  "mm_num (list_delete a s) = mm_num s"
  "vma_start (list_delete a s) = vma_start s"
  "vma_end (list_delete a s) = vma_end s"
  "vma_flags (list_delete a s) = vma_flags s"
  "vma_back_link (list_delete a s) = vma_back_link s"
  "ck_allocated (list_delete a s) = ck_allocated s"
  "ck_size (list_delete a s) = ck_size s"
  "pmem (list_delete a s) = pmem s"
  "disk (list_delete a s) = disk s"
  "free_page_num (list_delete a s) = free_page_num s"
  "pages (list_delete a s) = pages s"
  "pt_begin (list_delete a s) = pt_begin s"
  "pd (list_delete a s) = pd s"
  "is_vmm_inited (list_delete a s) = is_vmm_inited s"
  "mm (list_delete a s) = mm s"
  "free_pages_head (list_delete a s) = free_pages_head s"
  "chunk_head (list_delete a s) = chunk_head s"
  by (simp_all add: list_delete_def set_next_def set_prev_def Let_def)

section \<open>Struct layout\<close>

text \<open>\<open>sizeof(struct Page)\<close> is 24 and \<open>node\<close> is its field at offset 16.\<close>

abbreviation sizeof_Page :: u32 where
  "sizeof_Page \<equiv> 24"

definition page_node :: "u32 \<Rightarrow> u32" where
  "page_node p = p + 16"

definition node_page :: "u32 \<Rightarrow> u32" where
  "node_page n = n - 16"

definition page_plus :: "u32 \<Rightarrow> u32 \<Rightarrow> u32" where
  "page_plus p i = p + sizeof_Page * i"

definition set_ref :: "u32 \<Rightarrow> i32 \<Rightarrow> 'a machine_scheme \<Rightarrow> 'a machine_scheme" where
  "set_ref p v s = s\<lparr>pg_ref := (pg_ref s)(kpa p := v)\<rparr>"

definition set_flags :: "u32 \<Rightarrow> u32 \<Rightarrow> 'a machine_scheme \<Rightarrow> 'a machine_scheme" where
  "set_flags p v s = s\<lparr>pg_flags := (pg_flags s)(kpa p := v)\<rparr>"

definition set_free_pages :: "u32 \<Rightarrow> u32 \<Rightarrow> 'a machine_scheme \<Rightarrow> 'a machine_scheme" where
  "set_free_pages p v s = s\<lparr>pg_free_pages := (pg_free_pages s)(kpa p := v)\<rparr>"

definition set_va :: "u32 \<Rightarrow> u32 \<Rightarrow> 'a machine_scheme \<Rightarrow> 'a machine_scheme" where
  "set_va p v s = s\<lparr>pg_va := (pg_va s)(kpa p := v)\<rparr>"

definition free_pages_of :: "'a machine_scheme \<Rightarrow> u32 \<Rightarrow> u32" where
  "free_pages_of s p = pg_free_pages s (kpa p)"

section \<open>Page directory and page table entries\<close>

text \<open>
  \<open>struct pde_t\<close> and \<open>struct pte_t\<close> have the same layout: nine bits \<open>sign\<close>, three bits \<open>os\<close>, twenty
  bits address, from the low end.
\<close>

definition ent_sign :: "u32 \<Rightarrow> u32" where
  "ent_sign w = w AND 0x1FF"

definition ent_os :: "u32 \<Rightarrow> u32" where
  "ent_os w = drop_bit 9 w AND 0x7"

definition ent_addr :: "u32 \<Rightarrow> u32" where
  "ent_addr w = drop_bit 12 w"

definition upd_sign :: "u32 \<Rightarrow> u32 \<Rightarrow> u32" where
  "upd_sign v w = (w AND NOT 0x1FF) OR (v AND 0x1FF)"

definition upd_os :: "u32 \<Rightarrow> u32 \<Rightarrow> u32" where
  "upd_os v w = (w AND NOT 0xE00) OR (push_bit 9 v AND 0xE00)"

definition upd_addr :: "u32 \<Rightarrow> u32 \<Rightarrow> u32" where
  "upd_addr v w = (w AND 0xFFF) OR push_bit 12 v"

definition ld :: "'a machine_scheme \<Rightarrow> u32 \<Rightarrow> u32" where
  "ld s p = pmem s (kpa p)"

definition st :: "u32 \<Rightarrow> u32 \<Rightarrow> 'a machine_scheme \<Rightarrow> 'a machine_scheme" where
  "st p v s = s\<lparr>pmem := (pmem s)(kpa p := v)\<rparr>"

lemma ent_fields [simp]:
  "ent_sign (upd_sign v w) = v AND 0x1FF"
  "ent_sign (upd_os v w) = ent_sign w"
  "ent_sign (upd_addr v w) = ent_sign w"
  "ent_os (upd_sign v w) = ent_os w"
  "ent_os (upd_os v w) = v AND 0x7"
  "ent_os (upd_addr v w) = ent_os w"
  "ent_addr (upd_sign v w) = ent_addr w"
  "ent_addr (upd_os v w) = ent_addr w"
  "ent_addr (upd_addr v w) = v AND 0xFFFFF"
  unfolding ent_sign_def ent_os_def ent_addr_def upd_sign_def upd_os_def upd_addr_def
  by (rule bit_word_eqI; auto simp: bit_simps bit_masks dest: bit_imp_le_length)+

lemma ent_eqI: "ent_sign v = ent_sign w \<Longrightarrow> ent_os v = ent_os w \<Longrightarrow> ent_addr v = ent_addr w \<Longrightarrow> v = w"
proof (rule bit_word_eqI)
  fix n :: nat
  assume e: "ent_sign v = ent_sign w" "ent_os v = ent_os w" "ent_addr v = ent_addr w"
  consider "n < 9" | "9 \<le> n" "n < 12" | "12 \<le> n" by linarith
  then show "bit v n = bit w n" if "n < LENGTH(32)"
  proof cases
    case 1
    then show ?thesis using arg_cong [OF e(1), of "\<lambda>x. bit x n"]
      by (simp add: ent_sign_def bit_simps bit_masks)
  next
    case 2
    then have "n - 9 < 3" by linarith
    with 2 show ?thesis using arg_cong [OF e(2), of "\<lambda>x. bit x (n - 9)"]
      by (simp add: ent_os_def bit_simps bit_masks)
  next
    case 3
    then show ?thesis using arg_cong [OF e(3), of "\<lambda>x. bit x (n - 12)"]
      by (simp add: ent_addr_def bit_simps bit_masks)
  qed
qed

section \<open>A blank machine\<close>

text \<open>Zeroed memory and disks; the list heads at two kernel addresses. The worked examples start from it.\<close>

definition machine0 :: machine where
  "machine0 = \<lparr>ln_prev = \<lambda>_. 0, ln_next = \<lambda>_. 0, pg_ref = \<lambda>_. 0, pg_flags = \<lambda>_. 0, pg_free_pages = \<lambda>_. 0,
     pg_va = \<lambda>_. 0, mm_pde = \<lambda>_. 0, mm_cache = \<lambda>_. 0, mm_num = \<lambda>_. 0, vma_start = \<lambda>_. 0, vma_end = \<lambda>_. 0,
     vma_flags = \<lambda>_. 0, vma_back_link = \<lambda>_. 0, ck_allocated = \<lambda>_. 0, ck_size = \<lambda>_. 0, pmem = \<lambda>_. 0,
     disk = \<lambda>_ _ _. 0, free_page_num = 0, pages = 0x108000, pt_begin = 0x1B9000, pd = 0xC0106000,
     is_vmm_inited = 0, mm = 0, free_pages_head = 0xC0105000, chunk_head = 0xC0105010\<rparr>"

end
