(* ===== verification/Ide.thy ===== *)
theory Ide
  imports Machine
begin

text \<open>
  The IDE transfers of \<open>mm/swap.c\<close>. The code programs the task-file registers of the
  controller; \<open>ata_drive\<close> and \<open>ata_lba\<close> are how an ATA device in LBA mode reads those registers,
  and one sector of the disk is 128 words. \<open>waitdisk\<close> polls the status register, modelled as the list
  of bytes it returns.
\<close>

section \<open>Definitions\<close>

abbreviation SECTSIZE :: u32 where
  "SECTSIZE \<equiv> 512"

text \<open>\<open>SECTSIZE / 4\<close> and \<open>PAGE_SIZE / SECTSIZE\<close>.\<close>

abbreviation SECT_WORDS :: u32 where
  "SECT_WORDS \<equiv> 128"

abbreviation SECTS_PER_PAGE :: u32 where
  "SECTS_PER_PAGE \<equiv> 8"

text \<open>
  \<open>waitdisk\<close> on the successive values of port 0x1F7: \<open>None\<close> is still polling; otherwise the
  return value and the values not read yet.
\<close>

fun waitdisk :: "u8 list \<Rightarrow> (i32 \<times> u8 list) option" where
  "waitdisk [] = None"
| "waitdisk (status # rest) =
     (let return_val = status AND 0xC0
      in if return_val \<noteq> 0x40 then waitdisk rest
         else if return_val AND 0x21 \<noteq> 0 then Some (-1, rest)
         else Some (0, rest))"

record ide_regs =
  r1F2 :: u8
  r1F3 :: u8
  r1F4 :: u8
  r1F5 :: u8
  r1F6 :: u8

definition ide_program :: "u32 \<Rightarrow> u32 \<Rightarrow> u32 \<Rightarrow> ide_regs" where
  "ide_program sectno ide_no sect_count =
     \<lparr>r1F2 = ucast sect_count,
      r1F3 = ucast sectno,
      r1F4 = ucast (drop_bit 8 sectno),
      r1F5 = ucast (drop_bit 16 sectno),
      r1F6 = ucast (drop_bit 24 sectno OR 0xE0 OR push_bit 4 (ide_no AND 1))\<rparr>"

definition ata_drive :: "ide_regs \<Rightarrow> u32" where
  "ata_drive r = drop_bit 4 (ucast (r1F6 r)) AND 1"

definition ata_lba :: "ide_regs \<Rightarrow> u32" where
  "ata_lba r = ucast (r1F3 r) OR push_bit 8 (ucast (r1F4 r)) OR push_bit 16 (ucast (r1F5 r))
     OR push_bit 24 (ucast (r1F6 r) AND 0xF)"

definition outsl_sector :: "u32 \<Rightarrow> u32 \<Rightarrow> u32 \<Rightarrow> 'a machine_scheme \<Rightarrow> 'a machine_scheme" where
  "outsl_sector drive lba src s =
     s\<lparr>disk := (disk s)(drive := (disk s drive)(lba :=
        (\<lambda>j. if j < SECT_WORDS then pmem s (kpa src + 4 * j) else disk s drive lba j)))\<rparr>"

definition insl_sector :: "u32 \<Rightarrow> u32 \<Rightarrow> u32 \<Rightarrow> 'a machine_scheme \<Rightarrow> 'a machine_scheme" where
  "insl_sector drive lba dst s =
     s\<lparr>pmem := (\<lambda>a. if a - kpa dst < SECTSIZE then disk s drive lba ((a - kpa dst) div 4) else pmem s a)\<rparr>"

fun readsect_loop :: "nat \<Rightarrow> u32 \<Rightarrow> u32 \<Rightarrow> u32 \<Rightarrow> 'a machine_scheme \<Rightarrow> 'a machine_scheme" where
  "readsect_loop 0 drive lba dst s = s"
| "readsect_loop (Suc n) drive lba dst s =
     readsect_loop n drive (lba + 1) (dst + SECTSIZE) (insl_sector drive lba dst s)"

fun writesect_loop :: "nat \<Rightarrow> u32 \<Rightarrow> u32 \<Rightarrow> u32 \<Rightarrow> 'a machine_scheme \<Rightarrow> 'a machine_scheme" where
  "writesect_loop 0 drive lba src s = s"
| "writesect_loop (Suc n) drive lba src s =
     writesect_loop n drive (lba + 1) (src + SECTSIZE) (outsl_sector drive lba src s)"

definition readsect :: "u32 \<Rightarrow> u32 \<Rightarrow> u32 \<Rightarrow> i32 \<Rightarrow> 'a machine_scheme \<Rightarrow> 'a machine_scheme" where
  "readsect dst sectno ide_no sect_count s =
     (let r = ide_program sectno ide_no sect_count
      in readsect_loop (nat (sint sect_count)) (ata_drive r) (ata_lba r) dst s)"

definition writesect :: "u32 \<Rightarrow> u32 \<Rightarrow> u32 \<Rightarrow> i32 \<Rightarrow> 'a machine_scheme \<Rightarrow> 'a machine_scheme" where
  "writesect src sectno ide_no sect_count s =
     (let r = ide_program sectno ide_no sect_count
      in writesect_loop (nat (sint sect_count)) (ata_drive r) (ata_lba r) src s)"

definition swap_read :: "u32 \<Rightarrow> u32 \<Rightarrow> 'a machine_scheme \<Rightarrow> 'a machine_scheme" where
  "swap_read dst_page_addr pte s =
     readsect dst_page_addr (drop_bit 8 (ld s pte) * PAGE_SIZE div SECTSIZE) 1 SECTS_PER_PAGE s"

definition swap_write :: "u32 \<Rightarrow> u32 \<Rightarrow> 'a machine_scheme \<Rightarrow> 'a machine_scheme" where
  "swap_write src_page_addr sectno s =
     writesect src_page_addr sectno 1 SECTS_PER_PAGE s"

section \<open>Properties\<close>

lemma waitdisk_masked: "(x :: u8) AND 0xC0 = 0x40 \<Longrightarrow> (x AND 0xC0) AND 0x21 = 0"
  by simp

lemma waitdisk_ready: "waitdisk ss = Some (rc, rest) \<Longrightarrow> rc = 0"
  by (induction ss) (auto simp: Let_def split: if_splits)

lemma ata_lba_program:
  assumes "sectno < 0x10000000"
  shows "ata_lba (ide_program sectno ide_no n) = sectno"
proof -
  have top: "k < 28" if "bit sectno k" for k
    using word_lt_exp_bit [OF _ that, of 28] assms by (simp add: word_less_nat_alt)
  show ?thesis
    unfolding ata_lba_def ide_program_def
    by (rule bit_word_eqI) (auto simp: bit_simps bit_masks_ide dest: top)
qed

lemma ata_drive_program: "ata_drive (ide_program sectno 1 n) = 1"
  unfolding ata_drive_def ide_program_def
  by (rule bit_word_eqI) (auto simp: bit_simps bit_masks_ide)

lemma pmem_outsl_sector [simp]: "pmem (outsl_sector d l p s) = pmem s"
  by (simp add: outsl_sector_def)

lemma writesect_loop_frame [simp]: "pmem (writesect_loop n d l p s) = pmem s"
  by (induction n arbitrary: l p s) simp_all

text \<open>After writing \<open>n\<close> sectors, sector \<open>lba + k\<close> holds the \<open>k\<close>-th 512 bytes of the source.\<close>

lemma writesect_loop_disk:
  assumes "n < 4294967296"
  shows "disk (writesect_loop n d lba src s) d' l j =
     (if d' = d \<and> l - lba < of_nat n \<and> j < 128
      then pmem s (kpa (src + SECTSIZE * (l - lba)) + 4 * j) else disk s d' l j)"
  using assms
proof (induction n arbitrary: lba src s)
  case 0
  then show ?case by simp
next
  case (Suc n)
  have IH: "disk (writesect_loop n d (lba + 1) (src + SECTSIZE) (outsl_sector d lba src s)) d' l j =
     (if d' = d \<and> l - (lba + 1) < of_nat n \<and> j < 128
      then pmem s (kpa (src + SECTSIZE + SECTSIZE * (l - (lba + 1))) + 4 * j)
      else disk (outsl_sector d lba src s) d' l j)"
    using Suc.IH [of "lba + 1" "src + SECTSIZE" "outsl_sector d lba src s"] Suc.prems by simp
  have lt: "l - lba < of_nat (Suc n) \<longleftrightarrow> l = lba \<or> l - (lba + 1) < of_nat n"
    using word_less_Suc [of n "l - lba"] Suc.prems by (simp add: algebra_simps)
  have not0: "\<not> lba - (lba + 1) < of_nat n"
    using Suc.prems by (simp add: word_less_nat_alt unat_of_nat)
  show ?case
    unfolding writesect_loop.simps IH lt using not0
    by (auto simp: outsl_sector_def algebra_simps)
qed

lemma readsect_loop_disk [simp]: "disk (readsect_loop n d l p s) = disk s"
  by (induction n arbitrary: l p s) (simp_all add: insl_sector_def)


text \<open>Reading \<open>n\<close> sectors back fills the destination with them, in order.\<close>

lemma readsect_loop_pmem:
  assumes "512 * n < 4294967296"
    and lin: "\<And>k. k \<le> n \<Longrightarrow> kpa (dst + SECTSIZE * of_nat k) = kpa dst + SECTSIZE * of_nat k"
  shows "pmem (readsect_loop n d lba dst s) a =
     (if a - kpa dst < SECTSIZE * of_nat n
      then disk s d (lba + (a - kpa dst) div SECTSIZE) ((a - kpa dst) mod SECTSIZE div 4)
      else pmem s a)"
  using assms
proof (induction n arbitrary: lba dst s)
  case 0
  then show ?case by simp
next
  case (Suc n)
  let ?x = "a - kpa dst"
  have step: "kpa (dst + SECTSIZE) = kpa dst + SECTSIZE"
    using Suc.prems(2) [of 1] by simp
  have lin': "kpa (dst + SECTSIZE + SECTSIZE * of_nat k) = kpa (dst + SECTSIZE) + SECTSIZE * of_nat k"
    if "k \<le> n" for k
    using Suc.prems(2) [of "Suc k"] that by (simp add: step algebra_simps)
  have IH: "pmem (readsect_loop n d (lba + 1) (dst + SECTSIZE) (insl_sector d lba dst s)) a =
     (if ?x - SECTSIZE < SECTSIZE * of_nat n
      then disk s d (lba + 1 + (?x - SECTSIZE) div SECTSIZE) ((?x - SECTSIZE) mod SECTSIZE div 4)
      else pmem (insl_sector d lba dst s) a)"
    using Suc.IH [OF _ lin', of "lba + 1" "insl_sector d lba dst s"] Suc.prems(1)
    by (simp add: step insl_sector_def algebra_simps)
  have n: "unat (SECTSIZE * of_nat n :: u32) = 512 * n" "unat (SECTSIZE * of_nat (Suc n) :: u32) = 512 * Suc n"
    using Suc.prems(1) by (simp_all add: unat_word_ariths unat_of_nat del: of_nat_Suc)
  show ?case
  proof (cases "?x < SECTSIZE")
    case True
    then have ux: "unat ?x < 512" by (simp add: word_less_nat_alt)
    then have "unat (?x - SECTSIZE) = unat ?x + 4294966784"
      by (simp add: unat_sub_if_size word_size)
    then have "\<not> ?x - SECTSIZE < SECTSIZE * of_nat n"
      using Suc.prems(1) by (simp add: word_less_nat_alt n del: of_nat_Suc)
    moreover have "?x div SECTSIZE = 0" and "?x mod SECTSIZE = ?x"
      using ux by (simp_all add: word_arith_nat_div word_arith_nat_mod)
    moreover have "?x < SECTSIZE * of_nat (Suc n)"
      using ux by (simp add: word_less_nat_alt n del: of_nat_Suc)
    ultimately show ?thesis
      unfolding readsect_loop.simps IH using True by (simp add: insl_sector_def)
  next
    case False
    then have ux: "512 \<le> unat ?x" by (simp add: word_less_nat_alt)
    then have u: "unat (?x - SECTSIZE) = unat ?x - 512"
      by (simp add: unat_sub word_le_nat_alt)
    have lt: "?x - SECTSIZE < SECTSIZE * of_nat n \<longleftrightarrow> ?x < SECTSIZE * of_nat (Suc n)"
      unfolding word_less_nat_alt n u using ux by auto
    have "unat (1 + (?x - SECTSIZE) div SECTSIZE) = unat (?x div SECTSIZE)"
      using ux unat_lt_2_32 [of ?x] by (simp add: unat_word_ariths unat_div u)
    then have "1 + (?x - SECTSIZE) div SECTSIZE = ?x div SECTSIZE"
      by (simp only: word_unat_eq_iff)
    then have dv: "lba + 1 + (?x - SECTSIZE) div SECTSIZE = lba + ?x div SECTSIZE"
      by (simp add: add.assoc)
    have md: "(?x - SECTSIZE) mod SECTSIZE = ?x mod SECTSIZE"
      using ux by (simp add: word_unat_eq_iff unat_mod u le_mod_geq)
    show ?thesis
      unfolding readsect_loop.simps IH lt dv md using False by (simp add: insl_sector_def)
  qed
qed


section \<open>Swap slots\<close>

text \<open>
  \<open>swap_out\<close> stores the page of virtual address \<open>va\<close> from sector \<open>swap_sector va\<close> on, and leaves
  \<open>swap_entry va\<close> in its page table entry; \<open>swap_read\<close> computes the sector from that entry.
\<close>

definition swap_sector :: "u32 \<Rightarrow> u32" where
  "swap_sector va = (va div PAGE_SIZE + 1) * PAGE_SIZE div SECTSIZE"

definition swap_entry :: "u32 \<Rightarrow> u32" where
  "swap_entry va = push_bit 8 (va div PAGE_SIZE + 1)"

lemma unat_slot: "unat (va div PAGE_SIZE + 1) = unat va div 4096 + 1"
  using unat_lt_2_32 [of va] by (simp add: unat_word_ariths unat_div)

lemma swap_entry_slot: "drop_bit 8 (swap_entry va) = va div PAGE_SIZE + 1"
proof -
  have "unat (va div PAGE_SIZE + 1) < 2 ^ 24"
    using unat_lt_2_32 [of va] unat_slot [of va] by simp
  then have "bit (va div PAGE_SIZE + 1) n \<Longrightarrow> n < 24" for n
    by (rule word_lt_exp_bit)
  then show ?thesis
    unfolding swap_entry_def by (intro bit_word_eqI) (auto simp: bit_simps)
qed

lemma unat_swap_sector: "unat (swap_sector va) = (unat va div 4096 + 1) mod 1048576 * 8"
proof -
  have "(unat va div 4096 + 1) * 4096 mod 4294967296 div 512 = (unat va div 4096 + 1) mod 1048576 * 8"
    using mult_mod_left [of "unat va div 4096 + 1" 1048576 4096]
    by (simp add: mult.commute) 
  then show ?thesis
    unfolding swap_sector_def unat_div unat_word_ariths(2) unat_slot by simp
qed

lemma swap_sector_lt: "swap_sector va < 0x800000"
  unfolding word_less_nat_alt unat_swap_sector by simp

lemma unat_swap_sector_add:
  assumes "unat i < 8"
  shows "unat (swap_sector va + i) = (unat va div 4096 + 1) mod 1048576 * 8 + unat i"
proof -
  have "(unat va div 4096 + 1) mod 1048576 < 1048576" by simp
  then have "(unat va div 4096 + 1) mod 1048576 * 8 + unat i < 4294967296"
    using assms by linarith
  then show ?thesis by (simp add: unat_word_ariths unat_swap_sector)
qed

lemma swap_sectors_disjoint:
  assumes "va div PAGE_SIZE \<noteq> va' div PAGE_SIZE" and "unat i < 8" and "unat j < 8"
  shows "swap_sector va + i \<noteq> swap_sector va' + j"
proof
  assume "swap_sector va + i = swap_sector va' + j"
  then have "unat (swap_sector va + i) div 8 = unat (swap_sector va' + j) div 8" by simp
  then have "(unat va div 4096 + 1) mod 1048576 = (unat va' div 4096 + 1) mod 1048576"
    unfolding unat_swap_sector_add [OF assms(2)] unat_swap_sector_add [OF assms(3)]
    using assms(2,3) by simp
  moreover have "unat va div 4096 < 1048576" "unat va' div 4096 < 1048576"
    using unat_lt_2_32 [of va] unat_lt_2_32 [of va'] by simp_all
  ultimately have "unat va div 4096 = unat va' div 4096"
    by (auto simp: mod_Suc split: if_splits)
  then have "va div PAGE_SIZE = va' div PAGE_SIZE"
    by (simp add: word_unat_eq_iff unat_div)
  with assms(1) show False by simp
qed

text \<open>The eight sectors of a slot hold the 1024 words of a page.\<close>

definition slot_holds :: "'a machine_scheme \<Rightarrow> u32 \<Rightarrow> (u32 \<Rightarrow> u32) \<Rightarrow> bool" where
  "slot_holds s va f \<longleftrightarrow> (\<forall>k < 8. \<forall>j < 128. disk s 1 (swap_sector va + k) j = f (128 * k + j))"

lemma swap_sector_program:
  "ata_lba (ide_program (swap_sector va) ide_no n) = swap_sector va"
proof (rule ata_lba_program)
  show "swap_sector va < 0x10000000"
    by (rule less_trans [OF swap_sector_lt]) simp
qed

lemma page_offsets:
  assumes "VERTUAL_MEM \<le> p" and "unat p + 4096 < 4294967296" and "unat x \<le> 4096"
  shows "kpa (p + x) = kpa p + x"
  using assms by (intro kpa_offset_high) auto

lemma swap_write_disk:
  assumes "VERTUAL_MEM \<le> src" and "unat src + 4096 < 4294967296"
  shows "disk (swap_write src (swap_sector va) s) d l j =
    (if d = 1 \<and> l - swap_sector va < 8 \<and> j < 128
     then pmem s (kpa src + (SECTSIZE * (l - swap_sector va) + 4 * j)) else disk s d l j)"
proof -
  have "kpa (src + SECTSIZE * k) = kpa src + SECTSIZE * k" if "k < 8" for k
  proof (rule page_offsets [OF assms])
    have "unat k < 8" using that by (simp add: word_less_nat_alt)
    then show "unat (SECTSIZE * k) \<le> 4096" by (simp add: unat_word_ariths)
  qed
  then show ?thesis
    unfolding swap_write_def writesect_def Let_def ata_drive_program swap_sector_program
    by (simp add: writesect_loop_disk add.assoc del: right_diff_distrib_numeral)
qed

lemma swap_write_slot:
  assumes "VERTUAL_MEM \<le> src" and "unat src + 4096 < 4294967296"
  shows "slot_holds (swap_write src (swap_sector va) s) va (\<lambda>j. pmem s (kpa src + 4 * j))"
  unfolding slot_holds_def by (simp add: swap_write_disk [OF assms] algebra_simps)

lemma swap_write_other_slot:
  assumes "VERTUAL_MEM \<le> src" and "unat src + 4096 < 4294967296"
    and "va div PAGE_SIZE \<noteq> va' div PAGE_SIZE" and "slot_holds s va f"
  shows "slot_holds (swap_write src (swap_sector va') s) va f"
proof -
  have "\<not> swap_sector va + k - swap_sector va' < 8" if "k < 8" for k
  proof
    assume "swap_sector va + k - swap_sector va' < 8"
    then have "swap_sector va + k \<noteq> swap_sector va' + (swap_sector va + k - swap_sector va')"
      using that by (intro swap_sectors_disjoint assms(3)) (simp_all add: word_less_nat_alt)
    then show False by simp
  qed
  with assms(4) show ?thesis
    by (simp add: slot_holds_def swap_write_disk [OF assms(1,2)])
qed

lemma sector_split:
  assumes "(x :: u32) < PAGE_SIZE"
  shows "x div SECTSIZE < 8" and "x mod SECTSIZE div 4 < 128"
    and "128 * (x div SECTSIZE) + x mod SECTSIZE div 4 = x div 4"
proof -
  have x: "unat x < 4096" using assms by (simp add: word_less_nat_alt)
  then show "x div SECTSIZE < 8"
    by (simp add: word_less_nat_alt unat_div) 
  show "x mod SECTSIZE div 4 < 128"
    by (simp add: word_less_nat_alt unat_div unat_mod) 
  have "unat x div 4 = (4 * (128 * (unat x div 512)) + unat x mod 512) div 4"
    using mult_div_mod_eq [of 512 "unat x"] by simp
  also have "\<dots> = 128 * (unat x div 512) + unat x mod 512 div 4"
    by (simp only: div_mult_self4)
  finally have "128 * (unat x div 512) + unat x mod 512 div 4 = unat x div 4" by simp
  with x show "128 * (x div SECTSIZE) + x mod SECTSIZE div 4 = x div 4"
    by (simp add: word_unat_eq_iff unat_word_ariths unat_div unat_mod)
qed

lemma swap_read_slot:
  assumes "slot_holds s va f" and "ld s pte = swap_entry va"
    and "VERTUAL_MEM \<le> dst" and "unat dst + 4096 < 4294967296"
  shows "pmem (swap_read dst pte s) a =
    (if a - kpa dst < PAGE_SIZE then f ((a - kpa dst) div 4) else pmem s a)"
proof -
  have "kpa (dst + SECTSIZE * of_nat k) = kpa dst + SECTSIZE * of_nat k" if "k \<le> 8" for k
  proof (rule page_offsets [OF assms(3,4)])
    show "unat (SECTSIZE * of_nat k :: u32) \<le> 4096"
      using that by (simp add: unat_word_ariths unat_of_nat)
  qed
  then have "pmem (readsect_loop 8 1 (swap_sector va) dst s) a =
     (if a - kpa dst < PAGE_SIZE
      then disk s 1 (swap_sector va + (a - kpa dst) div SECTSIZE) ((a - kpa dst) mod SECTSIZE div 4)
      else pmem s a)"
    using readsect_loop_pmem [of 8 dst 1 "swap_sector va" s a] by simp
  also have "\<dots> = (if a - kpa dst < PAGE_SIZE then f ((a - kpa dst) div 4) else pmem s a)"
    using assms(1) sector_split [of "a - kpa dst"] by (simp add: slot_holds_def)
  finally show ?thesis
    unfolding swap_read_def assms(2) swap_entry_slot swap_sector_def [symmetric] readsect_def Let_def
      ata_drive_program swap_sector_program by simp
qed

section \<open>Polling the controller\<close>

text \<open>
  \<open>readsect\<close> and \<open>writesect\<close> with their calls of \<open>waitdisk\<close>: one before the command, one before
  each sector, with the early return on the value -1. They return \<open>None\<close> while they are still polling.
\<close>

fun readsect_polling :: "nat \<Rightarrow> u32 \<Rightarrow> u32 \<Rightarrow> u32 \<Rightarrow> u8 list \<Rightarrow> 'a machine_scheme \<Rightarrow> 'a machine_scheme option" where
  "readsect_polling 0 drive lba dst sts s = Some s"
| "readsect_polling (Suc n) drive lba dst sts s =
     (case waitdisk sts of
        None \<Rightarrow> None
      | Some (rc, sts) \<Rightarrow>
          if rc = -1 then Some s
          else readsect_polling n drive (lba + 1) (dst + SECTSIZE) sts (insl_sector drive lba dst s))"

fun writesect_polling :: "nat \<Rightarrow> u32 \<Rightarrow> u32 \<Rightarrow> u32 \<Rightarrow> u8 list \<Rightarrow> 'a machine_scheme \<Rightarrow> 'a machine_scheme option" where
  "writesect_polling 0 drive lba src sts s = Some s"
| "writesect_polling (Suc n) drive lba src sts s =
     (case waitdisk sts of
        None \<Rightarrow> None
      | Some (rc, sts) \<Rightarrow>
          if rc = -1 then Some s
          else writesect_polling n drive (lba + 1) (src + SECTSIZE) sts (outsl_sector drive lba src s))"

definition readsect_wait :: "u32 \<Rightarrow> u32 \<Rightarrow> u32 \<Rightarrow> i32 \<Rightarrow> u8 list \<Rightarrow> 'a machine_scheme \<Rightarrow> 'a machine_scheme option" where
  "readsect_wait dst sectno ide_no sect_count sts s =
     (case waitdisk sts of
        None \<Rightarrow> None
      | Some (_, sts) \<Rightarrow>
          let r = ide_program sectno ide_no sect_count
          in readsect_polling (nat (sint sect_count)) (ata_drive r) (ata_lba r) dst sts s)"

definition writesect_wait :: "u32 \<Rightarrow> u32 \<Rightarrow> u32 \<Rightarrow> i32 \<Rightarrow> u8 list \<Rightarrow> 'a machine_scheme \<Rightarrow> 'a machine_scheme option" where
  "writesect_wait src sectno ide_no sect_count sts s =
     (case waitdisk sts of
        None \<Rightarrow> None
      | Some (_, sts) \<Rightarrow>
          let r = ide_program sectno ide_no sect_count
          in writesect_polling (nat (sint sect_count)) (ata_drive r) (ata_lba r) src sts s)"

text \<open>A status byte that lets \<open>waitdisk\<close> return: ready and not busy.\<close>

definition disk_ready :: "u8 \<Rightarrow> bool" where
  "disk_ready x \<longleftrightarrow> x AND 0xC0 = 0x40"

lemma waitdisk_Some:
  assumes "0 < length (filter disk_ready sts)"
  shows "\<exists>rest. waitdisk sts = Some (0, rest) \<and>
    length (filter disk_ready rest) = length (filter disk_ready sts) - 1"
  using assms by (induction sts) (auto simp: disk_ready_def Let_def)

lemma readsect_polling_loop:
  assumes "n \<le> length (filter disk_ready sts)"
  shows "readsect_polling n d l p sts s = Some (readsect_loop n d l p s)"
  using assms
proof (induction n arbitrary: l p sts s)
  case (Suc n)
  then obtain rest where "waitdisk sts = Some (0, rest)" and "n \<le> length (filter disk_ready rest)"
    using waitdisk_Some [of sts] by force
  then show ?case using Suc.IH by simp
qed simp

lemma writesect_polling_loop:
  assumes "n \<le> length (filter disk_ready sts)"
  shows "writesect_polling n d l p sts s = Some (writesect_loop n d l p s)"
  using assms
proof (induction n arbitrary: l p sts s)
  case (Suc n)
  then obtain rest where "waitdisk sts = Some (0, rest)" and "n \<le> length (filter disk_ready rest)"
    using waitdisk_Some [of sts] by force
  then show ?case using Suc.IH by simp
qed simp

text \<open>
  However long the controller is busy in between, once it has reported ready one time more
  than there are sectors, both transfers are finished and have done exactly what
  \<open>readsect\<close> and \<open>writesect\<close> describe: the error return of \<open>waitdisk\<close> is never taken, whatever
  error bits the status has, because the mask 0xC0 has removed them.
\<close>

theorem transfers_complete:
  assumes "nat (sint n) < length (filter disk_ready sts)"
  shows "readsect_wait p sectno drive n sts s = Some (readsect p sectno drive n s) \<and>
    writesect_wait p sectno drive n sts s = Some (writesect p sectno drive n s)"
proof -
  obtain rest where "waitdisk sts = Some (0, rest)" and "nat (sint n) \<le> length (filter disk_ready rest)"
    using waitdisk_Some [of sts] assms by force
  then show ?thesis
    by (simp add: readsect_wait_def writesect_wait_def readsect_def writesect_def
        readsect_polling_loop writesect_polling_loop Let_def)
qed

theorem transfers_complete_witness:
  "readsect_wait 0xC0200000 8 1 1 [0x80, 0x41, 0xD0, 0x61] machine0 = Some (readsect 0xC0200000 8 1 1 machine0)"
  using transfers_complete [of 1 "[0x80, 0x41, 0xD0, 0x61]" "0xC0200000" 8 1 machine0]
  by (simp add: disk_ready_def)

text \<open>
  A page written to the slot of a virtual address and read back through the entry that
  \<open>swap_out\<close> leaves for that address arrives word for word; no other memory
  changes, and the slots of all other pages keep what they hold.
\<close>

theorem swap_slot_roundtrip:
  assumes src: "VERTUAL_MEM \<le> src" "unat src + 4096 < 4294967296"
    and dst: "VERTUAL_MEM \<le> dst" "unat dst + 4096 < 4294967296" and "ld s pte = swap_entry va"
    and s': "s' = swap_write src (swap_sector va) s"
  shows "(\<forall>a. pmem (swap_read dst pte s') a =
      (if a - kpa dst < PAGE_SIZE then pmem s (kpa src + 4 * ((a - kpa dst) div 4)) else pmem s a)) \<and>
    (\<forall>va' f. va' div PAGE_SIZE \<noteq> va div PAGE_SIZE \<and> slot_holds s va' f \<longrightarrow> slot_holds s' va' f)"
proof -
  have "pmem s' = pmem s" by (simp add: s' swap_write_def writesect_def Let_def)
  then have "ld s' pte = swap_entry va" using assms(5) by (simp add: ld_def)
  note rd = swap_read_slot [OF _ this dst, of "\<lambda>j. pmem s (kpa src + 4 * j)"]
  moreover have "slot_holds s' va' f" if "va' div PAGE_SIZE \<noteq> va div PAGE_SIZE" "slot_holds s va' f" for va' f
    using swap_write_other_slot [OF src that] by (simp add: s')
  ultimately show ?thesis
    using swap_write_slot [OF src, of va s] \<open>pmem s' = pmem s\<close> by (simp add: s')
qed

theorem swap_slot_roundtrip_witness:
  "let s = st 0xC0300004 7 (st 0xC0200000 (swap_entry 0xF00000) machine0);
       s' = swap_write 0xC0300000 (swap_sector 0xF00000) s
   in pmem (swap_read 0xC0400000 0xC0200000 s') 0x400004 = 7"
  using swap_slot_roundtrip [of "0xC0300000" "0xC0400000"
      "st 0xC0300004 7 (st 0xC0200000 (swap_entry 0xF00000) machine0)" "0xC0200000" "0xF00000", OF _ _ _ _ _ refl]
  by (simp add: ld_def st_def kpa_def Let_def)

end
