(* ===== verification/PageAlloc.thy ===== *)
theory PageAlloc
  imports Ide "HOL-Library.Monad_Syntax"
begin

text \<open>
  The physical page allocator of \<open>mm/pmm.c\<close> with the part of \<open>mm/swap.c\<close> it calls: \<open>alloc_page\<close>,
  \<open>free_page\<close>, the conversions between \<open>struct Page\<close> pointers and addresses, the lookup half of
  \<open>get_pte\<close>, and \<open>swap_out\<close>. An operation returns \<open>None\<close> when one of its loops over a damaged free
  list does not end; the lemmas show that it does end on a well-formed one. What the
  functions print is not modelled here.
\<close>

section \<open>Page structs and addresses\<close>

text \<open>
  The difference of two \<open>struct Page\<close> pointers. \<open>sizeof(struct Page)\<close> is 24, and GCC divides an
  (assumed exact) difference by 24 with an arithmetic shift by 3 and a multiplication by the
  inverse of 3 modulo \<open>2 ^ 32\<close>. This matters: \<open>alloc_page\<close> hands out pointers into the upper window
  and \<open>pages\<close> points into the lower one, so that the difference is not a multiple of 24.
\<close>

definition page_diff :: "u32 \<Rightarrow> u32 \<Rightarrow> u32" where
  "page_diff p q = signed_drop_bit 3 (p - q) * 0xAAAAAAAB"

definition pg_to_addr_la :: "'a machine_scheme \<Rightarrow> u32 \<Rightarrow> u32" where
  "pg_to_addr_la s page = page_diff page (pages s) * PAGE_SIZE + pt_begin s + VERTUAL_MEM"

definition pg_to_addr_pa :: "'a machine_scheme \<Rightarrow> u32 \<Rightarrow> u32" where
  "pg_to_addr_pa s page = page_diff page (pages s) * PAGE_SIZE + pt_begin s"

definition la_addr_to_pg :: "'a machine_scheme \<Rightarrow> u32 \<Rightarrow> u32" where
  "la_addr_to_pg s addr = page_plus (pages s) ((addr - VERTUAL_MEM - pt_begin s) div PAGE_SIZE)"

definition pa_addr_to_pg :: "'a machine_scheme \<Rightarrow> u32 \<Rightarrow> u32" where
  "pa_addr_to_pg s addr = page_plus (pages s) ((addr - pt_begin s) div PAGE_SIZE)"

definition get_pg_addr_la :: "'a machine_scheme \<Rightarrow> u32 \<Rightarrow> u32" where
  "get_pg_addr_la s pte = push_bit 12 (ent_addr (ld s pte)) + VERTUAL_MEM"

definition get_pg_addr_pa :: "'a machine_scheme \<Rightarrow> u32 \<Rightarrow> u32" where
  "get_pg_addr_pa s pte = push_bit 12 (ent_addr (ld s pte))"

section \<open>Freeing pages\<close>

text \<open>The search for the insertion point; the result is the variable \<open>target\<close> after the loop.\<close>

partial_function (option) free_page_walk ::
  "u32 \<Rightarrow> u32 \<Rightarrow> u32 \<Rightarrow> u32 \<Rightarrow> 'a list_heap_scheme \<Rightarrow> u32 option" where
  "free_page_walk page hn ptr target h =
     (if get_next h ptr = hn then Some target
      else let target = node_page (get_next h ptr)
           in if page < target then Some target
              else free_page_walk page hn (get_next h ptr) target h)"

definition free_page_link :: "u32 \<Rightarrow> i32 \<Rightarrow> u32 \<Rightarrow> 'a list_heap_scheme \<Rightarrow> 'a list_heap_scheme" where
  "free_page_link page n target h =
     fold (\<lambda>i. list_insert_before (page_node target) (page_node (page_plus page (of_nat i))))
       [0..<nat (sint n)] h"

definition merge_down :: "u32 \<Rightarrow> i32 \<Rightarrow> u32 \<Rightarrow> 'a machine_scheme \<Rightarrow> 'a machine_scheme" where
  "merge_down page n target s =
     (if page_plus page n = target
      then let s = set_free_pages page (free_pages_of s page + free_pages_of s target) s
           in set_free_pages target 0 s
      else s)"

definition merge_up :: "u32 \<Rightarrow> 'a machine_scheme \<Rightarrow> 'a machine_scheme" where
  "merge_up page s =
     (let ptr = get_prev s (page_node page);
          target = node_page ptr
      in if page_plus target (free_pages_of s target) = page
         then let s = set_free_pages target (free_pages_of s target + free_pages_of s page) s
              in set_free_pages page 0 s
         else s)"

definition free_page :: "u32 \<Rightarrow> i32 \<Rightarrow> 'a machine_scheme \<Rightarrow> 'a machine_scheme option" where
  "free_page page n s =
     do {
       target \<leftarrow> free_page_walk page (free_pages_head s) (free_pages_head s) NULL s;
       if target = NULL then Some s
       else
         let s = free_page_link page n target s;
             s = set_flags page 0 s;
             s = set_free_pages page n s;
             s = s\<lparr>free_page_num := free_page_num s + n\<rparr>;
             s = merge_down page n target s
         in Some (merge_up page s)
     }"

section \<open>Swapping a victim out\<close>

text \<open>\<open>get_pte\<close> with \<open>is_create = 0\<close>: a lookup that changes nothing. The full \<open>get_pte\<close> is in the theory of the page tables.\<close>

definition pde_slot :: "u32 \<Rightarrow> u32 \<Rightarrow> u32" where
  "pde_slot pde la = pde + 4 * drop_bit 22 la"

definition pte_slot :: "u32 \<Rightarrow> u32 \<Rightarrow> u32" where
  "pte_slot e la = push_bit 12 (ent_addr e) + VERTUAL_MEM + 4 * (drop_bit 12 la AND 0x3FF)"

definition find_pte :: "u32 \<Rightarrow> u32 \<Rightarrow> 'a machine_scheme \<Rightarrow> u32" where
  "find_pte pde la s =
     (let e = ld s (pde_slot pde la)
      in if ent_sign e AND 1 = 0 then NULL else pte_slot e la)"

text \<open>Offsets of the two list heads inside \<open>struct mm_struct\<close>.\<close>

definition mm_node :: "u32 \<Rightarrow> u32" where
  "mm_node m = m + 12"

definition mm_vm_fifo :: "u32 \<Rightarrow> u32" where
  "mm_vm_fifo m = m + 20"

definition swap_out_page :: "u32 \<Rightarrow> u32 \<Rightarrow> 'a machine_scheme \<Rightarrow> 'a machine_scheme" where
  "swap_out_page m page s =
     (let va = pg_va s (kpa page);
          pte = find_pte (mm_pde s (kpa m)) va s;
          s = swap_write (pg_to_addr_la s page) (swap_sector va) s;
          s = st pte (upd_sign 0 (ld s pte)) s;
          s = st pte (upd_addr 0 (ld s pte)) s
      in st pte (swap_entry va) s)"

fun swap_out_loop :: "nat \<Rightarrow> u32 \<Rightarrow> u32 \<Rightarrow> 'a machine_scheme \<Rightarrow> 'a machine_scheme option" where
  "swap_out_loop 0 m ptr s = Some s"
| "swap_out_loop (Suc n) m ptr s =
     (if get_next s ptr = mm_vm_fifo m then Some s
      else
        let page = node_page (get_next s ptr);
            s = swap_out_page m page s;
            s = list_delete (get_next s ptr) s
        in do {
             s \<leftarrow> free_page page 1 s;
             swap_out_loop n m (get_next s ptr) s
           })"

definition swap_out :: "u32 \<Rightarrow> i32 \<Rightarrow> 'a machine_scheme \<Rightarrow> 'a machine_scheme option" where
  "swap_out m n s = swap_out_loop (nat (sint n)) m (mm_vm_fifo m) s"

section \<open>Allocating pages\<close>

fun alloc_unlink :: "nat \<Rightarrow> u32 \<Rightarrow> u32 \<Rightarrow> 'a list_heap_scheme \<Rightarrow> u32 \<times> 'a list_heap_scheme" where
  "alloc_unlink 0 del del_next h = (del, h)"
| "alloc_unlink (Suc n) del del_next h =
     (let h = list_delete del h
      in alloc_unlink n del_next (get_next h del_next) h)"

definition alloc_take :: "u32 \<Rightarrow> i32 \<Rightarrow> 'a machine_scheme \<Rightarrow> (u32 \<times> 'a machine_scheme) option" where
  "alloc_take page n s =
     (let remain_blocks = free_pages_of s page - n;
          (del, s) = alloc_unlink (nat (sint n)) (page_node page) (get_next s (page_node page)) s;
          s = set_free_pages (node_page del) remain_blocks s;
          s = set_flags (node_page del) 1 s;
          s = s\<lparr>free_page_num := free_page_num s - n\<rparr>
      in do {
           s \<leftarrow> (if is_vmm_inited s = 1 \<and> n = 1 then swap_out (mm s) 1 s else Some s);
           Some (page + VERTUAL_MEM, s)
         })"

partial_function (option) alloc_loop ::
  "u32 \<Rightarrow> i32 \<Rightarrow> 'a machine_scheme \<Rightarrow> (u32 \<times> 'a machine_scheme) option" where
  "alloc_loop ptr n s =
     (if get_next s ptr = free_pages_head s then Some (NULL, s)
      else let page = node_page (get_next s (free_pages_head s))
           in if n \<le> free_pages_of s page then alloc_take page n s
              else alloc_loop (get_next s ptr) n s)"

definition alloc_page :: "i32 \<Rightarrow> 'a machine_scheme \<Rightarrow> (u32 \<times> 'a machine_scheme) option" where
  "alloc_page n s =
     (if free_page_num s <s n then Some (NULL, s)
      else alloc_loop (free_pages_head s) n s)"

section \<open>Properties of the address conversions\<close>

lemma push_signed_drop: "8 * signed_drop_bit 3 (8 * e :: u32) = 8 * e"
proof -
  have "push_bit 3 (signed_drop_bit 3 (push_bit 3 e)) = push_bit 3 e"
    by (rule bit_word_eqI) (auto simp: bit_simps)
  then show ?thesis by (simp add: push_bit_eq_mult mult.commute)
qed

text \<open>
  Scaled by the page size, the difference of two page pointers only depends on the struct
  they designate, whichever window they point through.
\<close>

lemma page_diff_scaled:
  "page_diff (page_plus q k) q * PAGE_SIZE = k * PAGE_SIZE"
  "page_diff (page_plus q k + VERTUAL_MEM) q * PAGE_SIZE = k * PAGE_SIZE"
proof -
  have *: "page_diff p q * PAGE_SIZE = e * (PAGE_SIZE * 0xAAAAAAAB)" if "p - q = 8 * e" for p e
  proof -
    have "page_diff p q * PAGE_SIZE = (8 * signed_drop_bit 3 (8 * e)) * (512 * 0xAAAAAAAB)"
      unfolding page_diff_def that by (simp add: mult.assoc mult.left_commute)
    also have "\<dots> = e * (PAGE_SIZE * 0xAAAAAAAB)"
      unfolding push_signed_drop by (simp add: mult.commute)
    finally show ?thesis .
  qed
  have three: "(3 * k) * (PAGE_SIZE * 0xAAAAAAAB) = k * PAGE_SIZE" for k :: u32
  proof -
    have "3 * (PAGE_SIZE * 0xAAAAAAAB) = PAGE_SIZE" by simp
    then have "k * (3 * (PAGE_SIZE * 0xAAAAAAAB)) = k * PAGE_SIZE" by (simp only:)
    then show ?thesis by (simp only: mult.assoc mult.left_commute [of 3 k])
  qed
  have "page_plus q k - q = 8 * (3 * k)" by (simp add: page_plus_def)
  from * [OF this] show "page_diff (page_plus q k) q * PAGE_SIZE = k * PAGE_SIZE"
    unfolding three .
  have "page_plus q k + VERTUAL_MEM - q = 8 * (3 * k + 0x18000000)"
    by (simp add: page_plus_def)
  from * [OF this] have "page_diff (page_plus q k + VERTUAL_MEM) q * PAGE_SIZE =
      k * PAGE_SIZE + 0x18000000 * (PAGE_SIZE * 0xAAAAAAAB)"
    unfolding distrib_right three .
  moreover have "0x18000000 * (PAGE_SIZE * 0xAAAAAAAB) = (0 :: u32)" by simp
  ultimately show "page_diff (page_plus q k + VERTUAL_MEM) q * PAGE_SIZE = k * PAGE_SIZE"
    by (simp only: add_0_right)
qed

lemma pg_to_addr:
  "pg_to_addr_la s (page_plus (pages s) k) = k * PAGE_SIZE + pt_begin s + VERTUAL_MEM"
  "pg_to_addr_la s (page_plus (pages s) k + VERTUAL_MEM) = k * PAGE_SIZE + pt_begin s + VERTUAL_MEM"
  "pg_to_addr_pa s (page_plus (pages s) k) = k * PAGE_SIZE + pt_begin s"
  "pg_to_addr_pa s (page_plus (pages s) k + VERTUAL_MEM) = k * PAGE_SIZE + pt_begin s"
  by (simp_all only: pg_to_addr_la_def pg_to_addr_pa_def page_diff_scaled)

lemma page_index_div:
  assumes "k < 0x100000"
  shows "(k * PAGE_SIZE) div PAGE_SIZE = (k :: u32)"
proof -
  have "unat k < 1048576" using assms by (simp add: word_less_nat_alt)
  then have "unat (k * PAGE_SIZE) = unat k * 4096"
    by (simp add: unat_word_ariths)
  then show ?thesis by (simp add: word_unat_eq_iff unat_div)
qed

section \<open>The free list\<close>

text \<open>A \<open>struct Page\<close> reached through the lower window, as \<open>page_init\<close> and the address conversions build them.\<close>

definition low_page :: "u32 \<Rightarrow> bool" where
  "low_page p \<longleftrightarrow> p < 0x3FFFFF00"

text \<open>\<open>free_list s ps\<close>: the free list holds exactly the pages \<open>ps\<close>, and \<open>free_page_num\<close> counts them.\<close>

definition free_list :: "'a machine_scheme \<Rightarrow> u32 list \<Rightarrow> bool" where
  "free_list s ps \<longleftrightarrow> ring s (free_pages_head s) (map page_node ps)
     \<and> free_page_num s = of_nat (length ps) \<and> length ps < 2147483648 \<and> (\<forall>p \<in> set ps. low_page p)"

definition page_run :: "u32 \<Rightarrow> nat \<Rightarrow> u32 list" where
  "page_run p n = map (\<lambda>i. page_plus p (of_nat i)) [0..<n]"

lemma node_page_node [simp]: "node_page (page_node p) = p"
  by (simp add: node_page_def page_node_def)

lemma page_node_page [simp]: "page_node (node_page n) = n"
  by (simp add: node_page_def page_node_def)

lemma page_node_inj [simp]: "page_node p = page_node q \<longleftrightarrow> p = q"
  by (simp add: page_node_def)

lemma kpa_low_page: "low_page p \<Longrightarrow> kpa p = p"
  by (simp add: low_page_def word_less_nat_alt)

lemma kpa_page_node: "low_page p \<Longrightarrow> kpa (page_node p) = page_node p"
  unfolding page_node_def low_page_def
  by (subst kpa_offset_low) (simp_all add: word_less_nat_alt)

lemma setter_frames [simp]:
  "get_next (set_free_pages p v s) = get_next s" "get_prev (set_free_pages p v s) = get_prev s"
  "get_next (set_flags p v s) = get_next s" "get_prev (set_flags p v s) = get_prev s"
  "get_next (set_ref p v s) = get_next s" "get_prev (set_ref p v s) = get_prev s"
  "get_next (set_va p v s) = get_next s" "get_prev (set_va p v s) = get_prev s"
  "get_next (st a v s) = get_next s" "get_prev (st a v s) = get_prev s"
  "get_next (s\<lparr>free_page_num := x\<rparr>) = get_next s" "get_prev (s\<lparr>free_page_num := x\<rparr>) = get_prev s"
  by (simp_all add: fun_eq_iff get_next_def get_prev_def set_free_pages_def set_flags_def
      set_ref_def set_va_def st_def)

lemma alloc_unlink_ring:
  assumes "ring h hn (xs @ ys)"
  shows "alloc_unlink (length xs) (first_or hn (xs @ ys)) (get_next h (first_or hn (xs @ ys))) h =
    (first_or hn ys, fold list_delete xs h)"
  using assms
proof (induction xs arbitrary: h)
  case Nil
  then show ?case by simp
next
  case (Cons x xs)
  have r: "ring (list_delete x h) hn (xs @ ys)"
    using kl.rep_del [of h hn "[]" x "xs @ ys"] Cons.prems by simp
  have "get_next h x = first_or hn (xs @ ys)"
    using ring_next_of(1) [of h hn "[]" x "xs @ ys"] Cons.prems by simp
  then show ?case using Cons.IH [OF r] by (simp add: Let_def)
qed

text \<open>The scan only ever looks at the first block; if that is too small it gives up.\<close>

lemma alloc_loop_fail:
  assumes "seg s ptr ns hn" and "hn = free_pages_head s" and "hn \<notin> set ns"
    and "\<not> n \<le> free_pages_of s (node_page (get_next s hn))"
  shows "alloc_loop ptr n s = Some (NULL, s)"
  using assms
proof (induction ns arbitrary: ptr)
  case Nil
  then show ?case by (subst alloc_loop.simps) simp
next
  case (Cons a ns)
  then have "get_next s ptr = a" and "a \<noteq> hn" by auto
  moreover have "alloc_loop a n s = Some (NULL, s)"
    by (rule Cons.IH) (use Cons.prems in auto)
  ultimately show ?case
    using Cons.prems by (subst alloc_loop.simps) simp
qed

lemma alloc_page_too_big:
  assumes "free_list s ps" and "length ps < unat n" and "unat n < 2147483648"
  shows "alloc_page n s = Some (NULL, s)"
  using assms by (simp add: alloc_page_def free_list_def sless_small unat_of_nat_small)

lemma alloc_page_first_too_small:
  assumes "free_list s (p # ps)" and "free_pages_of s p < n"
  shows "alloc_page n s = Some (NULL, s)"
proof -
  let ?hn = "free_pages_head s"
  have r: "ring s ?hn (map page_node (p # ps))"
    using assms(1) by (simp only: free_list_def)
  have "get_next s ?hn = page_node p"
    using kl.next_head [OF r] by simp
  moreover have "\<not> n \<le> free_pages_of s p"
    using assms(2) by (simp only: not_le)
  ultimately have "alloc_loop ?hn n s = Some (NULL, s)"
    using r ring_not_head [OF r]
    by (intro alloc_loop_fail [where ns = "map page_node (p # ps)" and hn = ?hn]) (simp_all add: ring_def)
  then show ?thesis by (simp add: alloc_page_def)
qed

text \<open>\<open>other_rings s s' hs\<close>: every ring on cells other than \<open>hs\<close> is still there in \<open>s'\<close>.\<close>

definition other_rings :: "'a list_heap_scheme \<Rightarrow> 'a list_heap_scheme \<Rightarrow> u32 list \<Rightarrow> bool" where
  "other_rings s s' ns \<longleftrightarrow> (\<forall>hn' ms. ring s hn' ms \<and> kpa ` set ns \<inter> kpa ` set (hn' # ms) = {} \<longrightarrow> ring s' hn' ms)"

lemma other_rings_links:
  "other_rings s s' ns \<Longrightarrow> get_next s'' = get_next s' \<Longrightarrow> get_prev s'' = get_prev s' \<Longrightarrow> other_rings s s'' ns"
  using ring_links [of s'' s'] by (auto simp: other_rings_def)

text \<open>
  \<open>no_victim s n ps\<close>: allocating \<open>n\<close> pages from the free list \<open>ps\<close> swaps nothing out, because the virtual
  memory is not set up, or more than one page is asked for, or no page can be swapped out.
\<close>

definition no_victim :: "'a machine_scheme \<Rightarrow> i32 \<Rightarrow> u32 list \<Rightarrow> bool" where
  "no_victim s n ps \<longleftrightarrow> \<not> (is_vmm_inited s = 1 \<and> n = 1) \<or>
     ring s (mm_vm_fifo (mm s)) [] \<and>
     kpa (mm_vm_fifo (mm s)) \<notin> kpa ` set (free_pages_head s # map page_node ps)"

lemma swap_out_none:
  assumes "ring s (mm_vm_fifo m) []"
  shows "swap_out m n s = Some s"
  using kl.next_head [OF assms] by (cases "nat (sint n)") (simp_all add: swap_out_def)

text \<open>
  A successful allocation without swapping: the first \<open>n\<close> pages leave the list, the page after
  them gets the rest of the block, nothing else changes.
\<close>

lemma alloc_page_success:
  assumes fl: "free_list s ps" and ps: "ps = p # ps'"
    and n: "0 < unat n" "unat n \<le> length ps" and fit: "n \<le> free_pages_of s p"
    and nosw: "no_victim s n ps"
    and q: "q = node_page (first_or (free_pages_head s) (map page_node (drop (unat n) ps)))"
  shows "\<exists>s' a b. alloc_page n s = Some (p + VERTUAL_MEM, s') \<and> free_list s' (drop (unat n) ps) \<and>
    other_rings s s' (free_pages_head s # map page_node ps) \<and>
    s' = s\<lparr>ln_prev := a, ln_next := b, free_page_num := free_page_num s - n,
      pg_free_pages := (pg_free_pages s)(kpa q := free_pages_of s p - n), pg_flags := (pg_flags s)(kpa q := 1)\<rparr>"
proof -
  let ?hn = "free_pages_head s" and ?k = "unat n"
  let ?xs = "map page_node (take ?k ps)" and ?ys = "map page_node (drop ?k ps)"
  have r: "ring s ?hn (map page_node ps)" and len: "length ps < 2147483648"
    and num: "free_page_num s = of_nat (length ps)" and low: "\<forall>p \<in> set ps. low_page p"
    using fl by (simp_all add: free_list_def)
  have split: "map page_node ps = ?xs @ ?ys" by (simp only: map_append [symmetric] append_take_drop_id)
  have r': "ring s ?hn (?xs @ ?ys)" using r unfolding split .
  have "first_or ?hn (map page_node ps) = page_node p" by (simp add: ps)
  then have first: "first_or ?hn (?xs @ ?ys) = page_node p" unfolding split .
  have unl: "alloc_unlink ?k (page_node p) (get_next s (page_node p)) s = (page_node q, fold list_delete ?xs s)"
    using alloc_unlink_ring [OF r'] n(2) unfolding first by (simp add: q min_absorb2)
  have rd: "ring (fold list_delete ?xs s) ?hn ?ys"
    using kl.del_all [of s ?hn "[]" ?xs ?ys] r' by simp
  obtain a b where mod: "fold list_delete ?xs s = s\<lparr>ln_prev := a, ln_next := b\<rparr>"
    using fold_modifies [of list_delete ?xs s, OF list_delete_modifies] by blast
  let ?s = "s\<lparr>ln_prev := a, ln_next := b, free_page_num := free_page_num s - n,
      pg_free_pages := (pg_free_pages s)(kpa q := free_pages_of s p - n), pg_flags := (pg_flags s)(kpa q := 1)\<rparr>"
  have oth: "other_rings s ?s (?hn # map page_node ps)"
  proof (rule other_rings_links)
    show "other_rings s (fold list_delete ?xs s) (?hn # map page_node ps)"
      using kl.del_all_frame [of s ?hn "[]" ?xs ?ys] r' unfolding other_rings_def split by auto
  qed (simp_all add: mod fun_eq_iff get_next_def get_prev_def)
  then have sw: "(if is_vmm_inited ?s = 1 \<and> n = 1 then swap_out (mm ?s) 1 ?s else Some ?s) = Some ?s"
    using nosw swap_out_none [of ?s "mm s" 1] unfolding other_rings_def no_victim_def by auto
  let ?x = "set_flags q 1 (set_free_pages q (free_pages_of s p - n) (s\<lparr>ln_prev := a, ln_next := b\<rparr>))"
  have s2: "?x\<lparr>free_page_num := free_page_num ?x - n\<rparr> = ?s" by (simp add: set_free_pages_def set_flags_def)
  have "nat (sint n) = ?k" using n(2) len by (intro nat_sint_small) simp
  then have "alloc_take p n s = Some (p + VERTUAL_MEM, ?s)"
    by (simp only: alloc_take_def Let_def unl mod prod.case node_page_node s2 sw bind.simps)
  moreover have "alloc_loop ?hn n s = alloc_take p n s"
    using kl.next_head [OF r] kl.empty_iff [OF r] fit ps
    by (subst alloc_loop.simps) simp
  moreover have "\<not> free_page_num s <s n"
    using n len by (simp add: num sless_small unat_of_nat_small)
  ultimately have "alloc_page n s = Some (p + VERTUAL_MEM, ?s)"
    by (simp add: alloc_page_def)
  moreover have "free_list ?s (drop ?k ps)"
  proof -
    have "ring ?s ?hn ?ys"
      using rd unfolding mod by (subst ring_links [of _ "s\<lparr>ln_prev := a, ln_next := b\<rparr>"])
        (simp_all add: fun_eq_iff get_next_def get_prev_def)
    moreover have "free_page_num s - n = of_nat (length ps - ?k)"
      using n(2) num by (simp add: of_nat_diff)
    ultimately show ?thesis
      using len low by (auto simp: free_list_def dest: in_set_dropD)
  qed
  ultimately show ?thesis using oth by blast
qed

text \<open>
  An allocation of one page up to the point where it swaps out, on any ring of page structs.
\<close>

lemma alloc_front:
  assumes r: "ring s (free_pages_head s) (map page_node (p # q # ps))"
    and num: "free_page_num s = of_nat n" "0 < n" "n < 2147483648" and fit: "1 \<le> free_pages_of s p"
  shows "\<exists>s' a b. alloc_page 1 s = (if is_vmm_inited s = 1 then swap_out (mm s) 1 s' else Some s') \<bind> (\<lambda>s. Some (p + VERTUAL_MEM, s)) \<and>
    ring s' (free_pages_head s) (map page_node (q # ps)) \<and> other_rings s s' (free_pages_head s # map page_node (p # q # ps)) \<and>
    s' = s\<lparr>ln_prev := a, ln_next := b, free_page_num := free_page_num s - 1,
      pg_free_pages := (pg_free_pages s)(kpa q := free_pages_of s p - 1), pg_flags := (pg_flags s)(kpa q := 1)\<rparr>"
proof -
  let ?hn = "free_pages_head s" and ?d = "list_delete (page_node p) s"
  obtain a b where mod: "?d = s\<lparr>ln_prev := a, ln_next := b\<rparr>" using list_delete_modifies by blast
  let ?s = "s\<lparr>ln_prev := a, ln_next := b, free_page_num := free_page_num s - 1,
      pg_free_pages := (pg_free_pages s)(kpa q := free_pages_of s p - 1), pg_flags := (pg_flags s)(kpa q := 1)\<rparr>"
  have lk: "get_next ?s = get_next ?d" "get_prev ?s = get_prev ?d" by (simp_all add: mod fun_eq_iff get_next_def get_prev_def)
  have "ring ?d ?hn (map page_node (q # ps))" using kl.rep_del [of s ?hn "[]" "page_node p" "map page_node (q # ps)"] r by simp
  then have r': "ring ?s ?hn (map page_node (q # ps))" unfolding ring_links [OF lk] .
  have oth: "other_rings s ?s (?hn # map page_node (p # q # ps))"
  proof (rule other_rings_links [OF _ lk])
    show "other_rings s ?d (?hn # map page_node (p # q # ps))"
      using kl.frame_del [OF r, of "page_node p"] by (simp add: other_rings_def)
  qed
  have nx: "get_next s (page_node p) = page_node q" using ring_next_of(1) [of s ?hn "[]" "page_node p" "map page_node (q # ps)"] r by simp
  have sw: "s\<lparr>ln_prev := a, ln_next := b, pg_free_pages := (pg_free_pages s)(kpa q := free_pages_of s p - 1), pg_flags := (pg_flags s)(kpa q := 1), free_page_num := free_page_num s - 1\<rparr> = ?s"
    by simp
  have "alloc_take p 1 s = (if is_vmm_inited s = 1 then swap_out (mm s) 1 ?s else Some ?s) \<bind> (\<lambda>s. Some (p + VERTUAL_MEM, s))"
    by (simp add: alloc_take_def Let_def nx mod set_flags_def set_free_pages_def sw)
  moreover have "alloc_loop ?hn 1 s = alloc_take p 1 s"
    using kl.next_head [OF r] kl.empty_iff [OF r] fit by (subst alloc_loop.simps) simp
  moreover have "\<not> free_page_num s <s 1" using num by (simp add: sless_small unat_of_nat_small)
  ultimately have "alloc_page 1 s = (if is_vmm_inited s = 1 then swap_out (mm s) 1 ?s else Some ?s) \<bind> (\<lambda>s. Some (p + VERTUAL_MEM, s))"
    by (simp add: alloc_page_def)
  then show ?thesis using r' oth by blast
qed

section \<open>Blocks\<close>

text \<open>
  The intended structure of the free list: it is cut into runs of adjacent pages, and the
  first page of each run records the length of the run in \<open>free_pages\<close>.
\<close>

definition block_pages :: "(u32 \<times> nat) list \<Rightarrow> u32 list" where
  "block_pages bs = concat (map (\<lambda>(p, k). page_run p k) bs)"

definition block_list :: "'a machine_scheme \<Rightarrow> (u32 \<times> nat) list \<Rightarrow> bool" where
  "block_list s bs \<longleftrightarrow> free_list s (block_pages bs) \<and>
     (\<forall>(p, k) \<in> set bs. 0 < k \<and> free_pages_of s p = of_nat k)"

lemma length_page_run [simp]: "length (page_run p k) = k"
  by (simp add: page_run_def)

lemma page_plus_add: "page_plus (page_plus p i) j = page_plus p (i + j)"
  by (simp add: page_plus_def algebra_simps)

lemma page_plus_0 [simp]: "page_plus p 0 = p"
  by (simp add: page_plus_def)

lemma drop_page_run: "drop n (page_run p k) = page_run (page_plus p (of_nat n)) (k - n)"
proof (rule nth_equalityI)
  show "length (drop n (page_run p k)) = length (page_run (page_plus p (of_nat n)) (k - n))" by simp
next
  fix i
  assume "i < length (drop n (page_run p k))"
  then have "n + i < k" and "i < k - n" by simp_all
  then show "drop n (page_run p k) ! i = page_run (page_plus p (of_nat n)) (k - n) ! i"
    by (simp add: page_run_def page_plus_add)
qed

lemma take_page_run: "n \<le> k \<Longrightarrow> take n (page_run p k) = page_run p n"
  by (rule nth_equalityI) (simp_all add: page_run_def)

lemma page_run_append: "n \<le> k \<Longrightarrow> page_run p n @ page_run (page_plus p (of_nat n)) (k - n) = page_run p k"
  using append_take_drop_id [of n "page_run p k"] by (simp add: take_page_run drop_page_run)

lemma page_run_Cons: "0 < k \<Longrightarrow> page_run p k = p # page_run (page_plus p 1) (k - 1)"
  using page_run_append [of 1 k p] by (simp add: page_run_def)

lemma block_pages_Cons [simp]: "block_pages ((p, k) # bs) = page_run p k @ block_pages bs"
  by (simp add: block_pages_def)

lemma block_pages_Nil [simp]: "block_pages [] = []"
  by (simp add: block_pages_def)

lemma block_heads: "(p, k) \<in> set bs \<Longrightarrow> 0 < k \<Longrightarrow> p \<in> set (block_pages bs)"
  by (force simp: block_pages_def page_run_Cons)

lemma free_list_distinct:
  assumes "free_list s ps"
  shows "distinct ps" and "\<And>p. p \<in> set ps \<Longrightarrow> kpa p = p"
    and "\<And>p. p \<in> set ps \<Longrightarrow> page_node p \<noteq> kpa (free_pages_head s)"
proof -
  have low: "low_page p" if "p \<in> set ps" for p using assms that by (simp add: free_list_def)
  then show "\<And>p. p \<in> set ps \<Longrightarrow> kpa p = p" by (simp add: kpa_low_page)
  have "map kpa (map page_node ps) = map page_node ps"
    using low by (simp add: kpa_page_node)
  moreover have "distinct (map kpa (free_pages_head s # map page_node ps))"
    using assms unfolding free_list_def by (blast intro: kl.rep_distinct)
  ultimately have d: "distinct (map page_node ps)" "kpa (free_pages_head s) \<notin> set (map page_node ps)"
    by (simp_all del: map_map)
  show "distinct ps" using d(1) by (simp add: distinct_map)
  show "\<And>p. p \<in> set ps \<Longrightarrow> page_node p \<noteq> kpa (free_pages_head s)"
    using d(2) by (metis image_eqI set_map)
qed

lemma alloc_page_block:
  assumes bl: "block_list s ((p, k) # bs)" and n: "0 < unat n" "unat n < k"
    and nosw: "no_victim s n (block_pages ((p, k) # bs))"
  shows "\<exists>s' a b. alloc_page n s = Some (p + VERTUAL_MEM, s') \<and>
    block_list s' ((page_plus p n, k - unat n) # bs) \<and>
    other_rings s s' (free_pages_head s # map page_node (block_pages ((p, k) # bs))) \<and>
    s' = s\<lparr>ln_prev := a, ln_next := b, free_page_num := free_page_num s - n,
      pg_free_pages := (pg_free_pages s)(page_plus p n := of_nat (k - unat n)),
      pg_flags := (pg_flags s)(page_plus p n := 1)\<rparr>"
proof -
  let ?ps = "block_pages ((p, k) # bs)" and ?q = "page_plus p n"
  have fl: "free_list s ?ps" and sz: "\<forall>(p, k) \<in> set ((p, k) # bs). 0 < k \<and> free_pages_of s p = of_nat k"
    using bl by (simp_all add: block_list_def)
  have len: "length ?ps < 2147483648" using fl by (simp only: free_list_def)
  have k: "k < 2147483648" using len by simp
  have dr: "drop (unat n) ?ps = ?q # page_run (page_plus ?q 1) (k - unat n - 1) @ block_pages bs"
    using n page_run_Cons [of "k - unat n" ?q] by (simp add: drop_page_run)
  have fit: "n \<le> free_pages_of s p"
    using sz n k by (simp add: word_le_nat_alt unat_of_nat_small)
  have kq: "kpa ?q = ?q"
    by (rule free_list_distinct(2) [OF fl]) (use dr in_set_dropD [of ?q "unat n" ?ps] in simp)
  have "free_pages_of s p - n = of_nat (k - unat n)"
    using sz n(2) by (simp add: of_nat_diff)
  then obtain s' a b where al: "alloc_page n s = Some (p + VERTUAL_MEM, s')"
    and fl': "free_list s' (drop (unat n) ?ps)"
    and oth: "other_rings s s' (free_pages_head s # map page_node ?ps)"
    and s': "s' = s\<lparr>ln_prev := a, ln_next := b, free_page_num := free_page_num s - n,
      pg_free_pages := (pg_free_pages s)(?q := of_nat (k - unat n)), pg_flags := (pg_flags s)(?q := 1)\<rparr>"
    using alloc_page_success [OF fl _ n(1) _ fit nosw refl] n(2) dr kq page_run_Cons [of k p]
    by (auto simp del: fun_upd_apply)
  have ne: "?q \<noteq> p'" if "(p', k') \<in> set bs" for p' k'
  proof -
    have "p' \<in> set (block_pages bs)" using block_heads [OF that] sz that by auto
    moreover have "distinct (drop (unat n) ?ps)" by (rule distinct_drop [OF free_list_distinct(1) [OF fl]])
    ultimately show ?thesis unfolding dr by auto
  qed
  have "free_pages_of s' p' = of_nat k'" if "(p', k') \<in> set bs" for p' k'
  proof -
    have "kpa p' = p'"
      by (rule free_list_distinct(2) [OF fl]) (use block_heads [OF that] sz that in auto)
    then show ?thesis using ne [OF that] sz that by (auto simp: s' free_pages_of_def)
  qed
  moreover have "free_pages_of s' ?q = of_nat (k - unat n)"
    by (simp add: s' free_pages_of_def kq)
  ultimately have "block_list s' ((?q, k - unat n) # bs)"
    using fl' n sz by (auto simp: block_list_def drop_page_run)
  with al s' oth show ?thesis by blast
qed

section \<open>What freeing does to the list\<close>

text \<open>
  The insertion point is the first page above the freed one, or the last page of the list
  if there is none; \<open>NULL\<close> on an empty list.
\<close>

lemma free_page_walk_seg:
  assumes "seg h x (map page_node ps) hn" and "hn \<notin> set (map page_node ps)"
  shows "free_page_walk page hn x target h =
    Some (case dropWhile (\<lambda>q. \<not> page < q) ps of q # _ \<Rightarrow> q | [] \<Rightarrow> last (target # ps))"
  using assms
proof (induction ps arbitrary: x target)
  case Nil
  then show ?case by (subst free_page_walk.simps) simp
next
  case (Cons a ps)
  then have "get_next h x = page_node a" and "page_node a \<noteq> hn" by auto
  moreover have "free_page_walk page hn (page_node a) a h =
      Some (case dropWhile (\<lambda>q. \<not> page < q) ps of q # _ \<Rightarrow> q | [] \<Rightarrow> last (a # ps))"
    by (rule Cons.IH) (use Cons.prems in auto)
  ultimately show ?case
    by (subst free_page_walk.simps) (simp add: Let_def del: dropWhile_eq_Nil_conv split: list.split)
qed

lemma free_page_walk_ring:
  assumes "free_list s ps"
  shows "free_page_walk page (free_pages_head s) (free_pages_head s) NULL s =
    Some (case dropWhile (\<lambda>q. \<not> page < q) ps of q # _ \<Rightarrow> q | [] \<Rightarrow> last (NULL # ps))"
  using assms kl.head_fresh unfolding free_list_def by (intro free_page_walk_seg) (auto simp: ring_def)

lemma page_plus_eq_iff:
  assumes "i < 0x8000000" and "j < 0x8000000"
  shows "page_plus p (of_nat i) = page_plus p (of_nat j) \<longleftrightarrow> i = j"
proof -
  have "unat (sizeof_Page * of_nat k :: u32) = 24 * k" if "k < 0x8000000" for k
    using that by (simp add: unat_word_ariths unat_of_nat_small)
  then have "(sizeof_Page * of_nat i :: u32) = sizeof_Page * of_nat j \<longleftrightarrow> i = j"
    using assms by (metis mult_cancel1 zero_neq_numeral)
  then show ?thesis by (simp add: page_plus_def)
qed

lemma distinct_page_run:
  assumes "n \<le> 0x8000000" shows "distinct (page_run p n)"
  using assms page_plus_eq_iff by (force simp: page_run_def distinct_map inj_on_def)

lemma free_list_cong:
  assumes "get_next s' = get_next s" and "get_prev s' = get_prev s"
    and "free_page_num s' = free_page_num s" and "free_pages_head s' = free_pages_head s"
  shows "free_list s' ps = free_list s ps"
  using ring_links [OF assms(1,2)] assms(3,4) by (simp add: free_list_def)

lemma merge_frames [simp]:
  "get_next (merge_down p n t s) = get_next s" "get_prev (merge_down p n t s) = get_prev s"
  "get_next (merge_up p s) = get_next s" "get_prev (merge_up p s) = get_prev s"
  "free_page_num (merge_down p n t s) = free_page_num s" "free_page_num (merge_up p s) = free_page_num s"
  "free_pages_head (merge_down p n t s) = free_pages_head s" "free_pages_head (merge_up p s) = free_pages_head s"
  by (simp_all add: merge_down_def merge_up_def Let_def) (simp_all add: set_free_pages_def)

text \<open>\<open>fresh_run s ps p n\<close>: the \<open>n\<close> pages from \<open>p\<close> on can be added to a free list that holds \<open>ps\<close>.\<close>

definition fresh_run :: "'a machine_scheme \<Rightarrow> u32 list \<Rightarrow> u32 \<Rightarrow> nat \<Rightarrow> bool" where
  "fresh_run s ps p n \<longleftrightarrow> 0 < n \<and> n \<le> 0x8000000 \<and> length ps + n < 2147483648 \<and>
     (\<forall>q \<in> set (page_run p n). low_page q \<and> q \<notin> set ps \<and> page_node q \<noteq> kpa (free_pages_head s))"

lemma free_page_linked:
  assumes fl: "free_list s (as @ t # bs)" and as: "\<forall>a \<in> set as. \<not> p < a" and t: "p < t"
    and fr: "fresh_run s (as @ t # bs) p n"
  shows "\<exists>a b. let s1 = s\<lparr>ln_prev := a, ln_next := b, pg_flags := (pg_flags s)(p := 0),
      pg_free_pages := (pg_free_pages s)(p := of_nat n), free_page_num := free_page_num s + of_nat n\<rparr>
    in free_page p (of_nat n) s = Some (merge_up p (merge_down p (of_nat n) t s1)) \<and>
      free_list s1 (as @ page_run p n @ t # bs)"
proof -
  let ?hn = "free_pages_head s" and ?run = "map page_node (page_run p n)"
  let ?ins = "list_insert_before (page_node t)"
  have r: "ring s ?hn (map page_node as @ map page_node (t # bs))"
    and num: "free_page_num s = of_nat (length (as @ t # bs))"
    and low: "\<forall>q \<in> set (as @ t # bs). low_page q"
    using fl by (simp_all add: free_list_def)
  have n: "0 < n" "n \<le> 0x8000000" and run: "\<And>q. q \<in> set (page_run p n) \<Longrightarrow>
      low_page q \<and> q \<notin> set (as @ t # bs) \<and> page_node q \<noteq> kpa ?hn"
    using fr by (auto simp: fresh_run_def)
  have p: "kpa p = p" using run [of p] n(1) by (simp add: kpa_low_page page_run_Cons)
  have "t \<noteq> NULL" using t by (metis word_not_simps(1))
  moreover have "dropWhile (\<lambda>q. \<not> p < q) (as @ t # bs) = t # bs"
    using as t by (subst dropWhile_append2) auto
  ultimately have walk: "free_page_walk p ?hn ?hn NULL s = Some t"
    using free_page_walk_ring [OF fl, of p] by simp
  have link: "free_page_link p (of_nat n) t s = fold ?ins ?run s"
    using n(2) by (simp add: free_page_link_def page_run_def fold_map comp_def nat_sint_small unat_of_nat_small)
  have kn: "kpa (page_node q) = page_node q" if "q \<in> set (page_run p n) \<union> set (as @ t # bs)" for q
    using that run low by (blast intro: kpa_page_node)
  have m: "map kpa ?run = ?run" "kpa ` set (?hn # map page_node as @ map page_node (t # bs)) =
      insert (kpa ?hn) (page_node ` set (as @ t # bs))"
    by (simp add: kn, simp only: set_append set_map list.set image_Un image_insert image_image)
       (simp add: kn image_Un cong: image_cong)
  have dis: "distinct ?run" using distinct_page_run [OF n(2)] by (simp add: distinct_map inj_on_def)
  have disj: "set ?run \<inter> insert (kpa ?hn) (page_node ` set (as @ t # bs)) = {}"
    using run by fastforce
  have ring: "ring (fold ?ins ?run s) ?hn (map page_node as @ ?run @ map page_node (t # bs))"
  proof (rule kl.ins_before_all [OF r])
    show "page_node t = first_or ?hn (map page_node (t # bs))" by simp
    show "distinct (map kpa ?run)" unfolding m(1) by (rule dis)
    have "kpa ` set ?run = set ?run" using m(1) by (metis set_map)
    then show "kpa ` set ?run \<inter> kpa ` set (?hn # map page_node as @ map page_node (t # bs)) = {}"
      unfolding m(2) using disj by (simp only:)
  qed
  obtain a b where mod: "fold ?ins ?run s = s\<lparr>ln_prev := a, ln_next := b\<rparr>"
    using fold_modifies [of ?ins ?run s, OF list_insert_before_modifies] by blast
  let ?s1 = "s\<lparr>ln_prev := a, ln_next := b, pg_flags := (pg_flags s)(p := 0),
      pg_free_pages := (pg_free_pages s)(p := of_nat n), free_page_num := free_page_num s + of_nat n\<rparr>"
  have "free_page p (of_nat n) s = Some (merge_up p (merge_down p (of_nat n) t ?s1))"
    using \<open>t \<noteq> NULL\<close> by (simp add: free_page_def walk link mod set_flags_def set_free_pages_def p Let_def)
  moreover have "free_list ?s1 (as @ page_run p n @ t # bs)"
  proof -
    have "ring ?s1 ?hn (map page_node (as @ page_run p n @ t # bs))"
      using ring unfolding mod by (subst ring_links [of _ "s\<lparr>ln_prev := a, ln_next := b\<rparr>"])
        (simp_all add: fun_eq_iff get_next_def get_prev_def)
    then show ?thesis
      using fr run low by (auto simp: free_list_def num fresh_run_def)
  qed
  ultimately show ?thesis by (auto simp: Let_def)
qed

text \<open>
  The prepared state is again a block list, with the freed run as a block of its own; the
  two merges then combine it with its neighbours.
\<close>

lemma block_pages_append [simp]: "block_pages (as @ bs) = block_pages as @ block_pages bs"
  by (simp add: block_pages_def)

lemma block_list_frame:
  assumes "free_list s' (block_pages bs)"
    and "\<And>q k. (q, k) \<in> set bs \<Longrightarrow> 0 < k \<and> free_pages_of s' q = of_nat k"
  shows "block_list s' bs"
  using assms by (auto simp: block_list_def)

lemma block_list_kpa:
  assumes "block_list s bs" and "(q, k) \<in> set bs"
  shows "kpa q = q" and "0 < k" and "free_pages_of s q = of_nat k" and "q \<in> set (block_pages bs)"
proof -
  show k: "0 < k" and "free_pages_of s q = of_nat k" using assms by (auto simp: block_list_def)
  show q: "q \<in> set (block_pages bs)" by (rule block_heads [OF assms(2) k])
  then show "kpa q = q" using assms(1) free_list_distinct(2) by (auto simp: block_list_def)
qed

lemma merge_down_block:
  assumes bl: "block_list s (as @ (p, n) # (t, m) # bs)"
    and n: "n + m < 4294967296"
  shows "block_list (merge_down p (of_nat n) t s)
    (as @ (if page_plus p (of_nat n) = t then (p, n + m) # bs else (p, n) # (t, m) # bs))"
proof (cases "page_plus p (of_nat n) = t")
  case True
  have fl: "free_list s (block_pages (as @ (p, n) # (t, m) # bs))" using bl by (simp add: block_list_def)
  have "page_run p (n + m) = page_run p n @ page_run t m"
    using page_run_append [of n "n + m" p] True by simp
  then have "free_list (merge_down p (of_nat n) t s) (block_pages (as @ (p, n + m) # bs))"
    using fl by (subst free_list_cong [of _ s]) simp_all
  moreover have "free_pages_of (merge_down p (of_nat n) t s) q = of_nat k \<and> 0 < k"
    if "(q, k) \<in> set (as @ (p, n + m) # bs)" for q k
  proof -
    note P = block_list_kpa [OF bl, of p n] and T = block_list_kpa [OF bl, of t m]
    have d: "distinct (block_pages (as @ (p, n) # (t, m) # bs))" by (rule free_list_distinct(1) [OF fl])
    have "0 < n" "0 < m" using P T by auto
    then have ne: "q \<noteq> t" "q \<noteq> p" if "(q, k) \<in> set as \<union> set bs"
      using d that block_heads [of q k as] block_heads [of q k bs] block_list_kpa [OF bl, of q k]
      by (auto simp: page_run_Cons)
    have "p \<noteq> t" using d \<open>0 < n\<close> \<open>0 < m\<close> by (auto simp: page_run_Cons)
    then show ?thesis
      using that ne block_list_kpa [OF bl, of q k] P T
      by (auto simp: merge_down_def True set_free_pages_def free_pages_of_def Let_def)
  qed
  ultimately show ?thesis using True by (auto intro: block_list_frame)
qed (use bl in \<open>simp add: merge_down_def\<close>)

text \<open>The page before the freed one as \<open>free_page\<close> sees it; on the first block this is the list head read as a page.\<close>

definition page_before :: "'a machine_scheme \<Rightarrow> (u32 \<times> nat) list \<Rightarrow> u32" where
  "page_before s as = node_page (last (free_pages_head s # map page_node (block_pages as)))"

definition joins_up :: "'a machine_scheme \<Rightarrow> (u32 \<times> nat) list \<Rightarrow> u32 \<Rightarrow> bool" where
  "joins_up s as p \<longleftrightarrow> (let q = page_before s as in page_plus q (free_pages_of s q) = p)"

lemma merge_up_apart:
  assumes "block_list s (as @ (p, n) # bs)" and "\<not> joins_up s as p"
  shows "merge_up p s = s"
proof -
  have "0 < n" and "ring s (free_pages_head s) (map page_node (block_pages (as @ (p, n) # bs)))"
    using assms(1) by (auto simp: block_list_def free_list_def)
  then have "get_prev s (page_node p) = last (free_pages_head s # map page_node (block_pages as))"
    using ring_next_of(2) [of s _ "map page_node (block_pages as)" "page_node p"] by (simp add: page_run_Cons)
  with assms(2) show ?thesis by (simp add: merge_up_def joins_up_def page_before_def Let_def)
qed

lemma merge_up_single:
  assumes bl: "block_list s (as @ (q, 1) # (p, n) # bs)" and "page_plus q 1 = p" and "n < 4294967295"
  shows "block_list (merge_up p s) (as @ (q, n + 1) # bs)"
proof -
  have fl: "free_list s (block_pages (as @ (q, 1) # (p, n) # bs))" using bl by (simp add: block_list_def)
  have r1: "page_run q 1 = [q]" by (simp add: page_run_def)
  note P = block_list_kpa [OF bl, of p n] and Q = block_list_kpa [OF bl, of q 1]
  have ring: "ring s (free_pages_head s) (map page_node (block_pages (as @ (q, 1) # (p, n) # bs)))"
    using fl by (simp only: free_list_def)
  have "get_prev s (page_node p) = page_node q"
    using ring P r1 ring_next_of(2) [of s _ "map page_node (block_pages as) @ [page_node q]" "page_node p"]
    by (simp add: page_run_Cons)
  then have up: "merge_up p s = set_free_pages p 0 (set_free_pages q (1 + of_nat n) s)"
    using assms(2) P Q by (simp add: merge_up_def Let_def)
  have "page_run q (n + 1) = q # page_run p n" using page_run_Cons [of "n + 1" q] assms(2) by simp
  then have "free_list (merge_up p s) (block_pages (as @ (q, n + 1) # bs))"
    using fl r1 by (subst free_list_cong [of _ s]) simp_all
  moreover have "free_pages_of (merge_up p s) x = of_nat k \<and> 0 < k" if "(x, k) \<in> set (as @ (q, n + 1) # bs)" for x k
  proof -
    have d: "distinct (block_pages (as @ (q, 1) # (p, n) # bs))" by (rule free_list_distinct(1) [OF fl])
    have "0 < n" using P by auto
    then have ne: "x \<noteq> q" "x \<noteq> p" if "(x, k) \<in> set as \<union> set bs"
      using d that r1 block_heads [of x k as] block_heads [of x k bs] block_list_kpa [OF bl, of x k]
      by (auto simp: page_run_Cons)
    have "q \<noteq> p" using d r1 \<open>0 < n\<close> by (auto simp: page_run_Cons)
    then show ?thesis
      using that ne block_list_kpa [OF bl, of x k] P Q
      by (auto simp: up set_free_pages_def free_pages_of_def)
  qed
  ultimately show ?thesis by (auto intro: block_list_frame)
qed

lemma free_page_block_linked:
  assumes bl: "block_list s (as @ (t, m) # bs)"
    and "\<forall>a \<in> set (block_pages as). \<not> p < a" and "p < t"
    and fr: "fresh_run s (block_pages (as @ (t, m) # bs)) p n"
  shows "\<exists>s1. free_page p (of_nat n) s = Some (merge_up p (merge_down p (of_nat n) t s1)) \<and>
    block_list s1 (as @ (p, n) # (t, m) # bs) \<and>
    pg_free_pages s1 = (pg_free_pages s)(p := of_nat n) \<and> free_pages_head s1 = free_pages_head s"
proof -
  have m: "0 < m" using block_list_kpa [OF bl, of t m] by simp
  let ?bs = "page_run (page_plus t 1) (m - 1) @ block_pages bs"
  have pgs: "block_pages (as @ (t, m) # bs) = block_pages as @ t # ?bs"
    using m by (simp add: page_run_Cons)
  have fl: "free_list s (block_pages as @ t # ?bs)" using bl unfolding block_list_def pgs by blast
  obtain a b where s1: "let s1 = s\<lparr>ln_prev := a, ln_next := b, pg_flags := (pg_flags s)(p := 0),
      pg_free_pages := (pg_free_pages s)(p := of_nat n), free_page_num := free_page_num s + of_nat n\<rparr>
    in free_page p (of_nat n) s = Some (merge_up p (merge_down p (of_nat n) t s1)) \<and>
      free_list s1 (block_pages as @ page_run p n @ t # ?bs)"
    using free_page_linked [OF fl assms(2,3)] fr unfolding pgs by blast
  let ?s1 = "s\<lparr>ln_prev := a, ln_next := b, pg_flags := (pg_flags s)(p := 0),
      pg_free_pages := (pg_free_pages s)(p := of_nat n), free_page_num := free_page_num s + of_nat n\<rparr>"
  have n: "0 < n" and run: "\<And>q. q \<in> set (page_run p n) \<Longrightarrow> low_page q \<and> q \<notin> set (block_pages (as @ (t, m) # bs))"
    using fr unfolding fresh_run_def by blast+
  have p: "kpa p = p" "p \<notin> set (block_pages (as @ (t, m) # bs))"
    using run [of p] n by (simp_all add: kpa_low_page page_run_Cons)
  have "block_list ?s1 (as @ (p, n) # (t, m) # bs)"
  proof (rule block_list_frame)
    show "free_list ?s1 (block_pages (as @ (p, n) # (t, m) # bs))"
      using s1 m by (simp add: Let_def page_run_Cons)
    show "0 < k \<and> free_pages_of ?s1 q = of_nat k" if "(q, k) \<in> set (as @ (p, n) # (t, m) # bs)" for q k
    proof (cases "(q, k) = (p, n)")
      case False
      then have "(q, k) \<in> set (as @ (t, m) # bs)" using that by auto
      note Q = block_list_kpa [OF bl this]
      then have "q \<noteq> p" using p by auto
      then show ?thesis using Q by (simp add: free_pages_of_def)
    qed (use n p in \<open>simp add: free_pages_of_def\<close>)
  qed
  then show ?thesis using s1 by (intro exI [of _ ?s1]) (simp add: Let_def)
qed

text \<open>The list heads are kernel variables, in the upper window.\<close>

definition head_ok :: "'a machine_scheme \<Rightarrow> bool" where
  "head_ok s \<longleftrightarrow> 0xC0000010 \<le> free_pages_head s"

lemma page_before_apart:
  assumes "head_ok s" and "\<And>a. a \<in> set (block_pages as) \<Longrightarrow> kpa a = a \<and> a \<noteq> q"
    and "page_node q \<noteq> kpa (free_pages_head s)"
  shows "kpa (page_before s as) \<noteq> q"
proof (cases "block_pages as = []")
  case True
  have "VERTUAL_MEM \<le> free_pages_head s - 16" and "VERTUAL_MEM \<le> free_pages_head s"
    using assms(1) by (simp_all add: head_ok_def word_le_nat_alt unat_sub)
  then have "kpa (page_before s as) = kpa (free_pages_head s) - 16"
    by (simp add: page_before_def True node_page_def kpa_def)
  then show ?thesis using assms(3) by (auto simp: page_node_def)
next
  case False
  then have "page_before s as = last (block_pages as)"
    by (simp add: page_before_def last_map)
  then show ?thesis using assms(2) [OF last_in_set [OF False]] by simp
qed

lemma joins_up_cong:
  assumes "free_pages_head s' = free_pages_head s"
    and "pg_free_pages s' (kpa (page_before s as)) = pg_free_pages s (kpa (page_before s as))"
  shows "joins_up s' as p = joins_up s as p"
  using assms by (simp add: joins_up_def page_before_def free_pages_of_def Let_def)

lemma free_page_block_merged:
  assumes bl: "block_list s (as @ (t, m) # bs)"
    and before: "\<forall>a \<in> set (block_pages as). \<not> p < a" and t: "p < t"
    and fr: "fresh_run s (block_pages (as @ (t, m) # bs)) p n"
    and hd: "head_ok s"
  shows "\<exists>s2. free_page p (of_nat n) s = Some (merge_up p s2) \<and> joins_up s2 as p = joins_up s as p \<and> block_list s2
    (as @ (if page_plus p (of_nat n) = t then (p, n + m) # bs else (p, n) # (t, m) # bs))"
proof -
  obtain s1 where s1: "free_page p (of_nat n) s = Some (merge_up p (merge_down p (of_nat n) t s1))"
    "block_list s1 (as @ (p, n) # (t, m) # bs)" "pg_free_pages s1 = (pg_free_pages s)(p := of_nat n)"
    "free_pages_head s1 = free_pages_head s"
    using free_page_block_linked [OF bl before t fr] by blast
  let ?s2 = "merge_down p (of_nat n) t s1"
  have fl: "free_list s (block_pages (as @ (t, m) # bs))" using bl by (simp add: block_list_def)
  have n: "0 < n" and len: "length (block_pages (as @ (t, m) # bs)) + n < 2147483648"
    and p: "low_page p" "p \<notin> set (block_pages (as @ (t, m) # bs))" "page_node p \<noteq> kpa (free_pages_head s)"
    using fr by (auto simp: fresh_run_def page_run_Cons)
  note T = block_list_kpa [OF bl, of t m]
  have bl2: "block_list ?s2 (as @ (if page_plus p (of_nat n) = t then (p, n + m) # bs else (p, n) # (t, m) # bs))"
    using merge_down_block [OF s1(2)] len by simp
  have as: "kpa a = a \<and> a \<noteq> p \<and> a \<noteq> t" if "a \<in> set (block_pages as)" for a
    using that p(2) free_list_distinct(1,2) [OF fl] T by (auto simp: page_run_Cons)
  have "page_node t \<noteq> kpa (free_pages_head s)" using T free_list_distinct(3) [OF fl] by simp
  then have "kpa (page_before s as) \<noteq> p" "kpa (page_before s as) \<noteq> t"
    using page_before_apart [OF hd, of as] as p(3) by blast+
  then have "joins_up ?s2 as p = joins_up s as p"
    using T p(1) s1(3,4) kpa_low_page
    by (intro joins_up_cong) (auto simp: merge_down_def set_free_pages_def Let_def)
  with s1(1) bl2 show ?thesis by blast
qed

lemma free_page_block_apart:
  assumes "block_list s (as @ (t, m) # bs)" "\<forall>a \<in> set (block_pages as). \<not> p < a" "p < t"
    "fresh_run s (block_pages (as @ (t, m) # bs)) p n" "head_ok s" and nj: "\<not> joins_up s as p"
  shows "\<exists>s'. free_page p (of_nat n) s = Some s' \<and> block_list s'
    (as @ (if page_plus p (of_nat n) = t then (p, n + m) # bs else (p, n) # (t, m) # bs))"
proof -
  let ?bs = "if page_plus p (of_nat n) = t then (p, n + m) # bs else (p, n) # (t, m) # bs"
  obtain s2 where s2: "free_page p (of_nat n) s = Some (merge_up p s2)" "joins_up s2 as p = joins_up s as p" "block_list s2 (as @ ?bs)"
    using free_page_block_merged [OF assms(1-5)] by blast
  have "merge_up p s2 = s2" using s2(2,3) nj by (auto intro!: merge_up_apart split: if_splits)
  with s2 show ?thesis by simp
qed

text \<open>What freeing the \<open>n\<close> pages from \<open>p\<close> on should do to the blocks: join the block behind, and the block before if it is one page.\<close>

definition free_block :: "(u32 \<times> nat) list \<Rightarrow> u32 \<Rightarrow> nat \<Rightarrow> (u32 \<times> nat) list \<Rightarrow> (u32 \<times> nat) list" where
  "free_block as p n bs =
     (let (n, bs) = (case bs of (t, m) # bs' \<Rightarrow> if page_plus p (of_nat n) = t then (n + m, bs') else (n, bs) | [] \<Rightarrow> (n, bs))
      in if as \<noteq> [] \<and> snd (last as) = 1 \<and> page_plus (fst (last as)) 1 = p then butlast as @ (fst (last as), n + 1) # bs
         else as @ (p, n) # bs)"

lemma joins_up_single:
  assumes "block_list s (as @ (q, 1) # bs)"
  shows "joins_up s (as @ [(q, 1)]) p \<longleftrightarrow> page_plus q 1 = p"
proof -
  have "page_run q 1 = [q]" by (simp add: page_run_def)
  then have "page_before s (as @ [(q, 1)]) = q" by (simp add: page_before_def)
  moreover have "free_pages_of s q = 1" using block_list_kpa [OF assms, of q 1] by simp
  ultimately show ?thesis by (simp add: joins_up_def)
qed

text \<open>
  C10. Freeing \<open>n\<close> pages from \<open>p\<close> on where the list has a page above them: the search ends, the run is linked in address order, and it is merged with the next block exactly if it is adjacent to it
  and with the block before exactly if that one is adjacent and a single page. The code looks for a block before at its last page, where only a block of one page has its size; the hypothesis on \<open>joins_up\<close>
  excludes an old size left at the last page of a longer block. A run above all free pages is a property of its own.
\<close>

theorem free_page_block:
  assumes bl: "block_list s (as @ (t, m) # bs)"
    and before: "\<forall>a \<in> set (block_pages as). \<not> p < a" and t: "p < t"
    and fr: "fresh_run s (block_pages (as @ (t, m) # bs)) p n" and hd: "head_ok s"
    and stale: "as = [] \<or> snd (last as) \<noteq> 1 \<Longrightarrow> \<not> joins_up s as p"
  shows "\<exists>s'. free_page p (of_nat n) s = Some s' \<and> block_list s' (free_block as p n ((t, m) # bs))"
proof -
  let ?n = "if page_plus p (of_nat n) = t then n + m else n" and ?bs = "if page_plus p (of_nat n) = t then bs else (t, m) # bs"
  obtain s2 where s2: "free_page p (of_nat n) s = Some (merge_up p s2)" "joins_up s2 as p = joins_up s as p" "block_list s2 (as @ (p, ?n) # ?bs)"
    using free_page_block_merged [OF bl before t fr hd] by (auto split: if_splits)
  show ?thesis
  proof (cases "joins_up s as p")
    case True
    then have "as \<noteq> []" "snd (last as) = 1" using stale by blast+
    then have as: "as = butlast as @ [(fst (last as), 1)]" by (metis append_butlast_last_id prod.collapse)
    define as' q where "as' = butlast as" and "q = fst (last as)"
    have as: "as = as' @ [(q, 1)]" unfolding as'_def q_def by (rule as)
    have q: "page_plus q 1 = p" using joins_up_single [of s2 as' q] s2(2,3) True by (simp add: as)
    have "length (block_pages (as @ (p, ?n) # ?bs)) < 2147483648" using s2(3) by (simp only: block_list_def free_list_def)
    then have "?n < 4294967295" by (simp add: length_page_run)
    then have "block_list (merge_up p s2) (as' @ (q, ?n + 1) # ?bs)" using s2(3) q by (intro merge_up_single) (simp_all add: as)
    then show ?thesis using s2(1) q by (simp add: free_block_def as split: if_splits)
  next
    case False
    then have "merge_up p s2 = s2" using merge_up_apart [OF s2(3)] s2(2) by blast
    moreover have "\<not> (as \<noteq> [] \<and> snd (last as) = 1 \<and> page_plus (fst (last as)) 1 = p)"
      using False joins_up_single [of s2 "butlast as" "fst (last as)" _ p] s2(2,3)
      by (cases as rule: rev_cases) (auto simp: prod_eq_iff)
    ultimately show ?thesis using s2(1,3) by (auto simp: free_block_def split: if_splits)
  qed
qed

text \<open>A run inside the lower window does not wrap around.\<close>

lemma run_no_wrap:
  assumes "\<forall>q \<in> set (page_run p k). low_page q" and "i < k"
  shows "unat (page_plus p (of_nat i)) = unat p + 24 * i"
  using assms(2)
proof (induction i)
  case (Suc i)
  then have IH: "unat (page_plus p (of_nat i)) = unat p + 24 * i" and "i < k" by simp_all
  then have "page_plus p (of_nat i) < 0x3FFFFF00"
    using assms(1) by (force simp: page_run_def low_page_def)
  then have "unat (page_plus p (of_nat i)) + 24 < 4294967296"
    by (simp add: word_less_nat_alt)
  then have "unat (page_plus p (of_nat i) + 24) = unat (page_plus p (of_nat i)) + 24"
    by (simp add: unat_word_ariths)
  moreover have "page_plus p (of_nat (Suc i)) = page_plus p (of_nat i) + 24"
    by (simp add: page_plus_def algebra_simps)
  ultimately show ?case using IH by simp
qed simp

lemma run_bound:
  assumes "\<forall>q \<in> set (page_run p k). low_page q"
  shows "k \<le> 0x8000000"
proof (cases k)
  case (Suc i)
  have "page_plus p (of_nat i) < 0x3FFFFF00"
    using assms Suc by (auto simp: page_run_def low_page_def)
  then show ?thesis using run_no_wrap [OF assms, of i] Suc by (simp add: word_less_nat_alt)
qed simp

lemma alloc_head_ok:
  assumes "alloc_page n s = Some (r, s')" and "s' = s\<lparr>ln_prev := a, ln_next := b, free_page_num := c,
      pg_free_pages := d, pg_flags := e\<rparr>"
  shows "head_ok s' = head_ok s" "pages s' = pages s" "pt_begin s' = pt_begin s"
  by (simp_all add: assms head_ok_def)

text \<open>
  C2. Allocating fewer pages than the first block holds, and freeing them again through the
  address of the first one, gives back the same block list: nothing is lost, nothing is
  handed out twice, and the block is whole again. (The pointer \<open>alloc_page\<close> returns lies in
  the upper window; the callers convert it to an address and back.)
\<close>

theorem alloc_free_restores:
  assumes bl: "block_list s ((p, k) # bs)" and n: "0 < unat n" "unat n < k"
    and p: "p = page_plus (pages s) j" "j < 0x100000"
    and nosw: "no_victim s n (block_pages ((p, k) # bs))"
    and hd: "head_ok s" and nj: "\<not> joins_up s [] p"
  shows "\<exists>r s1 s2. alloc_page n s = Some (r, s1) \<and> r = p + VERTUAL_MEM \<and>
    block_list s1 ((page_plus p n, k - unat n) # bs) \<and>
    free_page (la_addr_to_pg s1 (pg_to_addr_la s1 r)) n s1 = Some s2 \<and> block_list s2 ((p, k) # bs)"
proof -
  let ?q = "page_plus p n"
  obtain s1 a b where al: "alloc_page n s = Some (p + VERTUAL_MEM, s1)"
    and bl1: "block_list s1 ((?q, k - unat n) # bs)"
    and s1: "s1 = s\<lparr>ln_prev := a, ln_next := b, free_page_num := free_page_num s - n,
      pg_free_pages := (pg_free_pages s)(?q := of_nat (k - unat n)), pg_flags := (pg_flags s)(?q := 1)\<rparr>"
    using alloc_page_block [OF bl n nosw] by blast
  have fl: "free_list s (block_pages ((p, k) # bs))" using bl by (simp add: block_list_def)
  have run: "page_run p k = page_run p (unat n) @ page_run ?q (k - unat n)"
    using page_run_append [of "unat n" k p] n by simp
  have low: "\<forall>q \<in> set (page_run p k). low_page q" using fl by (auto simp: free_list_def)
  have pq: "p < ?q" using run_no_wrap [OF low n(2)] n(1) by (simp add: word_less_nat_alt)
  have small: "k \<le> 0x8000000" by (rule run_bound [OF low])
  have "?q \<in> set (block_pages ((p, k) # bs))" using n by (simp add: run page_run_Cons)
  then have nq: "kpa (page_before s []) \<noteq> ?q"
    using free_list_distinct(3) [OF fl] by (intro page_before_apart [OF hd]) (simp_all add: block_pages_def)
  have "fresh_run s1 (block_pages ([] @ (?q, k - unat n) # bs)) p (unat n)"
    using fl n small free_list_distinct(1,3) [OF fl] run
    by (auto simp: fresh_run_def s1 free_list_def)
  moreover have "\<not> joins_up s1 [] p"
    using nj nq joins_up_cong [of s1 s "[]" p] by (simp add: s1)
  ultimately have "\<exists>s2. free_page p (of_nat (unat n)) s1 = Some s2 \<and> block_list s2 ([] @
      (if page_plus p (of_nat (unat n)) = ?q then (p, unat n + (k - unat n)) # bs
       else (p, unat n) # (?q, k - unat n) # bs))"
    using bl1 pq alloc_head_ok(1) [OF al s1] hd by (intro free_page_block_apart) simp_all
  moreover have "la_addr_to_pg s1 (pg_to_addr_la s1 (p + VERTUAL_MEM)) = p"
    using pg_to_addr(2) [of s j] page_index_div [OF p(2)] p(1)
    by (simp add: s1 la_addr_to_pg_def pg_to_addr_la_def)
  ultimately show ?thesis using al bl1 n by auto
qed

text \<open>
  Address conversions: for the first \<open>2 ^ 20\<close> page structs, the struct is recovered from
  the linear and from the physical address of its frame, also when it is designated by the
  pointer into the upper window that \<open>alloc_page\<close> returns.
\<close>

theorem page_address_roundtrip:
  assumes "k < 0x100000" and "page = page_plus (pages s) k \<or> page = page_plus (pages s) k + VERTUAL_MEM"
  shows "la_addr_to_pg s (pg_to_addr_la s page) = page_plus (pages s) k \<and>
    pa_addr_to_pg s (pg_to_addr_pa s page) = page_plus (pages s) k"
  using assms page_index_div [OF assms(1)]
  by (auto simp: la_addr_to_pg_def pa_addr_to_pg_def pg_to_addr)

text \<open>
  C36. Exact fit. Allocating precisely the first block records the size 0 in the first page of
  the next block, which is still whole and free. As the scan never looks beyond
  the first block, every later allocation fails although the free pages are all still on the list.
\<close>

theorem alloc_exact_fit_starves:
  assumes bl: "block_list s ((p, k) # (q, m) # bs)" and n: "unat n = k"
    and nosw: "no_victim s n (block_pages ((p, k) # (q, m) # bs))"
  shows "\<exists>s'. alloc_page n s = Some (p + VERTUAL_MEM, s') \<and>
    free_list s' (block_pages ((q, m) # bs)) \<and> free_pages_of s' q = 0 \<and>
    (\<forall>n'. n' \<noteq> 0 \<longrightarrow> alloc_page n' s' = Some (NULL, s'))"
proof -
  let ?ps = "block_pages ((p, k) # (q, m) # bs)"
  have fl: "free_list s ?ps" using bl by (simp add: block_list_def)
  note P = block_list_kpa [OF bl, of p k] and Q = block_list_kpa [OF bl, of q m]
  have ps: "?ps = p # page_run (page_plus p 1) (k - 1) @ block_pages ((q, m) # bs)"
    and qs: "block_pages ((q, m) # bs) = q # page_run (page_plus q 1) (m - 1) @ block_pages bs"
    using P Q n by (simp_all add: page_run_Cons)
  have dr: "drop (unat n) ?ps = block_pages ((q, m) # bs)" using n by simp
  have fp: "free_pages_of s p = n" using P n by auto
  have "q = node_page (first_or (free_pages_head s) (map page_node (drop (unat n) ?ps)))"
    unfolding dr qs by simp
  then obtain s' a b where al: "alloc_page n s = Some (p + VERTUAL_MEM, s')"
    and fl': "free_list s' (block_pages ((q, m) # bs))"
    and s': "s' = s\<lparr>ln_prev := a, ln_next := b, free_page_num := free_page_num s - n,
      pg_free_pages := (pg_free_pages s)(kpa q := free_pages_of s p - n), pg_flags := (pg_flags s)(kpa q := 1)\<rparr>"
    using alloc_page_success [OF fl ps _ _ _ nosw] P n fp unfolding dr by auto
  have z: "free_pages_of s' q = 0" using fp by (simp add: s' free_pages_of_def)
  have "alloc_page n' s' = Some (NULL, s')" if "n' \<noteq> 0" for n'
    using alloc_page_first_too_small [OF fl' [unfolded qs]] z that by (simp add: word_neq_0_conv)
  with al fl' z show ?thesis by blast
qed

lemma merge_modifies:
  "\<exists>d. merge_down p n t s = s\<lparr>pg_free_pages := d\<rparr>" "\<exists>d. merge_up p s = s\<lparr>pg_free_pages := d\<rparr>"
proof -
  have 0: "\<exists>d. s = s\<lparr>pg_free_pages := d\<rparr>" for s :: "'a machine_scheme"
    by (rule exI [of _ "pg_free_pages s"]) simp
  have 1: "\<exists>d. set_free_pages p v (set_free_pages q w s) = s\<lparr>pg_free_pages := d\<rparr>" for p v q w
    by (auto simp: set_free_pages_def)
  show "\<exists>d. merge_down p n t s = s\<lparr>pg_free_pages := d\<rparr>" "\<exists>d. merge_up p s = s\<lparr>pg_free_pages := d\<rparr>"
    using 0 1 by (auto simp: merge_down_def merge_up_def Let_def)
qed

lemma merge_frame:
  assumes "a \<noteq> kpa p" 
  shows "a \<noteq> kpa t \<Longrightarrow> pg_free_pages (merge_down p n t s) a = pg_free_pages s a"
    and "a \<noteq> kpa (node_page (get_prev s (page_node p))) \<Longrightarrow> pg_free_pages (merge_up p s) a = pg_free_pages s a"
  using assms by (simp_all add: merge_down_def merge_up_def Let_def set_free_pages_def)

text \<open>
  A page whose pointer is above all pointers in the list is linked in front of the last page; only the counters of its
  neighbours can change.
\<close>

lemma free_page_above_ring:
  assumes r: "ring s (free_pages_head s) (map page_node (ps @ [t]))" and t: "t \<noteq> NULL" and above: "\<forall>q \<in> set (ps @ [t]). \<not> p < q"
    and fr: "kpa (page_node p) \<notin> kpa ` set (free_pages_head s # map page_node (ps @ [t]))"
  shows "\<exists>s' a b c d e. free_page p 1 s = Some s' \<and> ring s' (free_pages_head s) (map page_node (ps @ [p, t])) \<and>
    other_rings s s' (page_node p # free_pages_head s # map page_node (ps @ [t])) \<and>
    free_page_num s' = free_page_num s + 1 \<and>
    (\<forall>x. x \<noteq> kpa p \<and> x \<noteq> kpa t \<and> (ps \<noteq> [] \<longrightarrow> x \<noteq> kpa (last ps)) \<and> (ps = [] \<longrightarrow> x \<noteq> kpa (node_page (free_pages_head s))) \<longrightarrow>
       pg_free_pages s' x = pg_free_pages s x) \<and>
    s' = s\<lparr>ln_prev := a, ln_next := b, pg_flags := c, pg_free_pages := d, free_page_num := e\<rparr>"
proof -
  let ?hn = "free_pages_head s" and ?l = "list_insert_before (page_node t) (page_node p) s"
  have r': "ring s ?hn (map page_node ps @ [page_node t])" using r by simp
  have "seg s ?hn (map page_node (ps @ [t])) ?hn" "?hn \<notin> set (map page_node (ps @ [t]))"
    using r kl.head_fresh [OF r] by (simp_all add: ring_def)
  from free_page_walk_seg [OF this, of p NULL] have w: "free_page_walk p ?hn ?hn NULL s = Some t"
    using above by simp
  have fr': "kpa (page_node p) \<notin> kpa ` set (?hn # map page_node ps @ [page_node t])" using fr by simp
  have rl: "ring ?l ?hn (map page_node ps @ page_node p # [page_node t])"
    using kl.rep_ins_before [OF r' fr'] by simp
  have ol: "other_rings s ?l (page_node p # ?hn # map page_node (ps @ [t]))"
    unfolding other_rings_def
  proof (intro allI impI, elim conjE)
    fix hn' ms
    assume m: "ring s hn' ms" "kpa ` set (page_node p # ?hn # map page_node (ps @ [t])) \<inter> kpa ` set (hn' # ms) = {}"
    show "ring ?l hn' ms"
      by (rule kl.frame_ins_before [OF r' _ m(1) fr']) (use m(2) in auto)
  qed
  obtain a b where mod: "?l = s\<lparr>ln_prev := a, ln_next := b\<rparr>" using list_insert_before_modifies by blast
  let ?s1 = "s\<lparr>ln_prev := a, ln_next := b, pg_flags := (pg_flags s)(kpa p := 0),
    pg_free_pages := (pg_free_pages s)(kpa p := 1), free_page_num := free_page_num s + 1\<rparr>"
  let ?s2 = "merge_down p 1 t ?s1"
  have f: "free_page p 1 s = Some (merge_up p ?s2)"
    unfolding free_page_def w using t
    by (simp add: free_page_link_def mod set_flags_def set_free_pages_def Let_def)
  obtain d where d: "?s2 = ?s1\<lparr>pg_free_pages := d\<rparr>" using merge_modifies(1) [of p 1 t ?s1] by blast
  obtain d' where d': "merge_up p ?s2 = ?s2\<lparr>pg_free_pages := d'\<rparr>" using merge_modifies(2) [of p ?s2] by blast
  let ?s3 = "s\<lparr>ln_prev := a, ln_next := b, pg_flags := (pg_flags s)(kpa p := 0),
    pg_free_pages := d', free_page_num := free_page_num s + 1\<rparr>"
  have s3: "merge_up p ?s2 = ?s3" unfolding d' unfolding d by simp
  have lk: "get_next ?s3 = get_next ?l" "get_prev ?s3 = get_prev ?l" "get_prev ?s2 = get_prev ?l"
    unfolding d by (simp_all add: mod fun_eq_iff get_next_def get_prev_def)
  have "get_prev ?s2 (page_node p) = last (?hn # map page_node ps)"
    unfolding lk using kl.rep_prev [OF rl] by simp
  then have prv: "node_page (get_prev ?s2 (page_node p)) = (if ps = [] then node_page ?hn else last ps)"
    by (simp add: last_map)
  have fp: "pg_free_pages ?s3 x = pg_free_pages s x"
    if "x \<noteq> kpa p" "x \<noteq> kpa t" "ps \<noteq> [] \<longrightarrow> x \<noteq> kpa (last ps)" "ps = [] \<longrightarrow> x \<noteq> kpa (node_page ?hn)" for x
  proof -
    have "pg_free_pages (merge_up p ?s2) x = pg_free_pages ?s2 x"
    proof (rule merge_frame(2))
      show "x \<noteq> kpa (node_page (get_prev ?s2 (page_node p)))" unfolding prv using that(3,4) by simp
    qed (rule that(1))
    also have "\<dots> = pg_free_pages ?s1 x" using that by (intro merge_frame(1)) simp_all
    also have "\<dots> = pg_free_pages s x" using that by simp
    finally show ?thesis unfolding s3 .
  qed
  have "ring ?s3 ?hn (map page_node (ps @ [p, t]))" using rl unfolding ring_links [OF lk(1,2)] by simp
  moreover have "free_page_num ?s3 = free_page_num s + 1" by simp
  moreover have "free_page p 1 s = Some ?s3" using f unfolding s3 .
  ultimately show ?thesis using other_rings_links [OF ol lk(1,2)] fp by blast
qed

lemma free_page_above:
  assumes fl: "free_list s (ps @ [t])" and t: "t \<noteq> NULL" and above: "\<forall>q \<in> set (ps @ [t]). \<not> p < q"
    and fr: "kpa (page_node p) \<notin> kpa ` set (free_pages_head s # map page_node (ps @ [t]))"
  shows "\<exists>s' a b c d e. free_page p 1 s = Some s' \<and> ring s' (free_pages_head s) (map page_node (ps @ [p, t])) \<and>
    other_rings s s' (page_node p # free_pages_head s # map page_node (ps @ [t])) \<and>
    free_page_num s' = free_page_num s + 1 \<and>
    s' = s\<lparr>ln_prev := a, ln_next := b, pg_flags := c, pg_free_pages := d, free_page_num := e\<rparr>"
  using free_page_above_ring [OF _ t above fr] fl unfolding free_list_def by blast

text \<open>
  C35. A page that lies above all pages of the list (a pointer into the upper window always does, and
  that is what \<open>alloc_page\<close> returns and \<open>swap_out\<close> frees) is linked in before the last page of
  the list, not behind it: the list is no longer in address order.
\<close>

theorem free_page_above_misplaced:
  assumes "free_list s (ps @ [t])" and "t \<noteq> NULL" and "\<forall>q \<in> set (ps @ [t]). q < p"
    and "kpa (page_node p) \<notin> kpa ` set (free_pages_head s # map page_node (ps @ [t]))"
  shows "\<exists>s'. free_page p 1 s = Some s' \<and> ring s' (free_pages_head s) (map page_node (ps @ [p, t])) \<and>
    free_page_num s' = free_page_num s + 1"
  using free_page_above [OF assms(1,2) _ assms(4)] assms(3) by (fastforce dest: less_not_sym)

section \<open>A worked example\<close>

definition free_example :: "(u32 \<times> nat) list \<Rightarrow> machine" where
  "free_example bs =
     (let s = fold (list_insert_before (free_pages_head machine0)) (map page_node (block_pages bs))
        (list_init (free_pages_head machine0) machine0)
      in s\<lparr>pg_free_pages := fold (\<lambda>(p, k) f. f(p := of_nat k)) bs (\<lambda>_. 0),
         free_page_num := of_nat (length (block_pages bs))\<rparr>)"

lemma free_example_blocks:
  "block_list (free_example [(0x108000, 3), (0x108060, 2)]) [(0x108000, 3), (0x108060, 2)]"
  by (simp add: block_list_def free_list_def free_example_def machine0_def block_pages_def page_run_def
      upt_rec page_plus_def ring_def list_op_defs Let_def kpa_def page_node_def low_page_def free_pages_of_def
      get_next_def get_prev_def set_next_def set_prev_def)

lemma free_example_fields [simp]:
  "free_pages_head (free_example bs) = 0xC0105000" "is_vmm_inited (free_example bs) = 0"
  "pages (free_example bs) = 0x108000" "head_ok (free_example bs)"
proof -
  have *: "\<exists>a b. fold (list_insert_before n) xs (list_init m machine0) = machine0\<lparr>ln_prev := a, ln_next := b\<rparr>" for n m xs
    using fold_modifies [of "list_insert_before n" xs "list_init m machine0", OF list_insert_before_modifies]
      same_more_modifies [OF list_ops_more(1), of m machine0] by force
  then obtain a b where "fold (list_insert_before (free_pages_head machine0)) (map page_node (block_pages bs))
      (list_init (free_pages_head machine0) machine0) = machine0\<lparr>ln_prev := a, ln_next := b\<rparr>" by blast
  then show "free_pages_head (free_example bs) = 0xC0105000" "is_vmm_inited (free_example bs) = 0"
    "pages (free_example bs) = 0x108000" "head_ok (free_example bs)"
    by (simp_all add: free_example_def machine0_def Let_def head_ok_def)
qed

lemma free_example_apart: "\<not> joins_up (free_example [(0x108000, 3), (0x108060, 2)]) [] 0x108000"
  by (simp add: joins_up_def page_before_def node_page_def page_plus_def free_pages_of_def kpa_def
      free_example_def machine0_def Let_def block_pages_def)

theorem alloc_free_restores_witness:
  "\<exists>r s1 s2. alloc_page 2 (free_example [(0x108000, 3), (0x108060, 2)]) = Some (r, s1) \<and>
    block_list s1 [(0x108030, 1), (0x108060, 2)] \<and>
    free_page (la_addr_to_pg s1 (pg_to_addr_la s1 r)) 2 s1 = Some s2 \<and>
    block_list s2 [(0x108000, 3), (0x108060, 2)]"
  using alloc_free_restores [OF free_example_blocks, of 2 0] free_example_apart
  by (auto simp: page_plus_def no_victim_def)

theorem alloc_exact_fit_starves_witness:
  "\<exists>s'. alloc_page 3 (free_example [(0x108000, 3), (0x108060, 2)]) = Some (0xC0108000, s') \<and>
    free_page_num s' = 2 \<and> alloc_page 1 s' = Some (NULL, s')"
  using alloc_exact_fit_starves [OF free_example_blocks, of 3]
  by (auto simp: free_list_def block_pages_def no_victim_def)

theorem page_address_roundtrip_witness:
  "la_addr_to_pg machine0 (pg_to_addr_la machine0 0xC0108060) = 0x108060 \<and>
   pa_addr_to_pg machine0 (pg_to_addr_pa machine0 0xC0108060) = 0x108060"
  using page_address_roundtrip [of 4 "0xC0108060" machine0]
  by (simp add: machine0_def page_plus_def)

lemma free_example_single: "block_list (free_example [(0x108000, 1), (0x108030, 2)]) [(0x108000, 1), (0x108030, 2)]"
  by (simp add: block_list_def free_list_def free_example_def machine0_def block_pages_def page_run_def
      upt_rec page_plus_def ring_def list_op_defs Let_def kpa_def page_node_def low_page_def free_pages_of_def
      get_next_def get_prev_def set_next_def set_prev_def)

text \<open>One page between a block of one page and a block of two.\<close>

theorem free_page_block_witness:
  "\<exists>s'. free_page 0x108018 1 (free_example [(0x108000, 1), (0x108030, 2)]) = Some s' \<and> block_list s' [(0x108000, 4)]"
proof -
  let ?s = "free_example [(0x108000, 1), (0x108030, 2)]"
  have "fresh_run ?s (block_pages ([(0x108000, 1)] @ (0x108030, 2) # [])) 0x108018 1"
    by (simp add: fresh_run_def page_run_def block_pages_def upt_rec page_plus_def low_page_def page_node_def kpa_def)
  moreover have "free_block [(0x108000, 1)] 0x108018 1 [(0x108030, 2)] = [(0x108000, 4)]" by (simp add: free_block_def page_plus_def)
  ultimately show ?thesis
    using free_page_block [of ?s "[(0x108000, 1)]" "0x108030" 2 "[]" "0x108018" 1] free_example_single by (simp add: page_run_def)
qed

theorem free_page_above_misplaced_witness:
  "\<exists>s'. free_page 0xC0108048 1 (free_example [(0x108000, 3), (0x108060, 2)]) = Some s' \<and>
    ring s' 0xC0105000 (map page_node [0x108000, 0x108018, 0x108030, 0x108060, 0xC0108048, 0x108078]) \<and>
    free_page_num s' = 6"
proof -
  let ?s = "free_example [(0x108000, 3), (0x108060, 2)]"
  have bp: "block_pages [(0x108000, 3), (0x108060, 2)] = [0x108000, 0x108018, 0x108030, 0x108060] @ [0x108078]"
    by (simp add: block_pages_def page_run_def upt_rec page_plus_def)
  have fl: "free_list ?s ([0x108000, 0x108018, 0x108030, 0x108060] @ [0x108078])"
    using free_example_blocks unfolding block_list_def bp by blast
  then have "free_page_num ?s = 5" by (simp add: free_list_def)
  then show ?thesis
    using free_page_above_misplaced [OF fl, of "0xC0108048"] by (simp add: page_node_def kpa_def)
qed

end
