(* ===== verification/PageTable.thy ===== *)
theory PageTable
  imports PageAlloc
begin

text \<open>
  Page tables: \<open>get_pte\<close>, \<open>map\<close>, \<open>unmap\<close> and \<open>page_init\<close> of \<open>mm/pmm.c\<close>, and the temporary tables that
  \<open>kern_init\<close> of \<open>entry/entry.c\<close> builds before paging is switched on. \<open>mmu\<close> is the two-level
  walk of the processor, the abstract view of the tables that the properties speak about.
  Loads of cr3 and \<open>invlpg\<close> have no effect on this state. A null \<open>pte\<close> is dereferenced
  like any pointer: physical address 0 is mapped, the page directory lies there.
\<close>

section \<open>Looking up and creating entries\<close>

definition memset_frame :: "u32 \<Rightarrow> 'a machine_scheme \<Rightarrow> 'a machine_scheme" where
  "memset_frame p s = s\<lparr>pmem := (\<lambda>a. if a - kpa p < PAGE_SIZE then 0 else pmem s a)\<rparr>"

definition get_pte :: "u32 \<Rightarrow> u32 \<Rightarrow> i32 \<Rightarrow> 'a machine_scheme \<Rightarrow> (u32 \<times> 'a machine_scheme) option" where
  "get_pte pde la is_create s =
     (let slot = pde_slot pde la
      in if ent_sign (ld s slot) AND 1 = 0 then
           if is_create = 0 then Some (NULL, s)
           else do {
             (pg, s) \<leftarrow> alloc_page 1 s;
             if pg = NULL then Some (NULL, s)
             else
               let s = set_ref pg 1 s;
                   s = memset_frame (pg_to_addr_la s pg) s;
                   s = st slot (upd_os 0 (ld s slot)) s;
                   s = st slot (upd_sign 7 (ld s slot)) s;
                   s = st slot (upd_addr (drop_bit 12 (pg_to_addr_pa s pg)) (ld s slot)) s
               in Some (pte_slot (ld s slot) la, s)
           }
         else Some (pte_slot (ld s slot) la, s))"

section \<open>Mapping and unmapping\<close>

definition pg_unmap :: "u32 \<Rightarrow> u32 \<Rightarrow> 'a machine_scheme \<Rightarrow> 'a machine_scheme option" where
  "pg_unmap pde la s =
     do {
       (pte, s) \<leftarrow> get_pte pde la 0 s;
       if ent_sign (ld s pte) AND 1 = 1 then
         let pg = la_addr_to_pg s (get_pg_addr_la s pte);
             s = set_ref pg (pg_ref s (kpa pg) - 1) s
         in do {
              s \<leftarrow> (if pg_ref s (kpa pg) = 0 then free_page pg 1 s else Some s);
              let s = st pte (upd_addr 0 (ld s pte)) s
              in Some (st pte (upd_sign 0 (ld s pte)) s)
            }
       else Some s
     }"

definition pg_map :: "u32 \<Rightarrow> u32 \<Rightarrow> u32 \<Rightarrow> u8 \<Rightarrow> 'a machine_scheme \<Rightarrow> 'a machine_scheme option" where
  "pg_map pde la pa bitsign s =
     do {
       (pte, s) \<leftarrow> get_pte pde la 1 s;
       let new_pg = pa_addr_to_pg s pa;
           s = set_ref new_pg (pg_ref s (kpa new_pg) + 1) s
       in do {
            s \<leftarrow> (if ent_sign (ld s pte) AND 1 = 1 then
                   let pg = la_addr_to_pg s (get_pg_addr_la s pte)
                   in if pg = new_pg then Some (set_ref pg (pg_ref s (kpa pg) - 1) s)
                      else pg_unmap pde (get_pg_addr_la s pte) s
                 else Some s);
            let s = st pte (upd_sign (ucast bitsign) (ld s pte)) s
            in Some (st pte (upd_addr (drop_bit 12 pa) (ld s pte)) s)
          }
     }"

section \<open>Setting up the page frames\<close>

abbreviation MAX_PAGE_NUM :: i32 where
  "MAX_PAGE_NUM \<equiv> 30000"

definition ROUNDUP :: "u32 \<Rightarrow> u32" where
  "ROUNDUP addr = addr - addr mod PAGE_SIZE + PAGE_SIZE"

definition ROUNDDOWN :: "u32 \<Rightarrow> u32" where
  "ROUNDDOWN addr = addr - addr mod PAGE_SIZE"

text \<open>\<open>memset\<close> over an array of \<open>len\<close> bytes of page structs clears all their fields.\<close>

definition memset_structs :: "u32 \<Rightarrow> u32 \<Rightarrow> 'a machine_scheme \<Rightarrow> 'a machine_scheme" where
  "memset_structs p len s =
     (let clr = (\<lambda>f a. if a - kpa p < len then 0 else f a)
      in s\<lparr>ln_prev := clr (ln_prev s), ln_next := clr (ln_next s), pg_ref := clr (pg_ref s),
           pg_flags := clr (pg_flags s), pg_free_pages := clr (pg_free_pages s), pg_va := clr (pg_va s)\<rparr>)"

text \<open>The number of page structs, as computed from the two ends of the memory.\<close>

definition frame_count :: "u32 \<Rightarrow> u32 \<Rightarrow> i32" where
  "frame_count free_mem_begin free_mem_end =
     (let n = (ROUNDDOWN free_mem_end - ROUNDUP free_mem_begin) div PAGE_SIZE
      in if MAX_PAGE_NUM <s n then MAX_PAGE_NUM else n)"

definition page_init_list :: "u32 \<Rightarrow> u32 \<Rightarrow> 'a machine_scheme \<Rightarrow> 'a machine_scheme" where
  "page_init_list free_mem_begin free_mem_end s =
     (let s = s\<lparr>pages := ROUNDUP free_mem_begin\<rparr>;
          n = frame_count free_mem_begin free_mem_end;
          s = s\<lparr>pt_begin := ROUNDUP (pages s + n * sizeof_Page)\<rparr>;
          s = list_init (free_pages_head s) s;
          s = memset_structs (pages s) (n * sizeof_Page) s;
          s = set_free_pages (pages s) n s;
          s = s\<lparr>free_page_num := n\<rparr>
      in fold (\<lambda>i s. list_insert_before (free_pages_head s) (page_node (page_plus (pages s) (of_nat i))) s)
           [0..<nat (sint n)] s)"

partial_function (option) page_init_map :: "u32 \<Rightarrow> u32 \<Rightarrow> 'a machine_scheme \<Rightarrow> 'a machine_scheme option" where
  "page_init_map i bound s =
     (if i < bound then
        do {
          (pte, s) \<leftarrow> get_pte (pd s) i 1 s;
          let s = st pte (upd_sign 3 (ld s pte)) s;
              s = st pte (upd_addr (drop_bit 12 (i - VERTUAL_MEM)) (ld s pte)) s
          in page_init_map (i + PAGE_SIZE) bound s
        }
      else Some s)"

text \<open>An entry of the BIOS memory map: \<open>base_lo\<close>, \<open>length_lo\<close>, \<open>type\<close>.\<close>

record e820_entry =
  base_lo :: u32
  length_lo :: u32
  e820_type :: u32

definition page_init_range :: "u32 \<Rightarrow> e820_entry \<Rightarrow> 'a machine_scheme \<Rightarrow> 'a machine_scheme option" where
  "page_init_range kern_end e s =
     (let free_mem_begin = kern_end - VERTUAL_MEM;
          free_mem_end = base_lo e + length_lo e;
          s = page_init_list free_mem_begin free_mem_end s
      in page_init_map (pt_begin s + VERTUAL_MEM) (ROUNDDOWN free_mem_end + VERTUAL_MEM) s)"

fun page_init_loop :: "u32 \<Rightarrow> nat \<Rightarrow> e820_entry list \<Rightarrow> 'a machine_scheme \<Rightarrow> 'a machine_scheme option" where
  "page_init_loop kern_end i [] s = Some s"
| "page_init_loop kern_end i (e # es) s =
     do {
       s \<leftarrow> (if e820_type e = 1 \<and> i \<noteq> 0 then page_init_range kern_end e s else Some s);
       page_init_loop kern_end (i + 1) es s
     }"

definition page_init :: "u32 \<Rightarrow> e820_entry list \<Rightarrow> 'a machine_scheme \<Rightarrow> 'a machine_scheme option" where
  "page_init kern_end memmap s = page_init_loop kern_end 0 memmap s"

section \<open>The tables of kern_init\<close>

definition kern_init_dir :: "u32 \<Rightarrow> u32 \<Rightarrow> u32 \<Rightarrow> 'a machine_scheme \<Rightarrow> 'a machine_scheme" where
  "kern_init_dir dir fst_tab idx s =
     (let slot = dir + 4 * idx;
          s = st slot (upd_addr (drop_bit 12 fst_tab) (ld s slot)) s;
          s = st slot (upd_os 0 (ld s slot)) s
      in st slot (upd_sign 7 (ld s slot)) s)"

definition kern_init_fst :: "u32 \<Rightarrow> nat \<Rightarrow> 'a machine_scheme \<Rightarrow> 'a machine_scheme" where
  "kern_init_fst fst_tab i s =
     (let slot = fst_tab + 4 * of_nat i;
          s = st slot (upd_addr (of_nat i) (ld s slot)) s;
          s = st slot (upd_os 0 (ld s slot)) s
      in st slot (upd_sign 7 (ld s slot)) s)"

text \<open>\<open>pd\<close> is 0 and \<open>fst\<close> is 0x1000 in the code; \<open>kern_start\<close> is a symbol of the linker script.\<close>

definition kern_init_tables :: "u32 \<Rightarrow> 'a machine_scheme \<Rightarrow> 'a machine_scheme" where
  "kern_init_tables kern_start s =
     (let s = s\<lparr>pd := 0\<rparr>;
          s = fold (\<lambda>i. st (4 * of_nat i) 0) [0..<1024] s;
          s = kern_init_dir 0 0x1000 0 s;
          s = kern_init_dir 0 0x1000 (drop_bit 22 kern_start) s
      in fold (kern_init_fst 0x1000) [0..<1024] s)"

section \<open>The walk of the processor\<close>

definition mmu :: "'a machine_scheme \<Rightarrow> u32 \<Rightarrow> u32 \<Rightarrow> u32 option" where
  "mmu s dir la =
     (let e = ld s (pde_slot dir la)
      in if ent_sign e AND 1 = 0 then None
         else let f = ld s (pte_slot e la)
              in if ent_sign f AND 1 = 0 then None
                 else Some (push_bit 12 (ent_addr f) OR (la AND 0xFFF)))"

section \<open>Words of memory\<close>

lemma ld_st: "ld (st p v s) q = (if kpa q = kpa p then v else ld s q)"
  by (simp add: ld_def st_def)

lemma ld_st_same [simp]: "ld (st p v s) p = v"
  by (simp add: ld_st)

lemma st_st_same [simp]: "st p v (st p w s) = st p v s"
  by (simp add: st_def)

text \<open>Setting all three fields determines the word.\<close>

lemma full_entry:
  "upd_sign f (upd_os 0 (upd_addr v w)) = push_bit 12 v OR (f AND 0x1FF)"
  "upd_addr v (upd_sign f (upd_os 0 w)) = push_bit 12 v OR (f AND 0x1FF)"
  unfolding upd_sign_def upd_os_def upd_addr_def
  by (rule bit_word_eqI; auto simp: bit_simps bit_masks)+

lemma entry_fields:
  assumes "v < 0x100000"
  shows "ent_sign (push_bit 12 v OR (f AND 0x1FF)) = f AND 0x1FF"
    and "ent_addr (push_bit 12 v OR (f AND 0x1FF)) = v"
proof -
  have v: "bit v n \<Longrightarrow> n < 20" for n
    using assms word_lt_exp_bit [of v 20 n] by (simp add: word_less_nat_alt)
  show "ent_sign (push_bit 12 v OR (f AND 0x1FF)) = f AND 0x1FF"
    unfolding ent_sign_def by (rule bit_word_eqI) (auto simp: bit_simps bit_masks)
  show "ent_addr (push_bit 12 v OR (f AND 0x1FF)) = v"
    unfolding ent_addr_def by (rule bit_word_eqI) (auto simp: bit_simps bit_masks dest: v)
qed

section \<open>The boot tables map both windows\<close>

lemma fold_st:
  assumes "n \<le> 1024" and "b \<le> 0x2000"
  shows "pmem (fold (\<lambda>i. st (b + 4 * of_nat i) (g i)) [0..<n] s) a =
    (if \<exists>i < n. a = b + 4 * of_nat i then g (unat ((a - b) div 4)) else pmem s a)"
  using assms(1)
proof (induction n)
  case (Suc n)
  have n: "unat (4 * of_nat n :: u32) = 4 * n"
    using Suc.prems by (simp add: unat_word_ariths unat_of_nat_small)
  have "unat b \<le> 8192" using assms(2) by (simp add: word_le_nat_alt)
  then have "unat b + unat (4 * of_nat n :: u32) < 3221225472" using Suc.prems n by simp
  then have k: "kpa (b + 4 * of_nat n) = b + 4 * of_nat n"
    using assms(2) kpa_offset_low [of b "4 * of_nat n"] by (simp add: word_le_nat_alt word_less_nat_alt)
  have d: "unat ((4 * of_nat n :: u32) div 4) = n" using n by (simp add: unat_div)
  have "pmem (fold (\<lambda>i. st (b + 4 * of_nat i) (g i)) [0..<Suc n] s) a =
      (if a = b + 4 * of_nat n then g n else pmem (fold (\<lambda>i. st (b + 4 * of_nat i) (g i)) [0..<n] s) a)"
    by (simp add: st_def k)
  also have "\<dots> = (if \<exists>i < Suc n. a = b + 4 * of_nat i then g (unat ((a - b) div 4)) else pmem s a)"
    using Suc d by (auto simp: less_Suc_eq)
  finally show ?case .
qed simp

lemma kern_init_fst_st: "kern_init_fst t i s = st (t + 4 * of_nat i) (push_bit 12 (of_nat i) OR 7) s"
  by (simp add: kern_init_fst_def Let_def full_entry)

lemma kern_init_dir_st: "kern_init_dir d t i s = st (d + 4 * i) (push_bit 12 (drop_bit 12 t) OR 7) s"
  by (simp add: kern_init_dir_def Let_def full_entry)

lemma page_index_lt: "drop_bit 22 la < (1024 :: u32)" "drop_bit 12 la AND 0x3FF < (1024 :: u32)"
proof -
  show "drop_bit 22 la < (1024 :: u32)"
    using unat_lt_2_32 [of la] by (simp add: word_less_nat_alt unat_drop_bit_eq drop_bit_eq_div unat_div)
  have "drop_bit 12 la AND 0x3FF \<le> (0x3FF :: u32)" by (rule word_and_le1)
  then show "drop_bit 12 la AND 0x3FF < (1024 :: u32)"
    by (rule order_le_less_trans) simp
qed

lemma unat_times4: "i < (1024 :: u32) \<Longrightarrow> unat (4 * i) = 4 * unat i"
  by (simp add: word_less_nat_alt unat_word_ariths)

lemma kpa_small_index:
  assumes "i < (1024 :: u32)" and "b \<le> 0x2000"
  shows "kpa (b + 4 * i) = b + 4 * i"
proof -
  have "unat i < 1024" "unat b \<le> 8192"
    using assms by (simp_all add: word_less_nat_alt word_le_nat_alt)
  then have "unat (b + 4 * i) < 3221225472"
    using unat_times4 [OF assms(1)] by (simp add: unat_word_ariths)
  then show ?thesis by (simp add: word_less_nat_alt)
qed

lemma index_of_nat: "i < (1024 :: u32) \<Longrightarrow> \<exists>k < 1024. b + 4 * i = b + 4 * of_nat k"
  by (rule exI [of _ "unat i"]) (simp add: word_less_nat_alt)

lemma index_apart: "i < (1024 :: u32) \<Longrightarrow> \<not> (\<exists>k < 1024. 4 * i = 0x1000 + 4 * of_nat k)"
proof
  assume i: "i < 1024" and "\<exists>k < 1024. 4 * i = 0x1000 + 4 * (of_nat k :: u32)"
  then obtain k :: nat where k: "k < 1024" "4 * i = 0x1000 + 4 * of_nat k" by blast
  have "unat (0x1000 + 4 * of_nat k :: u32) = 4096 + 4 * k"
    using k(1) by (simp add: unat_word_ariths unat_of_nat_small)
  moreover have "unat i < 1024" using i by (simp add: word_less_nat_alt)
  ultimately show False using arg_cong [OF k(2), of unat] unat_times4 [OF i] by simp
qed

lemma times4_eq: "i < (1024 :: u32) \<Longrightarrow> j < 1024 \<Longrightarrow> 4 * i = 4 * j \<longleftrightarrow> i = j"
  using unat_times4 [of i] unat_times4 [of j] by (metis mult_left_cancel word_unat_eq_iff zero_neq_numeral)

lemma times4_div: "i < (1024 :: u32) \<Longrightarrow> 4 * i div 4 = i"
  by (simp add: word_unat_eq_iff unat_div unat_times4)

lemma kern_init_words:
  fixes i :: u32
  assumes "i < 1024" and s': "s' = kern_init_tables kern_start s"
  shows "ld s' (4 * i) = (if i = 0 \<or> i = drop_bit 22 kern_start then 0x1007 else 0)"
    and "ld s' (0x1000 + 4 * i) = push_bit 12 i OR 7"
proof -
  let ?z = "fold (\<lambda>i. st (0 + 4 * of_nat i) ((\<lambda>_. 0) i)) [0..<1024] (s\<lparr>pd := 0\<rparr>)"
  let ?d = "st (0 + 4 * drop_bit 22 kern_start) (push_bit 12 (drop_bit 12 0x1000) OR 7)
    (st (0 + 4 * 0) (push_bit 12 (drop_bit 12 0x1000) OR 7) ?z)"
  have eq: "s' = fold (\<lambda>i. st (0x1000 + 4 * of_nat i) ((\<lambda>i. push_bit 12 (of_nat i) OR 7) i)) [0..<1024] ?d"
    by (simp add: s' kern_init_tables_def Let_def kern_init_fst_st [abs_def] kern_init_dir_st)
  have k: "kpa (4 * i) = 4 * i" if "i < 1024" for i using kpa_small_index [OF that, of 0] by simp
  have "pmem ?z (4 * i) = 0"
    using fold_st [of 1024 0 "\<lambda>_. 0" "s\<lparr>pd := 0\<rparr>" "4 * i"] index_of_nat [OF assms(1), of 0] by auto
  moreover have "pmem s' (4 * i) = pmem ?d (4 * i)"
    unfolding eq using index_apart [OF assms(1)] by (subst fold_st) auto
  ultimately show "ld s' (4 * i) = (if i = 0 \<or> i = drop_bit 22 kern_start then 0x1007 else 0)"
    using assms(1) page_index_lt(1) [of kern_start] times4_eq [of i "drop_bit 22 kern_start"]
      times4_eq [of i 0] by (auto simp: ld_def st_def k)
  have "pmem s' (0x1000 + 4 * i) = push_bit 12 i OR 7"
    unfolding eq using index_of_nat [OF assms(1), of "0x1000"] times4_div [OF assms(1)]
    by (subst fold_st) auto
  then show "ld s' (0x1000 + 4 * i) = push_bit 12 i OR 7"
    using kpa_small_index [OF assms(1), of "0x1000"] by (simp add: ld_def)
qed

lemma split_offset: "push_bit 12 (drop_bit 12 la AND 0x3FF) OR (la AND 0xFFF) = la AND (0x3FFFFF :: u32)"
proof -
  have m: "(0x3FF :: u32) = mask 10" "(0xFFF :: u32) = mask 12" "(0x3FFFFF :: u32) = mask 22"
    by (simp_all add: mask_eq_exp_minus_1)
  show ?thesis unfolding m by (rule bit_word_eqI) (auto simp: bit_simps)
qed

lemma kern_init_mmu:
  "mmu (kern_init_tables kern_start s) 0 la =
    (if drop_bit 22 la = 0 \<or> drop_bit 22 la = drop_bit 22 kern_start then Some (la AND 0x3FFFFF) else None)"
proof -
  let ?s = "kern_init_tables kern_start s" and ?i = "drop_bit 12 la AND 0x3FF"
  have i: "?i < 0x100000" using page_index_lt(2) [of la] by (rule less_trans) simp
  have a: "ent_addr 0x1007 = 1" "ent_sign 0x1007 AND 1 = 1" "ent_sign 0 AND 1 = 0"
    by (simp_all add: ent_addr_def ent_sign_def)
  have f: "ent_sign (push_bit 12 ?i OR 7) AND 1 = 1" "ent_addr (push_bit 12 ?i OR 7) = ?i"
    using entry_fields [OF i, of 7] by simp_all
  have "VERTUAL_MEM + (0x1000 + 4 * ?i) = 0x1000 + 4 * ?i + VERTUAL_MEM" by (simp add: algebra_simps)
  moreover have "0x1000 + 4 * ?i < 0x40000000"
    using page_index_lt(2) [of la] by (simp add: word_less_nat_alt unat_word_ariths)
  ultimately have "kpa (0x1000 + VERTUAL_MEM + 4 * ?i) = 0x1000 + 4 * ?i"
    using kpa_add_VERTUAL_MEM [of "0x1000 + 4 * ?i"] by (simp add: algebra_simps)
  then have "ld ?s (pte_slot 0x1007 la) = push_bit 12 ?i OR 7"
    using kern_init_words(2) [OF page_index_lt(2) refl] kpa_small_index [OF page_index_lt(2), of "0x1000"]
    by (simp add: pte_slot_def a ld_def)
  then show ?thesis
    using kern_init_words(1) [OF page_index_lt(1) [of la] refl, of kern_start s] f a
    by (auto simp: mmu_def pde_slot_def Let_def split_offset [simplified])
qed

lemma low_bits22:
  assumes "unat la mod 4194304 = unat x" and "unat x < 4194304"
  shows "la AND 0x3FFFFF = (x :: u32)"
proof -
  have "(0x3FFFFF :: u32) = mask 22" by (simp add: mask_eq_exp_minus_1)
  then have "la AND 0x3FFFFF = take_bit 22 la" by (simp only: take_bit_eq_mask)
  then have "unat (la AND 0x3FFFFF) = unat la mod 4194304"
    by (simp add: take_bit_eq_mod unat_mod)
  with assms show ?thesis by (simp add: word_unat_eq_iff)
qed

lemma kern_init_translates:
  "mmu (kern_init_tables 0xC0100000 s) 0 la =
    (if la < 0x400000 \<or> VERTUAL_MEM \<le> la \<and> la < 0xC0400000 then Some (kpa la) else None)"
proof -
  have u: "unat (drop_bit 22 la) = unat la div 4194304"
    by (simp add: drop_bit_eq_div unat_div)
  have low: "drop_bit 22 la = 0 \<longleftrightarrow> la < 0x400000"
    using u by (simp add: word_unat_eq_iff word_less_nat_alt div_eq_0_iff)
  have "768 \<le> unat la div 4194304 \<longleftrightarrow> 768 * 4194304 \<le> unat la"
    by (rule less_eq_div_iff_mult_less_eq) simp
  moreover have "unat la div 4194304 < 769 \<longleftrightarrow> unat la < 769 * 4194304"
    by (rule div_less_iff_less_mult) simp
  ultimately have "unat (drop_bit 22 la) = 768 \<longleftrightarrow> 3221225472 \<le> unat la \<and> unat la < 3225419776"
    unfolding u by auto
  then have high: "drop_bit 22 la = drop_bit 22 (0xC0100000 :: u32) \<longleftrightarrow> VERTUAL_MEM \<le> la \<and> la < 0xC0400000"
    by (simp add: word_unat_eq_iff word_less_nat_alt word_le_nat_alt)
  have "la AND 0x3FFFFF = kpa la" if "la < 0x400000"
    using that by (intro low_bits22) (simp_all add: word_less_nat_alt)
  moreover have "la AND 0x3FFFFF = kpa la" if h: "VERTUAL_MEM \<le> la" "la < 0xC0400000"
  proof (rule low_bits22)
    have k: "unat (kpa la) = unat la - 3221225472"
      using h by (simp add: kpa_def unat_sub)
    have b: "unat la < 3225419776" "3221225472 \<le> unat la"
      using h by (simp_all add: word_less_nat_alt word_le_nat_alt)
    show lt: "unat (kpa la) < 4194304" unfolding k using b by simp
    have "unat la = unat (kpa la) + 768 * 4194304" unfolding k using b(2) by simp
    then have "unat la mod 4194304 = unat (kpa la) mod 4194304" by (metis mod_mult_self1)
    then show "unat la mod 4194304 = unat (kpa la)" using lt by simp
  qed
  ultimately show ?thesis unfolding kern_init_mmu low high by auto
qed

text \<open>
  The tables \<open>kern_init\<close> builds: with the kernel linked at 0xC0100000 the first four
  megabytes are mapped twice, at 0 and at 0xC0000000, and nothing else is. So through both windows
  a pointer designates the physical address \<open>kpa\<close> gives it, which is how every other theory
  resolves the kernel's pointers.
\<close>

theorem kern_init_windows:
  "mmu (kern_init_tables 0xC0100000 s) 0 la =
    (if la < 0x400000 \<or> VERTUAL_MEM \<le> la \<and> la < 0xC0400000 then Some (kpa la) else None)"
  by (rule kern_init_translates)

section \<open>The initial free list\<close>

lemma unat_ROUNDDOWN: "unat (ROUNDDOWN a) = unat a - unat a mod 4096"
proof -
  have "a mod PAGE_SIZE \<le> a" by (simp add: word_le_nat_alt unat_mod)
  then show ?thesis by (simp add: ROUNDDOWN_def unat_sub unat_mod)
qed

lemma unat_ROUNDUP:
  assumes "unat a + 4096 < 4294967296"
  shows "unat (ROUNDUP a) = unat a - unat a mod 4096 + 4096"
proof -
  have "ROUNDUP a = ROUNDDOWN a + PAGE_SIZE" by (simp add: ROUNDUP_def ROUNDDOWN_def)
  then show ?thesis using unat_ROUNDDOWN [of a] assms by (simp add: unat_word_ariths)
qed

lemma ROUNDUP_gt:
  assumes "unat a + 4096 < 4294967296"
  shows "unat a < unat (ROUNDUP a)" and "unat (ROUNDUP a) \<le> unat a + 4096"
  unfolding unat_ROUNDUP [OF assms] using mod_less_divisor [of 4096 "unat a"] mod_less_eq_dividend [of "unat a" 4096]
  by linarith+

lemma frame_count_le: "unat (frame_count b e) \<le> 30000"
proof -
  let ?n = "(ROUNDDOWN e - ROUNDUP b) div PAGE_SIZE"
  have "unat ?n < 1048576"
    using unat_lt_2_32 [of "ROUNDDOWN e - ROUNDUP b"] by (simp add: unat_div)
  then have "MAX_PAGE_NUM <s ?n \<longleftrightarrow> 30000 < unat ?n" by (simp add: sless_small)
  then show ?thesis by (auto simp: frame_count_def Let_def)
qed

lemma fold_insert_head:
  "fold (\<lambda>i s. list_insert_before (free_pages_head s) (page_node (page_plus (pages s) (of_nat i))) s) is s =
   fold (list_insert_before (free_pages_head s)) (map (\<lambda>i. page_node (page_plus (pages s) (of_nat i))) is) s"
  by (induction "is" arbitrary: s) simp_all

lemma page_init_list_block:
  assumes "b < 0x3FF00000" and hd: "kpa (free_pages_head s) \<le> b" and n: "n = unat (frame_count b e)" "n \<noteq> 0"
    and s': "s' = page_init_list b e s"
  shows "block_list s' [(ROUNDUP b, n)] \<and> n \<le> 30000 \<and> pages s' = ROUNDUP b \<and>
    unat (pt_begin s') mod 4096 = 0 \<and> unat (ROUNDUP b) + 24 * n < unat (pt_begin s')"
proof -
  let ?p = "ROUNDUP b" and ?hn = "free_pages_head s" and ?c = "frame_count b e"
  have n30: "n \<le> 30000" using frame_count_le n by simp
  have b: "unat b < 0x3FF00000" using assms(1) by (simp add: word_less_nat_alt)
  then have p: "unat b < unat ?p" "unat ?p \<le> unat b + 4096" using ROUNDUP_gt [of b] by simp_all
  have c: "nat (sint ?c) = n" and cn: "of_nat n = ?c"
    using n30 n by (simp_all add: nat_sint_small)
  have plus: "unat (page_plus ?p (of_nat i)) = unat ?p + 24 * i" if "i < n" for i
    using that n30 p b by (simp add: page_plus_def unat_word_ariths unat_of_nat_small)
  let ?s0 = "set_free_pages ?p ?c (memset_structs ?p (?c * sizeof_Page) (list_init ?hn
    (s\<lparr>pages := ?p, pt_begin := ROUNDUP (?p + ?c * sizeof_Page)\<rparr>)))\<lparr>free_page_num := ?c\<rparr>"
  have s'2: "s' = fold (list_insert_before ?hn) (map page_node (page_run ?p n)) ?s0"
    unfolding s' page_init_list_def Let_def fold_insert_head
    by (simp add: c page_run_def comp_def memset_structs_def set_free_pages_def)
  have kp: "kpa ?p = ?p" using p b by (simp add: word_less_nat_alt)
  have len: "unat (?c * sizeof_Page) = 24 * n" using n n30 by (simp add: unat_word_ariths)
  have low: "low_page q \<and> kpa ?hn < q" if "q \<in> set (page_run ?p n)" for q
    using that plus p b n30 hd by (force simp: page_run_def low_page_def word_less_nat_alt word_le_nat_alt)
  have "kpa ?hn - ?p \<ge> ?c * sizeof_Page"
  proof -
    have "unat (kpa ?hn) < unat ?p" using hd p by (simp add: word_le_nat_alt)
    then have "unat (kpa ?hn - ?p) = 4294967296 + unat (kpa ?hn) - unat ?p"
      by (simp add: unat_sub_if_size word_size)
    then show ?thesis using len n30 p b by (simp add: word_le_nat_alt)
  qed
  then have r0: "ring ?s0 ?hn []"
    by (auto simp: ring_def get_next_def get_prev_def memset_structs_def list_init_def Let_def
        set_next_def set_prev_def set_free_pages_def kp)
  have kn: "map kpa (map page_node (page_run ?p n)) = map page_node (page_run ?p n)"
    using low by (simp add: kpa_page_node)
  have dis: "distinct (map page_node (page_run ?p n))"
    using distinct_page_run [of n ?p] n30 by (simp add: distinct_map inj_on_def)
  have ne: "page_node q \<noteq> kpa ?hn" if "q \<in> set (page_run ?p n)" for q
  proof -
    have "q < page_node q" using low [OF that] by (simp add: page_node_def low_page_def word_less_nat_alt unat_word_ariths)
    then show ?thesis using low [OF that] by auto
  qed
  have "kpa ?hn \<notin> page_node ` set (page_run ?p n)" using ne by (metis imageE)
  moreover have "kpa ` set (map page_node (page_run ?p n)) = page_node ` set (page_run ?p n)"
    using kn by (metis set_map)
  ultimately have "ring s' ?hn ([] @ map page_node (page_run ?p n) @ [])"
    unfolding s'2 using r0 kn dis by (intro kl.ins_before_all) (auto simp del: map_map set_map)
  then have "ring s' ?hn (map page_node (page_run ?p n))" by simp
  moreover obtain x y where mod: "s' = ?s0\<lparr>ln_prev := x, ln_next := y\<rparr>"
    unfolding s'2 using fold_modifies [of "list_insert_before ?hn" _ ?s0, OF list_insert_before_modifies] by blast
  ultimately have "block_list s' [(?p, n)]"
    using low n n30 kp by (simp add: block_list_def free_list_def free_pages_of_def set_free_pages_def memset_structs_def)
  moreover have "pages s' = ?p" "pt_begin s' = ROUNDUP (?p + ?c * sizeof_Page)"
    by (simp_all add: mod set_free_pages_def memset_structs_def)
  moreover have u: "unat (?p + ?c * sizeof_Page) = unat ?p + 24 * n"
    using len p b n30 by (simp add: unat_word_ariths)
  moreover have "unat (ROUNDUP (?p + ?c * sizeof_Page)) mod 4096 = 0"
    using u p b n30 by (subst unat_ROUNDUP) (simp_all add: minus_mod_eq_mult_div)
  ultimately show ?thesis using ROUNDUP_gt(1) [of "?p + ?c * sizeof_Page"] n30 p b by simp
qed

text \<open>
  The first half of \<open>page_init\<close> sets the allocator up: for a usable range whose page structs
  fit below 1 GB, the free list is one block of at most 30000 adjacent pages, the first of them at the
  page boundary behind the kernel, and the frames start at a page boundary behind the structs.
\<close>

theorem page_init_block:
  assumes "b < 0x3FF00000" and hd: "kpa (free_pages_head s) \<le> b" and n: "n = unat (frame_count b e)" "n \<noteq> 0"
    and s': "s' = page_init_list b e s"
  shows "block_list s' [(ROUNDUP b, n)] \<and> n \<le> 30000 \<and> pages s' = ROUNDUP b \<and>
    unat (pt_begin s') mod 4096 = 0 \<and> unat (ROUNDUP b) + 24 * n < unat (pt_begin s')"
  by (rule page_init_list_block [OF assms])

section \<open>What mapping and unmapping do to the translation\<close>

lemma free_page_returns:
  assumes "free_list s ps"
  shows "\<exists>a b c d e. free_page p n s =
    Some (s\<lparr>ln_prev := a, ln_next := b, pg_flags := c, pg_free_pages := d, free_page_num := e\<rparr>)"
proof -
  obtain t where w: "free_page_walk p (free_pages_head s) (free_pages_head s) NULL s = Some t"
    using free_page_walk_ring [OF assms] by blast
  show ?thesis
  proof (cases "t = NULL")
    case True
    then have "free_page p n s = Some (s\<lparr>ln_prev := ln_prev s, ln_next := ln_next s, pg_flags := pg_flags s,
        pg_free_pages := pg_free_pages s, free_page_num := free_page_num s\<rparr>)"
      using w by (simp add: free_page_def)
    then show ?thesis by blast
  next
    case False
    obtain a b where l: "free_page_link p n t s = s\<lparr>ln_prev := a, ln_next := b\<rparr>"
      unfolding free_page_link_def
      using fold_modifies [of "\<lambda>i. list_insert_before (page_node t) (page_node (page_plus p (of_nat i)))"
          "[0..<nat (sint n)]" s] list_insert_before_modifies by blast
    let ?s1 = "s\<lparr>ln_prev := a, ln_next := b, pg_flags := (pg_flags s)(kpa p := 0),
      pg_free_pages := (pg_free_pages s)(kpa p := n), free_page_num := free_page_num s + n\<rparr>"
    have "free_page p n s = Some (merge_up p (merge_down p n t ?s1))"
      unfolding free_page_def w using False
      by (simp add: l set_flags_def set_free_pages_def Let_def)
    moreover obtain d where "merge_down p n t ?s1 = ?s1\<lparr>pg_free_pages := d\<rparr>"
      using merge_modifies(1) [of p n t ?s1] by blast
    moreover obtain d' where
      "merge_up p (?s1\<lparr>pg_free_pages := d\<rparr>) = ?s1\<lparr>pg_free_pages := d\<rparr>\<lparr>pg_free_pages := d'\<rparr>"
      using merge_modifies(2) [of p "?s1\<lparr>pg_free_pages := d\<rparr>"] by blast
    ultimately have "free_page p n s = Some (s\<lparr>ln_prev := a, ln_next := b, pg_flags := (pg_flags s)(kpa p := 0),
      pg_free_pages := d', free_page_num := free_page_num s + n\<rparr>)" by simp
    then show ?thesis by blast
  qed
qed

text \<open>The page table slot the processor reads for \<open>la\<close>, if the directory has a table for it.\<close>

definition walk_slot :: "'a machine_scheme \<Rightarrow> u32 \<Rightarrow> u32 \<Rightarrow> u32 option" where
  "walk_slot s dir la =
     (let e = ld s (pde_slot dir la)
      in if ent_sign e AND 1 = 0 then None else Some (kpa (pte_slot e la)))"

lemma mmu_walk:
  "mmu s dir la = (case walk_slot s dir la of None \<Rightarrow> None
     | Some a \<Rightarrow> if ent_sign (pmem s a) AND 1 = 0 then None
         else Some (push_bit 12 (ent_addr (pmem s a)) OR (la AND 0xFFF)))"
  by (simp add: mmu_def walk_slot_def Let_def ld_def)

text \<open>\<open>outside_dir s dir a\<close>: the word at \<open>a\<close> is not an entry of the page directory.\<close>

definition outside_dir :: "u32 \<Rightarrow> u32 \<Rightarrow> bool" where
  "outside_dir dir a \<longleftrightarrow> (\<forall>i < 1024. a \<noteq> kpa (dir + 4 * i))"

lemma walk_slot_upd:
  assumes "outside_dir dir a" and "pmem s' = (pmem s)(a := v)"
  shows "walk_slot s' dir la = walk_slot s dir la"
proof -
  have "ld s' (pde_slot dir la) = ld s (pde_slot dir la)"
    using assms page_index_lt(1) [of la] by (auto simp: ld_def outside_dir_def pde_slot_def)
  then show ?thesis by (simp add: walk_slot_def)
qed

lemma walk_slot_cong: "pmem s' = pmem s \<Longrightarrow> walk_slot s' dir la = walk_slot s dir la"
  by (simp add: walk_slot_def ld_def)

lemma mmu_upd:
  assumes "outside_dir dir a" and "pmem s' = (pmem s)(a := v)"
  shows "mmu s' dir la =
    (if walk_slot s dir la = Some a
     then if ent_sign v AND 1 = 0 then None else Some (push_bit 12 (ent_addr v) OR (la AND 0xFFF))
     else mmu s dir la)"
  unfolding mmu_walk walk_slot_upd [OF assms] by (auto simp: assms(2) split: option.splits)

lemma get_pte_present:
  assumes "walk_slot s dir la = Some a"
  shows "\<exists>pte. get_pte dir la c s = Some (pte, s) \<and> kpa pte = a"
  using assms by (auto simp: walk_slot_def get_pte_def Let_def split: if_splits)

lemma ent_addr_drop: "push_bit 12 (drop_bit 12 pa AND 0xFFFFF) = push_bit 12 (drop_bit 12 (pa :: u32))"
proof -
  have m: "(0xFFFFF :: u32) = mask 20" by (simp add: mask_eq_exp_minus_1)
  show ?thesis unfolding m by (rule bit_word_eqI) (auto simp: bit_simps)
qed

text \<open>An entry as \<open>map\<close> leaves it, whatever was there before.\<close>

definition mapped_entry :: "u32 \<Rightarrow> u8 \<Rightarrow> u32 \<Rightarrow> u32" where
  "mapped_entry pa bitsign w = upd_addr (drop_bit 12 pa) (upd_sign (ucast bitsign) w)"

lemma mapped_entry_present: "bitsign AND 1 = 1 \<Longrightarrow> ent_sign (mapped_entry pa bitsign w) AND 1 \<noteq> 0"
proof -
  assume "bitsign AND 1 = 1"
  moreover have "ent_sign (mapped_entry pa bitsign w) AND 1 = ucast (bitsign AND 1)"
    unfolding mapped_entry_def by (rule bit_word_eqI) (auto simp: bit_simps bit_masks)
  ultimately show ?thesis by simp
qed

lemma mapped_entry_addr: "push_bit 12 (ent_addr (mapped_entry pa bitsign w)) = push_bit 12 (drop_bit 12 pa)"
  using ent_addr_drop [of pa] by (simp add: mapped_entry_def)

lemma pg_map_empty:
  assumes w: "walk_slot s dir la = Some a" and free: "ent_sign (pmem s a) AND 1 = 0"
    and pg: "pg = kpa (pa_addr_to_pg s pa)"
  shows "pg_map dir la pa bitsign s =
    Some (s\<lparr>pg_ref := (pg_ref s)(pg := pg_ref s pg + 1), pmem := (pmem s)(a := mapped_entry pa bitsign (pmem s a))\<rparr>)"
proof -
  obtain pte where pte: "get_pte dir la 1 s = Some (pte, s)" "kpa pte = a"
    using get_pte_present [OF w] by blast
  let ?pg = "pa_addr_to_pg s pa"
  let ?s1 = "set_ref ?pg (pg_ref s (kpa ?pg) + 1) s"
  have "ld ?s1 pte = ld s pte" by (simp add: ld_def set_ref_def)
  moreover have "ent_sign (ld s pte) AND 1 = 0" using free pte(2) by (simp add: ld_def)
  ultimately have "pg_map dir la pa bitsign s = Some (st pte (mapped_entry pa bitsign (ld s pte)) ?s1)"
    using pte by (simp add: pg_map_def Let_def mapped_entry_def)
  then show ?thesis using pte(2) by (simp add: st_def set_ref_def ld_def pg)
qed

lemma pg_unmap_present:
  assumes w: "walk_slot s dir la = Some a" and used: "ent_sign (pmem s a) AND 1 = 1" and fl: "free_list s ps"
    and pg: "pg = la_addr_to_pg s (push_bit 12 (ent_addr (pmem s a)) + VERTUAL_MEM)"
  shows "\<exists>s'. pg_unmap dir la s = Some s' \<and>
    pmem s' = (pmem s)(a := upd_sign 0 (upd_addr 0 (pmem s a))) \<and>
    pg_ref s' = (pg_ref s)(kpa pg := pg_ref s (kpa pg) - 1)"
proof -
  obtain pte where pte: "get_pte dir la 0 s = Some (pte, s)" "kpa pte = a"
    using get_pte_present [OF w] by blast
  let ?s1 = "set_ref pg (pg_ref s (kpa pg) - 1) s"
  have "free_list ?s1 ps" using fl by (subst free_list_cong [of _ s]) (simp_all, simp_all add: set_ref_def)
  from free_page_returns [OF this, of pg 1]
  have "\<exists>s2. (if pg_ref ?s1 (kpa pg) = 0 then free_page pg 1 ?s1 else Some ?s1) = Some s2 \<and>
      pmem s2 = pmem s \<and> pg_ref s2 = pg_ref ?s1"
    by (auto simp: set_ref_def)
  then obtain s2 where s2: "(if pg_ref ?s1 (kpa pg) = 0 then free_page pg 1 ?s1 else Some ?s1) = Some s2"
    "pmem s2 = pmem s" "pg_ref s2 = pg_ref ?s1" by blast
  have "la_addr_to_pg s (get_pg_addr_la s pte) = pg" by (simp add: get_pg_addr_la_def ld_def pte(2) pg)
  moreover have "ent_sign (ld s pte) AND 1 = 1" using used pte(2) by (simp add: ld_def)
  ultimately have "pg_unmap dir la s = Some (st pte (upd_sign 0 (upd_addr 0 (ld s2 pte))) s2)"
    using pte s2(1) by (simp add: pg_unmap_def Let_def)
  then show ?thesis using s2(2,3) pte(2) by (simp add: st_def set_ref_def ld_def)
qed

lemma pg_map_same:
  assumes w: "walk_slot s dir la = Some a" and used: "ent_sign (pmem s a) AND 1 = 1"
    and pg: "la_addr_to_pg s (push_bit 12 (ent_addr (pmem s a)) + VERTUAL_MEM) = pa_addr_to_pg s pa"
  shows "pg_map dir la pa bitsign s = Some (s\<lparr>pmem := (pmem s)(a := mapped_entry pa bitsign (pmem s a))\<rparr>)"
proof -
  obtain pte where pte: "get_pte dir la 1 s = Some (pte, s)" "kpa pte = a"
    using get_pte_present [OF w] by blast
  let ?pg = "pa_addr_to_pg s pa"
  let ?s1 = "set_ref ?pg (pg_ref s (kpa ?pg) + 1) s"
  have l: "ld ?s1 pte = ld s pte" by (simp add: ld_def set_ref_def)
  have u: "ent_sign (ld s pte) AND 1 = 1" using used pte(2) by (simp add: ld_def)
  have "la_addr_to_pg ?s1 (get_pg_addr_la ?s1 pte) = la_addr_to_pg s (push_bit 12 (ent_addr (pmem s a)) + VERTUAL_MEM)"
    using pte(2) by (simp add: get_pg_addr_la_def ld_def la_addr_to_pg_def set_ref_def)
  then have g: "la_addr_to_pg ?s1 (get_pg_addr_la ?s1 pte) = ?pg" using pg by simp
  have "set_ref ?pg (pg_ref ?s1 (kpa ?pg) - 1) ?s1 = s" by (simp add: set_ref_def)
  then have "pg_map dir la pa bitsign s = Some (st pte (mapped_entry pa bitsign (ld s pte)) s)"
    using pte(1) l u g by (simp add: pg_map_def Let_def mapped_entry_def)
  then show ?thesis using pte(2) by (simp add: st_def ld_def)
qed

text \<open>
  C29. \<open>unmap\<close> of a mapped address: with a well-formed free list it returns, the address (and
  every alias of its entry) no longer translates, all other translations are as before, and the
  page struct of the old frame loses one reference.
\<close>

theorem pg_unmap_translates:
  assumes w: "walk_slot s dir la = Some a" and used: "ent_sign (pmem s a) AND 1 = 1"
    and dir: "outside_dir dir a" and fl: "free_list s ps"
    and pg: "pg = la_addr_to_pg s (push_bit 12 (ent_addr (pmem s a)) + VERTUAL_MEM)"
  shows "\<exists>s'. pg_unmap dir la s = Some s' \<and>
    (\<forall>la'. mmu s' dir la' = (if walk_slot s dir la' = Some a then None else mmu s dir la')) \<and>
    pg_ref s' = (pg_ref s)(kpa pg := pg_ref s (kpa pg) - 1)"
proof -
  obtain s' where s': "pg_unmap dir la s = Some s'" "pmem s' = (pmem s)(a := upd_sign 0 (upd_addr 0 (pmem s a)))"
    "pg_ref s' = (pg_ref s)(kpa pg := pg_ref s (kpa pg) - 1)"
    using pg_unmap_present [OF w used fl pg] by blast
  then show ?thesis using mmu_upd [OF dir s'(2)] by simp
qed

text \<open>
  C34. \<open>map\<close> over an address that is mapped to another frame: instead of the address, the code unmaps
  the kernel's own address of the old frame. Afterwards the new mapping is in place, but
  the kernel can no longer reach the old frame through 0xC0000000 + its address.
\<close>

theorem pg_map_replaces_wrong_address:
  assumes w: "walk_slot s dir la = Some a" and used: "ent_sign (pmem s a) AND 1 = 1"
    and old: "old = push_bit 12 (ent_addr (pmem s a)) + VERTUAL_MEM" "la_addr_to_pg s old \<noteq> pa_addr_to_pg s pa"
    and k: "walk_slot s dir old = Some b" "ent_sign (pmem s b) AND 1 = 1" "b \<noteq> a"
    and dir: "outside_dir dir a" "outside_dir dir b" and fl: "free_list s ps" and sign: "bitsign AND 1 = 1"
  shows "\<exists>s'. pg_map dir la pa bitsign s = Some s' \<and> mmu s dir old \<noteq> None \<and> mmu s' dir old = None \<and>
    mmu s' dir la = Some (push_bit 12 (drop_bit 12 pa) OR (la AND 0xFFF))"
proof -
  obtain pte where pte: "get_pte dir la 1 s = Some (pte, s)" "kpa pte = a"
    using get_pte_present [OF w] by blast
  let ?pg = "pa_addr_to_pg s pa"
  let ?s1 = "set_ref ?pg (pg_ref s (kpa ?pg) + 1) s"
  have p1: "pmem ?s1 = pmem s" by (simp add: set_ref_def)
  have fl1: "free_list ?s1 ps" using fl by (subst free_list_cong [of _ s]) (simp_all, simp_all add: set_ref_def)
  have k1: "walk_slot ?s1 dir old = Some b" "ent_sign (pmem ?s1 b) AND 1 = 1"
    using k(1,2) by (simp_all add: walk_slot_cong [OF p1] p1)
  obtain s2 where s2: "pg_unmap dir old ?s1 = Some s2" "pmem s2 = (pmem s)(b := upd_sign 0 (upd_addr 0 (pmem s b)))"
    using pg_unmap_present [OF k1 fl1 refl] unfolding p1 by blast
  have "get_pg_addr_la ?s1 pte = old" "ent_sign (ld ?s1 pte) AND 1 = 1"
    "la_addr_to_pg ?s1 old = la_addr_to_pg s old"
    using used old(1) pte(2) by (simp_all add: get_pg_addr_la_def ld_def p1 la_addr_to_pg_def set_ref_def)
  then have m: "pg_map dir la pa bitsign s = Some (st pte (mapped_entry pa bitsign (ld s2 pte)) s2)"
    using pte old(2) s2(1) by (simp add: pg_map_def Let_def mapped_entry_def)
  let ?s3 = "st pte (mapped_entry pa bitsign (ld s2 pte)) s2"
  have p3: "pmem ?s3 = (pmem s2)(a := mapped_entry pa bitsign (ld s2 pte))" using pte(2) by (simp add: st_def)
  note m3 = mmu_upd [OF dir(1) p3] and w2 = walk_slot_upd [OF dir(2) s2(2)] and m2 = mmu_upd [OF dir(2) s2(2)]
  have "mmu ?s3 dir la = Some (push_bit 12 (drop_bit 12 pa) OR (la AND 0xFFF))"
    unfolding m3 w2 w using mapped_entry_present [OF sign] mapped_entry_addr by simp
  moreover have "mmu ?s3 dir old = None" unfolding m3 w2 m2 k(1) using k(3) by simp
  moreover have "mmu s dir old \<noteq> None" using k by (simp add: mmu_walk)
  ultimately show ?thesis using m by blast
qed

text \<open>
  \<open>unmap\<close> of an address without a page table does not do nothing: \<open>get_pte\<close> returns a null
  pointer, which the code follows to physical address 0, the first entry of the page directory. If that
  is present, as \<open>kern_init\<close> leaves it, it is cleared: the lower window is gone.
\<close>

theorem pg_unmap_no_table_hits_directory:
  assumes "walk_slot s dir la = None" and "ent_sign (pmem s 0) AND 1 = 1" and fl: "free_list s ps"
  shows "\<exists>s'. pg_unmap dir la s = Some s' \<and> ent_sign (pmem s' 0) = 0 \<and> ent_addr (pmem s' 0) = 0"
proof -
  have g: "get_pte dir la 0 s = Some (NULL, s)"
    using assms(1) by (simp add: get_pte_def walk_slot_def Let_def split: if_splits)
  let ?pg = "la_addr_to_pg s (get_pg_addr_la s NULL)"
  let ?s1 = "set_ref ?pg (pg_ref s (kpa ?pg) - 1) s"
  have "free_list ?s1 ps" using fl by (subst free_list_cong [of _ s]) (simp_all, simp_all add: set_ref_def)
  from free_page_returns [OF this, of ?pg 1]
  obtain s2 where "(if pg_ref ?s1 (kpa ?pg) = 0 then free_page ?pg 1 ?s1 else Some ?s1) = Some s2"
    by fastforce
  moreover have "ent_sign (ld s NULL) AND 1 = 1" using assms(2) by (simp add: ld_def)
  ultimately have "pg_unmap dir la s = Some (st NULL (upd_sign 0 (upd_addr 0 (ld s2 NULL))) s2)"
    using g by (simp add: pg_unmap_def Let_def)
  then show ?thesis by (simp add: st_def)
qed

section \<open>Creating a page table\<close>

text \<open>
  \<open>dir_ok\<close>: the directory lies inside one window. \<open>frame_unused\<close>: the frame holds neither the
  directory nor a page table that the directory uses, and no table lies in the directory.
\<close>

definition dir_ok :: "u32 \<Rightarrow> bool" where
  "dir_ok dir \<longleftrightarrow> (\<forall>i < 1024. kpa (dir + 4 * i) = kpa dir + 4 * i)"

definition frame_unused :: "'a machine_scheme \<Rightarrow> u32 \<Rightarrow> u32 \<Rightarrow> bool" where
  "frame_unused s dir frame \<longleftrightarrow> (\<forall>la. PAGE_SIZE \<le> kpa (pde_slot dir la) - frame) \<and>
     (\<forall>la a. walk_slot s dir la = Some a \<longrightarrow> PAGE_SIZE \<le> a - frame \<and> outside_dir dir a)"

lemma pde_slot_eq:
  "dir_ok dir \<Longrightarrow> kpa (pde_slot dir la') = kpa (pde_slot dir la) \<longleftrightarrow> drop_bit 22 la' = drop_bit 22 la"
  using page_index_lt(1) [of la] page_index_lt(1) [of la'] times4_eq [of "drop_bit 22 la'" "drop_bit 22 la"]
  by (auto simp: dir_ok_def pde_slot_def)

lemma frame_number:
  assumes "fn < (0x40000 :: u32)"
  shows "push_bit 12 fn < (0x40000000 :: u32)" and "drop_bit 12 (push_bit 12 fn) = fn"
proof -
  have n: "unat fn < 262144" using assms by (simp add: word_less_nat_alt)
  then have u: "unat (push_bit 12 fn) = unat fn * 4096" by (simp add: push_bit_eq_mult unat_word_ariths)
  then show "push_bit 12 fn < 0x40000000" using n by (simp add: word_less_nat_alt)
  show "drop_bit 12 (push_bit 12 fn) = fn"
    using u by (simp add: word_unat_eq_iff drop_bit_eq_div unat_div)
qed

lemma table_offset: "4 * (drop_bit 12 la AND 0x3FF) < (PAGE_SIZE :: u32)"
  using page_index_lt(2) [of la] unat_times4 [OF page_index_lt(2) [of la]] by (simp add: word_less_nat_alt)

text \<open>What the directory leads to after a fresh table has been entered.\<close>

lemma walk_new_table:
  assumes ok: "dir_ok dir" and dir: "\<forall>la. PAGE_SIZE \<le> kpa (pde_slot dir la) - frame" and fr: "frame = push_bit 12 fn" "fn < 0x40000"
    and pm: "pmem s' = (\<lambda>a. if a - frame < PAGE_SIZE then 0 else pmem s a)(kpa (pde_slot dir la) := push_bit 12 fn OR 7)"
  shows "walk_slot s' dir la' = (if drop_bit 22 la' = drop_bit 22 la then Some (frame + 4 * (drop_bit 12 la' AND 0x3FF)) else walk_slot s dir la')"
proof (cases "drop_bit 22 la' = drop_bit 22 la")
  case True
  have fn: "fn < 0x100000" using fr(2) by (rule less_trans) simp
  let ?x = "4 * (drop_bit 12 la' AND 0x3FF)"
  have "unat (frame + ?x) < 0x40000000"
  proof -
    have "unat fn < 262144" using fr(2) by (simp add: word_less_nat_alt)
    moreover have "unat frame = unat fn * 4096" using calculation fr(1) by (simp add: push_bit_eq_mult unat_word_ariths)
    moreover have "unat ?x < 4096" using table_offset [of la'] by (simp add: word_less_nat_alt)
    ultimately show ?thesis by (simp add: unat_word_ariths)
  qed
  then have "frame + ?x < 0x40000000" by (simp add: word_less_nat_alt)
  then have slot: "kpa (pte_slot (push_bit 12 fn OR 7) la') = frame + ?x"
    using kpa_add_VERTUAL_MEM [of "frame + ?x"] entry_fields(2) [OF fn, of 7] fr(1)
    by (simp add: pte_slot_def algebra_simps)
  have "pde_slot dir la' = pde_slot dir la" using True by (simp add: pde_slot_def)
  then show ?thesis
    using True slot entry_fields(1) [OF fn, of 7] by (simp add: walk_slot_def ld_def pm Let_def)
next
  case False
  have "\<not> kpa (pde_slot dir la') - frame < PAGE_SIZE" using dir by (simp add: not_less)
  then have "ld s' (pde_slot dir la') = ld s (pde_slot dir la')"
    using False pde_slot_eq [OF ok, of la' la] by (simp add: ld_def pm)
  then show ?thesis using False by (simp add: walk_slot_def)
qed

text \<open>A fresh zeroed table under an empty directory entry changes no translation.\<close>

lemma mmu_new_table:
  assumes none: "walk_slot s dir la = None" and ok: "dir_ok dir" and un: "frame_unused s dir frame"
    and fr: "frame = push_bit 12 fn" "fn < 0x40000"
    and pm: "pmem s' = (\<lambda>a. if a - frame < PAGE_SIZE then 0 else pmem s a)(kpa (pde_slot dir la) := push_bit 12 fn OR 7)"
  shows "mmu s' dir la' = mmu s dir la'"
proof -
  have dir: "\<forall>la. PAGE_SIZE \<le> kpa (pde_slot dir la) - frame" using un by (simp add: frame_unused_def)
  note w = walk_new_table [OF ok dir fr pm]
  have slot: "kpa (pde_slot dir la) \<noteq> a" if "outside_dir dir a" for a
    using that page_index_lt(1) [of la] by (auto simp: outside_dir_def pde_slot_def)
  show ?thesis
  proof (cases "drop_bit 22 la' = drop_bit 22 la")
    case True
    let ?x = "4 * (drop_bit 12 la' AND 0x3FF)"
    have "frame + ?x \<noteq> kpa (pde_slot dir la)"
      using table_offset [of la'] dir by (metis add_diff_cancel_left' leD)
    then have "pmem s' (frame + ?x) = 0" using table_offset [of la'] by (simp add: pm)
    moreover have "walk_slot s dir la' = None"
      using none True by (simp add: walk_slot_def pde_slot_def Let_def split: if_splits)
    ultimately show ?thesis using True by (simp add: mmu_walk w ent_sign_def)
  next
    case False
    have "pmem s' a = pmem s a" if "walk_slot s dir la' = Some a" for a
    proof -
      have "\<not> a - frame < PAGE_SIZE" and "outside_dir dir a" using un that by (auto simp: frame_unused_def not_less)
      then show ?thesis using slot [of a] by (simp add: pm)
    qed
    then show ?thesis using False unfolding mmu_walk w by (simp split: option.split)
  qed
qed

lemma get_pte_new_table:
  assumes none: "walk_slot s dir la = None" and bl: "block_list s ((p, k) # bs)" and k: "1 < k"
    and p: "p = page_plus (pages s) j" and off: "no_victim s 1 (block_pages ((p, k) # bs))"
    and fr: "frame = j * PAGE_SIZE + pt_begin s" "frame = push_bit 12 fn" "fn < 0x40000"
  shows "\<exists>s'. get_pte dir la 1 s = Some (frame + VERTUAL_MEM + 4 * (drop_bit 12 la AND 0x3FF), s') \<and>
    block_list s' ((page_plus p 1, k - 1) # bs) \<and> pg_ref s' = (pg_ref s)(p := 1) \<and>
    pmem s' = (\<lambda>a. if a - frame < PAGE_SIZE then 0 else pmem s a)(kpa (pde_slot dir la) := push_bit 12 fn OR 7) \<and>
    pages s' = pages s \<and> pt_begin s' = pt_begin s \<and> pd s' = pd s \<and> is_vmm_inited s' = is_vmm_inited s \<and>
    free_pages_head s' = free_pages_head s \<and> chunk_head s' = chunk_head s \<and> machine.more s' = machine.more s"
proof -
  let ?slot = "pde_slot dir la"
  obtain s1 a b where al: "alloc_page 1 s = Some (p + VERTUAL_MEM, s1)"
    and bl1: "block_list s1 ((page_plus p 1, k - 1) # bs)"
    and s1: "s1 = s\<lparr>ln_prev := a, ln_next := b, free_page_num := free_page_num s - 1,
      pg_free_pages := (pg_free_pages s)(page_plus p 1 := of_nat (k - unat (1 :: u32))),
      pg_flags := (pg_flags s)(page_plus p 1 := 1)\<rparr>"
    using alloc_page_block [OF bl, of 1] k off by auto
  have "p \<in> set (block_pages ((p, k) # bs))" using k by (simp add: page_run_Cons)
  then have "low_page p" using bl by (auto simp: block_list_def free_list_def)
  then have lp: "p < 0x3FFFFF00" by (simp add: low_page_def)
  then have "unat p < 0x3FFFFF00" by (simp add: word_less_nat_alt)
  then have "unat (p + VERTUAL_MEM) \<noteq> 0" by (simp add: unat_word_ariths)
  then have nn: "p + VERTUAL_MEM \<noteq> NULL" by (metis unat_0)
  have kp: "kpa (p + VERTUAL_MEM) = p" using lp by (intro kpa_add_VERTUAL_MEM) (erule less_trans, simp)
  have fl: "frame < 0x40000000" "drop_bit 12 frame = fn" using frame_number [OF fr(3)] unfolding fr(2) .
  let ?s2 = "set_ref (p + VERTUAL_MEM) 1 s1"
  have la: "pg_to_addr_la ?s2 (p + VERTUAL_MEM) = frame + VERTUAL_MEM"
    and pa: "pg_to_addr_pa ?s2 (p + VERTUAL_MEM) = frame"
    using pg_to_addr(2,4) [of s j] fr(1) p by (simp_all add: pg_to_addr_la_def pg_to_addr_pa_def s1 set_ref_def)
  let ?s' = "st ?slot (push_bit 12 fn OR 7) (memset_frame (frame + VERTUAL_MEM) ?s2)"
  have e: "pte_slot (push_bit 12 fn OR 7) la = frame + VERTUAL_MEM + 4 * (drop_bit 12 la AND 0x3FF)"
    using entry_fields(2) [of fn 7] fr(2,3) less_trans [OF fr(3), of "0x100000"] by (simp add: pte_slot_def)
  have "ent_sign (ld s ?slot) AND 1 = 0" using none by (simp add: walk_slot_def Let_def split: if_splits)
  moreover have "pg_to_addr_pa (st ?slot v (st ?slot w (memset_frame x ?s2))) q = pg_to_addr_pa ?s2 q"
    "pg_to_addr_pa (st ?slot v (memset_frame x ?s2)) q = pg_to_addr_pa ?s2 q" for v w x q
    by (simp_all add: pg_to_addr_pa_def st_def memset_frame_def)
  ultimately have g: "get_pte dir la 1 s = Some (frame + VERTUAL_MEM + 4 * (drop_bit 12 la AND 0x3FF), ?s')"
    unfolding get_pte_def by (simp add: al nn la pa fl(2) full_entry e Let_def)
  have pm: "pmem ?s' = (\<lambda>a. if a - frame < PAGE_SIZE then 0 else pmem s a)(kpa ?slot := push_bit 12 fn OR 7)"
  proof -
    have "pmem ?s2 = pmem s" by (simp add: s1 set_ref_def)
    then show ?thesis using fl(1) by (simp add: st_def memset_frame_def kpa_add_VERTUAL_MEM cong: if_cong)
  qed
  have "block_list ?s' ((page_plus p 1, k - 1) # bs)"
    using bl1 free_list_cong [of ?s' s1]
    by (simp add: block_list_def free_pages_of_def st_def memset_frame_def set_ref_def get_next_def get_prev_def fun_eq_iff)
  moreover have "pg_ref ?s' = (pg_ref s)(p := 1)"
    by (simp add: st_def memset_frame_def set_ref_def s1 kp)
  moreover have "pages ?s' = pages s" "pt_begin ?s' = pt_begin s" "pd ?s' = pd s" "is_vmm_inited ?s' = is_vmm_inited s"
    "free_pages_head ?s' = free_pages_head s" "chunk_head ?s' = chunk_head s" "machine.more ?s' = machine.more s"
    by (simp_all add: st_def memset_frame_def set_ref_def s1)
  ultimately show ?thesis using g pm by blast
qed

text \<open>
  \<open>get_pte\<close> with \<open>is_create\<close>, where the directory has no table yet: the first page of the free list
  becomes the table, zeroed, with one reference; the directory points to it with all of present,
  writable and user; the entry returned lies in it, and no address translates
  differently. (Provided that the allocation swaps no page out.)
\<close>

theorem get_pte_creates_table:
  assumes none: "walk_slot s dir la = None" and bl: "block_list s ((p, k) # bs)" and k: "1 < k"
    and p: "p = page_plus (pages s) j" and off: "no_victim s 1 (block_pages ((p, k) # bs))"
    and fr: "frame = j * PAGE_SIZE + pt_begin s" "frame = push_bit 12 fn" "fn < 0x40000"
    and ok: "dir_ok dir" and un: "frame_unused s dir frame"
  shows "\<exists>s'. get_pte dir la 1 s = Some (frame + VERTUAL_MEM + 4 * (drop_bit 12 la AND 0x3FF), s') \<and>
    block_list s' ((page_plus p 1, k - 1) # bs) \<and> pg_ref s' = (pg_ref s)(p := 1) \<and>
    ld s' (pde_slot dir la) = frame OR 7 \<and> (\<forall>a. a - frame < PAGE_SIZE \<longrightarrow> pmem s' a = 0) \<and>
    (\<forall>la'. mmu s' dir la' = mmu s dir la')"
proof -
  obtain s' where s': "get_pte dir la 1 s = Some (frame + VERTUAL_MEM + 4 * (drop_bit 12 la AND 0x3FF), s')"
      "block_list s' ((page_plus p 1, k - 1) # bs)" "pg_ref s' = (pg_ref s)(p := 1)"
      "pmem s' = (\<lambda>a. if a - frame < PAGE_SIZE then 0 else pmem s a)(kpa (pde_slot dir la) := push_bit 12 fn OR 7)"
    using get_pte_new_table [OF none bl k p off fr] by blast
  moreover have "pmem s' a = 0" if "a - frame < PAGE_SIZE" for a
    using un that leD unfolding s'(4) frame_unused_def by auto
  ultimately show ?thesis
    using mmu_new_table [OF none ok un fr(2,3) s'(4)] fr(2) by (auto simp: ld_def)
qed

section \<open>Mapping\<close>

text \<open>Where \<open>map\<close> can put an entry: a table with an empty entry, an entry that holds the page already, or no table yet.
  The last argument is the reference counts before the page that is mapped gets one more.\<close>

inductive map_case :: "'a machine_scheme \<Rightarrow> u32 \<Rightarrow> u32 \<Rightarrow> u32 \<Rightarrow> (u32 \<Rightarrow> i32) \<Rightarrow> bool" where
  Empty_entry: "walk_slot s dir la = Some a \<Longrightarrow> outside_dir dir a \<Longrightarrow> ent_sign (pmem s a) AND 1 = 0 \<Longrightarrow>
    map_case s dir la pa ((pg_ref s)(kpa (pa_addr_to_pg s pa) := pg_ref s (kpa (pa_addr_to_pg s pa)) + 1))"
| Same_page: "walk_slot s dir la = Some a \<Longrightarrow> outside_dir dir a \<Longrightarrow> ent_sign (pmem s a) AND 1 = 1 \<Longrightarrow>
    la_addr_to_pg s (push_bit 12 (ent_addr (pmem s a)) + VERTUAL_MEM) = pa_addr_to_pg s pa \<Longrightarrow> map_case s dir la pa (pg_ref s)"
| No_table: "walk_slot s dir la = None \<Longrightarrow> block_list s ((p, k) # bs) \<Longrightarrow> 1 < k \<Longrightarrow> p = page_plus (pages s) j \<Longrightarrow>
    no_victim s 1 (block_pages ((p, k) # bs)) \<Longrightarrow> frame = j * PAGE_SIZE + pt_begin s \<Longrightarrow> frame = push_bit 12 fn \<Longrightarrow> fn < 0x40000 \<Longrightarrow>
    dir_ok dir \<Longrightarrow> frame_unused s dir frame \<Longrightarrow> ref = (pg_ref s)(p := 1) \<Longrightarrow>
    map_case s dir la pa (ref(kpa (pa_addr_to_pg s pa) := ref (kpa (pa_addr_to_pg s pa)) + 1))"

text \<open>The addresses that share the entry of \<open>la\<close>.\<close>

definition same_entry :: "'a machine_scheme \<Rightarrow> u32 \<Rightarrow> u32 \<Rightarrow> u32 \<Rightarrow> bool" where
  "same_entry s dir la la' \<longleftrightarrow> (if walk_slot s dir la = None then drop_bit 12 la' = drop_bit 12 la else walk_slot s dir la' = walk_slot s dir la)"

lemma same_slot_page:
  assumes "drop_bit 22 la = drop_bit 22 la'" and "drop_bit 12 la AND 0x3FF = drop_bit 12 la' AND (0x3FF :: u32)"
  shows "drop_bit 12 la = drop_bit 12 la'"
proof -
  have m: "(0x3FF :: u32) = mask 10" by (simp add: mask_eq_exp_minus_1)
  have "drop_bit 12 x = push_bit 10 (drop_bit 22 x) OR (drop_bit 12 x AND 0x3FF)" for x :: u32
    unfolding m by (rule bit_word_eqI) (auto simp: bit_simps)
  then show ?thesis using assms by metis
qed

lemma dir_index: "i < (1024 :: u32) \<Longrightarrow> drop_bit 22 (push_bit 22 i) = i"
proof -
  assume "i < 1024"
  then have "unat (push_bit 22 i) = unat i * 4194304" by (simp add: word_less_nat_alt push_bit_eq_mult unat_word_ariths)
  then show ?thesis by (simp add: word_unat_eq_iff drop_bit_eq_div unat_div)
qed

lemma same_page_slot: "drop_bit 12 la = drop_bit 12 la' \<Longrightarrow> drop_bit 22 la = drop_bit 22 (la' :: u32)"
proof -
  assume "drop_bit 12 la = drop_bit 12 la'"
  then have "drop_bit 10 (drop_bit 12 la) = drop_bit 10 (drop_bit 12 la')" by simp
  then show ?thesis by (simp add: drop_bit_drop_bit)
qed

lemma pg_map_new_table:
  assumes none: "walk_slot s dir la = None" and bl: "block_list s ((p, k) # bs)" and k: "1 < k" and p: "p = page_plus (pages s) j"
    and off: "no_victim s 1 (block_pages ((p, k) # bs))" and fr: "frame = j * PAGE_SIZE + pt_begin s" "frame = push_bit 12 fn" "fn < 0x40000"
    and ok: "dir_ok dir" and un: "frame_unused s dir frame" and a: "a = frame + 4 * (drop_bit 12 la AND 0x3FF)"
  shows "\<exists>s1. pg_map dir la pa bitsign s = pg_map dir la pa bitsign s1 \<and> walk_slot s1 dir la = Some a \<and> outside_dir dir a \<and> pmem s1 a = 0
    \<and> pg_ref s1 = (pg_ref s)(p := 1) \<and> pa_addr_to_pg s1 pa = pa_addr_to_pg s pa
    \<and> (\<forall>la'. mmu s1 dir la' = mmu s dir la' \<and> (walk_slot s1 dir la' = Some a \<longleftrightarrow> drop_bit 12 la' = drop_bit 12 la))"
proof -
  obtain s1 where s1: "get_pte dir la 1 s = Some (frame + VERTUAL_MEM + 4 * (drop_bit 12 la AND 0x3FF), s1)" "pg_ref s1 = (pg_ref s)(p := 1)"
      "pmem s1 = (\<lambda>a. if a - frame < PAGE_SIZE then 0 else pmem s a)(kpa (pde_slot dir la) := push_bit 12 fn OR 7)"
      "pages s1 = pages s" "pt_begin s1 = pt_begin s"
    using get_pte_new_table [OF none bl k p off fr] by blast
  have dir: "\<forall>la. PAGE_SIZE \<le> kpa (pde_slot dir la) - frame" using un by (simp add: frame_unused_def)
  note w = walk_new_table [OF ok dir fr(2,3) s1(3)]
  have fn: "fn < 0x100000" using fr(3) by (rule less_trans) simp
  have "ld s1 (pde_slot dir la) = push_bit 12 fn OR 7" by (simp add: ld_def s1(3))
  then have "get_pte dir la 1 s1 = Some (frame + VERTUAL_MEM + 4 * (drop_bit 12 la AND 0x3FF), s1)"
    using entry_fields [OF fn, of 7] fr(2) by (simp add: get_pte_def pte_slot_def Let_def)
  then have m: "pg_map dir la pa bitsign s = pg_map dir la pa bitsign s1" using s1(1) by (simp add: pg_map_def)
  have od: "outside_dir dir a"
    unfolding outside_dir_def
  proof (intro allI impI)
    fix i :: u32 assume "i < 1024"
    then have "PAGE_SIZE \<le> kpa (dir + 4 * i) - frame" using dir [rule_format, of "push_bit 22 i"] by (simp add: pde_slot_def dir_index)
    then show "a \<noteq> kpa (dir + 4 * i)" using table_offset [of la] a by (metis add_diff_cancel_left' leD)
  qed
  have z: "pmem s1 a = 0"
    using od page_index_lt(1) [of la] table_offset [of la] a by (auto simp: s1(3) outside_dir_def pde_slot_def)
  have same: "walk_slot s1 dir la' = Some a \<longleftrightarrow> drop_bit 12 la' = drop_bit 12 la" for la'
  proof (cases "drop_bit 22 la' = drop_bit 22 la")
    case True
    then have "walk_slot s1 dir la' = Some a \<longleftrightarrow> drop_bit 12 la' AND 0x3FF = drop_bit 12 la AND 0x3FF"
      using times4_eq [OF page_index_lt(2) page_index_lt(2), of la' la] by (simp add: w a)
    then show ?thesis using same_slot_page [OF True] by auto
  next
    case False
    then have "drop_bit 12 la' \<noteq> drop_bit 12 la" using same_page_slot by blast
    moreover have "walk_slot s1 dir la' \<noteq> Some a"
    proof
      assume "walk_slot s1 dir la' = Some a"
      then have "PAGE_SIZE \<le> a - frame" using un False unfolding frame_unused_def by (simp add: w)
      then show False using table_offset [of la] a by (simp add: leD)
    qed
    ultimately show ?thesis by simp
  qed
  show ?thesis using m w [of la] a od z s1(2,4,5) same mmu_new_table [OF none ok un fr(2,3) s1(3)]
    by (intro exI [of _ s1]) (simp add: pa_addr_to_pg_def)
qed


lemma page_init_list_pt_begin:
  "pt_begin (page_init_list b e s) = ROUNDUP (ROUNDUP b + frame_count b e * sizeof_Page)"
proof -
  have *: "pt_begin (fold (\<lambda>i s. list_insert_before (free_pages_head s) (page_node (page_plus (pages s) (of_nat i))) s) is s) =
      pt_begin s" for "is" and s :: "'a machine_scheme"
    by (induction "is" arbitrary: s) simp_all
  show ?thesis
    unfolding page_init_list_def Let_def * by (simp add: memset_structs_def set_free_pages_def)
qed

lemma unat_page_multiple:
  "unat (ROUNDDOWN e) = 4096 * (unat e div 4096)"
  "unat b + 4096 < 4294967296 \<Longrightarrow> unat (ROUNDUP b) = 4096 * (unat b div 4096 + 1)"
  by (simp_all add: unat_ROUNDDOWN unat_ROUNDUP minus_mod_eq_mult_div)

text \<open>
  The number of frames is computed from the memory behind the kernel, but the page structs take
  their share of it first. Unless the count is cut at 30000, the last frame of the allocator
  starts at or beyond the end of the usable memory.
\<close>

theorem page_init_overcommits:
  assumes be: "unat b + 8192 \<le> unat e" and e: "unat e < 0x7000000"
    and n: "n = unat (frame_count b e)" "s' = page_init_list b e s"
  shows "unat (ROUNDDOWN e) \<le> unat (pt_begin s') + 4096 * (n - 1)"
proof -
  let ?m = "unat e div 4096 - (unat b div 4096 + 1)"
  note U = unat_page_multiple(1) [of e] unat_page_multiple(2) [of b]
  have "(unat b + 8192) div 4096 \<le> unat e div 4096" by (rule div_le_mono [OF be])
  then have le: "unat b div 4096 + 2 \<le> unat e div 4096" by simp
  have b: "unat b + 4096 < 4294967296" using be e by simp
  have "unat (ROUNDDOWN e - ROUNDUP b) = 4096 * ?m"
    using U(1) U(2) [OF b] le by (simp add: unat_sub word_le_nat_alt right_diff_distrib')
  then have d: "unat ((ROUNDDOWN e - ROUNDUP b) div PAGE_SIZE) = ?m" by (simp add: unat_div)
  have "unat e div 4096 \<le> 0x7000000 div 4096" by (rule div_le_mono) (use e in simp)
  then have m: "?m \<le> 28672" by simp
  then have fc: "frame_count b e = (ROUNDDOWN e - ROUNDUP b) div PAGE_SIZE"
    by (simp add: frame_count_def Let_def sless_small d)
  then have nm: "n = ?m" by (simp add: n d)
  let ?x = "ROUNDUP b + frame_count b e * sizeof_Page"
  have "unat (frame_count b e * sizeof_Page) = 24 * n"
    using m unfolding fc unat_word_ariths(2) d nm by simp
  moreover have "unat (ROUNDUP b) + 24 * n < 4294960000" using ROUNDUP_gt(2) [OF b] be e m nm by linarith
  ultimately have x: "unat ?x = unat (ROUNDUP b) + 24 * n" "unat ?x + 4096 < 4294967296"
    by (simp_all add: unat_word_ariths(1))
  have "unat (ROUNDUP b) div 4096 \<le> unat ?x div 4096" unfolding x(1) by (rule div_le_mono) simp
  then have "unat (ROUNDUP b) + 4096 \<le> unat (pt_begin s')"
    unfolding n(2) page_init_list_pt_begin unat_page_multiple(2) [OF x(2)] U(2) [OF b] by simp
  moreover have "n - 1 + (unat b div 4096 + 2) = unat e div 4096" using le nm by simp
  then have "4096 * (n - 1) + 4096 * (unat b div 4096 + 2) = 4096 * (unat e div 4096)"
    by (metis add_mult_distrib2)
  ultimately show ?thesis using U(1) U(2) [OF b] by simp
qed

section \<open>Worked examples\<close>

text \<open>A directory at 0xC0106000 with one table, at 0x200000, whose entry 5 maps the frame at 0x1BA000.\<close>

definition table_example :: machine where
  "table_example = st 0xC0200014 0x1BA007 (st 0xC0106000 0x200007 (free_example [(0x108000, 3), (0x108060, 2)]))"

lemma pmem_free_example [simp]: "pmem (free_example bs) = (\<lambda>_. 0)"
proof -
  obtain a b where "fold (list_insert_before (free_pages_head machine0)) (map page_node (block_pages bs))
      (list_init (free_pages_head machine0) machine0) = machine0\<lparr>ln_prev := a, ln_next := b\<rparr>"
    using fold_modifies [of "list_insert_before (free_pages_head machine0)" "map page_node (block_pages bs)"
        "list_init (free_pages_head machine0) machine0", OF list_insert_before_modifies]
      same_more_modifies [OF list_ops_more(1), of "free_pages_head machine0" machine0] by force
  then show ?thesis by (simp add: free_example_def machine0_def Let_def)
qed

lemma pmem_table_example: "pmem table_example = (\<lambda>_. 0)(0x106000 := 0x200007, 0x200014 := 0x1BA007)"
  by (simp add: table_example_def st_def kpa_def)

lemma block_list_table_example: "block_list table_example [(0x108000, 3), (0x108060, 2)]"
  using free_example_blocks unfolding block_list_def
  by (subst free_list_cong [of _ "free_example [(0x108000, 3), (0x108060, 2)]"])
     (simp_all add: table_example_def, simp_all add: st_def free_pages_of_def)

lemma free_list_table_example: "free_list table_example (block_pages [(0x108000, 3), (0x108060, 2)])"
  using block_list_table_example by (simp only: block_list_def)

lemma outside_dirI:
  assumes "VERTUAL_MEM \<le> dir" and "unat dir + 4096 < 4294967296" and "unat (kpa dir) + 4096 \<le> unat a"
  shows "outside_dir dir a" and "dir_ok dir"
proof -
  have k: "kpa (dir + 4 * i) = kpa dir + 4 * i" and u: "unat (4 * i) < 4096" if "i < 1024" for i
  proof -
    show u: "unat (4 * i) < 4096" using that unat_times4 [OF that] by (simp add: word_less_nat_alt)
    show "kpa (dir + 4 * i) = kpa dir + 4 * i" using assms u by (intro kpa_offset_high) simp_all
  qed
  then show "dir_ok dir" by (simp add: dir_ok_def)
  have "unat (kpa dir) + 4096 < 4294967296" using assms(3) unat_lt_2_32 [of a] by simp
  then have "unat (kpa dir + 4 * i) < unat a" if "i < 1024" for i
    using u [OF that] assms(3) by (simp add: unat_word_ariths)
  then show "outside_dir dir a" using k by (auto simp: outside_dir_def)
qed

lemma walk_table_example:
  "walk_slot table_example 0xC0106000 la =
    (if drop_bit 22 la = 0 then Some (0x200000 + 4 * (drop_bit 12 la AND 0x3FF)) else None)"
proof -
  let ?i = "drop_bit 12 la AND 0x3FF"
  have ok: "dir_ok 0xC0106000" by (rule outside_dirI [of _ "0x200000"]) (simp_all add: kpa_def)
  have kd: "kpa (pde_slot 0xC0106000 la) = 0x106000 + 4 * drop_bit 22 la"
    using ok page_index_lt(1) [of la] by (simp add: dir_ok_def pde_slot_def kpa_def)
  have "unat (4 * drop_bit 22 la) < 4096"
    using page_index_lt(1) [of la] unat_times4 [of "drop_bit 22 la"] by (simp add: word_less_nat_alt)
  then have "unat (0x106000 + 4 * drop_bit 22 la) < 0x107000" by (simp add: unat_word_ariths)
  then have ne: "0x106000 + 4 * drop_bit 22 la \<noteq> 0x200014" by auto
  have z: "4 * drop_bit 22 la = 0 \<longleftrightarrow> drop_bit 22 la = 0" using times4_eq [of "drop_bit 22 la" 0] page_index_lt(1) by simp
  have "unat (4 * ?i) < 4096" using table_offset [of la] by (simp add: word_less_nat_alt)
  then have "0x200000 + 4 * ?i < 0x40000000" by (simp add: word_less_nat_alt unat_word_ariths)
  moreover have "push_bit 12 (ent_addr 0x200007) = 0x200000" by (simp add: ent_addr_def)
  ultimately have "kpa (pte_slot 0x200007 la) = 0x200000 + 4 * ?i"
    using kpa_add_VERTUAL_MEM [of "0x200000 + 4 * ?i"] by (simp add: pte_slot_def algebra_simps)
  then show ?thesis
    using ne z by (auto simp: walk_slot_def ld_def pmem_table_example kd ent_sign_def Let_def)
qed

theorem pg_unmap_translates_witness:
  "\<exists>s'. pg_unmap 0xC0106000 0x5000 table_example = Some s' \<and> mmu s' 0xC0106000 0x5000 = None"
proof -
  have "outside_dir 0xC0106000 0x200014" by (rule outside_dirI) (simp_all add: kpa_def)
  then show ?thesis
    using pg_unmap_translates [of table_example "0xC0106000" "0x5000" "0x200014", OF _ _ _ free_list_table_example refl]
    by (auto simp: walk_table_example pmem_table_example ent_sign_def)
qed

text \<open>The same with a table at 0x201000 for the kernel addresses from 0xC0000000 on, which maps 0xC01BA000.\<close>

definition alias_example :: machine where
  "alias_example = st 0xC02016E8 0x1BA007 (st 0xC0106C00 0x201007 table_example)"

lemma walk_alias_example:
  "walk_slot alias_example 0xC0106000 0x5000 = Some 0x200014"
  "walk_slot alias_example 0xC0106000 0xC01BA000 = Some 0x2016E8"
  "pmem alias_example = (pmem table_example)(0x106C00 := 0x201007, 0x2016E8 := 0x1BA007)"
  by (simp_all add: alias_example_def walk_slot_def ld_def st_def pmem_table_example pde_slot_def pte_slot_def
      kpa_def ent_sign_def ent_addr_def Let_def)

lemma free_list_alias_example: "free_list alias_example (block_pages [(0x108000, 3), (0x108060, 2)])"
  using free_list_table_example by (subst free_list_cong [of _ table_example])
     (simp_all add: alias_example_def, simp_all add: st_def)

theorem pg_map_replaces_wrong_address_witness:
  "\<exists>s'. pg_map 0xC0106000 0x5000 0x1BB000 7 alias_example = Some s' \<and>
    mmu s' 0xC0106000 0xC01BA000 = None \<and> mmu s' 0xC0106000 0x5000 = Some 0x1BB000"
proof -
  have d: "outside_dir 0xC0106000 0x200014" "outside_dir 0xC0106000 0x2016E8"
    by (rule outside_dirI; simp add: kpa_def)+
  have "la_addr_to_pg alias_example 0xC01BA000 \<noteq> pa_addr_to_pg alias_example 0x1BB000"
    by (simp add: la_addr_to_pg_def pa_addr_to_pg_def alias_example_def table_example_def st_def page_plus_def
        free_example_def machine0_def Let_def block_pages_def page_run_def upt_rec)
  then show ?thesis
    using pg_map_replaces_wrong_address [of alias_example "0xC0106000" "0x5000" "0x200014" "0xC01BA000" "0x1BB000"
        "0x2016E8" "block_pages [(0x108000, 3), (0x108060, 2)]" 7] d free_list_alias_example
    by (auto simp: walk_alias_example pmem_table_example ent_sign_def ent_addr_def)
qed

theorem pg_unmap_no_table_hits_directory_witness:
  "\<exists>s'. pg_unmap 0xC0106000 0x800000 (st 0 0x1007 table_example) = Some s' \<and> ent_sign (pmem s' 0) = 0"
proof -
  have "free_list (st 0 0x1007 table_example) (block_pages [(0x108000, 3), (0x108060, 2)])"
    using free_list_table_example by (subst free_list_cong [of _ table_example]) (simp_all, simp_all add: st_def)
  then show ?thesis
    using pg_unmap_no_table_hits_directory [of "st 0 0x1007 table_example" "0xC0106000" "0x800000"]
    by (auto simp: walk_slot_def ld_def st_def pmem_table_example pde_slot_def kpa_def ent_sign_def)
qed

lemma frame_unused_table_example: "frame_unused table_example 0xC0106000 0x1B9000"
proof -
  have ok: "dir_ok 0xC0106000" by (rule outside_dirI [of _ "0x200000"]) (simp_all add: kpa_def)
  have "PAGE_SIZE \<le> kpa (pde_slot 0xC0106000 la) - 0x1B9000" for la
  proof -
    have u: "unat (4 * drop_bit 22 la) < 4096"
      using page_index_lt(1) [of la] unat_times4 [of "drop_bit 22 la"] by (simp add: word_less_nat_alt)
    have "kpa (pde_slot 0xC0106000 la) - 0x1B9000 = 0xFFF4D000 + 4 * drop_bit 22 la"
      using ok page_index_lt(1) [of la] by (simp add: dir_ok_def pde_slot_def kpa_def)
    then show ?thesis using u by (simp add: word_le_nat_alt unat_word_ariths)
  qed
  moreover have "PAGE_SIZE \<le> 0x200000 + 4 * (drop_bit 12 la AND 0x3FF) - 0x1B9000 \<and>
      outside_dir 0xC0106000 (0x200000 + 4 * (drop_bit 12 la AND 0x3FF))" for la
  proof -
    let ?x = "4 * (drop_bit 12 la AND 0x3FF)"
    have u: "unat ?x < 4096" using table_offset [of la] by (simp add: word_less_nat_alt)
    have "0x200000 + ?x - 0x1B9000 = 0x47000 + ?x" by simp
    moreover have "PAGE_SIZE \<le> 0x47000 + ?x" using u by (simp add: word_le_nat_alt unat_word_ariths)
    moreover have "outside_dir 0xC0106000 (0x200000 + ?x)"
      using u by (intro outside_dirI) (simp_all add: kpa_def unat_word_ariths)
    ultimately show ?thesis by (simp only:)
  qed
  ultimately show ?thesis by (simp add: frame_unused_def walk_table_example)
qed

theorem get_pte_creates_table_witness:
  "\<exists>s'. get_pte 0xC0106000 0x401000 1 table_example = Some (0xC01B9004, s') \<and>
    block_list s' [(0x108018, 2), (0x108060, 2)] \<and> ld s' 0xC0106004 = 0x1B9007"
proof -
  have f: "pages table_example = 0x108000" "pt_begin table_example = 0x1B9000" "is_vmm_inited table_example = 0"
    by (simp_all add: table_example_def st_def free_example_def machine0_def Let_def block_pages_def page_run_def upt_rec)
  have h: "walk_slot table_example 0xC0106000 0x401000 = None" "(1 :: nat) < 3"
    "0x108000 = page_plus (pages table_example) 0" "no_victim table_example 1 (block_pages [(0x108000, 3), (0x108060, 2)])"
    "0x1B9000 = 0 * PAGE_SIZE + pt_begin table_example" "0x1B9000 = push_bit 12 (0x1B9 :: u32)" "0x1B9 < (0x40000 :: u32)"
    by (simp_all add: f walk_table_example no_victim_def)
  have "dir_ok 0xC0106000" by (rule outside_dirI [of _ "0x200000"]) (simp_all add: kpa_def)
  from get_pte_creates_table [OF h(1) block_list_table_example h(2-7) this frame_unused_table_example]
  obtain s' where
    "get_pte 0xC0106000 0x401000 1 table_example =
      Some (0x1B9000 + VERTUAL_MEM + 4 * (drop_bit 12 0x401000 AND 0x3FF), s')"
    "block_list s' ((page_plus 0x108000 1, 3 - 1) # [(0x108060, 2)])" "ld s' (pde_slot 0xC0106000 0x401000) = 0x1B9000 OR 7"
    by blast
  then show ?thesis by (simp add: page_plus_def pde_slot_def)
qed


theorem page_init_block_witness:
  "block_list (page_init_list 0x107400 0x7FE0000 machine0) [(0x108000, 30000)]"
proof -
  have "unat (frame_count 0x107400 0x7FE0000) = 30000"
    by (simp add: frame_count_def ROUNDDOWN_def ROUNDUP_def Let_def sless_small)
  then show ?thesis
    using page_init_block [of "0x107400" machine0 30000 "0x7FE0000", OF _ _ _ _ refl]
    by (simp add: machine0_def kpa_def ROUNDUP_def)
qed

theorem page_init_overcommits_witness:
  "0x400000 \<le> unat (pt_begin (page_init_list 0x107400 0x400000 machine0)) + 4096 * 759"
  using page_init_overcommits [of "0x107400" "0x400000" 760 _ machine0, OF _ _ _ refl]
  by (simp add: frame_count_def ROUNDDOWN_def ROUNDUP_def Let_def sless_small)

end
