(* ===== verification/Malloc.thy ===== *)
theory Malloc
  imports PageAlloc
begin

text \<open>
  The kernel heap of \<open>mm/malloc.c\<close>: first fit over a list of chunks, each a twelve-byte header in front
  of its memory; new chunks come from the page allocator. \<open>heap s cs\<close> relates the state to a
  list of chunks; the specification \<open>malloc_fit\<close> and \<open>chunks_free\<close> works on such lists.
\<close>

section \<open>Definitions\<close>

abbreviation sizeof_Chunk :: u32 where
  "sizeof_Chunk \<equiv> 12"

definition ck_node :: "u32 \<Rightarrow> u32" where
  "ck_node c = c + 4"

definition node_chunk :: "u32 \<Rightarrow> u32" where
  "node_chunk n = n - 4"

definition set_allocated :: "u32 \<Rightarrow> 1 word \<Rightarrow> 'a machine_scheme \<Rightarrow> 'a machine_scheme" where
  "set_allocated c v s = s\<lparr>ck_allocated := (ck_allocated s)(kpa c := v)\<rparr>"

definition set_size :: "u32 \<Rightarrow> u32 \<Rightarrow> 'a machine_scheme \<Rightarrow> 'a machine_scheme" where
  "set_size c v s = s\<lparr>ck_size := (ck_size s)(kpa c := ucast v)\<rparr>"

definition size_of :: "'a machine_scheme \<Rightarrow> u32 \<Rightarrow> u32" where
  "size_of s c = ucast (ck_size s (kpa c))"

definition allocated_of :: "'a machine_scheme \<Rightarrow> u32 \<Rightarrow> 1 word" where
  "allocated_of s c = ck_allocated s (kpa c)"

definition malloc_init :: "'a machine_scheme \<Rightarrow> 'a machine_scheme" where
  "malloc_init s = list_init (chunk_head s) s"

text \<open>The search loop: the chunk it stops at, if there is one that fits.\<close>

partial_function (option) malloc_find :: "u32 \<Rightarrow> u32 \<Rightarrow> 'a machine_scheme \<Rightarrow> u32 option option" where
  "malloc_find total_alloc_size node s =
     (if get_next s node = chunk_head s then Some None
      else let chunk = node_chunk (get_next s node)
           in if allocated_of s chunk = 0 \<and> total_alloc_size \<le> size_of s chunk then Some (Some chunk)
              else if get_next s (ck_node chunk) = chunk_head s then Some None
              else malloc_find total_alloc_size (get_next s node) s)"

definition malloc_split :: "u32 \<Rightarrow> u32 \<Rightarrow> 'a machine_scheme \<Rightarrow> u32 \<times> 'a machine_scheme" where
  "malloc_split chunk total_alloc_size s =
     (let nxt = chunk + total_alloc_size;
          s = set_allocated nxt 0 s;
          s = set_size nxt (size_of s chunk - total_alloc_size) s;
          s = list_insert_after (ck_node chunk) (ck_node nxt) s;
          s = set_allocated chunk 1 s;
          s = set_size chunk (total_alloc_size - sizeof_Chunk) s
      in (chunk + sizeof_Chunk, s))"

definition malloc_pages :: "u32 \<Rightarrow> u32" where
  "malloc_pages total_alloc_size =
     (let need_page_num = total_alloc_size div PAGE_SIZE
      in if 0 < total_alloc_size mod PAGE_SIZE then need_page_num + 1 else need_page_num)"

definition malloc_place :: "u32 \<Rightarrow> u32 \<Rightarrow> u32 \<Rightarrow> 'a machine_scheme \<Rightarrow> u32 \<times> 'a machine_scheme" where
  "malloc_place new_chunk sz need_page_num s =
     (let total_alloc_size = sizeof_Chunk + sz;
          s = set_allocated new_chunk 1 s;
          s = set_size new_chunk sz s;
          s = list_insert_before (chunk_head s) (ck_node new_chunk) s;
          remain_mem = need_page_num * PAGE_SIZE - total_alloc_size;
          s = (if sizeof_Chunk < remain_mem then
                 let remain_chunk = new_chunk + total_alloc_size;
                     s = set_allocated remain_chunk 0 s;
                     s = set_size remain_chunk (remain_mem - sizeof_Chunk) s
                 in list_insert_before (chunk_head s) (ck_node remain_chunk) s
               else s)
      in (new_chunk + sizeof_Chunk, s))"

definition malloc :: "u32 \<Rightarrow> 'a machine_scheme \<Rightarrow> (u32 \<times> 'a machine_scheme) option" where
  "malloc sz s =
     (let total_alloc_size = sizeof_Chunk + sz
      in do {
           found \<leftarrow> malloc_find total_alloc_size (chunk_head s) s;
           case found of
             Some chunk \<Rightarrow> Some (malloc_split chunk total_alloc_size s)
           | None \<Rightarrow> do {
               (pgs, s) \<leftarrow> alloc_page (malloc_pages total_alloc_size) s;
               Some (malloc_place (pg_to_addr_la s pgs) sz (malloc_pages total_alloc_size) s)
             }
         })"

definition free_with_prev :: "u32 \<Rightarrow> u32 \<Rightarrow> 'a machine_scheme \<Rightarrow> u32 \<times> 'a machine_scheme" where
  "free_with_prev chunk prv s =
     (if prv \<noteq> NULL \<and> allocated_of s prv = 0 \<and> prv + sizeof_Chunk + size_of s prv = chunk then
        let this_size = size_of s chunk;
            s = list_delete (ck_node chunk) s;
            s = set_size prv (size_of s prv + (this_size + sizeof_Chunk)) s
        in (prv, s)
      else (chunk, s))"

definition free_with_next :: "u32 \<Rightarrow> u32 \<Rightarrow> 'a machine_scheme \<Rightarrow> 'a machine_scheme" where
  "free_with_next chunk nxt s =
     (if nxt \<noteq> NULL \<and> allocated_of s nxt = 0 \<and> chunk + sizeof_Chunk + size_of s chunk = nxt then
        let s = list_delete (ck_node nxt) s
        in set_size chunk (size_of s chunk + (size_of s nxt + sizeof_Chunk)) s
      else s)"

definition free :: "u32 \<Rightarrow> 'a machine_scheme \<Rightarrow> 'a machine_scheme" where
  "free addr s =
     (let chunk = addr - sizeof_Chunk;
          s = set_allocated chunk 0 s;
          prv = (if get_prev s (ck_node chunk) = chunk_head s then NULL else node_chunk (get_prev s (ck_node chunk)));
          nxt = (if get_next s (ck_node chunk) = chunk_head s then NULL else node_chunk (get_next s (ck_node chunk)));
          (chunk, s) = free_with_prev chunk prv s
      in free_with_next chunk nxt s)"

section \<open>Lists of chunks\<close>

text \<open>Address of the header, whether it is allocated, number of bytes behind the header.\<close>

type_synonym chunk = "u32 \<times> bool \<times> nat"

definition chunk_ext :: "chunk \<Rightarrow> nat set" where
  "chunk_ext x = (case x of (c, _, n) \<Rightarrow> {unat c ..< unat c + 12 + n})"

fun apart :: "chunk list \<Rightarrow> bool" where
  "apart [] \<longleftrightarrow> True"
| "apart (x # xs) \<longleftrightarrow> (\<forall>y \<in> set xs. chunk_ext x \<inter> chunk_ext y = {}) \<and> apart xs"

text \<open>First fit on a list of chunks.\<close>

fun malloc_fit :: "nat \<Rightarrow> chunk list \<Rightarrow> (u32 \<times> chunk list) option" where
  "malloc_fit sz [] = None"
| "malloc_fit sz ((c, b, n) # cs) =
     (if \<not> b \<and> 12 + sz \<le> n
      then Some (c + 12, (c, True, sz) # (c + of_nat (12 + sz), False, n - (12 + sz)) # cs)
      else map_option (\<lambda>(p, cs). (p, (c, b, n) # cs)) (malloc_fit sz cs))"

text \<open>Joining two neighbours that are both free and adjacent.\<close>

definition joinable :: "chunk \<Rightarrow> chunk \<Rightarrow> bool" where
  "joinable x y = (case (x, y) of ((c, b, n), (d, b', m)) \<Rightarrow> \<not> b \<and> \<not> b' \<and> c + of_nat (12 + n) = d)"

definition join :: "chunk \<Rightarrow> chunk \<Rightarrow> chunk" where
  "join x y = (case (x, y) of ((c, b, n), (d, b', m)) \<Rightarrow> (c, False, n + 12 + m))"

definition join_next :: "chunk \<Rightarrow> chunk list \<Rightarrow> chunk list" where
  "join_next x ys = (case ys of y # ys' \<Rightarrow> if joinable x y then join x y # ys' else x # ys | [] \<Rightarrow> [x])"

definition chunks_free :: "chunk list \<Rightarrow> chunk \<Rightarrow> chunk list \<Rightarrow> chunk list" where
  "chunks_free as x bs =
     (if as \<noteq> [] \<and> joinable (last as) x then butlast as @ join_next (join (last as) x) bs
      else as @ join_next x bs)"

text \<open>The heap of a state.\<close>

definition chunk_ok :: "'a machine_scheme \<Rightarrow> chunk \<Rightarrow> bool" where
  "chunk_ok s x = (case x of (c, b, n) \<Rightarrow>
     VERTUAL_MEM \<le> c \<and> unat c + 12 + n < 4294967296 \<and> unat (chunk_head s) \<notin> chunk_ext (c, b, n) \<and>
     ck_allocated s (kpa c) = of_bool b \<and> ck_size s (kpa c) = of_nat n)"

definition heap :: "'a machine_scheme \<Rightarrow> chunk list \<Rightarrow> bool" where
  "heap s cs \<longleftrightarrow> ring s (chunk_head s) (map (\<lambda>x. ck_node (fst x)) cs) \<and> VERTUAL_MEM \<le> chunk_head s \<and>
     (\<forall>x \<in> set cs. chunk_ok s x) \<and> apart cs"

section \<open>Basic facts\<close>

lemma kpa_inj_high: "VERTUAL_MEM \<le> a \<Longrightarrow> VERTUAL_MEM \<le> b \<Longrightarrow> kpa a = kpa b \<longleftrightarrow> a = b"
  by (simp add: kpa_def)

lemma size_narrow [simp]: "(ucast (of_nat k :: u32) :: 31 word) = of_nat k"
  by (rule bit_word_eqI) (auto simp: bit_simps bit_of_nat_iff_bit)

lemma size_widen: "n < 2147483648 \<Longrightarrow> (ucast (of_nat n :: 31 word) :: u32) = of_nat n"
  by (simp add: word_unat_eq_iff unsigned_ucast_eq unat_of_nat take_bit_eq_mod)

lemma chunk_setter_frames [simp]:
  "get_next (set_allocated c v s) = get_next s" "get_prev (set_allocated c v s) = get_prev s"
  "get_next (set_size c w s) = get_next s" "get_prev (set_size c w s) = get_prev s"
  "chunk_head (set_allocated c v s) = chunk_head s" "chunk_head (set_size c w s) = chunk_head s"
  "ck_size (set_allocated c v s) = ck_size s" "ck_allocated (set_size c w s) = ck_allocated s"
  "ck_allocated (set_allocated c v s) = (ck_allocated s)(kpa c := v)"
  "ck_size (set_size c w s) = (ck_size s)(kpa c := ucast w)"
  by (simp_all add: fun_eq_iff get_next_def get_prev_def set_allocated_def set_size_def)

lemma ring_chunk_setters [simp]:
  "ring (set_allocated c v s) hn ns = ring s hn ns" "ring (set_size c w s) hn ns = ring s hn ns"
  by (rule ring_links; simp)+

lemma node_chunk_node [simp]: "node_chunk (ck_node c) = c"
  by (simp add: node_chunk_def ck_node_def)

lemma unat_ck_node: "unat c + 4 < 4294967296 \<Longrightarrow> unat (ck_node c) = unat c + 4"
  by (simp add: ck_node_def unat_word_ariths)

lemma apart_append:
  "apart (xs @ ys) \<longleftrightarrow> apart xs \<and> apart ys \<and> (\<forall>x \<in> set xs. \<forall>y \<in> set ys. chunk_ext x \<inter> chunk_ext y = {})"
  by (induction xs) auto

lemma heap_chunk:
  assumes "heap s cs" and "(c, b, n) \<in> set cs"
  shows "VERTUAL_MEM \<le> c" and "unat c + 12 + n < 4294967296" and "n < 2147483648"
    and "unat (chunk_head s) \<notin> chunk_ext (c, b, n)"
    and "ck_allocated s (kpa c) = of_bool b" and "ck_size s (kpa c) = of_nat n"
    and "size_of s c = of_nat n" and "allocated_of s c = 0 \<longleftrightarrow> \<not> b"
    and "unat (ck_node c) = unat c + 4" and "VERTUAL_MEM \<le> ck_node c" and "ck_node c \<noteq> chunk_head s"
    and "unat c \<in> chunk_ext (c, b, n)" and "unat (ck_node c) \<in> chunk_ext (c, b, n)" and "c \<noteq> NULL"
proof -
  have ok: "chunk_ok s (c, b, n)" using assms by (simp add: heap_def)
  have "3221225472 \<le> unat c" using ok by (simp add: chunk_ok_def word_le_nat_alt)
  then show h: "VERTUAL_MEM \<le> c" "unat c + 12 + n < 4294967296" "n < 2147483648"
    "unat (chunk_head s) \<notin> chunk_ext (c, b, n)"
    "ck_allocated s (kpa c) = of_bool b" "ck_size s (kpa c) = of_nat n"
    using ok by (simp_all add: chunk_ok_def)
  show "size_of s c = of_nat n" using h by (simp add: size_of_def size_widen)
  show "allocated_of s c = 0 \<longleftrightarrow> \<not> b" using h by (simp add: allocated_of_def)
  show u: "unat (ck_node c) = unat c + 4" using h by (simp add: ck_node_def unat_word_ariths)
  then show "VERTUAL_MEM \<le> ck_node c" using h(1) by (simp add: word_le_nat_alt)
  show "unat c \<in> chunk_ext (c, b, n)" "unat (ck_node c) \<in> chunk_ext (c, b, n)"
    by (simp_all add: chunk_ext_def u)
  then show "ck_node c \<noteq> chunk_head s" using h(4) by auto
  show "c \<noteq> NULL" using h(1) by (auto simp: word_le_nat_alt)
qed

lemma heap_other:
  assumes "heap s (as @ x # bs)" and "y \<in> set as \<union> set bs"
  shows "chunk_ext y \<inter> chunk_ext x = {}"
proof -
  have "apart (as @ x # bs)" using assms(1) by (simp add: heap_def)
  then show ?thesis using assms(2) by (auto simp: apart_append)
qed

text \<open>A pointer strictly inside a chunk, not to its own node, is on no node of the list.\<close>

lemma heap_fresh:
  assumes h: "heap s (as @ x # bs)" and w: "unat w \<in> chunk_ext x" "w \<noteq> ck_node (fst x)" "VERTUAL_MEM \<le> w"
  shows "kpa w \<notin> kpa ` set (chunk_head s # map (\<lambda>x. ck_node (fst x)) (as @ x # bs))"
proof -
  have ne: "w \<noteq> v \<and> VERTUAL_MEM \<le> v" if v: "v \<in> set (chunk_head s # map (\<lambda>x. ck_node (fst x)) (as @ x # bs))" for v
  proof -
    consider "v = chunk_head s" | "v = ck_node (fst x)" | y where "y \<in> set as \<union> set bs" "v = ck_node (fst y)"
      using v by auto
    then show ?thesis
    proof cases
      case 1
      then show ?thesis using w(1) h heap_chunk(4) [OF h, of "fst x" "fst (snd x)" "snd (snd x)"] by (auto simp: heap_def)
    next
      case 2
      then show ?thesis using w(2) heap_chunk(10) [OF h, of "fst x" "fst (snd x)" "snd (snd x)"] by simp
    next
      case 3
      have y: "(fst y, fst (snd y), snd (snd y)) \<in> set (as @ x # bs)" using 3 by auto
      have "unat v \<in> chunk_ext y" using 3 heap_chunk(13) [OF h y] by simp
      moreover have "chunk_ext y \<inter> chunk_ext x = {}" by (rule heap_other [OF h 3(1)])
      ultimately show ?thesis using w(1) 3 heap_chunk(10) [OF h y] by auto
    qed
  qed
  show ?thesis
  proof
    assume "kpa w \<in> kpa ` set (chunk_head s # map (\<lambda>x. ck_node (fst x)) (as @ x # bs))"
    then obtain v where "v \<in> set (chunk_head s # map (\<lambda>x. ck_node (fst x)) (as @ x # bs))" "kpa w = kpa v"
      by (rule imageE)
    then show False using ne [of v] kpa_inj_high [OF w(3), of v] by simp
  qed
qed

lemma heap_addr_other:
  assumes h: "heap s (as @ x # bs)" and "(d, b, n) \<in> set as \<union> set bs" and "unat c \<in> chunk_ext x" "VERTUAL_MEM \<le> c"
  shows "kpa d \<noteq> kpa c"
proof -
  have m: "(d, b, n) \<in> set (as @ x # bs)" using assms(2) by auto
  have "unat d \<in> chunk_ext (d, b, n)" "VERTUAL_MEM \<le> d" using heap_chunk(12,1) [OF h m] .
  moreover have "chunk_ext (d, b, n) \<inter> chunk_ext x = {}" by (rule heap_other [OF h assms(2)])
  ultimately have "d \<noteq> c" using assms(3) by auto
  then show ?thesis using \<open>VERTUAL_MEM \<le> d\<close> assms(4) by (simp add: kpa_inj_high)
qed

lemma chunk_ok_cong:
  assumes "chunk_ok s x" and "chunk_head s' = chunk_head s"
    and "ck_allocated s' (kpa (fst x)) = ck_allocated s (kpa (fst x))" "ck_size s' (kpa (fst x)) = ck_size s (kpa (fst x))"
  shows "chunk_ok s' x"
  using assms by (auto simp: chunk_ok_def split: prod.splits)

section \<open>Steps of the heap\<close>

text \<open>
  \<open>heap_step s s' cs\<close>: the heap of \<open>s'\<close> is \<open>cs\<close>, only the links and the chunk headers differ from \<open>s\<close>, and every ring on cells outside the heap is as it was.
\<close>

abbreviation heap_nodes :: "chunk list \<Rightarrow> u32 list" where
  "heap_nodes cs \<equiv> map (\<lambda>x. ck_node (fst x)) cs"

definition heap_only :: "'a machine_scheme \<Rightarrow> 'a machine_scheme \<Rightarrow> bool" where
  "heap_only s s' \<longleftrightarrow> s'\<lparr>ln_prev := ln_prev s, ln_next := ln_next s, ck_allocated := ck_allocated s, ck_size := ck_size s\<rparr> = s"

definition heap_step :: "'a machine_scheme \<Rightarrow> 'a machine_scheme \<Rightarrow> chunk list \<Rightarrow> bool" where
  "heap_step s s' cs \<longleftrightarrow> heap s' cs \<and> heap_only s s' \<and> other_rings s s' (chunk_head s # heap_nodes cs)"

lemma heap_only_fields:
  assumes "heap_only s s'"
  shows "free_pages_head s' = free_pages_head s" "free_page_num s' = free_page_num s" "pg_free_pages s' = pg_free_pages s" "pages s' = pages s" "pt_begin s' = pt_begin s"
    "chunk_head s' = chunk_head s" "is_vmm_inited s' = is_vmm_inited s" "mm s' = mm s" "pmem s' = pmem s" "machine.more s' = machine.more s" "pd s' = pd s"
proof -
  have e: "s = s'\<lparr>ln_prev := ln_prev s, ln_next := ln_next s, ck_allocated := ck_allocated s, ck_size := ck_size s\<rparr>"
    using assms by (simp add: heap_only_def)
  show "free_pages_head s' = free_pages_head s" "free_page_num s' = free_page_num s" "pg_free_pages s' = pg_free_pages s" "pages s' = pages s" "pt_begin s' = pt_begin s"
    "chunk_head s' = chunk_head s" "is_vmm_inited s' = is_vmm_inited s" "mm s' = mm s" "pmem s' = pmem s" "machine.more s' = machine.more s" "pd s' = pd s"
    by (subst e, simp)+
qed

lemma heap_only_ops:
  "heap_only s (list_insert_before h n (set_size c w (set_allocated c v s)))"
  "heap_only s (set_size c' w' (set_allocated c' v' (list_insert_after n' n (set_size c w (set_allocated c v s)))))"
  by (simp_all add: heap_only_def set_size_def set_allocated_def list_op_defs set_next_def set_prev_def Let_def)

lemma heap_only_fields_upd:
  assumes "heap_only s s'"
  shows "\<exists>a b c d. s' = s\<lparr>ln_prev := a, ln_next := b, ck_allocated := c, ck_size := d\<rparr>"
proof -
  let ?r = "s'\<lparr>ln_prev := ln_prev s, ln_next := ln_next s, ck_allocated := ck_allocated s, ck_size := ck_size s\<rparr>"
  have "s' = ?r\<lparr>ln_prev := ln_prev s', ln_next := ln_next s', ck_allocated := ck_allocated s', ck_size := ck_size s'\<rparr>" by simp
  moreover have "?r = s" using assms by (simp add: heap_only_def)
  ultimately have "s' = s\<lparr>ln_prev := ln_prev s', ln_next := ln_next s', ck_allocated := ck_allocated s', ck_size := ck_size s'\<rparr>" by (simp only:)
  then show ?thesis by blast
qed

lemma heap_only_trans:
  assumes "heap_only s s1" and "heap_only s1 s2"
  shows "heap_only s s2"
proof -
  let ?keep = "\<lambda>s t. t\<lparr>ln_prev := ln_prev s, ln_next := ln_next s, ck_allocated := ck_allocated s, ck_size := ck_size s\<rparr>"
  have "?keep s s2 = ?keep s (?keep s1 s2)" by simp
  also have "\<dots> = s" using assms by (simp add: heap_only_def)
  finally show ?thesis by (simp add: heap_only_def)
qed

lemma heap_step_trans:
  assumes "heap_step s s1 cs1" and "heap_step s1 s2 cs2" and "set (heap_nodes cs1) \<subseteq> set (heap_nodes cs2)"
  shows "heap_step s s2 cs2"
proof -
  have f: "chunk_head s1 = chunk_head s" using assms(1) by (simp add: heap_step_def heap_only_fields)
  have "kpa ` set (chunk_head s # heap_nodes cs1) \<inter> A = {}" if "kpa ` set (chunk_head s # heap_nodes cs2) \<inter> A = {}" for A
    using that assms(3) by fastforce
  then have "other_rings s s2 (chunk_head s # heap_nodes cs2)"
    using assms(1,2) unfolding heap_step_def other_rings_def f by blast
  then show ?thesis using assms(1,2) heap_only_trans unfolding heap_step_def by blast
qed

section \<open>Splitting\<close>

lemma malloc_split_heap_internal:
  assumes h: "heap s (as @ (c, False, n) # bs)" and sz: "12 + sz \<le> n"
  shows "\<exists>s'. malloc_split c (of_nat (12 + sz)) s = (c + 12, s') \<and>
    heap s' (as @ (c, True, sz) # (c + of_nat (12 + sz), False, n - (12 + sz)) # bs)"
proof -
  let ?x = "(c, False, n)" and ?hn = "chunk_head s"
  define t :: u32 where "t = of_nat (12 + sz)"
  define nx where "nx = c + t"
  have "(c, False, n) \<in> set (as @ ?x # bs)" by simp
  note C = heap_chunk [OF h this]
  have ut: "unat t = 12 + sz" unfolding t_def using sz C(2) by (intro unat_of_nat_small) simp
  then have un: "unat nx = unat c + 12 + sz" unfolding nx_def using sz C(2) by (simp add: unat_word_ariths)
  have un4: "unat (ck_node nx) = unat c + 16 + sz" 
    using sz C(2) un unat_ck_node [of nx] by simp
  have hi: "VERTUAL_MEM \<le> nx" "VERTUAL_MEM \<le> ck_node nx" using un un4 C(1) by (simp_all add: word_le_nat_alt)
  have inx: "unat nx \<in> chunk_ext ?x" "unat (ck_node nx) \<in> chunk_ext ?x"
    using sz un un4 by (auto simp: chunk_ext_def)
  have "unat nx \<noteq> unat c" using un by simp
  then have nc: "nx \<noteq> c" by (metis)
  let ?s' = "set_size c (t - sizeof_Chunk) (set_allocated c 1 (list_insert_after (ck_node c) (ck_node nx)
    (set_size nx (size_of s c - t) (set_allocated nx 0 s))))"
  have m: "malloc_split c t s = (c + 12, ?s')" by (simp add: malloc_split_def Let_def size_of_def nx_def)
  let ?f = "\<lambda>x. ck_node (fst x)"
  have "ring s ?hn ((map ?f as @ [ck_node c]) @ map ?f bs)" using h by (simp add: heap_def)
  moreover have "kpa (ck_node nx) \<notin> kpa ` set (?hn # (map ?f as @ [ck_node c]) @ map ?f bs)"
    using heap_fresh [OF h inx(2) _ hi(2)] nc by (simp add: ck_node_def)
  ultimately have "ring ?s' ?hn (map ?f (as @ (c, True, sz) # (nx, False, n - (12 + sz)) # bs))"
    using kl.rep_ins_after [of "set_size nx (size_of s c - t) (set_allocated nx 0 s)" ?hn "map ?f as @ [ck_node c]" "map ?f bs"]
    by simp
  moreover have "(ucast (t - sizeof_Chunk) :: 31 word) = of_nat sz" unfolding t_def by (metis add_diff_cancel_left' of_nat_add of_nat_numeral size_narrow)
  moreover have "(ucast (size_of s c - t) :: 31 word) = of_nat (n - (12 + sz))"
    unfolding t_def using C(7) sz by (metis of_nat_diff size_narrow)
  moreover have "apart (as @ (c, True, sz) # (nx, False, n - (12 + sz)) # bs)"
  proof -
    have sub: "chunk_ext (c, True, sz) \<subseteq> chunk_ext ?x" "chunk_ext (nx, False, n - (12 + sz)) \<subseteq> chunk_ext ?x"
      "chunk_ext (c, True, sz) \<inter> chunk_ext (nx, False, n - (12 + sz)) = {}"
      using sz by (auto simp: chunk_ext_def un)
    moreover have "apart (as @ ?x # bs)" using h by (simp add: heap_def)
    ultimately show ?thesis unfolding apart_append by (auto 0 3)
  qed
  moreover have "chunk_ok ?s' y" if "y \<in> set as \<union> set bs" for y
  proof (rule chunk_ok_cong [of s])
    have y: "(fst y, fst (snd y), snd (snd y)) \<in> set as \<union> set bs" using that by simp
    note ne = heap_addr_other [OF h y C(12,1)] heap_addr_other [OF h y inx(1) hi(1)]
    show "chunk_ok s y" using h that by (auto simp: heap_def)
    show "chunk_head ?s' = chunk_head s" by simp
    show "ck_allocated ?s' (kpa (fst y)) = ck_allocated s (kpa (fst y))"
      "ck_size ?s' (kpa (fst y)) = ck_size s (kpa (fst y))" using ne by simp_all
  qed
  moreover have "kpa nx \<noteq> kpa c" using nc hi C(1) by (simp add: kpa_inj_high)
  moreover have "unat (chunk_head s) \<notin> chunk_ext (c, True, sz)" "unat (chunk_head s) \<notin> chunk_ext (nx, False, n - (12 + sz))"
    using C(4) sz by (auto simp: chunk_ext_def un)
  ultimately have "heap ?s' (as @ (c, True, sz) # (nx, False, n - (12 + sz)) # bs)"
    using h C(1,2) sz un hi by (auto simp: heap_def chunk_ok_def)
  with m show ?thesis unfolding nx_def t_def by blast
qed

lemma malloc_split_heap:
  assumes h: "heap s (as @ (c, False, n) # bs)" and sz: "12 + sz \<le> n"
  shows "\<exists>s'. malloc_split c (of_nat (12 + sz)) s = (c + 12, s') \<and>
    heap_step s s' (as @ (c, True, sz) # (c + of_nat (12 + sz), False, n - (12 + sz)) # bs)"
proof -
  let ?t = "of_nat (12 + sz) :: u32"
  let ?nx = "c + ?t"
  let ?cs' = "as @ (c, True, sz) # (?nx, False, n - (12 + sz)) # bs"
  obtain s' where s': "malloc_split c ?t s = (c + 12, s')" "heap s' ?cs'" using malloc_split_heap_internal [OF h sz] by blast
  define s0 where "s0 = set_size ?nx (size_of (set_allocated ?nx 0 s) c - ?t) (set_allocated ?nx 0 s)"
  have e: "s' = set_size c (?t - sizeof_Chunk) (set_allocated c 1 (list_insert_after (ck_node c) (ck_node ?nx) s0))"
    using s'(1) by (simp add: malloc_split_def Let_def s0_def)
  have r0: "ring s0 hn' ms = ring s hn' ms" for hn' ms by (simp add: s0_def)
  have "ring s' (chunk_head s') (heap_nodes ?cs')" "chunk_head s' = chunk_head s" using s'(2) by (simp_all add: heap_def e s0_def)
  then have "distinct (map kpa (chunk_head s # heap_nodes ?cs'))" using kl.rep_distinct by metis
  then have fr: "kpa (ck_node ?nx) \<notin> kpa ` set (chunk_head s # heap_nodes (as @ (c, False, n) # bs))" by auto
  have rs: "ring s0 (chunk_head s) (heap_nodes (as @ (c, False, n) # bs))" using h by (simp add: heap_def r0)
  have "ring s' hn' ms" if "ring s hn' ms" "kpa ` set (chunk_head s # heap_nodes ?cs') \<inter> kpa ` set (hn' # ms) = {}" for hn' ms
  proof -
    have "ring (list_insert_after (ck_node c) (ck_node ?nx) s0) hn' ms"
      by (rule ring_other_insert_after [OF rs _ _ fr]) (use that r0 in auto)
    then show ?thesis by (simp add: e)
  qed
  then have "other_rings s s' (chunk_head s # heap_nodes ?cs')" unfolding other_rings_def by blast
  moreover have "heap_only s s'"
    unfolding e s0_def by (rule heap_only_ops)
  ultimately show ?thesis using s' by (simp add: heap_step_def)
qed

section \<open>Searching\<close>

definition fits :: "nat \<Rightarrow> chunk \<Rightarrow> bool" where
  "fits k x = (case x of (c, b, n) \<Rightarrow> \<not> b \<and> k \<le> n)"

lemma fits_simp [simp]: "fits k (c, b, n) \<longleftrightarrow> \<not> b \<and> k \<le> n"
  by (simp add: fits_def)

lemma malloc_find_seg:
  assumes "seg s x (map (\<lambda>x. ck_node (fst x)) cs) (chunk_head s)"
    and "chunk_head s \<notin> set (map (\<lambda>x. ck_node (fst x)) cs)"
    and "\<And>c b n. (c, b, n) \<in> set cs \<Longrightarrow> (allocated_of s c = 0 \<longleftrightarrow> \<not> b) \<and> size_of s c = of_nat n \<and> n < 2147483648"
  shows "malloc_find tot x s = Some (map_option fst (find (fits (unat tot)) cs))"
  using assms
proof (induction cs arbitrary: x)
  case Nil
  then show ?case by (subst malloc_find.simps) simp
next
  case (Cons y cs)
  obtain c b n where y: "y = (c, b, n)" by (cases y)
  have nx: "get_next s x = ck_node c" "ck_node c \<noteq> chunk_head s" using Cons.prems y by auto
  have c: "(allocated_of s c = 0 \<longleftrightarrow> \<not> b) \<and> size_of s c = of_nat n \<and> n < 2147483648"
    using Cons.prems(3) [of c b n] y by simp
  then have fit: "allocated_of s c = 0 \<and> tot \<le> size_of s c \<longleftrightarrow> fits (unat tot) y"
    by (auto simp: y word_le_nat_alt unat_of_nat_small)
  have IH: "malloc_find tot (ck_node c) s = Some (map_option fst (find (fits (unat tot)) cs))"
    using Cons.prems y by (intro Cons.IH) auto
  have last: "get_next s (ck_node c) = chunk_head s \<Longrightarrow> cs = []"
    using Cons.prems y by (cases cs) auto
  show ?case
    using fit nx last IH y by (subst malloc_find.simps) (auto simp: Let_def)
qed

lemma malloc_find_heap:
  assumes "heap s cs"
  shows "malloc_find tot (chunk_head s) s = Some (map_option fst (find (fits (unat tot)) cs))"
proof (rule malloc_find_seg)
  have r: "ring s (chunk_head s) (map (\<lambda>x. ck_node (fst x)) cs)" using assms by (simp add: heap_def)
  show "seg s (chunk_head s) (map (\<lambda>x. ck_node (fst x)) cs) (chunk_head s)" using r by (simp add: ring_def)
  show "chunk_head s \<notin> set (map (\<lambda>x. ck_node (fst x)) cs)" by (rule kl.head_fresh [OF r])
  show "(allocated_of s c = 0 \<longleftrightarrow> \<not> b) \<and> size_of s c = of_nat n \<and> n < 2147483648"
    if "(c, b, n) \<in> set cs" for c b n
    using heap_chunk(3,7,8) [OF assms that] by blast
qed

lemma malloc_fit_Some:
  assumes "malloc_fit sz cs = Some (p, cs')"
  shows "\<exists>as c n bs. cs = as @ (c, False, n) # bs \<and> 12 + sz \<le> n \<and> p = c + 12 \<and>
    cs' = as @ (c, True, sz) # (c + of_nat (12 + sz), False, n - (12 + sz)) # bs \<and>
    find (fits (12 + sz)) cs = Some (c, False, n)"
  using assms
proof (induction sz cs arbitrary: cs' rule: malloc_fit.induct)
  case (2 sz c b n cs)
  show ?case
  proof (cases "\<not> b \<and> 12 + sz \<le> n")
    case True
    then show ?thesis using "2.prems" by (intro exI [of _ "[]"]) auto
  next
    case False
    then obtain cs'' where cs'': "malloc_fit sz cs = Some (p, cs'')" "cs' = (c, b, n) # cs''"
      using "2.prems" by auto
    from "2.IH" [OF False cs''(1)] obtain as c' n' bs where
      "cs = as @ (c', False, n') # bs" "12 + sz \<le> n'" "p = c' + 12"
      "cs'' = as @ (c', True, sz) # (c' + of_nat (12 + sz), False, n' - (12 + sz)) # bs"
      "find (fits (12 + sz)) cs = Some (c', False, n')" by blast
    then show ?thesis using False cs''(2) by (intro exI [of _ "(c, b, n) # as"]) auto
  qed
qed simp

lemma malloc_fit_None: "malloc_fit sz cs = None \<Longrightarrow> find (fits (12 + sz)) cs = None"
  by (induction sz cs rule: malloc_fit.induct) (auto split: if_splits)

lemma unat_total: "sz < 4294967284 \<Longrightarrow> unat (sizeof_Chunk + of_nat sz) = 12 + sz"
  by (simp add: unat_word_ariths unat_of_nat_small)

lemma malloc_fit_heap:
  assumes h: "heap s cs" and fit: "malloc_fit sz cs = Some (p, cs')"
  shows "\<exists>s'. malloc (of_nat sz) s = Some (p, s') \<and> heap_step s s' cs'"
proof -
  obtain as c n bs where cs: "cs = as @ (c, False, n) # bs" and n: "12 + sz \<le> n" and p: "p = c + 12"
    and cs': "cs' = as @ (c, True, sz) # (c + of_nat (12 + sz), False, n - (12 + sz)) # bs"
    and f: "find (fits (12 + sz)) cs = Some (c, False, n)"
    using malloc_fit_Some [OF fit] by blast
  have h': "heap s (as @ (c, False, n) # bs)" using h cs by simp
  have "unat c + 12 + n < 4294967296" using heap_chunk(2) [OF h', of c False n] by simp
  then have sz: "sz < 4294967284" using n by simp
  have t: "sizeof_Chunk + of_nat sz = of_nat (12 + sz)" by simp
  obtain s' where "malloc_split c (of_nat (12 + sz)) s = (c + 12, s')" "heap_step s s' cs'"
    using malloc_split_heap [OF h' n] unfolding cs' by blast
  then show ?thesis
    using malloc_find_heap [OF h, of "sizeof_Chunk + of_nat sz"] f unat_total [OF sz]
    unfolding malloc_def Let_def p t [symmetric] by simp
qed

text \<open>
  C5. \<open>malloc\<close> implements first fit: where the specification finds a chunk, the search ends
  there, the pointer returned is the one behind its header, and the heap is the one of the
  specification, the chunk split in two that tile it exactly and still disjoint from all others.
\<close>

theorem malloc_first_fit:
  assumes "heap s cs" and "malloc_fit sz cs = Some (p, cs')"
  shows "\<exists>s'. malloc (of_nat sz) s = Some (p, s') \<and> heap s' cs'"
  using malloc_fit_heap [OF assms] by (auto simp: heap_step_def)

section \<open>Freeing\<close>

lemma heap_join:
  assumes h: "heap s (as @ x # y # bs)" and j: "joinable x y"
    and s': "s' = set_size (fst x) (of_nat (snd (snd x)) + (of_nat (snd (snd y)) + sizeof_Chunk)) (list_delete (ck_node (fst y)) s)"
  shows "heap s' (as @ join x y # bs)"
proof -
  obtain c n d m where x: "x = (c, False, n)" and y: "y = (d, False, m)" and d: "d = c + of_nat (12 + n)"
    using j by (auto simp: joinable_def split: prod.splits)
  have "(c, False, n) \<in> set (as @ x # y # bs)" "(d, False, m) \<in> set (as @ x # y # bs)" by (simp_all add: x y)
  note C = heap_chunk [OF h this(1)] and D = heap_chunk [OF h this(2)]
  have "unat (of_nat (12 + n) :: u32) = 12 + n" using C(2) by (intro unat_of_nat_small) simp
  then have ud: "unat d = unat c + 12 + n" using C(2) unfolding d by (simp add: unat_word_ariths del: of_nat_add)
  let ?f = "\<lambda>x. ck_node (fst x)"
  have "ring s (chunk_head s) ((map ?f as @ [ck_node c]) @ ck_node d # map ?f bs)" using h by (simp add: heap_def x y)
  from kl.rep_del [OF this] have "ring s' (chunk_head s) (map ?f (as @ join x y # bs))"
    by (simp add: s' x y join_def)
  moreover have "of_nat n + (of_nat m + sizeof_Chunk) = (of_nat (n + 12 + m) :: u32)" by simp
  then have "ck_size s' = (ck_size s)(kpa c := of_nat (n + 12 + m))" 
    by (simp only: s' x y fst_conv snd_conv chunk_setter_frames size_narrow frame_list_delete)
  moreover have "chunk_ext (join x y) = chunk_ext x \<union> chunk_ext y"
    by (auto simp: join_def x y chunk_ext_def ud)
  moreover have "apart (as @ x # y # bs)" using h by (simp add: heap_def)
  moreover have "chunk_ok s' z" if "z \<in> set as \<union> set bs" for z
  proof (rule chunk_ok_cong [of s])
    have h2: "heap s (as @ x # (y # bs))" using h .
    have z: "(fst z, fst (snd z), snd (snd z)) \<in> set as \<union> set (y # bs)" using that by auto
    show "chunk_ok s z" using h that by (auto simp: heap_def)
    show "chunk_head s' = chunk_head s" "ck_allocated s' (kpa (fst z)) = ck_allocated s (kpa (fst z))" by (simp_all add: s')
    have "kpa (fst z) \<noteq> kpa c" using heap_addr_other [OF h2 z] C(1,12) by (simp add: x)
    then show "ck_size s' (kpa (fst z)) = ck_size s (kpa (fst z))" by (simp add: s' x)
  qed
  moreover have "chunk_ok s' (join x y)"
  proof -
    have "unat (chunk_head s) \<notin> chunk_ext (join x y)"
      using C(4) D(4) calculation(3) by (simp add: x y)
    then show ?thesis
      using calculation(2) C(1,5) D(2) ud by (simp add: chunk_ok_def join_def x y s')
  qed
  ultimately show ?thesis using h by (auto simp: heap_def apart_append s')
qed

lemma free_prev:
  assumes h: "heap s (as @ (c, False, n) # bs)"
    and prv: "prv = (if get_prev s (ck_node c) = chunk_head s then NULL else node_chunk (get_prev s (ck_node c)))"
  shows "\<exists>x s'. free_with_prev c prv s = (fst x, s') \<and>
    (if as \<noteq> [] \<and> joinable (last as) (c, False, n)
     then x = join (last as) (c, False, n) \<and> heap s' (butlast as @ x # bs)
     else x = (c, False, n) \<and> heap s' (as @ x # bs))"
proof -
  let ?f = "\<lambda>x. ck_node (fst x)"
  have r: "ring s (chunk_head s) (map ?f as @ ck_node c # map ?f bs)" using h by (simp add: heap_def)
  note pr = ring_next_of(2) [OF r]
  note C = heap_chunk [OF h, of c False n]
  show ?thesis
  proof (cases as rule: rev_cases)
    case Nil
    then have "free_with_prev c prv s = (c, s)" using pr prv by (simp add: free_with_prev_def)
    then show ?thesis using Nil h by (intro exI [of _ "(c, False, n)"] exI [of _ s]) simp
  next
    case (snoc as' x)
    obtain d b m where x: "x = (d, b, m)" by (cases x)
    have h': "heap s (as' @ x # (c, False, n) # bs)" using h snoc by simp
    note D = heap_chunk [OF h', of d b m, unfolded x, simplified]
    have "get_prev s (ck_node c) = ck_node d" using pr snoc x by simp
    then have p: "prv = d" using prv D(11) by simp
    have cond: "prv \<noteq> NULL \<and> allocated_of s prv = 0 \<and> prv + sizeof_Chunk + size_of s prv = c \<longleftrightarrow> joinable x (c, False, n)"
      using D(7,8,14) p by (auto simp: joinable_def x add.assoc)
    show ?thesis
    proof (cases "joinable x (c, False, n)")
      case True
      let ?s' = "set_size d (size_of s d + (size_of s c + sizeof_Chunk)) (list_delete (ck_node c) s)"
      have "free_with_prev c prv s = (d, ?s')"
        unfolding free_with_prev_def using cond True p by (simp add: Let_def size_of_def)
      moreover have "heap ?s' (as' @ join x (c, False, n) # bs)"
        by (rule heap_join [OF h' True]) (use D(7) C(7) in \<open>simp add: x\<close>)
      ultimately show ?thesis
        using True snoc by (intro exI [of _ "join x (c, False, n)"] exI [of _ ?s']) (simp add: x join_def)
    next
      case False
      then have "free_with_prev c prv s = (c, s)" unfolding free_with_prev_def cond by simp
      then show ?thesis using False snoc h by (intro exI [of _ "(c, False, n)"] exI [of _ s]) simp
    qed
  qed
qed

lemma free_next:
  assumes h: "heap s (as @ x # bs)" and x: "\<not> fst (snd x)"
    and nxt: "nxt = (case bs of [] \<Rightarrow> NULL | y # _ \<Rightarrow> fst y)"
  shows "heap (free_with_next (fst x) nxt s) (as @ join_next x bs)"
proof (cases bs)
  case Nil
  then show ?thesis using h nxt by (simp add: free_with_next_def join_next_def)
next
  case (Cons y bs')
  obtain c n d b m where xy: "x = (c, False, n)" "y = (d, b, m)" using x by (cases x; cases y) auto
  have h': "heap s (as @ x # y # bs')" using h Cons by simp
  note C = heap_chunk [OF h', of c False n, unfolded xy, simplified]
    and D = heap_chunk [OF h', of d b m, unfolded xy, simplified]
  have cond: "nxt \<noteq> NULL \<and> allocated_of s nxt = 0 \<and> fst x + sizeof_Chunk + size_of s (fst x) = nxt \<longleftrightarrow> joinable x y"
    using C(7) D(8,14) nxt Cons by (auto simp: joinable_def xy add.assoc)
  show ?thesis
  proof (cases "joinable x y")
    case True
    have "heap (set_size (fst x) (size_of s c + (size_of s d + sizeof_Chunk)) (list_delete (ck_node (fst y)) s)) (as @ join x y # bs')"
      by (rule heap_join [OF h' True]) (use C(7) D(7) in \<open>simp add: xy\<close>)
    moreover have "free_with_next (fst x) nxt s =
        set_size (fst x) (size_of s c + (size_of s d + sizeof_Chunk)) (list_delete (ck_node (fst y)) s)"
      unfolding free_with_next_def using cond True nxt Cons by (simp add: Let_def size_of_def xy)
    ultimately show ?thesis using True Cons by (simp add: join_next_def)
  next
    case False
    then have "free_with_next (fst x) nxt s = s" unfolding free_with_next_def cond by simp
    then show ?thesis using False Cons h by (simp add: join_next_def)
  qed
qed

lemma free_coalesces_internal:
  assumes h: "heap s (as @ (c, True, n) # bs)"
  shows "heap (free (c + 12) s) (chunks_free as (c, False, n) bs)"
proof -
  let ?s1 = "set_allocated c 0 s" and ?f = "\<lambda>x. ck_node (fst x)"
  have C: "VERTUAL_MEM \<le> c" "unat c \<in> chunk_ext (c, True, n)" using heap_chunk(1,12) [OF h, of c True n] by simp_all
  have h1: "heap ?s1 (as @ (c, False, n) # bs)"
  proof -
    have "chunk_ok ?s1 y" if "y \<in> set as \<union> set bs" for y
    proof (rule chunk_ok_cong [of s])
      have y: "(fst y, fst (snd y), snd (snd y)) \<in> set as \<union> set bs" using that by simp
      show "chunk_ok s y" using h that by (auto simp: heap_def)
      show "ck_allocated ?s1 (kpa (fst y)) = ck_allocated s (kpa (fst y))"
        using heap_addr_other [OF h y C(2,1)] by simp
    qed simp_all
    moreover have "chunk_ok ?s1 (c, False, n)" using h by (simp add: heap_def chunk_ok_def chunk_ext_def)
    moreover have "apart (as @ (c, False, n) # bs) = apart (as @ (c, True, n) # bs)"
      by (simp add: apart_append chunk_ext_def)
    ultimately show ?thesis using h by (auto simp: heap_def)
  qed
  have r: "ring ?s1 (chunk_head ?s1) (map ?f as @ ck_node c # map ?f bs)" using h1 by (simp add: heap_def)
  let ?prv = "if get_prev ?s1 (ck_node c) = chunk_head ?s1 then NULL else node_chunk (get_prev ?s1 (ck_node c))"
  let ?nxt = "if get_next ?s1 (ck_node c) = chunk_head ?s1 then NULL else node_chunk (get_next ?s1 (ck_node c))"
  have nxt: "?nxt = (case bs of [] \<Rightarrow> NULL | y # _ \<Rightarrow> fst y)"
  proof (cases bs)
    case (Cons y bs')
    have "(fst y, fst (snd y), snd (snd y)) \<in> set (as @ (c, False, n) # bs)" using Cons by simp
    from heap_chunk(11) [OF h1 this] show ?thesis using ring_next_of(1) [OF r] Cons by simp
  qed (use ring_next_of(1) [OF r] in simp)
  obtain x s' where fp: "free_with_prev c ?prv ?s1 = (fst x, s')"
    and x: "if as \<noteq> [] \<and> joinable (last as) (c, False, n)
      then x = join (last as) (c, False, n) \<and> heap s' (butlast as @ x # bs)
      else x = (c, False, n) \<and> heap s' (as @ x # bs)"
    using free_prev [OF h1 refl] by blast
  have nx: "\<not> fst (snd x)" using x by (auto simp: join_def split: if_splits prod.splits)
  have fe: "free (c + 12) s = free_with_next (fst x) ?nxt s'"
    unfolding free_def Let_def add_diff_cancel_right' fp by (simp only: prod.case)
  have hn: "heap (free (c + 12) s) (zs @ join_next x bs)" if "heap s' (zs @ x # bs)" for zs
    unfolding fe by (rule free_next [OF that nx nxt])
  show ?thesis
  proof (cases "as \<noteq> [] \<and> joinable (last as) (c, False, n)")
    case True
    have *: "x = join (last as) (c, False, n) \<and> heap s' (butlast as @ x # bs)" using x unfolding if_P [OF True] .
    show ?thesis using hn [OF conjunct2 [OF *]] conjunct1 [OF *] True by (simp add: chunks_free_def)
  next
    case False
    have *: "x = (c, False, n) \<and> heap s' (as @ x # bs)" using x unfolding if_not_P [OF False] .
    show ?thesis using hn [OF conjunct2 [OF *]] conjunct1 [OF *] False by (auto simp only: chunks_free_def if_False)
  qed
qed

text \<open>No two neighbours of the list could be joined.\<close>

fun coalesced :: "chunk list \<Rightarrow> bool" where
  "coalesced (x # y # cs) \<longleftrightarrow> \<not> joinable x y \<and> coalesced (y # cs)"
| "coalesced cs \<longleftrightarrow> True"

lemma coalesced_Cons: "coalesced (x # cs) \<longleftrightarrow> (cs \<noteq> [] \<longrightarrow> \<not> joinable x (hd cs)) \<and> coalesced cs"
  by (cases cs) simp_all

lemma coalesced_append: "coalesced (as @ bs) \<longleftrightarrow> coalesced as \<and> coalesced bs \<and> (as \<noteq> [] \<and> bs \<noteq> [] \<longrightarrow> \<not> joinable (last as) (hd bs))"
  by (induction as) (auto simp: coalesced_Cons hd_append)

lemma joinable_join:
  assumes "joinable x y"
  shows "joinable (join x y) z \<longleftrightarrow> joinable y z" and "joinable w (join x y) \<longleftrightarrow> joinable w x"
  using assms by (auto simp: joinable_def join_def algebra_simps split: prod.splits)

lemma coalesced_join_next:
  assumes "coalesced bs" and "zs = join_next x bs"
  shows "coalesced zs \<and> zs \<noteq> [] \<and> (\<forall>w. joinable w (hd zs) \<longleftrightarrow> joinable w x)"
proof (cases bs)
  case Nil
  then show ?thesis using assms by (simp add: join_next_def)
next
  case (Cons y ys)
  then show ?thesis using assms by (auto simp: join_next_def coalesced_Cons joinable_join)
qed

lemma coalesced_chunks_free:
  assumes "coalesced (as @ (c, True, n) # bs)"
  shows "coalesced (chunks_free as (c, False, n) bs)"
proof -
  have as: "coalesced as" and bs: "coalesced bs" using assms by (simp_all add: coalesced_append coalesced_Cons)
  show ?thesis
  proof (cases "as \<noteq> [] \<and> joinable (last as) (c, False, n)")
    case True
    then obtain zs x where zs: "as = zs @ [x]" and j: "joinable x (c, False, n)" by (cases as rule: rev_cases) auto
    then show ?thesis using as coalesced_join_next [OF bs refl, of "join x (c, False, n)"]
      by (simp add: chunks_free_def coalesced_append coalesced_Cons joinable_join del: split_paired_All)
  next
    case False
    then show ?thesis using as coalesced_join_next [OF bs refl, of "(c, False, n)"] by (auto simp: chunks_free_def coalesced_append simp del: split_paired_All)
  qed
qed

text \<open>
  C11. \<open>free\<close> of an allocated chunk: it becomes free and is joined with the chunk before it and with the chunk behind it, each exactly if that one is free and directly adjacent in memory.
  If no two free chunks were adjacent before, none are afterwards.
\<close>

theorem free_coalesces:
  assumes "heap s (as @ (c, True, n) # bs)"
  shows "heap (free (c + 12) s) (chunks_free as (c, False, n) bs)
    \<and> (coalesced (as @ (c, True, n) # bs) \<longrightarrow> coalesced (chunks_free as (c, False, n) bs))"
  using free_coalesces_internal [OF assms] coalesced_chunks_free by blast

lemma coalesced_last: "coalesced (as @ x # bs) \<Longrightarrow> as \<noteq> [] \<Longrightarrow> \<not> joinable (last as) x"
  by (induction as rule: induct_list012) auto


section \<open>Chunks from new pages\<close>

lemma heap_append_fresh:
  assumes h: "heap s cs" and c: "VERTUAL_MEM \<le> c" "unat c + 12 + n < 4294967296"
    and fr: "\<forall>x \<in> set cs. chunk_ext (c, b, n) \<inter> chunk_ext x = {}" "unat (chunk_head s) \<notin> chunk_ext (c, b, n)"
    and s': "s' = list_insert_before (chunk_head s) (ck_node c) (set_size c (of_nat n) (set_allocated c (of_bool b) s))"
  shows "heap_step s s' (cs @ [(c, b, n)])"
proof -
  let ?f = "\<lambda>x. ck_node (fst x)" and ?hn = "chunk_head s"
  have r: "ring s ?hn (map ?f cs)" and hn: "VERTUAL_MEM \<le> ?hn" using h by (simp_all add: heap_def)
  have u: "unat (ck_node c) = unat c + 4" using c(2) by (intro unat_ck_node) simp
  have w: "VERTUAL_MEM \<le> ck_node c" "unat (ck_node c) \<in> chunk_ext (c, b, n)" "unat c \<in> chunk_ext (c, b, n)"
    using c(1) u by (simp_all add: word_le_nat_alt chunk_ext_def)
  have ne: "kpa (fst x) \<noteq> kpa c \<and> kpa (ck_node (fst x)) \<noteq> kpa (ck_node c)" if "x \<in> set cs" for x
  proof -
    have "(fst x, fst (snd x), snd (snd x)) \<in> set cs" using that by simp
    note X = heap_chunk [OF h this]
    have "unat (fst x) \<in> chunk_ext x" using X(12) by simp
    then have "fst x \<noteq> c" using fr(1) that w(3) by auto
    then show ?thesis using X(1,10) c(1) w(1) by (simp add: kpa_inj_high ck_node_def)
  qed
  have "ck_node c \<noteq> ?hn" using fr(2) w(2) by metis
  then have new: "kpa (ck_node c) \<notin> kpa ` set (?hn # map ?f cs)"
    using ne w(1) hn by (fastforce simp: kpa_inj_high)
  then have "ring s' ?hn (map ?f (cs @ [(c, b, n)]))"
    using kl.enqueue [of "set_size c (of_nat n) (set_allocated c (of_bool b) s)" ?hn "map ?f cs"] r s' by simp
  moreover have "chunk_ok s' x" if "x \<in> set cs" for x
    by (rule chunk_ok_cong [of s]) (use h that ne [OF that] in \<open>auto simp: heap_def s'\<close>)
  moreover have "chunk_ok s' (c, b, n)" using c fr(2) by (simp add: chunk_ok_def s')
  moreover have "apart (cs @ [(c, b, n)])" using h fr(1) by (auto simp: heap_def apart_append)
  ultimately have "heap s' (cs @ [(c, b, n)])" using hn by (simp add: heap_def s')
  moreover have "other_rings s s' (?hn # heap_nodes (cs @ [(c, b, n)]))"
    unfolding other_rings_def s' by (intro allI impI kl.frame_ins_before [OF _ _ _ new]) (use r in auto)
  moreover have "heap_only s s'" unfolding s' by (rule heap_only_ops)
  ultimately show ?thesis by (simp add: heap_step_def)
qed

lemma unat_malloc_pages:
  "unat (malloc_pages w) = (if 0 < unat w mod 4096 then unat w div 4096 + 1 else unat w div 4096)"
  using unat_lt_2_32 [of w] by (simp add: malloc_pages_def Let_def word_less_nat_alt unat_mod unat_div unat_word_ariths)

lemma malloc_pages_bound:
  assumes "sz < 0x30000000" and m: "m = unat (malloc_pages (sizeof_Chunk + of_nat sz))"
  shows "12 + sz \<le> 4096 * m" and "4096 * m < 12 + sz + 4096" and "0 < m" and "m < 0x40000"
proof -
  have t: "unat (sizeof_Chunk + of_nat sz) = 12 + sz" using assms(1) by (intro unat_total) simp
  define q r where "q = (12 + sz) div 4096" and "r = (12 + sz) mod 4096"
  have dm: "12 + sz = 4096 * q + r" unfolding q_def r_def by (rule mult_div_mod_eq [symmetric])
  have r: "r < 4096" by (simp add: r_def)
  have q: "q \<le> 196609" using dm assms(1) by linarith
  have "m = (if 0 < r then q + 1 else q)" unfolding m unat_malloc_pages t q_def r_def ..
  then show "12 + sz \<le> 4096 * m" and "4096 * m < 12 + sz + 4096" and "0 < m" and "m < 0x40000"
    using dm r q by (auto split: if_splits)
qed

text \<open>
  \<open>fresh_frames s cs a m\<close>: the \<open>m\<close> frames at kernel address \<open>a\<close> overlap no chunk and not the list head,
  and the nodes of the free pages are none of the cells of the chunk list.
\<close>

definition fresh_frames :: "'a machine_scheme \<Rightarrow> chunk list \<Rightarrow> u32 list \<Rightarrow> u32 \<Rightarrow> nat \<Rightarrow> bool" where
  "fresh_frames s cs ps a m \<longleftrightarrow> VERTUAL_MEM \<le> a \<and> unat a + 4096 * m < 4294967296 \<and>
     (\<forall>x \<in> set cs. {unat a ..< unat a + 4096 * m} \<inter> chunk_ext x = {}) \<and>
     unat (chunk_head s) \<notin> {unat a ..< unat a + 4096 * m} \<and>
     kpa ` set (free_pages_head s # map page_node ps) \<inter> kpa ` set (chunk_head s # map (\<lambda>x. ck_node (fst x)) cs) = {}"

definition placed :: "u32 \<Rightarrow> nat \<Rightarrow> nat \<Rightarrow> chunk list" where
  "placed a sz m = (a, True, sz) #
     (if 4096 * m - (12 + sz) > 12 then [(a + of_nat (12 + sz), False, 4096 * m - (12 + sz) - 12)] else [])"

lemma malloc_place_heap:
  assumes h: "heap s cs" and sz: "sz < 0x30000000" "m = unat (malloc_pages (sizeof_Chunk + of_nat sz))"
    and a: "VERTUAL_MEM \<le> a" "unat a + 4096 * m < 4294967296"
    and fr: "\<forall>x \<in> set cs. {unat a ..< unat a + 4096 * m} \<inter> chunk_ext x = {}"
      "unat (chunk_head s) \<notin> {unat a ..< unat a + 4096 * m}"
  shows "\<exists>s'. malloc_place a (of_nat sz) (malloc_pages (sizeof_Chunk + of_nat sz)) s = (a + 12, s') \<and>
    heap_step s s' (cs @ placed a sz m)"
proof -
  note M = malloc_pages_bound [OF sz]
  let ?s1 = "list_insert_before (chunk_head s) (ck_node a) (set_size a (of_nat sz) (set_allocated a (of_bool True) s))"
  have ext: "chunk_ext (a, True, sz) \<subseteq> {unat a ..< unat a + 4096 * m}" using M(1) by (auto simp: chunk_ext_def)
  have h1: "heap_step s ?s1 (cs @ [(a, True, sz)])"
    using a M(1) fr ext by (intro heap_append_fresh [OF h a(1) _ _ _ refl]) auto
  define t :: u32 where "t = of_nat (12 + sz)"
  define rem where "rem = 4096 * m - (12 + sz)"
  have t: "sizeof_Chunk + of_nat sz = t" by (simp add: t_def)
  have ut: "unat t = 12 + sz" unfolding t_def using sz(1) by (intro unat_of_nat_small) simp
  have "malloc_pages t = of_nat m" using sz(2) t by simp
  then have "malloc_pages t * PAGE_SIZE - t = of_nat (4096 * m) - of_nat (12 + sz)" by (simp add: t_def mult.commute)
  also have "\<dots> = of_nat rem" unfolding rem_def using M(1) by (simp add: of_nat_diff)
  finally have r: "malloc_pages t * PAGE_SIZE - t = of_nat rem" .
  have rem: "rem < 4096" "rem \<le> 4096 * m" "12 + sz + rem = 4096 * m" using M(1,2) by (simp_all add: rem_def)
  have c: "sizeof_Chunk < (of_nat rem :: u32) \<longleftrightarrow> 12 < rem" using rem(1) by (simp add: word_less_nat_alt unat_of_nat_small)
  show ?thesis
  proof (cases "12 < rem")
    case False
    then have "malloc_place a (of_nat sz) (malloc_pages t) s = (a + 12, ?s1)"
      unfolding malloc_place_def Let_def t r c by simp
    moreover have "placed a sz m = [(a, True, sz)]" using False by (simp add: placed_def rem_def)
    ultimately show ?thesis using h1 t by metis
  next
    case True
    define b where "b = a + t"
    have ub: "unat b = unat a + 12 + sz" unfolding b_def using a(2) rem(3) ut by (simp add: unat_word_ariths)
    let ?s2 = "list_insert_before (chunk_head ?s1) (ck_node b) (set_size b (of_nat (rem - 12)) (set_allocated b (of_bool False) ?s1))"
    have "of_nat rem - sizeof_Chunk = (of_nat (rem - 12) :: u32)" using True by (simp add: of_nat_diff)
    then have "malloc_place a (of_nat sz) (malloc_pages t) s = (a + 12, ?s2)"
      unfolding malloc_place_def Let_def t r c using True by (simp add: b_def)
    moreover have st2: "heap_step ?s1 ?s2 ((cs @ [(a, True, sz)]) @ [(b, False, rem - 12)])"
    proof (rule heap_append_fresh [OF _ _ _ _ _ refl])
      show "heap ?s1 (cs @ [(a, True, sz)])" using h1 by (simp add: heap_step_def)
      show "VERTUAL_MEM \<le> b" using a(1) ub by (simp add: word_le_nat_alt)
      show "unat b + 12 + (rem - 12) < 4294967296" using ub rem(3) a(2) True by simp
      have sub: "chunk_ext (b, False, rem - 12) \<subseteq> {unat a ..< unat a + 4096 * m}"
        using True rem(3) by (auto simp: chunk_ext_def ub)
      have "chunk_ext (b, False, rem - 12) \<inter> chunk_ext (a, True, sz) = {}" by (auto simp: chunk_ext_def ub)
      then show "\<forall>x \<in> set (cs @ [(a, True, sz)]). chunk_ext (b, False, rem - 12) \<inter> chunk_ext x = {}"
        using fr(1) sub by auto
      show "unat (chunk_head ?s1) \<notin> chunk_ext (b, False, rem - 12)" using fr(2) sub by auto
    qed
    moreover have "placed a sz m = [(a, True, sz), (b, False, rem - 12)]"
      using True unfolding placed_def rem_def [symmetric] b_def t_def by simp
    moreover have "heap_step s ?s2 ((cs @ [(a, True, sz)]) @ [(b, False, rem - 12)])" by (rule heap_step_trans [OF h1 st2]) auto
    ultimately show ?thesis using t by (intro exI [of _ ?s2]) simp
  qed
qed

lemma other_rings_heap:
  assumes h: "heap s cs" and o: "other_rings s s' ns"
    and dj: "kpa ` set ns \<inter> kpa ` set (chunk_head s # map (\<lambda>x. ck_node (fst x)) cs) = {}"
    and f: "chunk_head s' = chunk_head s" "ck_allocated s' = ck_allocated s" "ck_size s' = ck_size s"
  shows "heap s' cs"
proof -
  have "ring s' (chunk_head s) (map (\<lambda>x. ck_node (fst x)) cs)"
    using o h dj unfolding other_rings_def heap_def by blast
  then show ?thesis using h chunk_ok_cong [of s _ s'] f by (auto simp: heap_def)
qed

lemma malloc_pages_heap:
  assumes h: "heap s cs" and none: "malloc_fit sz cs = None" and sz: "sz < 0x30000000"
    and m: "m = unat (malloc_pages (sizeof_Chunk + of_nat sz))"
    and bl: "block_list s ((p, k) # bs)" and k: "m < k"
    and off: "no_victim s (of_nat m) (block_pages ((p, k) # bs))"
    and p: "p = page_plus (pages s) j" and a: "a = j * PAGE_SIZE + pt_begin s + VERTUAL_MEM"
    and fr: "fresh_frames s cs (block_pages ((p, k) # bs)) a m"
  shows "\<exists>s1 s'. malloc (of_nat sz) s = Some (a + 12, s') \<and> heap_step s1 s' (cs @ placed a sz m) \<and>
    block_list s1 ((page_plus p (of_nat m), k - m) # bs) \<and>
    (\<exists>x y u v. s1 = s\<lparr>ln_prev := x, ln_next := y, free_page_num := free_page_num s - of_nat m, pg_free_pages := u, pg_flags := v\<rparr>)"
proof -
  let ?w = "malloc_pages (sizeof_Chunk + of_nat sz)"
  note M = malloc_pages_bound [OF sz m]
  have nosw: "no_victim s ?w (block_pages ((p, k) # bs))" using off m by simp
  have "0 < unat ?w" "unat ?w < k" using M(3) m k by simp_all
  from alloc_page_block [OF bl this nosw] obtain s1 x y where al: "alloc_page ?w s = Some (p + VERTUAL_MEM, s1)"
    and bl1: "block_list s1 ((page_plus p ?w, k - unat ?w) # bs)" and oth: "other_rings s s1 (free_pages_head s # map page_node (block_pages ((p, k) # bs)))"
    and s1: "s1 = s\<lparr>ln_prev := x, ln_next := y, free_page_num := free_page_num s - ?w,
      pg_free_pages := (pg_free_pages s)(page_plus p ?w := of_nat (k - unat ?w)),
      pg_flags := (pg_flags s)(page_plus p ?w := 1)\<rparr>"
    by blast
  have h1: "heap s1 cs"
    using fr by (intro other_rings_heap [OF h oth]) (simp_all add: fresh_frames_def s1)
  have la: "pg_to_addr_la s1 (p + VERTUAL_MEM) = a"
    using pg_to_addr(2) [of s j] p a by (simp add: pg_to_addr_la_def s1)
  have "unat (sizeof_Chunk + of_nat sz) = 12 + sz" using sz by (intro unat_total) simp
  then have "malloc_find (sizeof_Chunk + of_nat sz) (chunk_head s) s = Some None"
    using malloc_find_heap [OF h, of "sizeof_Chunk + of_nat sz"] malloc_fit_None [OF none] by simp
  then have mp: "malloc (of_nat sz) s = Some (malloc_place a (of_nat sz) ?w s1)"
    using al la by (simp add: malloc_def Let_def)
  obtain s' where s': "malloc_place a (of_nat sz) ?w s1 = (a + 12, s')" "heap_step s1 s' (cs @ placed a sz m)"
    using malloc_place_heap [OF h1 sz m, of a] fr by (auto simp: fresh_frames_def s1)
  have w: "?w = of_nat m" "unat ?w = m" using m by simp_all
  show ?thesis
  proof (intro exI conjI)
    show "malloc (of_nat sz) s = Some (a + 12, s')" using mp s'(1) by simp
    show "heap_step s1 s' (cs @ placed a sz m)" by (rule s'(2))
    show "block_list s1 ((page_plus p (of_nat m), k - m) # bs)" using bl1 unfolding w(2) unfolding w(1) .
    show "s1 = s\<lparr>ln_prev := x, ln_next := y, free_page_num := free_page_num s - of_nat m,
      pg_free_pages := (pg_free_pages s)(page_plus p (of_nat m) := of_nat (k - m)), pg_flags := (pg_flags s)(page_plus p (of_nat m) := 1)\<rparr>"
      using s1 unfolding w(2) unfolding w(1) .
  qed
qed

lemma block_list_other:
  assumes "block_list s bs" and "other_rings s s' ns" and "kpa ` set ns \<inter> kpa ` set (free_pages_head s # map page_node (block_pages bs)) = {}"
    and "free_pages_head s' = free_pages_head s" "free_page_num s' = free_page_num s" "pg_free_pages s' = pg_free_pages s"
  shows "block_list s' bs"
proof (rule block_list_frame)
  have fl: "free_list s (block_pages bs)" using assms(1) by (simp only: block_list_def)
  then have "ring s (free_pages_head s) (map page_node (block_pages bs))" by (simp only: free_list_def)
  then have "ring s' (free_pages_head s) (map page_node (block_pages bs))" using assms(2,3) unfolding other_rings_def by blast
  then show "free_list s' (block_pages bs)" using fl assms(4,5) by (simp add: free_list_def)
  show "0 < k \<and> free_pages_of s' q = of_nat k" if "(q, k) \<in> set bs" for q k
    using that assms(1,6) by (auto simp: block_list_def free_pages_of_def)
qed

text \<open>The page list does not lie in the frames that are handed out.\<close>

definition frames_hold_no_list :: "u32 list \<Rightarrow> u32 \<Rightarrow> nat \<Rightarrow> bool" where
  "frames_hold_no_list ns a m \<longleftrightarrow> (\<forall>x. unat a \<le> unat x \<and> unat x < unat a + 4096 * m \<longrightarrow> kpa x \<notin> kpa ` set ns)"

lemma placed_apart:
  assumes apart: "frames_hold_no_list ns a m" and sz: "12 + sz \<le> 4096 * m" and w: "unat a + 4096 * m < 4294967296"
  shows "kpa ` set (heap_nodes (placed a sz m)) \<inter> kpa ` set ns = {}"
proof -
  have n: "kpa (a + of_nat i) \<notin> kpa ` set ns" if "i < 4096 * m" for i
  proof -
    have "unat (a + of_nat i) = unat a + i" using that w by (simp add: unat_word_ariths unat_of_nat_small)
    then show ?thesis using apart that unfolding frames_hold_no_list_def by simp
  qed
  have "kpa (ck_node (fst z)) \<notin> kpa ` set ns" if z: "z \<in> set (placed a sz m)" for z
  proof -
    have 4: "4 < 4096 * m" using sz by simp
    consider "fst z = a" | "fst z = a + of_nat (12 + sz)" "16 + sz < 4096 * m" using z by (auto simp: placed_def split: if_splits)
    then show ?thesis
    proof cases
      case 1
      then show ?thesis using n [OF 4] by (simp add: ck_node_def)
    next
      case 2
      then show ?thesis using n [OF 2(2)] by (simp add: ck_node_def algebra_simps)
    qed
  qed
  then show ?thesis unfolding set_map by blast
qed

text \<open>
  C33. \<open>malloc\<close> where nothing fits: with enough pages in the first block of the page allocator it takes the number of whole pages that hold header and memory out of that block, puts the chunk at
  their start and the rest, if it is larger than a header, into a free chunk behind it. Old and new chunks are disjoint.
\<close>

theorem malloc_from_pages:
  assumes h: "heap s cs" and none: "malloc_fit sz cs = None" and sz: "sz < 0x30000000"
    and m: "m = unat (malloc_pages (sizeof_Chunk + of_nat sz))"
    and bl: "block_list s ((p, k) # bs)" and k: "m < k"
    and off: "no_victim s (of_nat m) (block_pages ((p, k) # bs))"
    and p: "p = page_plus (pages s) j" and a: "a = j * PAGE_SIZE + pt_begin s + VERTUAL_MEM"
    and fr: "fresh_frames s cs (block_pages ((p, k) # bs)) a m"
    and apart: "frames_hold_no_list (free_pages_head s # map page_node (block_pages ((p, k) # bs))) a m"
  shows "\<exists>s'. malloc (of_nat sz) s = Some (a + 12, s') \<and> heap s' (cs @ placed a sz m)
    \<and> block_list s' ((page_plus p (of_nat m), k - m) # bs)"
proof -
  let ?bs = "(page_plus p (of_nat m), k - m) # bs" and ?ns = "free_pages_head s # map page_node (block_pages ((p, k) # bs))"
  obtain s1 s' x y u v where s': "malloc (of_nat sz) s = Some (a + 12, s')" "heap_step s1 s' (cs @ placed a sz m)" "block_list s1 ?bs"
    and s1: "s1 = s\<lparr>ln_prev := x, ln_next := y, free_page_num := free_page_num s - of_nat m, pg_free_pages := u, pg_flags := v\<rparr>"
    using malloc_pages_heap [OF h none sz m bl k off p a fr] by blast
  have st: "heap s' (cs @ placed a sz m)" "heap_only s1 s'" "other_rings s1 s' (chunk_head s1 # heap_nodes (cs @ placed a sz m))"
    using s'(2) by (simp_all add: heap_step_def)
  define N where "N = kpa ` set ?ns"
  have f: "unat a + 4096 * m < 4294967296" "N \<inter> kpa ` set (chunk_head s # heap_nodes cs) = {}"
    using fr unfolding fresh_frames_def N_def by blast+
  have pl: "kpa ` set (heap_nodes (placed a sz m)) \<inter> N = {}"
    unfolding N_def by (rule placed_apart [OF apart malloc_pages_bound(1) [OF sz m] f(1)])
  have "set (chunk_head s1 # heap_nodes (cs @ placed a sz m)) = set (chunk_head s # heap_nodes cs) \<union> set (heap_nodes (placed a sz m))" by (auto simp: s1)
  with f(2) pl have dj: "kpa ` set (chunk_head s1 # heap_nodes (cs @ placed a sz m)) \<inter> N = {}" by (simp only: image_Un) blast
  have "page_run p k = page_run p m @ page_run (page_plus p (of_nat m)) (k - m)" using page_run_append [of m k p] k by simp
  then have "set (free_pages_head s1 # map page_node (block_pages ?bs)) \<subseteq> set ?ns" by (auto simp: s1)
  then have "kpa ` set (free_pages_head s1 # map page_node (block_pages ?bs)) \<subseteq> N" unfolding N_def by (rule image_mono)
  with dj have "kpa ` set (chunk_head s1 # heap_nodes (cs @ placed a sz m)) \<inter> kpa ` set (free_pages_head s1 # map page_node (block_pages ?bs)) = {}" by blast
  then have "block_list s' ?bs" by (intro block_list_other [OF s'(3) st(3)]) (simp_all add: heap_only_fields [OF st(2)])
  then show ?thesis using s'(1) st(1) by blast
qed

text \<open>
  When the page allocator has nothing to give, \<open>malloc\<close> does not report it: it converts the null
  page pointer to an address, builds a chunk there and returns a pointer into it.
\<close>

theorem malloc_ignores_exhaustion:
  assumes h: "heap s cs" and none: "malloc_fit sz cs = None" and sz: "sz < 4294967284"
    and al: "alloc_page (malloc_pages (sizeof_Chunk + of_nat sz)) s = Some (NULL, s)"
  shows "\<exists>s'. malloc (of_nat sz) s = Some (pg_to_addr_la s NULL + 12, s')"
proof -
  let ?w = "malloc_pages (sizeof_Chunk + of_nat sz)" and ?a = "pg_to_addr_la s NULL"
  have "malloc_find (sizeof_Chunk + of_nat sz) (chunk_head s) s = Some None"
    using malloc_find_heap [OF h, of "sizeof_Chunk + of_nat sz"] malloc_fit_None [OF none] unat_total [OF sz] by simp
  then have "malloc (of_nat sz) s = Some (malloc_place ?a (of_nat sz) ?w s)"
    using al by (simp add: malloc_def Let_def)
  moreover obtain s' where "malloc_place ?a (of_nat sz) ?w s = (?a + 12, s')" by (simp add: malloc_place_def Let_def)
  ultimately show ?thesis by auto
qed

section \<open>Worked examples\<close>

text \<open>One page of heap: a chunk in use and the free rest of the page.\<close>

definition heap_example :: machine where
  "heap_example =
     (let s = free_example [(0x108000, 3), (0x108060, 2)];
          s = malloc_init s;
          s = snd (malloc_place 0xC01C0000 100 1 s)
      in s)"

lemma chunk_head_free_example: "chunk_head (free_example bs) = 0xC0105010"
proof -
  have "chunk_head (fold (list_insert_before h) xs s) = chunk_head s" for h xs and s :: machine
    by (induction xs arbitrary: s) simp_all
  then show ?thesis by (simp add: free_example_def Let_def machine0_def)
qed

lemma heap_init: "VERTUAL_MEM \<le> chunk_head s \<Longrightarrow> heap (malloc_init s) []"
  using ring_list_init by (simp add: heap_def malloc_init_def)

lemma heap_example_heap: "heap heap_example [(0xC01C0000, True, 100), (0xC01C0070, False, 3972)]"
proof -
  let ?s = "malloc_init (free_example [(0x108000, 3), (0x108060, 2)])"
  have hd: "chunk_head ?s = 0xC0105010" by (simp add: malloc_init_def chunk_head_free_example)
  have h: "heap ?s []" by (rule heap_init) (simp add: chunk_head_free_example)
  have m: "(1 :: nat) = unat (malloc_pages (sizeof_Chunk + of_nat 100))" by (simp add: unat_malloc_pages)
  have "\<exists>s'. malloc_place 0xC01C0000 (of_nat 100) (malloc_pages (sizeof_Chunk + of_nat 100)) ?s = (0xC01C0000 + 12, s') \<and>
      heap_step ?s s' ([] @ placed 0xC01C0000 100 1)"
    by (rule malloc_place_heap [OF h _ m]) (simp_all add: hd)
  moreover have "malloc_pages (sizeof_Chunk + of_nat 100) = 1" by (simp add: malloc_pages_def)
  ultimately show ?thesis by (auto simp: heap_example_def Let_def placed_def heap_step_def)
qed

theorem malloc_first_fit_witness:
  "\<exists>s'. malloc 200 heap_example = Some (0xC01C007C, s') \<and>
    heap s' [(0xC01C0000, True, 100), (0xC01C0070, True, 200), (0xC01C0144, False, 3760)]"
  using malloc_first_fit [OF heap_example_heap, of 200] by simp

theorem free_coalesces_witness:
  "heap (free 0xC01C000C heap_example) [(0xC01C0000, False, 4084)]"
  using free_coalesces [of heap_example "[]" "0xC01C0000" 100 "[(0xC01C0070, False, 3972)]"] heap_example_heap
  by (simp add: chunks_free_def join_next_def joinable_def join_def)


theorem malloc_from_pages_witness:
  "\<exists>s'. malloc 5000 (malloc_init (free_example [(0x108000, 3), (0x108060, 2)])) = Some (0xC01B900C, s') \<and>
    heap s' [(0xC01B9000, True, 5000), (0xC01BA394, False, 3168)] \<and> block_list s' [(0x108030, 1), (0x108060, 2)]"
proof -
  let ?s = "malloc_init (free_example [(0x108000, 3), (0x108060, 2)])"
  have f: "chunk_head ?s = 0xC0105010" "pages ?s = 0x108000" "pt_begin ?s = 0x1B9000" "is_vmm_inited ?s = 0"
    "free_pages_head ?s = 0xC0105000"
    by (simp_all add: malloc_init_def chunk_head_free_example)
       (simp add: free_example_def machine0_def Let_def block_pages_def page_run_def upt_rec)
  have h: "heap ?s []" by (rule heap_init) (simp add: chunk_head_free_example)
  have m: "(2 :: nat) = unat (malloc_pages (sizeof_Chunk + of_nat 5000))" by (simp add: unat_malloc_pages)
  have bl: "block_list ?s [(0x108000, 3), (0x108060, 2)]"
  proof (rule block_list_frame)
    have "free_list (free_example [(0x108000, 3), (0x108060, 2)]) (block_pages [(0x108000, 3), (0x108060, 2)])"
      using free_example_blocks by (simp only: block_list_def)
    moreover have "kpa 0xC0105010 \<notin> kpa ` set (0xC0105000 # map page_node (block_pages [(0x108000, 3), (0x108060, 2)]))"
      by (simp add: block_pages_def page_run_def upt_rec page_plus_def page_node_def kpa_def)
    ultimately show "free_list ?s (block_pages [(0x108000, 3), (0x108060, 2)])"
      by (simp add: free_list_def malloc_init_def chunk_head_free_example ring_other_init del: set_map)
    show "0 < k \<and> free_pages_of ?s q = of_nat k" if "(q, k) \<in> set [(0x108000, 3), (0x108060, 2)]" for q k
      using that free_example_blocks by (auto simp: block_list_def malloc_init_def free_pages_of_def)
  qed
  have fr: "fresh_frames ?s [] (block_pages [(0x108000, 3), (0x108060, 2)]) 0xC01B9000 2"
    by (simp add: fresh_frames_def f block_pages_def page_run_def upt_rec page_plus_def page_node_def kpa_def)
  have low: "\<forall>b \<in> kpa ` set (free_pages_head ?s # map page_node (block_pages [(0x108000, 3), (0x108060, 2)])). unat b < 0x1B9000"
    by (simp add: f block_pages_def page_run_def upt_rec page_plus_def page_node_def kpa_def)
  have "frames_hold_no_list (free_pages_head ?s # map page_node (block_pages [(0x108000, 3), (0x108060, 2)])) 0xC01B9000 2"
    unfolding frames_hold_no_list_def
  proof (intro allI impI)
    fix x :: u32
    assume "unat (0xC01B9000 :: u32) \<le> unat x \<and> unat x < unat (0xC01B9000 :: u32) + 4096 * 2"
    then have "0xC01B9000 \<le> unat x" by simp
    then have "unat (kpa x) \<ge> 0x1B9000" by (simp add: kpa_def unat_sub word_le_nat_alt)
    with low show "kpa x \<notin> kpa ` set (free_pages_head ?s # map page_node (block_pages [(0x108000, 3), (0x108060, 2)]))" by (meson leD)
  qed
  then have "\<exists>s'. malloc (of_nat 5000) ?s = Some (0xC01B9000 + 12, s') \<and> heap s' ([] @ placed 0xC01B9000 5000 2)
      \<and> block_list s' ((page_plus 0x108000 (of_nat 2), 3 - 2) # [(0x108060, 2)])"
    by (intro malloc_from_pages [OF h _ _ m bl _ _ _ _ fr, of 0]) (simp_all add: f page_plus_def no_victim_def)
  then show ?thesis by (simp add: placed_def page_plus_def)
qed

theorem malloc_ignores_exhaustion_witness:
  "\<exists>s'. malloc 100 (malloc_init (free_example [])) = Some (0xB51B900C, s')"
proof -
  let ?s = "malloc_init (free_example [])"
  have h: "heap ?s []" by (rule heap_init) (simp add: chunk_head_free_example)
  have "alloc_page (malloc_pages (sizeof_Chunk + of_nat 100)) ?s = Some (NULL, ?s)"
    by (simp add: malloc_pages_def alloc_page_def malloc_init_def free_example_def machine0_def Let_def sless_small)
  from malloc_ignores_exhaustion [OF h _ _ this]
  have "\<exists>s'. malloc 100 ?s = Some (pg_to_addr_la ?s NULL + 12, s')" by simp
  moreover have "pg_to_addr_la ?s NULL + 12 = 0xB51B900C"
    by (simp add: pg_to_addr_la_def page_diff_def malloc_init_def free_example_def machine0_def Let_def)
  ultimately show ?thesis by simp
qed

end
