(* ===== verification/Vmm.thy ===== *)
theory Vmm
  imports PageTable Malloc
begin

text \<open>
  Virtual memory areas and demand paging: \<open>mm/vmm.c\<close> and \<open>swap_in\<close> of \<open>mm/swap.c\<close>. An operation that runs into
  one of the code's endless loops (a halt, or a search of a damaged list) has the value
  \<open>None\<close>; a \<open>panic\<close> is the value \<open>Inl\<close> of its reason. What the functions print is not modelled.
\<close>

section \<open>Creating address spaces and areas\<close>

definition vma_node :: "u32 \<Rightarrow> u32" where
  "vma_node v = v + 16"

definition node_vma :: "u32 \<Rightarrow> u32" where
  "node_vma n = n - 16"

abbreviation sizeof_mm_struct :: u32 where
  "sizeof_mm_struct \<equiv> 28"

abbreviation sizeof_vma_struct :: u32 where
  "sizeof_vma_struct \<equiv> 24"

definition create_mm :: "u32 \<Rightarrow> 'a machine_scheme \<Rightarrow> (u32 \<times> 'a machine_scheme) option" where
  "create_mm pde s =
     do {
       (m, s) \<leftarrow> malloc sizeof_mm_struct s;
       let s = s\<lparr>mm_num := (mm_num s)(kpa m := 0)\<rparr>;
           s = s\<lparr>mm_pde := (mm_pde s)(kpa m := pde)\<rparr>;
           s = s\<lparr>mm_cache := (mm_cache s)(kpa m := NULL)\<rparr>;
           s = list_init (mm_node m) s;
           s = list_init (mm_vm_fifo m) s
       in Some (m, s)
     }"

definition vmm_init :: "'a machine_scheme \<Rightarrow> 'a machine_scheme option" where
  "vmm_init s =
     do {
       (m, s) \<leftarrow> create_mm (pd s) s;
       Some (s\<lparr>mm := m, is_vmm_inited := 1\<rparr>)
     }"

text \<open>The insertion of an area whose fields are set; the two tests of the code are kept as they are.\<close>

definition insert_vma :: "u32 \<Rightarrow> u32 \<Rightarrow> u32 \<Rightarrow> 'a machine_scheme \<Rightarrow> 'a machine_scheme option" where
  "insert_vma m vma vmm_start s =
     do {
       beg \<leftarrow> ring_find (\<lambda>n. vmm_start < vma_start s (kpa (node_vma n))) (mm_node m) (mm_node m) s;
       let s = (if get_next s beg \<noteq> mm_node m
                then (list_insert_after beg (vma_node vma) s)\<lparr>mm_num := (mm_num s)(kpa m := mm_num s (kpa m) + 1)\<rparr>
                else s);
           s = (if beg = mm_node m
                then (list_insert_after (mm_node m) (vma_node vma) s)\<lparr>mm_num := (mm_num s)(kpa m := mm_num s (kpa m) + 1)\<rparr>
                else s)
       in Some s
     }"

definition create_vma :: "u32 \<Rightarrow> u32 \<Rightarrow> u32 \<Rightarrow> u32 \<Rightarrow> 'a machine_scheme \<Rightarrow> (u32 \<times> 'a machine_scheme) option" where
  "create_vma m vmm_start vmm_end flags s =
     do {
       (vma, s) \<leftarrow> malloc sizeof_vma_struct s;
       let s = s\<lparr>vma_start := (vma_start s)(kpa vma := vmm_start)\<rparr>;
           s = s\<lparr>vma_end := (vma_end s)(kpa vma := vmm_end)\<rparr>;
           s = s\<lparr>vma_back_link := (vma_back_link s)(kpa vma := m)\<rparr>;
           s = s\<lparr>vma_flags := (vma_flags s)(kpa vma := flags)\<rparr>
       in do {
            s \<leftarrow> insert_vma m vma vmm_start s;
            Some (vma, s)
          }
     }"

section \<open>Finding and freeing areas\<close>

definition vma_has :: "'a machine_scheme \<Rightarrow> u32 \<Rightarrow> u32 \<Rightarrow> bool" where
  "vma_has s addr v \<longleftrightarrow> vma_start s (kpa v) \<le> addr \<and> addr < vma_end s (kpa v)"

definition find_vma :: "u32 \<Rightarrow> u32 \<Rightarrow> 'a machine_scheme \<Rightarrow> (u32 \<times> 'a machine_scheme) option" where
  "find_vma m addr s =
     (let cache = mm_cache s (kpa m)
      in if cache \<noteq> NULL \<and> vma_start s (kpa cache) < addr \<and> addr < vma_end s (kpa cache) then Some (cache, s)
         else do {
           beg \<leftarrow> ring_find (\<lambda>n. vma_has s addr (node_vma n)) (mm_node m) (mm_node m) s;
           if get_next s beg = mm_node m then Some (NULL, s)
           else let temp = node_vma (get_next s beg)
                in Some (temp, s\<lparr>mm_cache := (mm_cache s)(kpa m := temp)\<rparr>)
         })"

definition free_vma :: "u32 \<Rightarrow> 'a machine_scheme \<Rightarrow> 'a machine_scheme" where
  "free_vma vma s = free vma s"

partial_function (option) free_mm_loop :: "u32 \<Rightarrow> u32 \<Rightarrow> u32 \<Rightarrow> 'a machine_scheme \<Rightarrow> 'a machine_scheme option" where
  "free_mm_loop m prv nxt s =
     (if prv = mm_node m then Some s
      else let temp = node_vma prv;
               s = list_delete (vma_node temp) s;
               s = free_vma temp s
           in free_mm_loop m nxt (get_next s nxt) s)"

definition free_mm :: "u32 \<Rightarrow> 'a machine_scheme \<Rightarrow> 'a machine_scheme option" where
  "free_mm m s =
     (let prv = get_next s (mm_node m);
          nxt = get_next s prv
      in do {
           s \<leftarrow> free_mm_loop m prv nxt s;
           Some (free m s)
         })"

section \<open>Page faults\<close>

definition swap_in :: "u32 \<Rightarrow> u32 \<Rightarrow> u32 \<Rightarrow> 'a machine_scheme \<Rightarrow> 'a machine_scheme option" where
  "swap_in m fault_addr flags s =
     do {
       (wrong_pte, s) \<leftarrow> get_pte (mm_pde s (kpa m)) fault_addr 0 s;
       (page, s) \<leftarrow> alloc_page 1 s;
       let s = swap_read (pg_to_addr_la s page) wrong_pte s
       in do {
            s \<leftarrow> pg_map (mm_pde s (kpa m)) fault_addr (pg_to_addr_pa s page) 7 s;
            let s = set_va page fault_addr s
            in Some (list_insert_before (mm_vm_fifo m) (page_node page) s)
          }
     }"

datatype panic = No_vma | Not_writable | Not_readable

definition do_swap_page :: "u32 \<Rightarrow> u32 \<Rightarrow> 'a machine_scheme \<Rightarrow> 'a machine_scheme option" where
  "do_swap_page fault_pg_addr sign s =
     do {
       (pte, s) \<leftarrow> get_pte (mm_pde s (kpa (mm s))) fault_pg_addr 1 s;
       if ent_addr (ld s pte) = 0 \<and> ent_sign (ld s pte) = 0 then
         do {
           (pg, s) \<leftarrow> alloc_page 1 s;
           if pg = NULL then Some s
           else
             let s = set_va pg fault_pg_addr s
             in do {
                  s \<leftarrow> pg_map (mm_pde s (kpa (mm s))) fault_pg_addr (pg_to_addr_pa s pg) (ucast sign) s;
                  Some (list_insert_before (mm_vm_fifo (mm s)) (page_node pg) s)
                }
         }
       else swap_in (mm s) fault_pg_addr sign s
     }"

definition do_swap :: "u32 \<Rightarrow> i32 \<Rightarrow> 'a machine_scheme \<Rightarrow> (panic + 'a machine_scheme) option" where
  "do_swap cr2 is_write s =
     (let fault_pg_addr = ROUNDDOWN cr2
      in do {
           (vma, s) \<leftarrow> find_vma (mm s) fault_pg_addr s;
           if vma = NULL then Some (Inl No_vma)
           else if is_write \<noteq> 0 \<and> vma_flags s (kpa vma) AND 2 = 0 then Some (Inl Not_writable)
           else if is_write = 0 \<and> vma_flags s (kpa vma) AND (1 OR 4) = 0 then Some (Inl Not_readable)
           else
             let sign = (if vma_flags s (kpa vma) AND 2 = 1 then 7 else 5)
             in map_option Inr (do_swap_page fault_pg_addr sign s)
         })"

definition page_fault :: "u32 \<Rightarrow> u32 \<Rightarrow> 'a machine_scheme \<Rightarrow> (panic + 'a machine_scheme) option" where
  "page_fault errorCode cr2 s =
     (let c = errorCode AND 3
      in if c = 0 then do_swap cr2 0 s
         else if c = 2 then do_swap cr2 1 s
         else None)"

section \<open>The list of areas\<close>

lemma vma_node_simps [simp]: "node_vma (vma_node v) = v" "vma_node (node_vma n) = n" "vma_node v = vma_node w \<longleftrightarrow> v = w"
  by (simp_all add: vma_node_def node_vma_def)

lemma vmm_links [simp]:
  "get_next (s\<lparr>mm_num := x\<rparr>) = get_next s" "get_prev (s\<lparr>mm_num := x\<rparr>) = get_prev s"
  "get_next (s\<lparr>mm_cache := x\<rparr>) = get_next s" "get_prev (s\<lparr>mm_cache := x\<rparr>) = get_prev s"
  by (simp_all add: fun_eq_iff get_next_def get_prev_def)

definition vma_list :: "'a machine_scheme \<Rightarrow> u32 \<Rightarrow> u32 list \<Rightarrow> bool" where
  "vma_list s m vs \<longleftrightarrow> ring s (mm_node m) (map vma_node vs)"

lemma ring_find_vmas:
  assumes "vma_list s m vs"
  shows "ring_find (\<lambda>n. P (node_vma n)) (mm_node m) (mm_node m) s =
      Some (last (mm_node m # map vma_node (takeWhile (\<lambda>v. \<not> P v) vs)))"
    and "get_next s (last (mm_node m # map vma_node (takeWhile (\<lambda>v. \<not> P v) vs))) =
      first_or (mm_node m) (map vma_node (dropWhile (\<lambda>v. \<not> P v) vs))"
  using ring_find_ring [of s "mm_node m" "map vma_node vs" "\<lambda>n. P (node_vma n)"] assms
  by (simp_all add: vma_list_def takeWhile_map dropWhile_map comp_def del: last.simps)

lemma find_vma_spec:
  assumes l: "vma_list s m vs" and nn: "NULL \<notin> set vs"
    and c: "mm_cache s (kpa m) = NULL \<or> mm_cache s (kpa m) \<in> set vs"
  shows "\<exists>v s'. find_vma m addr s = Some (v, s') \<and> (v = NULL \<longleftrightarrow> (\<forall>w \<in> set vs. \<not> vma_has s addr w)) \<and>
    (v \<noteq> NULL \<longrightarrow> v \<in> set vs \<and> vma_has s addr v) \<and>
    (s' = s \<or> v \<noteq> NULL \<and> s' = s\<lparr>mm_cache := (mm_cache s)(kpa m := v)\<rparr>)"
proof (cases "mm_cache s (kpa m) \<noteq> NULL \<and> vma_start s (kpa (mm_cache s (kpa m))) < addr \<and>
    addr < vma_end s (kpa (mm_cache s (kpa m)))")
  case True
  then have "find_vma m addr s = Some (mm_cache s (kpa m), s)" by (simp add: find_vma_def Let_def)
  moreover have "vma_has s addr (mm_cache s (kpa m))" "mm_cache s (kpa m) \<in> set vs" "mm_cache s (kpa m) \<noteq> NULL"
    using True c by (auto simp: vma_has_def)
  ultimately show ?thesis by blast
next
  case False
  let ?d = "dropWhile (\<lambda>v. \<not> vma_has s addr v) vs"
  note rf = ring_find_vmas [OF l, of "vma_has s addr"]
  have fv: "find_vma m addr s = (if first_or (mm_node m) (map vma_node ?d) = mm_node m then Some (NULL, s)
      else Some (node_vma (first_or (mm_node m) (map vma_node ?d)),
        s\<lparr>mm_cache := (mm_cache s)(kpa m := node_vma (first_or (mm_node m) (map vma_node ?d)))\<rparr>))"
    unfolding find_vma_def Let_def if_not_P [OF False] rf(1) bind.simps rf(2) ..
  show ?thesis
  proof (cases ?d)
    case Nil
    then have "\<forall>w \<in> set vs. \<not> vma_has s addr w" by simp
    then show ?thesis using fv Nil by (simp only: list.simps first_or_simps) auto
  next
    case (Cons v vs')
    have "v \<in> set ?d" using Cons by simp
    then have v: "v \<in> set vs" by (rule set_dropWhileD)
    have h: "vma_has s addr v" using hd_dropWhile [of "\<lambda>v. \<not> vma_has s addr v" vs] Cons by simp
    have "vma_node v \<noteq> mm_node m"
      using kl.head_fresh [OF l [unfolded vma_list_def]] v by (metis image_eqI set_map)
    then show ?thesis using fv Cons v h nn by (intro exI [of _ v]) auto
  qed
qed

text \<open>
  C30. \<open>find_vma\<close> on a well-formed list of areas whose cache is empty or one of them: it returns null exactly if no
  area contains the address, and otherwise one that does. It changes at most the cache, which stays one of the areas.
\<close>

theorem find_vma_correct:
  assumes l: "vma_list s m vs" and nn: "NULL \<notin> set vs"
    and c: "mm_cache s (kpa m) = NULL \<or> mm_cache s (kpa m) \<in> set vs"
  shows "\<exists>v s'. find_vma m addr s = Some (v, s') \<and> (v = NULL \<longleftrightarrow> (\<forall>w \<in> set vs. \<not> vma_has s addr w)) \<and>
    (v \<noteq> NULL \<longrightarrow> v \<in> set vs \<and> vma_has s addr v) \<and>
    (s' = s \<or> v \<noteq> NULL \<and> s' = s\<lparr>mm_cache := (mm_cache s)(kpa m := v)\<rparr>)"
  by (rule find_vma_spec [OF assms])

text \<open>
  \<open>create_vma\<close>'s insertion works in two situations: on an empty list, and strictly between two areas
  of the list. Then the list stays ordered by start address and the count of areas goes up by one.
\<close>

theorem insert_vma_ordered:
  assumes l: "vma_list s m (xs @ ys)" and at: "xs = [] \<and> ys = [] \<or> xs \<noteq> [] \<and> ys \<noteq> []"
    and fr: "kpa (vma_node v) \<notin> kpa ` set (mm_node m # map vma_node (xs @ ys))"
    and le: "\<forall>x \<in> set xs. vma_start s (kpa x) \<le> a" and gt: "\<forall>y \<in> set ys. a < vma_start s (kpa y)"
  shows "\<exists>s'. insert_vma m v a s = Some s' \<and> vma_list s' m (xs @ v # ys) \<and>
    mm_num s' = (mm_num s)(kpa m := mm_num s (kpa m) + 1)"
proof -
  let ?P = "\<lambda>w. a < vma_start s (kpa w)" and ?hn = "mm_node m"
  have tw: "takeWhile (\<lambda>w. \<not> ?P w) (xs @ ys) = xs" "dropWhile (\<lambda>w. \<not> ?P w) (xs @ ys) = ys"
  proof -
    have P: "\<not> ?P x" if "x \<in> set xs" for x using le that by (simp add: not_less)
    have "takeWhile (\<lambda>w. \<not> ?P w) ys = []" "dropWhile (\<lambda>w. \<not> ?P w) ys = ys" using gt by (cases ys; simp)+
    then show "takeWhile (\<lambda>w. \<not> ?P w) (xs @ ys) = xs" "dropWhile (\<lambda>w. \<not> ?P w) (xs @ ys) = ys"
      using takeWhile_append2 [of xs "\<lambda>w. \<not> ?P w" ys, OF P] dropWhile_append2 [of xs "\<lambda>w. \<not> ?P w" ys, OF P] by simp_all
  qed
  note rf = ring_find_vmas [OF l, of ?P, unfolded tw]
  have fr': "kpa (vma_node v) \<notin> kpa ` set (?hn # map vma_node xs @ map vma_node ys)" using fr by simp
  have r: "ring s ?hn (map vma_node xs @ map vma_node ys)" using l by (simp add: vma_list_def)
  have nh: "?hn \<notin> set (map vma_node xs @ map vma_node ys)" by (rule kl.head_fresh [OF r])
  let ?b = "last (?hn # map vma_node xs)"
  let ?s' = "(list_insert_after ?b (vma_node v) s)\<lparr>mm_num := (mm_num s)(kpa m := mm_num s (kpa m) + 1)\<rparr>"
  have lk: "get_next ?s' = get_next (list_insert_after ?b (vma_node v) s)"
    "get_prev ?s' = get_prev (list_insert_after ?b (vma_node v) s)"
    by (rule vmm_links)+
  have "ring ?s' ?hn (map vma_node xs @ vma_node v # map vma_node ys)"
    unfolding ring_links [OF lk] by (rule kl.rep_ins_after [OF r fr'])
  then have "vma_list ?s' m (xs @ v # ys)" unfolding vma_list_def by (simp only: map_append list.map)
  moreover have "insert_vma m v a s = Some ?s'"
  proof (cases "xs = []")
    case True
    then have "ys = []" using at by simp
    then show ?thesis using rf True by (simp add: insert_vma_def Let_def)
  next
    case False
    then have b: "?b \<noteq> ?hn" using nh last_in_set [of "map vma_node xs"] by auto
    obtain y ys' where "ys = y # ys'" using at False by (cases ys) auto
    then have "get_next s ?b \<noteq> ?hn" using rf(2) nh by auto
    then show ?thesis using rf(1) b unfolding insert_vma_def Let_def by (simp del: last.simps)
  qed
  ultimately show ?thesis by auto
qed

text \<open>
  A new area that starts at or above all others is never linked in: the state does not
  change at all, although \<open>create_vma\<close> returns the area as if it were part of the address space.
\<close>

theorem insert_vma_last_is_lost:
  assumes l: "vma_list s m vs" and ne: "vs \<noteq> []" and le: "\<forall>x \<in> set vs. vma_start s (kpa x) \<le> a"
  shows "insert_vma m v a s = Some s"
proof -
  let ?P = "\<lambda>w. a < vma_start s (kpa w)" and ?hn = "mm_node m"
  have tw: "takeWhile (\<lambda>w. \<not> ?P w) vs = vs" "dropWhile (\<lambda>w. \<not> ?P w) vs = []"
    using le by (simp_all add: not_less)
  note rf = ring_find_vmas [OF l, of ?P, unfolded tw]
  have "last (?hn # map vma_node vs) \<noteq> ?hn"
    using kl.head_fresh [OF l [unfolded vma_list_def]] last_in_set [of "map vma_node vs"] ne by auto
  then show ?thesis using rf unfolding insert_vma_def Let_def by (simp del: last.simps)
qed

text \<open>
  A new area that starts below all others is linked in twice: its successor is itself. Every later search
  for an address that is neither in it nor in the cached area never ends.
\<close>

theorem insert_vma_first_breaks_list:
  assumes l: "vma_list s m (y # ys)" and gt: "a < vma_start s (kpa y)"
    and fr: "kpa (vma_node v) \<notin> kpa ` set (mm_node m # map vma_node (y # ys))"
  shows "\<exists>s'. insert_vma m v a s = Some s' \<and> get_next s' (vma_node v) = vma_node v \<and>
    (\<forall>addr. \<not> vma_has s' addr v \<and> mm_cache s' (kpa m) = NULL \<longrightarrow> find_vma m addr s' = None)"
proof -
  let ?hn = "mm_node m" and ?n = "vma_node v"
  let ?s1 = "(list_insert_after ?hn ?n s)\<lparr>mm_num := (mm_num s)(kpa m := mm_num s (kpa m) + 1)\<rparr>"
  let ?s' = "(list_insert_after ?hn ?n ?s1)\<lparr>mm_num := (mm_num ?s1)(kpa m := mm_num ?s1 (kpa m) + 1)\<rparr>"
  have r: "ring s ?hn (vma_node y # map vma_node ys)" using l by (simp add: vma_list_def)
  have nx: "get_next s ?hn = vma_node y" "vma_node y \<noteq> ?hn" using kl.next_head [OF r] kl.head_fresh [OF r] by auto
  have "ring_find (\<lambda>n. a < vma_start s (kpa (node_vma n))) ?hn ?hn s = Some ?hn"
    using ring_find_vmas(1) [OF l, of "\<lambda>w. a < vma_start s (kpa w)"] gt by simp
  then have ins: "insert_vma m v a s = Some ?s'" using nx by (simp add: insert_vma_def Let_def)
  have ne: "kpa ?n \<noteq> kpa ?hn" "kpa ?n \<noteq> kpa (vma_node y)" using fr by auto
  have nn: "?n \<noteq> ?hn" using ne(1) by metis
  have n1: "get_next ?s1 p = (if kpa p = kpa ?hn then ?n else if kpa p = kpa ?n then vma_node y else get_next s p)" for p
    using list_insert_after_links(1) [of ?n ?hn s p] ne nx(1) by (simp add: get_next_def)
  have loop: "get_next ?s' ?n = ?n" "get_next ?s' ?hn = ?n"
    using n1 ne by (simp_all add: list_insert_after_def Let_def get_next_def set_next_def set_prev_def)
  obtain s' where s': "s' = ?s'" by blast
  have "find_vma m addr s' = None" if "\<not> vma_has s' addr v" "mm_cache s' (kpa m) = NULL" for addr
  proof -
    have lp: "get_next s' ?n = ?n" "get_next s' ?hn = ?n" using loop unfolding s' .
    have "ring_find (\<lambda>n. vma_has s' addr (node_vma n)) ?hn ?n s' = None"
      by (rule ring_find_self_loop [OF lp(1) nn]) (simp add: that(1))
    then have "ring_find (\<lambda>n. vma_has s' addr (node_vma n)) ?hn ?hn s' = None"
      using lp(2) nn that(1) by (subst ring_find.simps) simp
    then show ?thesis using that(2) by (simp add: find_vma_def Let_def)
  qed
  then show ?thesis using ins loop(1) unfolding s' by blast
qed

end
