(* ===== verification/Paging.thy ===== *)
theory Paging
  imports Vmm
begin

text \<open>
  What demand paging guarantees: a page that is swapped out can be found on the disk through its page table
  entry, a page that is swapped in has the contents of its slot, and a first access maps a
  fresh page. The operations are those of the theories \<open>PageAlloc\<close>, \<open>PageTable\<close> and \<open>Vmm\<close>.
\<close>

section \<open>Swapping out\<close>

lemma swap_write_modifies: "\<exists>d. swap_write src sect s = s\<lparr>disk := d\<rparr>"
proof -
  have "\<exists>d. writesect_loop n drv lba src s = s\<lparr>disk := d\<rparr>" for n drv lba src and s :: "'a machine_scheme"
  proof (induction n arbitrary: lba src s)
    case 0
    show ?case by (rule exI [of _ "disk s"]) simp
  next
    case (Suc n)
    obtain d where "writesect_loop n drv (lba + 1) (src + SECTSIZE) (outsl_sector drv lba src s) =
        (outsl_sector drv lba src s)\<lparr>disk := d\<rparr>" using Suc by blast
    then show ?case by (auto simp: outsl_sector_def)
  qed
  then show ?thesis by (simp add: swap_write_def writesect_def Let_def)
qed

lemma swap_read_modifies: "\<exists>m. swap_read dst pte s = s\<lparr>pmem := m\<rparr>"
proof -
  have "\<exists>m. readsect_loop n drv lba dst s = s\<lparr>pmem := m\<rparr>" for n drv lba dst and s :: "'a machine_scheme"
  proof (induction n arbitrary: lba dst s)
    case 0
    show ?case by (rule exI [of _ "pmem s"]) simp
  next
    case (Suc n)
    obtain m where "readsect_loop n drv (lba + 1) (dst + SECTSIZE) (insl_sector drv lba dst s) =
        (insl_sector drv lba dst s)\<lparr>pmem := m\<rparr>" using Suc by blast
    then show ?case by (auto simp: insl_sector_def)
  qed
  then show ?thesis by (simp add: swap_read_def readsect_def Let_def)
qed

lemma find_pte_walk: "walk_slot s dir la = Some a \<Longrightarrow> kpa (find_pte dir la s) = a"
  by (auto simp: walk_slot_def find_pte_def Let_def split: if_splits)

lemma swap_out_page_effect:
  assumes w: "walk_slot s (mm_pde s (kpa m)) va = Some a" and va: "va = pg_va s (kpa pg)"
    and fa: "fa = pg_to_addr_la s pg" "VERTUAL_MEM \<le> fa" "unat fa + 4096 < 4294967296"
  shows "\<exists>d. swap_out_page m pg s = s\<lparr>disk := d, pmem := (pmem s)(a := swap_entry va)\<rparr> \<and>
    slot_holds (swap_out_page m pg s) va (\<lambda>j. pmem s (kpa fa + 4 * j)) \<and>
    (\<forall>va' f. va' div PAGE_SIZE \<noteq> va div PAGE_SIZE \<and> slot_holds s va' f \<longrightarrow> slot_holds (swap_out_page m pg s) va' f)"
proof -
  let ?s1 = "swap_write fa (swap_sector va) s" and ?pte = "find_pte (mm_pde s (kpa m)) va s"
  have e: "swap_out_page m pg s = st ?pte (swap_entry va) ?s1"
    by (simp add: swap_out_page_def Let_def va fa(1))
  obtain d where d: "?s1 = s\<lparr>disk := d\<rparr>" using swap_write_modifies by blast
  have sl: "slot_holds (swap_out_page m pg s) va' f = slot_holds ?s1 va' f" for va' f
    unfolding e by (simp add: slot_holds_def st_def)
  have "swap_out_page m pg s = s\<lparr>disk := d, pmem := (pmem s)(a := swap_entry va)\<rparr>"
    unfolding e d st_def find_pte_walk [OF w] by simp
  then show ?thesis
    using swap_write_slot [OF fa(2,3)] swap_write_other_slot [OF fa(2,3)] unfolding sl by blast
qed

text \<open>Unlinking a node from one list and linking it into another leaves all further lists alone.\<close>

lemma move_node_frame:
  assumes q: "ring s1 hq (n # ns)" and o: "other_rings (list_delete n s1) s3 (n # hf # ms)" and r: "ring s1 hn' ms'"
    and dj: "kpa ` set (hq # n # ns @ hf # ms) \<inter> kpa ` set (hn' # ms') = {}"
  shows "ring s3 hn' ms'"
proof -
  have "kpa ` set (hq # n # ns) \<inter> kpa ` set (hn' # ms') = {}" "kpa ` set (n # hf # ms) \<inter> kpa ` set (hn' # ms') = {}"
    using dj unfolding disjoint_iff by (simp_all only: list.set set_append image_insert image_Un Un_iff insert_iff) blast+
  then show ?thesis using kl.frame_del [OF q _ r, of n] o unfolding other_rings_def by fastforce
qed

lemma swap_out_one:
  assumes fifo: "ring s (mm_vm_fifo m) (page_node pg # ns)"
    and w: "walk_slot s (mm_pde s (kpa m)) va = Some a" and va: "va = pg_va s (kpa pg)"
    and fa: "fa = pg_to_addr_la s pg" "VERTUAL_MEM \<le> fa" "unat fa + 4096 < 4294967296"
    and rf: "ring s (free_pages_head s) (map page_node (ps @ [t]))" and t: "t \<noteq> NULL" and above: "\<forall>q \<in> set (ps @ [t]). \<not> pg < q"
    and dj: "kpa ` set (free_pages_head s # map page_node (ps @ [t])) \<inter> kpa ` set (mm_vm_fifo m # page_node pg # ns) = {}"
  shows "\<exists>s' x y d c e f. swap_out m 1 s = Some s' \<and> slot_holds s' va (\<lambda>j. pmem s (kpa fa + 4 * j)) \<and>
    (\<forall>va' f. va' div PAGE_SIZE \<noteq> va div PAGE_SIZE \<and> slot_holds s va' f \<longrightarrow> slot_holds s' va' f) \<and>
    ring s' (mm_vm_fifo m) ns \<and> ring s' (free_pages_head s) (map page_node (ps @ [pg, t])) \<and>
    other_rings s s' (mm_vm_fifo m # page_node pg # ns @ free_pages_head s # map page_node (ps @ [t])) \<and>
    free_page_num s' = free_page_num s + 1 \<and>
    (\<forall>x. x \<noteq> kpa pg \<and> x \<noteq> kpa t \<and> (ps \<noteq> [] \<longrightarrow> x \<noteq> kpa (last ps)) \<and> (ps = [] \<longrightarrow> x \<noteq> kpa (node_page (free_pages_head s))) \<longrightarrow>
       pg_free_pages s' x = pg_free_pages s x) \<and>
    s' = s\<lparr>ln_prev := x, ln_next := y, disk := d, pmem := (pmem s)(a := swap_entry va), pg_flags := c, pg_free_pages := e, free_page_num := f\<rparr>"
proof -
  let ?q = "mm_vm_fifo m" and ?s1 = "swap_out_page m pg s" and ?hn = "free_pages_head s"
  obtain d where s1: "?s1 = s\<lparr>disk := d, pmem := (pmem s)(a := swap_entry va)\<rparr>"
    and slot: "slot_holds ?s1 va (\<lambda>j. pmem s (kpa fa + 4 * j))"
      "\<forall>va' f. va' div PAGE_SIZE \<noteq> va div PAGE_SIZE \<and> slot_holds s va' f \<longrightarrow> slot_holds ?s1 va' f"
    using swap_out_page_effect [OF w va fa] by blast
  let ?s2 = "list_delete (page_node pg) ?s1"
  have lk: "get_next ?s1 = get_next s" "get_prev ?s1 = get_prev s"
    by (simp_all add: s1 fun_eq_iff get_next_def get_prev_def)
  have nx: "get_next ?s1 ?q = page_node pg" "page_node pg \<noteq> ?q"
    using kl.next_head [OF fifo] kl.head_fresh [OF fifo] lk by auto
  have q1: "ring ?s1 ?q (page_node pg # ns)" using fifo unfolding ring_links [OF lk] .
  have q2: "ring ?s2 ?q ns" using kl.rep_del [of ?s1 ?q "[]"] q1 by simp
  have rf1: "ring ?s1 ?hn (map page_node (ps @ [t]))" using rf unfolding ring_links [OF lk] .
  have rf2: "ring ?s2 ?hn (map page_node (ps @ [t]))"
    by (rule kl.frame_del [OF q1 _ rf1]) (simp, subst Int_commute, rule dj)
  have hd2: "free_pages_head ?s2 = ?hn" by (simp add: s1)
  have fr: "kpa (page_node pg) \<notin> kpa ` set (free_pages_head ?s2 # map page_node (ps @ [t]))"
    using dj unfolding hd2 by auto
  have rf2': "ring ?s2 (free_pages_head ?s2) (map page_node (ps @ [t]))" using rf2 unfolding hd2 .
  from free_page_above_ring [OF rf2' t above fr] obtain s3 x y c e f where fp: "free_page pg 1 ?s2 = Some s3"
    and r3: "ring s3 ?hn (map page_node (ps @ [pg, t]))"
    and o3: "other_rings ?s2 s3 (page_node pg # ?hn # map page_node (ps @ [t]))"
    and n3: "free_page_num s3 = free_page_num ?s2 + 1"
    and k3: "\<forall>x. x \<noteq> kpa pg \<and> x \<noteq> kpa t \<and> (ps \<noteq> [] \<longrightarrow> x \<noteq> kpa (last ps)) \<and> (ps = [] \<longrightarrow> x \<noteq> kpa (node_page ?hn)) \<longrightarrow>
       pg_free_pages s3 x = pg_free_pages ?s2 x"
    and s3: "s3 = ?s2\<lparr>ln_prev := x, ln_next := y, pg_flags := c, pg_free_pages := e, free_page_num := f\<rparr>"
    unfolding hd2 by blast
  have "kpa (page_node pg) \<notin> kpa ` set (?q # ns)" using kl.rep_distinct [OF fifo] by auto
  moreover have "kpa ` set (?hn # map page_node (ps @ [t])) \<inter> kpa ` set (?q # ns) = {}"
    by (rule disjoint_iff [THEN iffD2]) (use dj in \<open>simp only: disjoint_iff list.set image_insert, blast\<close>)
  ultimately have "kpa ` set (page_node pg # ?hn # map page_node (ps @ [t])) \<inter> kpa ` set (?q # ns) = {}"
    by (simp only: list.set(2) image_insert Int_insert_left if_False)
  then have q3: "ring s3 ?q ns" using o3 q2 unfolding other_rings_def by blast
  have o: "other_rings s s3 (?q # page_node pg # ns @ ?hn # map page_node (ps @ [t]))" (is "other_rings _ _ ?cells")
    unfolding other_rings_def using move_node_frame [OF q1 o3] ring_links [OF lk] by blast
  have out: "swap_out m 1 s = Some s3"
    using nx fp kl.next_head [OF fifo] by (simp add: swap_out_def Let_def)
  have sl: "slot_holds s3 va' f = slot_holds ?s1 va' f" for va' f by (simp add: slot_holds_def s3)
  obtain x' y' where "?s2 = ?s1\<lparr>ln_prev := x', ln_next := y'\<rparr>" using list_delete_modifies by blast
  then have s3': "s3 = s\<lparr>ln_prev := x, ln_next := y, disk := d, pmem := (pmem s)(a := swap_entry va), pg_flags := c, pg_free_pages := e, free_page_num := f\<rparr>"
    unfolding s3 by (simp add: s1)
  have "pg_free_pages ?s2 = pg_free_pages s" "free_page_num ?s2 = free_page_num s" by (simp_all add: s1)
  note k = k3 [unfolded this] n3 [unfolded this]
  show ?thesis
    by (intro exI conjI, rule out, unfold sl, (rule slot q3 r3 o k s3')+)
qed

text \<open>
  C31. \<open>swap_out\<close> of one page evicts the oldest page of the FIFO: its contents are in the swap slot of its virtual
  address, its page table entry is the marker from which \<open>swap_read\<close> finds that slot, the page is
  back in the free list, and the rest of the FIFO is unchanged.
\<close>

theorem swap_out_evicts_oldest:
  assumes fifo: "ring s (mm_vm_fifo m) (page_node pg # ns)" and hi: "VERTUAL_MEM \<le> pg"
    and w: "walk_slot s (mm_pde s (kpa m)) va = Some a" and va: "va = pg_va s (kpa pg)"
    and fa: "fa = pg_to_addr_la s pg" "VERTUAL_MEM \<le> fa" "unat fa + 4096 < 4294967296"
    and fl: "free_list s (ps @ [t])" and t: "t \<noteq> NULL"
    and dj: "kpa ` set (free_pages_head s # map page_node (ps @ [t])) \<inter> kpa ` set (mm_vm_fifo m # page_node pg # ns) = {}"
  shows "\<exists>s'. swap_out m 1 s = Some s' \<and> slot_holds s' va (\<lambda>j. pmem s (kpa fa + 4 * j)) \<and>
    pmem s' = (pmem s)(a := swap_entry va) \<and> ring s' (mm_vm_fifo m) ns \<and>
    ring s' (free_pages_head s) (map page_node (ps @ [pg, t]))"
proof -
  have above: "\<forall>q \<in> set (ps @ [t]). \<not> pg < q"
  proof
    fix x
    assume "x \<in> set (ps @ [t])"
    then have "x < 0x3FFFFF00" using fl by (auto simp: free_list_def low_page_def)
    then show "\<not> pg < x" using hi by (auto simp: word_less_nat_alt word_le_nat_alt)
  qed
  have "ring s (free_pages_head s) (map page_node (ps @ [t]))" using fl by (simp only: free_list_def)
  from swap_out_one [OF fifo w va fa this t above dj] obtain s' x y d c e f where
    "swap_out m 1 s = Some s'" "slot_holds s' va (\<lambda>j. pmem s (kpa fa + 4 * j))" "ring s' (mm_vm_fifo m) ns"
    "ring s' (free_pages_head s) (map page_node (ps @ [pg, t]))"
    "s' = s\<lparr>ln_prev := x, ln_next := y, disk := d, pmem := (pmem s)(a := swap_entry va), pg_flags := c, pg_free_pages := e, free_page_num := f\<rparr>"
    by (elim exE conjE)
  then show ?thesis by (intro exI [of _ s']) simp
qed

section \<open>The marker in the page table entry\<close>

lemma unat_swap_entry: "unat (swap_entry va) = 256 * (unat va div 4096 + 1)"
proof -
  have "unat va div 4096 < 1048576" using unat_lt_2_32 [of va] by simp
  then show ?thesis
    unfolding swap_entry_def push_bit_eq_mult unat_word_ariths(2) unat_slot by simp
qed

lemma ent_sign_mod: "unat (ent_sign w) = unat w mod 512"
proof -
  have "(0x1FF :: u32) = mask 9" by (simp add: mask_eq_exp_minus_1)
  then have "ent_sign w = take_bit 9 w" by (simp only: ent_sign_def take_bit_eq_mask)
  then show ?thesis by (simp add: take_bit_eq_mod unat_mod)
qed

lemma ent_addr_div: "unat (ent_addr w) = unat w div 4096"
  by (simp add: ent_addr_def drop_bit_eq_div unat_div)

lemma swap_entry_absent: "ent_sign (swap_entry va) AND 1 = 0"
proof -
  have "unat (ent_sign (swap_entry va)) = 256 * ((unat va div 4096 + 1) mod 2)"
    unfolding ent_sign_mod unat_swap_entry using mult_mod_right [of 256 "unat va div 4096 + 1" 2] by simp
  then have "unat (ent_sign (swap_entry va)) mod 2 = 0" by simp
  then have "unat (ent_sign (swap_entry va) AND 1) = 0" by (simp add: and_one_eq unat_mod)
  then show ?thesis by (simp add: unat_eq_zero)
qed

text \<open>
  The test \<open>page_addr == 0 && sign == 0\<close> of \<open>do_swap\<close> is meant to recognise an entry that was never
  used. It also holds for the markers of seven pages that are on the disk, those of
  the virtual pages 1, 3, 5, 7, 9, 11 and 13, whose contents are then replaced by a fresh page; the one added to the page
  number only protects page 0.
\<close>

theorem swap_marker_ambiguous:
  "ent_addr (swap_entry va) = 0 \<and> ent_sign (swap_entry va) = 0 \<longleftrightarrow> unat va div 4096 \<in> {1, 3, 5, 7, 9, 11, 13}"
proof -
  let ?k = "unat va div 4096"
  have "ent_addr (swap_entry va) = 0 \<longleftrightarrow> ?k + 1 < 16"
    using ent_addr_div [of "swap_entry va"] by (auto simp: unat_swap_entry unat_eq_zero [symmetric])
  moreover have "unat (ent_sign (swap_entry va)) = 256 * ((?k + 1) mod 2)"
    unfolding ent_sign_mod unat_swap_entry using mult_mod_right [of 256 "?k + 1" 2] by simp
  then have "ent_sign (swap_entry va) = 0 \<longleftrightarrow> odd ?k"
    by (auto simp: unat_eq_zero [symmetric] mod2_eq_if)
  moreover have "?k + 1 < 16 \<and> odd ?k \<longleftrightarrow> ?k \<in> {1, 3, 5, 7, 9, 11, 13}"
  proof -
    have "k + 1 < 16 \<and> odd k \<longleftrightarrow> k \<in> {1, 3, 5, 7, 9, 11, 13}" for k :: nat
      by simp presburger
    then show ?thesis .
  qed
  ultimately show ?thesis by blast
qed

section \<open>Swapping in\<close>

text \<open>
  \<open>frame_apart s dir a frame\<close>: the page frame overlaps neither the directory nor the page table entry at \<open>a\<close>.
\<close>

definition frame_apart :: "u32 \<Rightarrow> u32 \<Rightarrow> u32 \<Rightarrow> bool" where
  "frame_apart dir a frame \<longleftrightarrow> PAGE_SIZE \<le> a - frame \<and> outside_dir dir a \<and>
     (\<forall>la. PAGE_SIZE \<le> kpa (pde_slot dir la) - frame)"

lemma frame_mapped:
  assumes "frame = push_bit 12 fn" and "fn < 0x40000"
  shows "push_bit 12 (drop_bit 12 frame) = frame" and "kpa (frame + VERTUAL_MEM) = frame"
    and "VERTUAL_MEM \<le> frame + VERTUAL_MEM" and "unat (frame + VERTUAL_MEM) + 4096 \<le> 4294967296"
proof -
  have u: "unat frame = unat fn * 4096" "unat fn < 262144"
    using assms by (simp_all add: push_bit_eq_mult unat_word_ariths word_less_nat_alt)
  show "push_bit 12 (drop_bit 12 frame) = frame" using frame_number(2) [OF assms(2)] assms(1) by simp
  show "kpa (frame + VERTUAL_MEM) = frame" using frame_number(1) [OF assms(2)] assms(1) by (intro kpa_add_VERTUAL_MEM) simp
  have "unat (frame + VERTUAL_MEM) = unat frame + 3221225472" using u by (simp add: unat_word_ariths)
  then show "VERTUAL_MEM \<le> frame + VERTUAL_MEM" "unat (frame + VERTUAL_MEM) + 4096 \<le> 4294967296"
    using u by (simp_all add: word_le_nat_alt)
qed

lemma alloc_one:
  assumes bl: "block_list s ((p, k) # bs)" and k: "1 < k" and nv: "no_victim s 1 (block_pages ((p, k) # bs))"
    and p: "p = page_plus (pages s) j" and frame: "frame = j * PAGE_SIZE + pt_begin s"
  shows "\<exists>s1 a b c d e. alloc_page 1 s = Some (p + VERTUAL_MEM, s1) \<and>
    block_list s1 ((page_plus p 1, k - 1) # bs) \<and>
    other_rings s s1 (free_pages_head s # map page_node (block_pages ((p, k) # bs))) \<and>
    s1 = s\<lparr>ln_prev := a, ln_next := b, free_page_num := c, pg_free_pages := d, pg_flags := e\<rparr> \<and>
    pg_to_addr_la s1 (p + VERTUAL_MEM) = frame + VERTUAL_MEM \<and> pg_to_addr_pa s1 (p + VERTUAL_MEM) = frame"
proof -
  obtain s1 a b where al: "alloc_page 1 s = Some (p + VERTUAL_MEM, s1)"
    and bl1: "block_list s1 ((page_plus p 1, k - 1) # bs)"
    and oth: "other_rings s s1 (free_pages_head s # map page_node (block_pages ((p, k) # bs)))"
    and s1: "s1 = s\<lparr>ln_prev := a, ln_next := b, free_page_num := free_page_num s - 1,
      pg_free_pages := (pg_free_pages s)(page_plus p 1 := of_nat (k - unat (1 :: u32))),
      pg_flags := (pg_flags s)(page_plus p 1 := 1)\<rparr>"
    using alloc_page_block [OF bl _ _ nv] k by auto
  moreover have "pg_to_addr_la s1 (p + VERTUAL_MEM) = frame + VERTUAL_MEM" "pg_to_addr_pa s1 (p + VERTUAL_MEM) = frame"
    using pg_to_addr(2,4) [of s j] frame p by (simp_all add: pg_to_addr_la_def pg_to_addr_pa_def s1)
  ultimately show ?thesis by blast
qed

lemma high_page:
  assumes bl: "block_list s ((p, k) # bs)"
  shows "kpa (p + VERTUAL_MEM) = p" and "kpa (page_node (p + VERTUAL_MEM)) = page_node p"
    and "kpa (page_node p) = page_node p" and "p + VERTUAL_MEM \<noteq> NULL" and "p \<in> set (block_pages ((p, k) # bs))"
proof -
  have k: "0 < k" using block_list_kpa(2) [OF bl, of p k] by simp
  then show in_: "p \<in> set (block_pages ((p, k) # bs))" by (simp add: page_run_Cons)
  then have lp: "low_page p" using bl by (auto simp: block_list_def free_list_def)
  then have u: "unat p < 0x3FFFFF00" by (simp add: low_page_def word_less_nat_alt)
  then show "kpa (p + VERTUAL_MEM) = p" by (intro kpa_add_VERTUAL_MEM) (simp add: word_less_nat_alt)
  have "page_node p < 0x40000000" using u by (simp add: page_node_def word_less_nat_alt unat_word_ariths)
  from kpa_add_VERTUAL_MEM [OF this] show "kpa (page_node (p + VERTUAL_MEM)) = page_node p"
    by (simp add: page_node_def algebra_simps)
  show "kpa (page_node p) = page_node p" by (rule kpa_page_node [OF lp])
  have "unat (p + VERTUAL_MEM) \<noteq> 0" using u by (simp add: unat_word_ariths)
  then show "p + VERTUAL_MEM \<noteq> NULL" by (metis unat_0)
qed

text \<open>The newly mapped page joins the end of the FIFO.\<close>

lemma fifo_enqueue:
  assumes bl: "block_list s ((p, k) # bs)" and q: "ring s hq ns"
    and dj: "kpa ` set (free_pages_head s # map page_node (block_pages ((p, k) # bs))) \<inter> kpa ` set (hq # ns) = {}"
    and oth: "other_rings s s1 (free_pages_head s # map page_node (block_pages ((p, k) # bs)))"
    and lk: "get_next s2 = get_next s1" "get_prev s2 = get_prev s1"
  shows "ring (list_insert_before hq (page_node (p + VERTUAL_MEM)) s2) hq (ns @ [page_node (p + VERTUAL_MEM)])"
proof (rule kl.enqueue)
  have "ring s1 hq ns" using oth q dj unfolding other_rings_def by blast
  then show "ring s2 hq ns" unfolding ring_links [OF lk] .
  have "page_node p \<in> kpa ` set (free_pages_head s # map page_node (block_pages ((p, k) # bs)))"
    using high_page(3,5) [OF bl] by (intro image_eqI [of _ _ "page_node p"]) auto
  then show "kpa (page_node (p + VERTUAL_MEM)) \<notin> kpa ` set (hq # ns)"
    using dj unfolding high_page(2) [OF bl] by (metis disjoint_iff)
qed

text \<open>
  \<open>swap_in\<close> of an address whose entry is the marker of its slot: a page comes from the allocator, afterwards
  the address translates to that page's frame, the frame holds the words of the slot, and the page is
  the youngest of the FIFO. (Provided that the allocation swaps no page out.)
\<close>

theorem swap_in_restores:
  assumes w: "walk_slot s dir va = Some a" and mark: "pmem s a = swap_entry va" and slot: "slot_holds s va f"
    and dir: "dir = mm_pde s (kpa m)"
    and bl: "block_list s ((p, k) # bs)" and k: "1 < k" and nv: "no_victim s 1 (block_pages ((p, k) # bs))"
    and p: "p = page_plus (pages s) j"
    and fr: "frame = j * PAGE_SIZE + pt_begin s" "frame = push_bit 12 fn" "fn < 0x3FFFF" and ap: "frame_apart dir a frame"
    and q: "ring s (mm_vm_fifo m) ns"
    and dj: "kpa ` set (free_pages_head s # map page_node (block_pages ((p, k) # bs))) \<inter> kpa ` set (mm_vm_fifo m # ns) = {}"
  shows "\<exists>s'. swap_in m va flags s = Some s' \<and> mmu s' dir va = Some (frame OR (va AND 0xFFF)) \<and>
    (\<forall>x < PAGE_SIZE. pmem s' (frame + x) = f (x div 4)) \<and>
    ring s' (mm_vm_fifo m) (ns @ [page_node (p + VERTUAL_MEM)])"
proof -
  let ?pg = "p + VERTUAL_MEM"
  have fn: "fn < 0x40000" using fr(3) by (rule less_trans) simp
  note FM = frame_mapped [OF fr(2) fn]
  have lt: "unat (frame + VERTUAL_MEM) + 4096 < 4294967296"
  proof -
    have u: "unat fn < 262143" using fr(3) by (simp add: word_less_nat_alt)
    then have "unat frame = unat fn * 4096" using fr(2) by (simp add: push_bit_eq_mult unat_word_ariths)
    then show ?thesis using u by (simp add: unat_word_ariths)
  qed
  obtain s1 x y c d e where al: "alloc_page 1 s = Some (?pg, s1)"
    and oth: "other_rings s s1 (free_pages_head s # map page_node (block_pages ((p, k) # bs)))"
    and s1: "s1 = s\<lparr>ln_prev := x, ln_next := y, free_page_num := c, pg_free_pages := d, pg_flags := e\<rparr>"
    and la: "pg_to_addr_la s1 ?pg = frame + VERTUAL_MEM" and pa: "pg_to_addr_pa s1 ?pg = frame"
    using alloc_one [OF bl k nv p fr(1)] by blast
  obtain pte where pte: "get_pte dir va 0 s = Some (pte, s)" "kpa pte = a" using get_pte_present [OF w] by blast
  let ?s2 = "swap_read (frame + VERTUAL_MEM) pte s1"
  obtain mem where m2: "?s2 = s1\<lparr>pmem := mem\<rparr>" using swap_read_modifies by blast
  have "slot_holds s1 va f" "ld s1 pte = swap_entry va"
    using slot mark pte(2) by (simp_all add: slot_holds_def ld_def s1)
  then have p2: "pmem ?s2 b = (if b - frame < PAGE_SIZE then f ((b - frame) div 4) else pmem s b)" for b
    using swap_read_slot [of s1 va f pte "frame + VERTUAL_MEM" b] FM lt by (simp add: s1)
  have na: "\<not> a - frame < PAGE_SIZE" using ap by (simp add: frame_apart_def not_less)
  have a2: "pmem ?s2 a = swap_entry va" using na p2 mark by simp
  have nd: "\<not> kpa (pde_slot dir l) - frame < PAGE_SIZE" for l using ap by (simp add: frame_apart_def not_less)
  have w2: "walk_slot ?s2 dir l = walk_slot s dir l" for l
    by (simp add: walk_slot_def ld_def p2 nd)
  have pa2: "pg_to_addr_pa ?s2 ?pg = frame" using pa by (simp add: m2 pg_to_addr_pa_def)
  let ?z = "kpa (pa_addr_to_pg ?s2 frame)"
  let ?s3 = "?s2\<lparr>pg_ref := (pg_ref ?s2)(?z := pg_ref ?s2 ?z + 1), pmem := (pmem ?s2)(a := mapped_entry frame 7 (pmem ?s2 a))\<rparr>"
  have mp: "pg_map dir va frame 7 ?s2 = Some ?s3"
    by (rule pg_map_empty [OF _ _ refl]) (simp_all add: w2 w a2 swap_entry_absent)
  let ?s' = "list_insert_before (mm_vm_fifo m) (page_node ?pg) (set_va ?pg va ?s3)"
  have "mm_pde ?s2 = mm_pde s" unfolding m2 by (simp add: s1)
  then have "mm_pde ?s2 (kpa m) = dir" "mm_pde s (kpa m) = dir" using dir by simp_all
  then have si: "swap_in m va flags s = Some ?s'"
    unfolding swap_in_def using pte(1) al la mp pa2 by (simp add: Let_def)
  have pm: "pmem ?s' = (pmem ?s2)(a := mapped_entry frame 7 (pmem ?s2 a))" by (simp add: set_va_def)
  have od: "outside_dir dir a" using ap by (simp add: frame_apart_def)
  have "ent_sign (mapped_entry frame 7 (pmem ?s2 a)) AND 1 \<noteq> 0" by (rule mapped_entry_present) simp
  then have "mmu ?s' dir va = Some (frame OR (va AND 0xFFF))"
    using mmu_upd [OF od pm, of va] w2 [of va] w FM(1) by (simp add: mapped_entry_addr)
  moreover have "pmem ?s' (frame + x) = f (x div 4)" if "x < PAGE_SIZE" for x
  proof -
    have "frame + x \<noteq> a" using na that by auto
    then have "pmem ?s' (frame + x) = pmem ?s2 (frame + x)" unfolding pm by (simp only: fun_upd_apply if_False)
    then show ?thesis using that unfolding p2 by simp
  qed
  moreover have "ring ?s' (mm_vm_fifo m) (ns @ [page_node ?pg])"
    by (rule fifo_enqueue [OF bl q dj oth])
       (simp_all add: fun_eq_iff get_next_def get_prev_def set_va_def m2)
  ultimately show ?thesis using si by blast
qed

section \<open>First access\<close>

text \<open>
  A page fault at an address that was never used, in an area that allows the access: a fresh page is
  mapped at the page of the address and joins the FIFO as its youngest page, with the address recorded for a later
  \<open>swap_out\<close>. The entry always has the sign bits 5, user and present but not writable, even where
  the area is writable, because \<open>(flags & 0x2) == 1\<close> never holds.
\<close>

theorem do_swap_first_access:
  assumes fv: "find_vma (mm s) va s = Some (v, s)" "v \<noteq> NULL" and va: "va = ROUNDDOWN cr2"
    and ok: "if wr = 0 then vma_flags s (kpa v) AND 5 \<noteq> 0 else vma_flags s (kpa v) AND 2 \<noteq> 0"
    and dir: "dir = mm_pde s (kpa (mm s))" and w: "walk_slot s dir va = Some a" and unused: "pmem s a = 0"
    and bl: "block_list s ((p, k) # bs)" and k: "1 < k" and nv: "no_victim s 1 (block_pages ((p, k) # bs))"
    and p: "p = page_plus (pages s) j"
    and fr: "frame = j * PAGE_SIZE + pt_begin s" "frame = push_bit 12 fn" "fn < 0x40000" and od: "outside_dir dir a"
    and q: "ring s (mm_vm_fifo (mm s)) ns"
    and dj: "kpa ` set (free_pages_head s # map page_node (block_pages ((p, k) # bs))) \<inter> kpa ` set (mm_vm_fifo (mm s) # ns) = {}"
  shows "\<exists>s'. do_swap cr2 wr s = Some (Inr s') \<and> mmu s' dir va = Some (frame OR (va AND 0xFFF)) \<and>
    ent_sign (pmem s' a) = 5 \<and> pg_va s' p = va \<and>
    ring s' (mm_vm_fifo (mm s)) (ns @ [page_node (p + VERTUAL_MEM)])"
proof -
  let ?pg = "p + VERTUAL_MEM"
  note FM = frame_mapped [OF fr(2,3)] and HP = high_page [OF bl]
  obtain s1 x y c d e where al: "alloc_page 1 s = Some (?pg, s1)"
    and oth: "other_rings s s1 (free_pages_head s # map page_node (block_pages ((p, k) # bs)))"
    and s1: "s1 = s\<lparr>ln_prev := x, ln_next := y, free_page_num := c, pg_free_pages := d, pg_flags := e\<rparr>"
    and pa: "pg_to_addr_pa s1 ?pg = frame"
    using alloc_one [OF bl k nv p fr(1)] by blast
  obtain pte where pte: "get_pte dir va 1 s = Some (pte, s)" "kpa pte = a" using get_pte_present [OF w] by blast
  let ?s2 = "set_va ?pg va s1"
  have p2: "pmem ?s2 = pmem s" by (simp add: set_va_def s1)
  let ?z = "kpa (pa_addr_to_pg ?s2 frame)"
  let ?s3 = "?s2\<lparr>pg_ref := (pg_ref ?s2)(?z := pg_ref ?s2 ?z + 1), pmem := (pmem ?s2)(a := mapped_entry frame 5 (pmem ?s2 a))\<rparr>"
  have mp: "pg_map dir va frame 5 ?s2 = Some ?s3"
    by (rule pg_map_empty [OF _ _ refl]) (simp_all add: walk_slot_cong [OF p2] w p2 unused ent_sign_def)
  let ?s' = "list_insert_before (mm_vm_fifo (mm s)) (page_node ?pg) ?s3"
  have "pg_to_addr_pa ?s2 ?pg = frame" "mm_pde ?s2 (kpa (mm ?s2)) = dir" "mm ?s3 = mm s"
    using pa dir by (simp_all add: pg_to_addr_pa_def set_va_def s1)
  moreover have "ent_addr (ld s pte) = 0 \<and> ent_sign (ld s pte) = 0"
    using unused pte(2) by (simp add: ld_def ent_addr_def ent_sign_def)
  ultimately have pg: "do_swap_page va 5 s = Some ?s'"
    unfolding do_swap_page_def using dir pte(1) al HP(4) mp by (simp add: Let_def)
  have n1: "f AND 2 \<noteq> (1 :: u32)" for f
  proof
    assume "f AND 2 = 1"
    from arg_cong [OF this, of "\<lambda>x. bit x 0"] show False by (simp add: bit_simps bit_masks)
  qed
  have "do_swap cr2 wr s = Some (Inr ?s')"
    unfolding do_swap_def Let_def va [symmetric] using fv ok pg n1 by (auto split: if_splits)
  moreover have pm: "pmem ?s' = (pmem s)(a := mapped_entry frame 5 0)" using p2 unused by simp
  moreover have "ent_sign (mapped_entry frame 5 0) AND 1 \<noteq> 0" by (rule mapped_entry_present) simp
  then have "mmu ?s' dir va = Some (frame OR (va AND 0xFFF))"
    using mmu_upd [OF od pm, of va] w FM(1) by (simp add: mapped_entry_addr)
  moreover have "ent_sign (pmem ?s' a) = 5" unfolding pm by (simp add: mapped_entry_def)
  moreover have "pg_va ?s' p = va" using HP(1) by (simp add: set_va_def)
  moreover have "ring ?s' (mm_vm_fifo (mm s)) (ns @ [page_node ?pg])"
    by (rule fifo_enqueue [OF bl q dj oth]) (simp_all add: fun_eq_iff get_next_def get_prev_def set_va_def)
  ultimately show ?thesis by blast
qed

text \<open>
  Faults that are refused: outside every area, and for an access the area does not
  allow, the kernel panics; a fault on a present page (bit 0 of the error code) never returns.
\<close>

theorem page_fault_refuses:
  assumes "find_vma (mm s) (ROUNDDOWN cr2) s = Some (v, s')"
  shows "(v = NULL \<longrightarrow> do_swap cr2 wr s = Some (Inl No_vma)) \<and>
    (v \<noteq> NULL \<and> wr \<noteq> 0 \<and> vma_flags s' (kpa v) AND 2 = 0 \<longrightarrow> do_swap cr2 wr s = Some (Inl Not_writable)) \<and>
    (v \<noteq> NULL \<and> wr = 0 \<and> vma_flags s' (kpa v) AND 5 = 0 \<longrightarrow> do_swap cr2 wr s = Some (Inl Not_readable)) \<and>
    (errorCode AND 1 = 1 \<longrightarrow> page_fault errorCode cr2 s = None)"
proof -
  have "errorCode AND 3 \<noteq> 0 \<and> errorCode AND 3 \<noteq> 2" if "errorCode AND 1 = 1"
  proof -
    have "bit errorCode 0" using arg_cong [OF that, of "\<lambda>x. bit x 0"] by (simp add: bit_simps)
    then have b: "bit (errorCode AND 3) 0" by (simp add: bit_simps bit_masks)
    have "\<not> bit (0 :: u32) 0" "\<not> bit (2 :: u32) 0" by (simp_all add: bit_masks)
    then show ?thesis using b by metis
  qed
  then show ?thesis using assms by (auto simp: do_swap_def page_fault_def Let_def)
qed

section \<open>Worked examples\<close>

text \<open>
  An address space at 0xC0300000 over the tables of \<open>table_example\<close>, with two areas, 0x5000 to 0x8000 and
  0x9000 to 0xA000, and one page in the FIFO.
\<close>

abbreviation ex_mm :: u32 where "ex_mm \<equiv> 0xC0300000"
abbreviation ex_v1 :: u32 where "ex_v1 \<equiv> 0xC0300100"
abbreviation ex_v2 :: u32 where "ex_v2 \<equiv> 0xC0300200"
abbreviation ex_pg :: u32 where "ex_pg \<equiv> 0xC0108090"

definition paging_fields :: machine where
  "paging_fields = table_example\<lparr>mm := ex_mm, mm_pde := (\<lambda>_. 0xC0106000), mm_cache := (\<lambda>_. 0),
     vma_start := (\<lambda>_. 0)(0x300100 := 0x5000, 0x300200 := 0x9000),
     vma_end := (\<lambda>_. 0)(0x300100 := 0x8000, 0x300200 := 0xA000),
     vma_flags := (\<lambda>_. 7), pg_va := (\<lambda>_. 0x5000), is_vmm_inited := 1\<rparr>"

definition paging_vmas :: machine where
  "paging_vmas = list_insert_before (mm_node ex_mm) (vma_node ex_v2) (list_insert_before (mm_node ex_mm) (vma_node ex_v1)
     (list_init (mm_node ex_mm) paging_fields))"

definition paging_example :: machine where
  "paging_example = list_init (mm_vm_fifo ex_mm) paging_vmas"

definition paging_fifo :: machine where
  "paging_fifo = list_insert_before (mm_vm_fifo ex_mm) (page_node ex_pg) paging_example"

lemmas ex_addrs = mm_node_def mm_vm_fifo_def vma_node_def page_node_def kpa_def

lemma ex_blocks: "block_pages [(0x108000, 3), (0x108060, 2)] = [0x108000, 0x108018, 0x108030, 0x108060] @ [0x108078]"
  by (simp add: block_pages_def page_run_def upt_rec page_plus_def)

lemma ex_runs: "page_run 0x108000 3 = [0x108000, 0x108018, 0x108030]" "page_run 0x108060 2 = [0x108060, 0x108078]"
  by (simp_all add: page_run_def upt_rec page_plus_def)

lemma ex_fields:
  "free_pages_head paging_example = 0xC0105000" "mm paging_example = ex_mm" "mm_pde paging_example = (\<lambda>_. 0xC0106000)"
  "mm_cache paging_example = (\<lambda>_. 0)" "vma_flags paging_example = (\<lambda>_. 7)" "pmem paging_example = pmem table_example"
  "vma_start paging_example = (\<lambda>_. 0)(0x300100 := 0x5000, 0x300200 := 0x9000)"
  "vma_end paging_example = (\<lambda>_. 0)(0x300100 := 0x8000, 0x300200 := 0xA000)"
  "pages paging_example = 0x108000" "pt_begin paging_example = 0x1B9000" "is_vmm_inited paging_example = 1"
proof -
  have t: "free_pages_head table_example = 0xC0105000" "pages table_example = 0x108000" "pt_begin table_example = 0x1B9000"
    by (simp_all add: table_example_def st_def)
       (simp add: free_example_def machine0_def Let_def block_pages_def page_run_def upt_rec)
  show "free_pages_head paging_example = 0xC0105000" "mm paging_example = ex_mm" "mm_pde paging_example = (\<lambda>_. 0xC0106000)"
    "mm_cache paging_example = (\<lambda>_. 0)" "vma_flags paging_example = (\<lambda>_. 7)" "pmem paging_example = pmem table_example"
    "vma_start paging_example = (\<lambda>_. 0)(0x300100 := 0x5000, 0x300200 := 0x9000)"
    "vma_end paging_example = (\<lambda>_. 0)(0x300100 := 0x8000, 0x300200 := 0xA000)"
    "pages paging_example = 0x108000" "pt_begin paging_example = 0x1B9000" "is_vmm_inited paging_example = 1"
    by (simp_all add: paging_example_def paging_vmas_def paging_fields_def t)
qed

lemma ex_vma_rings:
  "ring (list_init (mm_node ex_mm) paging_fields) (mm_node ex_mm) []"
  "ring (list_insert_before (mm_node ex_mm) (vma_node ex_v1) (list_init (mm_node ex_mm) paging_fields)) (mm_node ex_mm) [vma_node ex_v1]"
  "ring paging_vmas (mm_node ex_mm) [vma_node ex_v1, vma_node ex_v2]"
proof -
  show r0: "ring (list_init (mm_node ex_mm) paging_fields) (mm_node ex_mm) []" by (rule ring_list_init)
  from kl.enqueue [OF this, of "vma_node ex_v1"]
  show r1: "ring (list_insert_before (mm_node ex_mm) (vma_node ex_v1) (list_init (mm_node ex_mm) paging_fields)) (mm_node ex_mm) [vma_node ex_v1]"
    by (simp add: ex_addrs)
  from kl.enqueue [OF this, of "vma_node ex_v2"]
  show "ring paging_vmas (mm_node ex_mm) [vma_node ex_v1, vma_node ex_v2]"
    by (simp add: ex_addrs paging_vmas_def)
qed

lemma ex_vma_list: "vma_list paging_example ex_mm [ex_v1, ex_v2]"
proof -
  have "ring paging_example (mm_node ex_mm) [vma_node ex_v1, vma_node ex_v2]"
    unfolding paging_example_def by (subst ring_other_init) (simp add: ex_addrs, rule ex_vma_rings(3))
  then show ?thesis by (simp add: vma_list_def)
qed

lemma ex_free_ring: "ring paging_example 0xC0105000 (map page_node (block_pages [(0x108000, 3), (0x108060, 2)]))"
proof -
  let ?ns = "map page_node (block_pages [(0x108000, 3), (0x108060, 2)])"
  have "free_list table_example (block_pages [(0x108000, 3), (0x108060, 2)])" by (rule free_list_table_example)
  moreover have "free_pages_head table_example = 0xC0105000" by (simp add: table_example_def st_def)
  ultimately have "ring table_example 0xC0105000 ?ns" by (simp add: free_list_def)
  moreover have "get_next paging_fields = get_next table_example" "get_prev paging_fields = get_prev table_example"
    by (simp_all add: paging_fields_def fun_eq_iff get_next_def get_prev_def)
  ultimately have "ring paging_fields 0xC0105000 ?ns" using ring_links by blast
  then have i: "ring (list_init (mm_node ex_mm) paging_fields) 0xC0105000 ?ns"
    by (subst ring_other_init) (simp_all add: ex_runs ex_addrs)
  have "ring (list_insert_before (mm_node ex_mm) (vma_node ex_v1) (list_init (mm_node ex_mm) paging_fields)) 0xC0105000 ?ns"
    by (rule kl.frame_ins_before [OF ex_vma_rings(1) _ i]) (simp_all add: ex_runs ex_addrs)
  then have "ring paging_vmas 0xC0105000 ?ns"
    unfolding paging_vmas_def by (intro kl.frame_ins_before [OF ex_vma_rings(2)]) (simp_all add: ex_runs ex_addrs)
  then show ?thesis unfolding paging_example_def by (subst ring_other_init) (simp_all add: ex_runs ex_addrs)
qed

lemma ex_block_list: "block_list paging_example [(0x108000, 3), (0x108060, 2)]"
proof (rule block_list_frame)
  have "free_list table_example (block_pages [(0x108000, 3), (0x108060, 2)])" by (rule free_list_table_example)
  then show "free_list paging_example (block_pages [(0x108000, 3), (0x108060, 2)])"
    using ex_free_ring by (simp add: free_list_def ex_fields) (simp add: paging_example_def paging_vmas_def paging_fields_def)
  show "0 < k \<and> free_pages_of paging_example q = of_nat k" if "(q, k) \<in> set [(0x108000, 3), (0x108060, 2)]" for q k
    using that block_list_table_example
    by (auto simp: block_list_def free_pages_of_def paging_example_def paging_vmas_def paging_fields_def)
qed

lemma ex_fifo: "ring paging_example (mm_vm_fifo ex_mm) []" "ring paging_fifo (mm_vm_fifo ex_mm) [page_node ex_pg]"
proof -
  show r: "ring paging_example (mm_vm_fifo ex_mm) []" unfolding paging_example_def by (rule ring_list_init)
  show "ring paging_fifo (mm_vm_fifo ex_mm) [page_node ex_pg]"
    unfolding paging_fifo_def using kl.enqueue [OF r, of "page_node ex_pg"] by (simp add: ex_addrs)
qed

lemma ex_walk: "pmem s = pmem table_example \<Longrightarrow> walk_slot s 0xC0106000 la = walk_slot table_example 0xC0106000 la"
  by (rule walk_slot_cong)

lemma ex_no_victim: "no_victim paging_example 1 (block_pages [(0x108000, 3), (0x108060, 2)])"
  unfolding no_victim_def ex_fields using ex_fifo(1) by (simp add: ex_runs ex_addrs)

theorem find_vma_correct_witness:
  "\<exists>s'. find_vma ex_mm 0x9123 paging_example = Some (ex_v2, s')"
  using find_vma_correct [OF ex_vma_list, of "0x9123"]
  by (auto simp: ex_fields vma_has_def kpa_def)

theorem insert_vma_ordered_witness:
  "\<exists>s'. insert_vma ex_mm 0xC0300300 0x8000 paging_example = Some s' \<and>
    vma_list s' ex_mm [ex_v1, 0xC0300300, ex_v2]"
  using insert_vma_ordered [of paging_example ex_mm "[ex_v1]" "[ex_v2]" "0xC0300300" "0x8000"] ex_vma_list
  by (auto simp: ex_fields ex_addrs)

theorem insert_vma_last_is_lost_witness:
  "insert_vma ex_mm 0xC0300300 0xB000 paging_example = Some paging_example"
  using insert_vma_last_is_lost [OF ex_vma_list, of "0xB000" "0xC0300300"] by (simp add: ex_fields kpa_def)

theorem insert_vma_first_breaks_list_witness:
  "\<exists>s'. insert_vma ex_mm 0xC0300300 0x1000 paging_example = Some s' \<and>
    get_next s' (vma_node 0xC0300300) = vma_node 0xC0300300"
  using insert_vma_first_breaks_list [OF ex_vma_list, of "0x1000" "0xC0300300"] by (auto simp: ex_fields ex_addrs)

theorem swap_out_evicts_oldest_witness:
  "\<exists>s'. swap_out ex_mm 1 paging_fifo = Some s' \<and> pmem s' 0x200014 = swap_entry 0x5000 \<and>
    ring s' (mm_vm_fifo ex_mm) []"
proof -
  have f: "pmem paging_fifo = pmem table_example" "mm_pde paging_fifo = (\<lambda>_. 0xC0106000)" "pg_va paging_fifo = (\<lambda>_. 0x5000)"
    "free_pages_head paging_fifo = 0xC0105000" "pages paging_fifo = 0x108000" "pt_begin paging_fifo = 0x1B9000"
    by (simp_all add: paging_fifo_def ex_fields)
       (simp add: paging_example_def paging_vmas_def paging_fields_def)
  have la: "pg_to_addr_la paging_fifo ex_pg = 0xC01BF000" by (simp add: pg_to_addr_la_def page_diff_def f)
  have w: "walk_slot paging_fifo (mm_pde paging_fifo (kpa ex_mm)) 0x5000 = Some 0x200014"
    by (simp add: f ex_walk walk_table_example)
  have fl: "free_list paging_fifo ([0x108000, 0x108018, 0x108030, 0x108060] @ [0x108078])"
  proof -
    have bl: "free_list paging_example ([0x108000, 0x108018, 0x108030, 0x108060] @ [0x108078])"
      using ex_block_list unfolding block_list_def ex_blocks by blast
    then have "ring paging_example 0xC0105000 (map page_node ([0x108000, 0x108018, 0x108030, 0x108060] @ [0x108078]))"
      unfolding free_list_def ex_fields by blast
    from kl.frame_ins_before [OF ex_fifo(1) _ this, of "mm_vm_fifo ex_mm" "page_node ex_pg"]
    have "ring paging_fifo 0xC0105000 (map page_node ([0x108000, 0x108018, 0x108030, 0x108060] @ [0x108078]))"
      unfolding paging_fifo_def by (simp add: ex_addrs)
    then show ?thesis using bl by (simp add: free_list_def f) (simp add: paging_fifo_def)
  qed
  show ?thesis
    using swap_out_evicts_oldest [OF ex_fifo(2) _ w _ la [symmetric] _ _ fl] f by (auto simp: ex_addrs)
qed

lemma ex_apart: "frame_apart 0xC0106000 0x200018 0x1B9000"
proof -
  have "outside_dir 0xC0106000 0x200018" by (rule outside_dirI) (simp_all add: kpa_def)
  then show ?thesis using frame_unused_table_example by (simp add: frame_apart_def frame_unused_def)
qed

theorem do_swap_first_access_witness:
  "\<exists>s'. do_swap 0x6123 1 (paging_example\<lparr>mm_cache := (\<lambda>_. ex_v1)\<rparr>) = Some (Inr s') \<and>
    mmu s' 0xC0106000 0x6000 = Some 0x1B9000 \<and> ent_sign (pmem s' 0x200018) = 5"
proof -
  let ?s = "paging_example\<lparr>mm_cache := (\<lambda>_. ex_v1)\<rparr>"
  have lk: "get_next ?s = get_next paging_example" "get_prev ?s = get_prev paging_example" by simp_all
  have bl: "block_list ?s [(0x108000, 3), (0x108060, 2)]"
    using ex_block_list by (simp add: block_list_def free_list_def ring_links [OF lk] free_pages_of_def)
  have nv: "no_victim ?s 1 (block_pages [(0x108000, 3), (0x108060, 2)])"
    using ex_no_victim by (simp add: no_victim_def ring_links [OF lk] del: block_pages_Cons)
  have q: "ring ?s (mm_vm_fifo (mm ?s)) []" using ex_fifo(1) by (simp add: ring_links [OF lk] ex_fields)
  have va: "ROUNDDOWN 0x6123 = 0x6000" by (simp add: ROUNDDOWN_def)
  have fv: "find_vma (mm ?s) 0x6000 ?s = Some (ex_v1, ?s)" by (simp add: find_vma_def Let_def ex_fields kpa_def)
  have "\<exists>s'. do_swap 0x6123 1 ?s = Some (Inr s') \<and> mmu s' 0xC0106000 0x6000 = Some (0x1B9000 OR (0x6000 AND 0xFFF)) \<and>
      ent_sign (pmem s' 0x200018) = 5 \<and> pg_va s' 0x108000 = 0x6000 \<and>
      ring s' (mm_vm_fifo (mm ?s)) ([] @ [page_node (0x108000 + VERTUAL_MEM)])"
  proof (rule do_swap_first_access [where fn = "0x1B9" and j = 0, OF fv _ va [symmetric] _ _ _ _ bl _ nv _ _ _ _ _ q])
    have "pmem ?s = pmem table_example" by (simp add: ex_fields)
    then show "walk_slot ?s 0xC0106000 0x6000 = Some 0x200018" by (simp add: ex_walk walk_table_example)
    show "outside_dir 0xC0106000 0x200018" using ex_apart by (simp add: frame_apart_def)
  qed (simp_all add: ex_fields pmem_table_example page_plus_def ex_runs ex_addrs)
  then show ?thesis by auto
qed

theorem swap_in_restores_witness:
  "\<exists>s'. swap_in ex_mm 0x6000 0 (st 0xC0200018 (swap_entry 0x6000) paging_example) = Some s' \<and>
    mmu s' 0xC0106000 0x6000 = Some 0x1B9000"
proof -
  let ?s = "st 0xC0200018 (swap_entry 0x6000) paging_example"
  have lk: "get_next ?s = get_next paging_example" "get_prev ?s = get_prev paging_example" by simp_all
  have bl: "block_list ?s [(0x108000, 3), (0x108060, 2)]"
    using ex_block_list by (simp add: block_list_def free_list_def ring_links [OF lk] free_pages_of_def) (simp add: st_def)
  have nv: "no_victim ?s 1 (block_pages [(0x108000, 3), (0x108060, 2)])"
    using ex_no_victim by (simp add: no_victim_def ring_links [OF lk] del: block_pages_Cons) (simp add: st_def)
  have q: "ring ?s (mm_vm_fifo ex_mm) []" using ex_fifo(1) by (simp add: ring_links [OF lk])
  have pm: "pmem ?s = (pmem table_example)(0x200018 := swap_entry 0x6000)" by (simp add: st_def ex_fields kpa_def)
  have sl: "slot_holds ?s 0x6000 (\<lambda>_. 0)"
  proof -
    have "disk paging_example = disk table_example" by (simp add: paging_example_def paging_vmas_def paging_fields_def)
    also have "\<dots> = (\<lambda>_ _ _. 0)"
      by (simp add: table_example_def st_def free_example_def machine0_def Let_def block_pages_def page_run_def upt_rec)
    finally show ?thesis by (simp add: slot_holds_def st_def)
  qed
  have "\<exists>s'. swap_in ex_mm 0x6000 0 ?s = Some s' \<and> mmu s' 0xC0106000 0x6000 = Some (0x1B9000 OR (0x6000 AND 0xFFF)) \<and>
      (\<forall>x < PAGE_SIZE. pmem s' (0x1B9000 + x) = (\<lambda>_. 0) (x div 4)) \<and>
      ring s' (mm_vm_fifo ex_mm) ([] @ [page_node (0x108000 + VERTUAL_MEM)])"
  proof (rule swap_in_restores [OF _ _ sl _ bl _ nv _ _ _ _ _ q, of _ "0x200018" 0 "0x1B9000" "0x1B9"])
    show "walk_slot ?s 0xC0106000 0x6000 = Some 0x200018"
      using walk_slot_upd [of "0xC0106000" "0x200018" ?s table_example "swap_entry 0x6000" "0x6000"] pm ex_apart
      by (simp add: frame_apart_def walk_table_example)
    show "frame_apart 0xC0106000 0x200018 0x1B9000" by (rule ex_apart)
  qed (simp_all add: pm, simp_all add: st_def ex_fields page_plus_def ex_runs ex_addrs)
  then show ?thesis by auto
qed

theorem page_fault_refuses_witness:
  "do_swap 0x8123 1 paging_example = Some (Inl No_vma)"
proof -
  have va: "ROUNDDOWN 0x8123 = 0x8000" by (simp add: ROUNDDOWN_def)
  have "find_vma ex_mm 0x8000 paging_example = Some (NULL, paging_example)"
    using ring_find_vmas [OF ex_vma_list, of "vma_has paging_example 0x8000"]
    by (simp add: find_vma_def Let_def ex_fields vma_has_def kpa_def)
  then show ?thesis using page_fault_refuses [of paging_example "0x8123" NULL paging_example 1] va by (simp add: ex_fields)
qed

end
