(* ===== verification/DemandState.thy ===== *)
theory DemandState
  imports Paging
begin

text \<open>
  The invariant of demand paging and what the kernel does to it: \<open>demand\<close> describes the free list, the FIFO, the areas, the page table entries and the swap
  slots of a program that uses some pages, with the contents \<open>M\<close> of these pages wherever they are at the moment. Allocating a page, swapping one out,
  bringing one in and the whole page fault keep it.
\<close>

section \<open>The state between two accesses\<close>

text \<open>
  At most one page of the program is in memory, since each allocation swaps one out. The page structs are handed out in the order
  of their addresses; those of the pages that were swapped out come back to the list through their upper pointers (\<open>hi\<close>), in front of its last element.
  From there \<open>alloc_page\<close> could not hand them out again, so the state has a number \<open>n\<close> of faults that the first block can still serve.
\<close>

abbreviation hi :: "u32 \<Rightarrow> u32" where
  "hi p \<equiv> p + VERTUAL_MEM"

definition frame_of :: "'a machine_scheme \<Rightarrow> u32 \<Rightarrow> u32" where
  "frame_of s p = pg_to_addr_pa s (hi p)"

abbreviation dir_of :: "'a machine_scheme \<Rightarrow> u32" where
  "dir_of s \<equiv> mm_pde s (kpa (mm s))"

abbreviation fifo_of :: "'a machine_scheme \<Rightarrow> u32" where
  "fifo_of s \<equiv> mm_vm_fifo (mm s)"

text \<open>A page that the program may use: it has an entry at \<open>slot va\<close>, no frame overlaps the tables, and its area allows reading and writing.\<close>

definition usable :: "'a machine_scheme \<Rightarrow> (u32 \<Rightarrow> u32) \<Rightarrow> u32 list \<Rightarrow> u32 list \<Rightarrow> u32 \<Rightarrow> bool" where
  "usable s slot C vs va \<longleftrightarrow> ROUNDDOWN va = va \<and> unat va div 4096 \<notin> {1, 3, 5, 7, 9, 11, 13} \<and> outside_dir (dir_of s) (slot va) \<and>
     (\<forall>x \<in> set C. frame_apart (dir_of s) (slot va) (frame_of s x)) \<and> (\<exists>v \<in> set vs. vma_has s va v) \<and>
     (\<forall>v \<in> set vs. vma_has s va v \<longrightarrow> vma_flags s (kpa v) AND 2 \<noteq> 0 \<and> vma_flags s (kpa v) AND 5 \<noteq> 0)"

text \<open>The addresses. \<open>C\<close> are the page structs in use, in the order of their addresses, \<open>t\<close> the last one of the free list, \<open>vs\<close> the areas, \<open>U\<close> the pages that the program uses.\<close>

definition demand_layout :: "'a machine_scheme \<Rightarrow> u32 set \<Rightarrow> (u32 \<Rightarrow> u32) \<Rightarrow> u32 list \<Rightarrow> u32 \<Rightarrow> u32 list \<Rightarrow> bool" where
  "demand_layout s U slot C t vs \<longleftrightarrow> pd s = dir_of s \<and> is_vmm_inited s = 1 \<and>
     sorted_wrt (<) C \<and> length C < 1000000 \<and> t \<noteq> NULL \<and> t \<notin> set C \<and> (\<forall>x \<in> set (t # C). low_page x) \<and>
     (\<forall>x \<in> set C. \<exists>fn < 0x3FFFF. frame_of s x = push_bit 12 fn) \<and> inj_on (frame_of s) (set C) \<and>
     (\<forall>va \<in> U. usable s slot C vs va) \<and>
     inj_on slot U \<and> NULL \<notin> set vs \<and>
     kpa ` set (free_pages_head s # map page_node (t # C)) \<inter> kpa ` set (fifo_of s # mm_node (mm s) # map vma_node vs) = {} \<and>
     kpa (fifo_of s) \<notin> kpa ` set (mm_node (mm s) # map vma_node vs) \<and> kpa (free_pages_head s) \<notin> kpa ` set (map page_node (t # C))"

text \<open>The lists: \<open>ls\<close> can be allocated, \<open>hs\<close> have been swapped out and freed, \<open>rs\<close> is the resident page if there is one.\<close>

definition demand_lists :: "'a machine_scheme \<Rightarrow> u32 list \<Rightarrow> u32 list \<Rightarrow> u32 list \<Rightarrow> u32 \<Rightarrow> u32 list \<Rightarrow> nat \<Rightarrow> bool" where
  "demand_lists s hs rs ls t vs n \<longleftrightarrow>
     ring s (free_pages_head s) (map page_node (ls @ map hi hs @ [t])) \<and> free_page_num s = of_nat (length (ls @ hs @ [t])) \<and>
     n \<le> unat (free_pages_of s (hd ls)) \<and> n + 2 \<le> length ls \<and>
     ring s (fifo_of s) (map (\<lambda>x. page_node (hi x)) rs) \<and> length rs \<le> 1 \<and>
     vma_list s (mm s) vs \<and> (mm_cache s (kpa (mm s)) = NULL \<or> mm_cache s (kpa (mm s)) \<in> set vs)"

text \<open>The contents: \<open>M\<close> gives the words of the pages that have been used.\<close>

definition page_holds :: "'a machine_scheme \<Rightarrow> (u32 \<Rightarrow> u32) \<Rightarrow> u32 list \<Rightarrow> (u32 \<Rightarrow> (u32 \<Rightarrow> u32) option) \<Rightarrow> u32 \<Rightarrow> bool" where
  "page_holds s slot rs M va \<longleftrightarrow>
     (if va \<in> pg_va s ` set rs
      then \<exists>x f. x \<in> set rs \<and> M va = Some f \<and> ent_sign (pmem s (slot va)) AND 1 \<noteq> 0 \<and>
        push_bit 12 (ent_addr (pmem s (slot va))) = frame_of s x \<and> (\<forall>j < 1024. pmem s (frame_of s x + 4 * j) = f j)
      else case M va of None \<Rightarrow> pmem s (slot va) = 0
        | Some f \<Rightarrow> pmem s (slot va) = swap_entry va \<and> slot_holds s va f)"

definition demand_pages :: "'a machine_scheme \<Rightarrow> u32 set \<Rightarrow> (u32 \<Rightarrow> u32) \<Rightarrow> u32 list \<Rightarrow> (u32 \<Rightarrow> (u32 \<Rightarrow> u32) option) \<Rightarrow> bool" where
  "demand_pages s U slot rs M \<longleftrightarrow> (\<forall>va \<in> U. walk_slot s (dir_of s) va = Some (slot va) \<and> page_holds s slot rs M va) \<and>
     pg_va s ` set rs \<subseteq> U"

definition demand :: "'a machine_scheme \<Rightarrow> u32 set \<Rightarrow> (u32 \<Rightarrow> u32) \<Rightarrow> u32 \<Rightarrow> u32 list \<Rightarrow> u32 list \<Rightarrow> u32 list \<Rightarrow> u32 list \<Rightarrow> u32 list \<Rightarrow>
    (u32 \<Rightarrow> (u32 \<Rightarrow> u32) option) \<Rightarrow> nat \<Rightarrow> bool" where
  "demand s U slot t vs hs rs xs ls M n \<longleftrightarrow> demand_layout s U slot (hs @ rs @ xs @ ls) t vs \<and> demand_lists s hs rs ls t vs n \<and> demand_pages s U slot rs M"

section \<open>Allocating a page\<close>

lemma demand_layout_cong:
  assumes "pd s' = pd s" "mm s' = mm s" "mm_pde s' = mm_pde s" "is_vmm_inited s' = is_vmm_inited s" "pages s' = pages s" "pt_begin s' = pt_begin s"
    "free_pages_head s' = free_pages_head s" "vma_start s' = vma_start s" "vma_end s' = vma_end s" "vma_flags s' = vma_flags s"
  shows "demand_layout s' U slot C t vs = demand_layout s U slot C t vs"
  unfolding demand_layout_def usable_def frame_of_def pg_to_addr_pa_def vma_has_def assms ..

lemma low_hi:
  assumes "low_page p"
  shows "kpa (hi p) = p" "kpa (page_node (hi p)) = page_node p" "kpa (page_node p) = page_node p" "kpa p = p" "hi p \<noteq> NULL"
    and "low_page q \<Longrightarrow> q < hi p" and "low_page q \<Longrightarrow> hi q < hi p \<longleftrightarrow> q < p"
proof -
  have u: "unat p < 0x3FFFFF00" using assms by (simp add: low_page_def word_less_nat_alt)
  then show "kpa (hi p) = p" by (intro kpa_add_VERTUAL_MEM) (simp add: word_less_nat_alt)
  have "page_node p < 0x40000000" using u by (simp add: page_node_def word_less_nat_alt unat_word_ariths)
  from kpa_add_VERTUAL_MEM [OF this] show "kpa (page_node (hi p)) = page_node p"
    by (simp add: page_node_def algebra_simps)
  show "kpa (page_node p) = page_node p" "kpa p = p" by (rule kpa_page_node [OF assms], rule kpa_low_page [OF assms])
  have h: "unat (hi p) = unat p + 0xC0000000" using u by (simp add: unat_word_ariths)
  then have "unat (hi p) \<noteq> 0" by simp
  then show "hi p \<noteq> NULL" by (metis unat_0)
  assume "low_page q"
  then have v: "unat q < 0x3FFFFF00" by (simp add: low_page_def word_less_nat_alt)
  then have "unat (hi q) = unat q + 0xC0000000" by (simp add: unat_word_ariths)
  then show "q < hi p" "hi q < hi p \<longleftrightarrow> q < p" using h u v by (simp_all add: word_less_nat_alt)
qed

lemma slot_holds_cong: "(\<And>j. j < 1024 \<Longrightarrow> f j = g j) \<Longrightarrow> slot_holds s va f \<Longrightarrow> slot_holds s va g"
proof -
  assume fg: "\<And>j. j < 1024 \<Longrightarrow> f j = g j" and "slot_holds s va f"
  moreover have "128 * k + j < 1024" if "k < 8" "j < 128" for k j :: u32
  proof -
    have "unat k \<le> 7" "unat j \<le> 127" using that by (simp_all add: word_less_nat_alt)
    then show ?thesis by (simp add: word_less_nat_alt unat_word_ariths)
  qed
  ultimately show ?thesis by (simp add: slot_holds_def)
qed

lemma rounddown_page:
  assumes "ROUNDDOWN va = va" "ROUNDDOWN va' = va'" "va \<noteq> va'"
  shows "va div PAGE_SIZE \<noteq> va' div PAGE_SIZE"
proof -
  have "x = x div PAGE_SIZE * PAGE_SIZE" if "ROUNDDOWN x = x" for x
    using that div_mult_mod_eq [of x PAGE_SIZE] by (simp add: ROUNDDOWN_def)
  then show ?thesis using assms by metis
qed

lemma disjoint_mono: "A \<subseteq> B \<Longrightarrow> C \<subseteq> D \<Longrightarrow> B \<inter> D = {} \<Longrightarrow> A \<inter> C = {}"
  by blast

lemma layoutD:
  assumes "demand_layout s U slot C t vs"
  shows "pd s = dir_of s" "is_vmm_inited s = 1" "sorted_wrt (<) C" "length C < 1000000" "t \<noteq> NULL" "t \<notin> set C" "\<And>x. x \<in> set (t # C) \<Longrightarrow> low_page x"
    "\<And>x. x \<in> set C \<Longrightarrow> \<exists>fn < 0x3FFFF. frame_of s x = push_bit 12 fn" "inj_on (frame_of s) (set C)"
    "\<And>va. va \<in> U \<Longrightarrow> usable s slot C vs va" "inj_on slot U" "NULL \<notin> set vs"
    "kpa ` set (free_pages_head s # map page_node (t # C)) \<inter> kpa ` set (fifo_of s # mm_node (mm s) # map vma_node vs) = {}"
    "kpa (fifo_of s) \<notin> kpa ` set (mm_node (mm s) # map vma_node vs)" "kpa (free_pages_head s) \<notin> kpa ` set (map page_node (t # C))"
  using assms unfolding demand_layout_def by (elim conjE; blast)+

lemma layout_frame:
  assumes "demand_layout s U slot C t vs" and "x \<in> set C"
  shows "pg_to_addr_la s (hi x) = frame_of s x + VERTUAL_MEM" "kpa (frame_of s x + VERTUAL_MEM) = frame_of s x"
    "VERTUAL_MEM \<le> frame_of s x + VERTUAL_MEM" "unat (frame_of s x + VERTUAL_MEM) + 4096 < 4294967296"
    "push_bit 12 (drop_bit 12 (frame_of s x)) = frame_of s x"
proof -
  obtain fn where fn: "fn < 0x3FFFF" "frame_of s x = push_bit 12 fn" using layoutD(8) [OF assms] by blast
  then have fn': "fn < 0x40000" using less_trans [OF fn(1), of "0x40000"] by simp
  note FM = frame_mapped [OF fn(2) fn']
  show "pg_to_addr_la s (hi x) = frame_of s x + VERTUAL_MEM" by (simp add: frame_of_def pg_to_addr_la_def pg_to_addr_pa_def)
  show "kpa (frame_of s x + VERTUAL_MEM) = frame_of s x" "VERTUAL_MEM \<le> frame_of s x + VERTUAL_MEM" "push_bit 12 (drop_bit 12 (frame_of s x)) = frame_of s x"
    by (rule FM)+
  have "unat fn < 262143" using fn(1) by (simp add: word_less_nat_alt)
  moreover have "unat (frame_of s x) = unat fn * 4096" using calculation fn(2) by (simp add: push_bit_eq_mult unat_word_ariths)
  ultimately show "unat (frame_of s x + VERTUAL_MEM) + 4096 < 4294967296" by (simp add: unat_word_ariths)
qed

text \<open>The cells of the lists are different.\<close>

lemma layout_cells:
  assumes l: "demand_layout s U slot C t vs" and ys: "set ys \<subseteq> set (t # C)" and zs: "set zs \<subseteq> set C"
  shows "kpa ` set (map page_node ys @ map (\<lambda>x. page_node (hi x)) zs) = page_node ` (set ys \<union> set zs)"
    and "kpa ` set (free_pages_head s # map page_node ys @ map (\<lambda>x. page_node (hi x)) zs) \<inter> kpa ` set (fifo_of s # mm_node (mm s) # map vma_node vs) = {}"
proof -
  have low: "low_page x" if "x \<in> set ys \<union> set zs" for x using layoutD(7) [OF l] ys zs that by auto
  then show e: "kpa ` set (map page_node ys @ map (\<lambda>x. page_node (hi x)) zs) = page_node ` (set ys \<union> set zs)"
    by (simp add: image_Un image_image low_hi cong: image_cong_simp)
  have "page_node ` (set ys \<union> set zs) \<subseteq> page_node ` set (t # C)" using ys zs by (intro image_mono) auto
  moreover have "page_node ` set (t # C) = kpa ` set (map page_node (t # C))"
    using layoutD(7) [OF l] unfolding set_map image_image by (intro image_cong) (simp_all add: low_hi)
  ultimately have "kpa ` set (map page_node ys @ map (\<lambda>x. page_node (hi x)) zs) \<subseteq> kpa ` set (map page_node (t # C))" unfolding e by (simp only:)
  then have "kpa ` set (free_pages_head s # map page_node ys @ map (\<lambda>x. page_node (hi x)) zs) \<subseteq> kpa ` set (free_pages_head s # map page_node (t # C))"
    unfolding list.set(2) [of "free_pages_head s"] image_insert by (rule insert_mono)
  then show "kpa ` set (free_pages_head s # map page_node ys @ map (\<lambda>x. page_node (hi x)) zs) \<inter> kpa ` set (fifo_of s # mm_node (mm s) # map vma_node vs) = {}"
    by (rule disjoint_mono [OF _ subset_refl layoutD(13) [OF l]])
qed

text \<open>Swapping out keeps the contents: the resident page becomes one on the disk.\<close>

lemma evict_pages:
  assumes l: "demand_layout s U slot C t vs" and p: "demand_pages s U slot [r] M" and va: "va = pg_va s r"
    and s': "pmem s' = (pmem s)(slot va := swap_entry va)" "dir_of s' = dir_of s"
    and slots: "slot_holds s' va (\<lambda>j. pmem s (frame_of s r + 4 * j))"
      "\<forall>va' f. va' div PAGE_SIZE \<noteq> va div PAGE_SIZE \<and> slot_holds s va' f \<longrightarrow> slot_holds s' va' f"
  shows "demand_pages s' U slot [] M"
  unfolding demand_pages_def
proof (intro conjI ballI)
  have vU: "va \<in> U" using p va by (simp add: demand_pages_def)
  have us: "usable s slot C vs x" if "x \<in> U" for x using layoutD(10) [OF l that] .
  fix x
  assume x: "x \<in> U"
  have ph: "page_holds s slot [r] M x" "walk_slot s (dir_of s) x = Some (slot x)" using p x by (simp_all add: demand_pages_def)
  show "walk_slot s' (dir_of s') x = Some (slot x)"
    using walk_slot_upd [OF _ s'(1)] us [OF vU] ph(2) unfolding s'(2) by (simp add: usable_def)
  show "page_holds s' slot [] M x"
  proof (cases "x = va")
    case True
    then obtain f where f: "M x = Some f" "\<forall>j < 1024. pmem s (frame_of s r + 4 * j) = f j"
      using ph(1) va by (auto simp: page_holds_def)
    then have "slot_holds s' va f" using slot_holds_cong [OF _ slots(1), of f] by simp
    then show ?thesis using True f(1) s'(1) by (simp add: page_holds_def)
  next
    case False
    then have "slot x \<noteq> slot va" using layoutD(11) [OF l] x vU by (auto dest: inj_onD)
    moreover have "x div PAGE_SIZE \<noteq> va div PAGE_SIZE"
      using False us [OF x] us [OF vU] by (intro rounddown_page) (simp_all add: usable_def)
    ultimately show ?thesis using ph(1) False va slots(2) s'(1) by (auto simp: page_holds_def split: option.splits)
  qed
qed simp

lemma demand_pages_cong:
  assumes "pmem s' = pmem s" "disk s' = disk s" "pg_va s' = pg_va s" "dir_of s' = dir_of s" "pages s' = pages s" "pt_begin s' = pt_begin s"
  shows "demand_pages s' U slot rs M = demand_pages s U slot rs M"
  unfolding demand_pages_def page_holds_def walk_slot_def ld_def slot_holds_def frame_of_def pg_to_addr_pa_def assms ..

text \<open>The cells of the free list.\<close>

lemma free_cells:
  assumes l: "demand_layout s U slot (hs @ rs @ xs @ ls) t vs" and ys: "set ys \<subseteq> set (xs @ ls)"
  shows "kpa ` set (map page_node (ys @ map hi hs @ [t])) = page_node ` set (ys @ hs @ [t])"
    and "kpa ` set (free_pages_head s # map page_node (ys @ map hi hs @ [t])) \<inter> kpa ` set (fifo_of s # mm_node (mm s) # map vma_node vs) = {}"
    and "r \<in> set rs \<Longrightarrow> kpa ` set (free_pages_head s # map page_node (ys @ map hi hs @ [t])) \<inter> kpa ` set [fifo_of s, page_node (hi r)] = {}"
    and "r \<in> set rs \<Longrightarrow> kpa (page_node (hi r)) \<notin> kpa ` set (mm_node (mm s) # map vma_node vs)"
proof -
  let ?C = "hs @ rs @ xs @ ls"
  have e: "set (map page_node (ys @ map hi hs @ [t])) = set (map page_node (ys @ [t]) @ map (\<lambda>x. page_node (hi x)) hs)"
    by auto
  have sub: "set (ys @ [t]) \<subseteq> set (t # ?C)" "set hs \<subseteq> set ?C" using ys by auto
  have "set (ys @ [t]) \<union> set hs = set (ys @ hs @ [t])" by auto
  then show k: "kpa ` set (map page_node (ys @ map hi hs @ [t])) = page_node ` set (ys @ hs @ [t])"
    using layout_cells(1) [OF l sub] unfolding e by simp
  show c: "kpa ` set (free_pages_head s # map page_node (ys @ map hi hs @ [t])) \<inter> kpa ` set (fifo_of s # mm_node (mm s) # map vma_node vs) = {}"
    unfolding list.set(2) [of "free_pages_head s"] e unfolding list.set(2) [of "free_pages_head s", symmetric] by (rule layout_cells(2) [OF l sub])
  assume r: "r \<in> set rs"
  then have kr: "kpa (page_node (hi r)) = page_node r" "kpa (page_node r) = page_node r" using layoutD(7) [OF l] low_hi(2,3) by simp_all
  show "kpa (page_node (hi r)) \<notin> kpa ` set (mm_node (mm s) # map vma_node vs)" using layout_cells(2) [OF l, of "[]" "[r]"] r by auto
  have "distinct ?C" using layoutD(3) [OF l] by (simp only: strict_sorted_iff)
  then have "r \<notin> set (ys @ hs @ [t])" using ys r layoutD(6) [OF l] by auto
  then have "page_node r \<notin> page_node ` set (ys @ hs @ [t])" by auto
  moreover have "kpa (page_node r) \<in> kpa ` set (map page_node (t # ?C))" using r by simp
  then have "kpa (page_node (hi r)) \<noteq> kpa (free_pages_head s)" using layoutD(15) [OF l] kr by metis
  ultimately have "kpa (page_node (hi r)) \<notin> kpa ` set (free_pages_head s # map page_node (ys @ map hi hs @ [t]))"
    unfolding list.set(2) [of "free_pages_head s"] image_insert k kr(1) by simp
  then show "kpa ` set (free_pages_head s # map page_node (ys @ map hi hs @ [t])) \<inter> kpa ` set [fifo_of s, page_node (hi r)] = {}"
    using c by auto
qed

lemma listsD:
  assumes "demand_lists s hs rs ls t vs n"
  shows "ring s (free_pages_head s) (map page_node (ls @ map hi hs @ [t]))" "free_page_num s = of_nat (length (ls @ hs @ [t]))"
    "n \<le> unat (free_pages_of s (hd ls))" "n + 2 \<le> length ls" "ring s (fifo_of s) (map (\<lambda>x. page_node (hi x)) rs)" "length rs \<le> 1"
    "ring s (mm_node (mm s)) (map vma_node vs)" "mm_cache s (kpa (mm s)) = NULL \<or> mm_cache s (kpa (mm s)) \<in> set vs"
  using assms unfolding demand_lists_def vma_list_def by blast+

text \<open>An allocation takes the first page from the free list, and then swaps out.\<close>

lemma take_demand:
  assumes d: "demand s U slot t vs hs rs [] (p # ls) M (Suc n)"
  shows "\<exists>s'. alloc_page 1 s = swap_out (mm s') 1 s' \<bind> (\<lambda>s. Some (hi p, s)) \<and> demand s' U slot t vs hs rs [p] ls M n \<and>
    mm s' = mm s \<and> mm_pde s' = mm_pde s \<and> pages s' = pages s \<and> pt_begin s' = pt_begin s \<and> pmem s' = pmem s \<and> pg_va s' = pg_va s"
proof -
  let ?hn = "free_pages_head s" and ?ys = "p # ls"
  have lay: "demand_layout s U slot (hs @ rs @ [p] @ ls) t vs" and li: "demand_lists s hs rs (p # ls) t vs (Suc n)" and pg: "demand_pages s U slot rs M"
    using d by (simp_all add: demand_def)
  note D = listsD [OF li]
  obtain q ls' where q: "ls = q # ls'" using D(4) by (cases ls) auto
  have r: "ring s ?hn (map page_node (p # q # ls' @ map hi hs @ [t]))" using D(1) q by simp
  have fit: "1 \<le> free_pages_of s p" using D(3) by (simp add: word_le_nat_alt)
  have len: "0 < length ((p # ls) @ hs @ [t])" "length ((p # ls) @ hs @ [t]) < 2147483648" using layoutD(4) [OF lay] by simp_all
  from alloc_front [OF r D(2) len fit] obtain s1 a b where
    al: "alloc_page 1 s = swap_out (mm s) 1 s1 \<bind> (\<lambda>s. Some (hi p, s))"
    and r1: "ring s1 ?hn (map page_node (q # ls' @ map hi hs @ [t]))"
    and o1: "other_rings s s1 (?hn # map page_node (p # q # ls' @ map hi hs @ [t]))"
    and s1: "s1 = s\<lparr>ln_prev := a, ln_next := b, free_page_num := free_page_num s - 1,
      pg_free_pages := (pg_free_pages s)(kpa q := free_pages_of s p - 1), pg_flags := (pg_flags s)(kpa q := 1)\<rparr>"
    using layoutD(2) [OF lay] by auto
  have ys: "set (p # q # ls') \<subseteq> set ([p] @ ls)" using q by simp
  note fc = free_cells [OF lay ys]
  have "ring s1 (fifo_of s) (map (\<lambda>x. page_node (hi x)) rs)"
  proof (cases rs)
    case Nil
    have "kpa ` set (?hn # map page_node ((p # q # ls') @ map hi hs @ [t])) \<inter> kpa ` set [fifo_of s] = {}"
      by (rule disjoint_mono [OF subset_refl _ fc(2)]) simp
    then show ?thesis using o1 D(5) Nil unfolding other_rings_def by fastforce
  next
    case (Cons r rs')
    then have "rs = [r]" using D(6) by simp
    then show ?thesis using o1 D(5) fc(3) [of r] unfolding other_rings_def by fastforce
  qed
  moreover have "kpa ` set (?hn # map page_node ((p # q # ls') @ map hi hs @ [t])) \<inter> kpa ` set (mm_node (mm s) # map vma_node vs) = {}"
    by (rule disjoint_mono [OF subset_refl _ fc(2)]) auto
  then have "ring s1 (mm_node (mm s)) (map vma_node vs)" using o1 D(7) unfolding other_rings_def by fastforce
  moreover have "unat (free_pages_of s1 q) = unat (free_pages_of s p) - 1" using fit by (simp add: s1 free_pages_of_def unat_sub)
  ultimately have "demand_lists s1 hs rs ls t vs n"
    unfolding demand_lists_def vma_list_def using r1 D q by (simp add: s1 free_pages_of_def)
  moreover have "demand_layout s1 U slot (hs @ rs @ [p] @ ls) t vs" using lay by (subst demand_layout_cong [of _ s]) (simp_all add: s1)
  moreover have "demand_pages s1 U slot rs M" using pg by (subst demand_pages_cong [of _ s]) (simp_all add: s1)
  ultimately have "demand s1 U slot t vs hs rs [p] ls M n" by (simp add: demand_def)
  then show ?thesis using al by (intro exI [of _ s1]) (simp add: s1)
qed

text \<open>The pointer of the resident page is above all pointers of the free list, and the first page of the list is not next to the place where a page is linked in.\<close>

lemma resident_above:
  assumes l: "demand_layout s U slot (hs @ [r] @ xs @ ls) t vs"
  shows "\<forall>x \<in> set ((ls @ map hi hs) @ [t]). \<not> hi r < x"
proof -
  note L = layoutD [OF l]
  have lr: "low_page r" using L(7) by simp
  have "\<not> hi r < x" if "low_page x" for x using low_hi(6) [OF lr that] by auto
  moreover have "\<not> hi r < hi x" if "x \<in> set hs" for x
    using low_hi(7) [OF L(7) lr, of x] L(3) that by (auto simp: sorted_wrt_append dest: order_less_asym)
  ultimately show ?thesis using L(7) by auto
qed

lemma front_apart:
  assumes l: "demand_layout s U slot (hs @ [r] @ xs @ q # ls) t vs" and ls: "ls \<noteq> []"
  shows "kpa q = q" "q \<noteq> kpa (hi r)" "q \<noteq> kpa t" "q \<noteq> kpa (last (q # ls @ map hi hs))"
proof -
  note L = layoutD [OF l]
  have "distinct (hs @ [r] @ xs @ q # ls)" using L(3) by (simp only: strict_sorted_iff)
  then have ne: "q \<noteq> r" "q \<notin> set ls" "q \<notin> set hs" "q \<noteq> t" using L(6) by auto
  show "kpa q = q" "q \<noteq> kpa (hi r)" "q \<noteq> kpa t"
    using ne low_hi(4) [OF L(7), of q] low_hi(1) [OF L(7), of r] low_hi(4) [OF L(7), of t] by auto
  show "q \<noteq> kpa (last (q # ls @ map hi hs))"
  proof (cases hs rule: rev_cases)
    case Nil
    then have "last (q # ls @ map hi hs) \<in> set ls" using ls by simp
    then show ?thesis using ne low_hi(4) [OF L(7), of "last (q # ls @ map hi hs)"] by auto
  next
    case (snoc hs' h)
    then show ?thesis using ne low_hi(1) [OF L(7), of h] by auto
  qed
qed

lemma evict_demand:
  assumes d: "demand s U slot t vs hs [r] xs ls M n"
  shows "\<exists>s'. swap_out (mm s) 1 s = Some s' \<and> demand s' U slot t vs (hs @ [r]) [] xs ls M n \<and>
    mm s' = mm s \<and> mm_pde s' = mm_pde s \<and> pages s' = pages s \<and> pt_begin s' = pt_begin s \<and>
    (\<forall>va \<in> U. va \<noteq> pg_va s r \<longrightarrow> pmem s' (slot va) = pmem s (slot va))"
proof -
  let ?C = "hs @ [r] @ xs @ ls" and ?hn = "free_pages_head s" and ?va = "pg_va s r" and ?ps = "ls @ map hi hs" and ?fa = "frame_of s r + VERTUAL_MEM"
  have lay: "demand_layout s U slot ?C t vs" and li: "demand_lists s hs [r] ls t vs n" and pg: "demand_pages s U slot [r] M"
    using d by (simp_all add: demand_def)
  note L = layoutD [OF lay] and D = listsD [OF li]
  have vU: "?va \<in> U" and w: "walk_slot s (dir_of s) ?va = Some (slot ?va)" using pg by (auto simp: demand_pages_def)
  have rC: "r \<in> set ?C" and lr: "low_page r" using L(7) by simp_all
  note F = layout_frame [OF lay rC] and fc = free_cells [OF lay, of ls]
  note ab = resident_above [OF lay]
  have rf: "ring s ?hn (map page_node (?ps @ [t]))" and rq: "ring s (fifo_of s) (page_node (hi r) # [])" using D(1,5) by simp_all
  have dj: "kpa ` set (?hn # map page_node (?ps @ [t])) \<inter> kpa ` set (fifo_of s # page_node (hi r) # []) = {}" using fc(3) [of r] by simp
  have va: "?va = pg_va s (kpa (hi r))" using low_hi(1) [OF lr] by simp
  from swap_out_one [OF rq w va F(1) [symmetric] F(3,4) rf L(5) ab dj] obtain s2 x y d c e f where
    so: "swap_out (mm s) 1 s = Some s2"
    and slots: "slot_holds s2 ?va (\<lambda>j. pmem s (kpa ?fa + 4 * j))" "\<forall>va' f. va' div PAGE_SIZE \<noteq> ?va div PAGE_SIZE \<and> slot_holds s va' f \<longrightarrow> slot_holds s2 va' f"
    and rings: "ring s2 (fifo_of s) []" "ring s2 ?hn (map page_node (?ps @ [hi r, t]))"
      "other_rings s s2 (fifo_of s # page_node (hi r) # [] @ ?hn # map page_node (?ps @ [t]))"
    and num: "free_page_num s2 = free_page_num s + 1"
    and fp: "\<forall>x. x \<noteq> kpa (hi r) \<and> x \<noteq> kpa t \<and> (?ps \<noteq> [] \<longrightarrow> x \<noteq> kpa (last ?ps)) \<and> (?ps = [] \<longrightarrow> x \<noteq> kpa (node_page ?hn)) \<longrightarrow>
      pg_free_pages s2 x = pg_free_pages s x"
    and s2: "s2 = s\<lparr>ln_prev := x, ln_next := y, disk := d, pmem := (pmem s)(slot ?va := swap_entry ?va), pg_flags := c, pg_free_pages := e, free_page_num := f\<rparr>"
    by (elim exE conjE)
  have lay2: "demand_layout s2 U slot ((hs @ [r]) @ [] @ xs @ ls) t vs" using lay by (subst demand_layout_cong [of _ s]) (simp_all add: s2)
  have "kpa ` set (fifo_of s # page_node (hi r) # [] @ ?hn # map page_node (?ps @ [t])) \<inter> kpa ` set (mm_node (mm s) # map vma_node vs) = {}"
    using fc(2) fc(4) [of r] L(14) by (auto simp: image_Un)
  then have vm: "ring s2 (mm_node (mm s)) (map vma_node vs)" using rings(3) D(7) unfolding other_rings_def by blast
  obtain q ls' where q: "ls = q # ls'" "ls' \<noteq> []" using D(4) by (cases ls; cases "tl ls") auto
  note fa = front_apart [OF lay [unfolded q(1)] q(2)]
  have "free_pages_of s2 q = free_pages_of s q" using fp fa q by (simp add: free_pages_of_def)
  then have "demand_lists s2 (hs @ [r]) [] ls t vs n"
    unfolding demand_lists_def vma_list_def using rings(1,2) vm D(2-4,8) q num by (simp add: s2)
  moreover have "demand_pages s2 U slot [] M"
    by (rule evict_pages [OF lay pg refl _ _ _ slots(2)]) (use slots(1) F(2) in \<open>simp_all add: s2\<close>)
  ultimately have "demand s2 U slot t vs (hs @ [r]) [] xs ls M n" using lay2 by (simp only: demand_def)
  moreover have "pmem s2 (slot va) = pmem s (slot va)" if "va \<in> U" "va \<noteq> ?va" for va
    using that vU L(11) by (auto simp: s2 dest: inj_onD)
  ultimately show ?thesis using so by (intro exI [of _ s2]) (simp add: s2)
qed

lemma alloc_demand:
  assumes d: "demand s U slot t vs hs rs [] (p # ls) M (Suc n)"
  shows "\<exists>s'. alloc_page 1 s = Some (hi p, s') \<and> demand s' U slot t vs (hs @ rs) [] [p] ls M n \<and>
    mm s' = mm s \<and> mm_pde s' = mm_pde s \<and> pages s' = pages s \<and> pt_begin s' = pt_begin s \<and>
    (\<forall>va \<in> U. va \<notin> pg_va s ` set rs \<longrightarrow> pmem s' (slot va) = pmem s (slot va))"
proof -
  obtain s1 where s1: "alloc_page 1 s = swap_out (mm s1) 1 s1 \<bind> (\<lambda>s. Some (hi p, s))" and d1: "demand s1 U slot t vs hs rs [p] ls M n"
    and f: "mm s1 = mm s" "mm_pde s1 = mm_pde s" "pages s1 = pages s" "pt_begin s1 = pt_begin s" "pmem s1 = pmem s" "pg_va s1 = pg_va s"
    using take_demand [OF d] by blast
  have l: "length rs \<le> 1" "ring s1 (fifo_of s1) (map (\<lambda>x. page_node (hi x)) rs)" using d1 listsD(5,6) by (auto simp: demand_def)
  show ?thesis
  proof (cases rs)
    case Nil
    then have "swap_out (mm s1) 1 s1 = Some s1" using l(2) swap_out_none by simp
    then show ?thesis using s1 d1 f Nil by (intro exI [of _ s1]) simp
  next
    case (Cons r rs')
    then have "rs = [r]" using l(1) by simp
    then show ?thesis using evict_demand [of s1 U slot t vs hs r "[p]" ls M n] d1 s1 f by auto
  qed
qed

section \<open>Page faults\<close>

lemma in_frame: "j < (1024 :: u32) \<Longrightarrow> 4 * j < PAGE_SIZE"
  using unat_times4 [of j] by (simp add: word_less_nat_alt)

lemma apart_word:
  assumes "frame_apart dir a frame" and "j < 1024"
  shows "a \<noteq> frame + 4 * j" and "kpa (pde_slot dir la) \<noteq> frame + 4 * j"
proof -
  have n: "\<not> PAGE_SIZE \<le> frame + 4 * j - frame" using in_frame [OF assms(2)] by simp
  show "a \<noteq> frame + 4 * j" using n assms(1) unfolding frame_apart_def by metis
  show "kpa (pde_slot dir la) \<noteq> frame + 4 * j" using n assms(1) unfolding frame_apart_def by metis
qed

text \<open>A page that has been allocated but not mapped yet may be overwritten.\<close>

lemma limbo_demand:
  assumes d: "demand s U slot t vs hs [] (p # xs) ls M n" and m: "\<forall>a. PAGE_SIZE \<le> a - frame_of s p \<longrightarrow> m a = pmem s a"
  shows "demand (s\<lparr>pmem := m\<rparr>) U slot t vs hs [] (p # xs) ls M n"
proof -
  let ?s = "s\<lparr>pmem := m\<rparr>"
  have lay: "demand_layout s U slot (hs @ p # xs @ ls) t vs" and li: "demand_lists s hs [] ls t vs n" and pg: "demand_pages s U slot [] M"
    using d by (simp_all add: demand_def)
  have lk: "get_next ?s = get_next s" "get_prev ?s = get_prev s" by (simp_all add: fun_eq_iff get_next_def get_prev_def)
  have "demand_layout ?s U slot (hs @ p # xs @ ls) t vs" using lay by (subst demand_layout_cong [of _ s]) simp_all
  moreover have "demand_lists ?s hs [] ls t vs n" using li by (simp add: demand_lists_def vma_list_def ring_links [OF lk] free_pages_of_def)
  moreover have "walk_slot ?s (dir_of s) va = walk_slot s (dir_of s) va \<and> page_holds ?s slot [] M va = page_holds s slot [] M va" if "va \<in> U" for va
  proof -
    have "frame_apart (dir_of s) (slot va) (frame_of s p)" using layoutD(10) [OF lay that] by (simp add: usable_def)
    then have "m (slot va) = pmem s (slot va)" "\<And>la. m (kpa (pde_slot (dir_of s) la)) = pmem s (kpa (pde_slot (dir_of s) la))"
      using m by (simp_all add: frame_apart_def)
    then show ?thesis by (simp add: walk_slot_def ld_def page_holds_def slot_holds_def split: option.split)
  qed
  then have "demand_pages ?s U slot [] M" using pg by (simp add: demand_pages_def)
  ultimately show ?thesis by (simp add: demand_def)
qed

text \<open>A word of the resident page changes.\<close>

lemma store_demand:
  assumes d: "demand s U slot t vs hs [r] xs ls M n" and j: "j < 1024" and f: "M (pg_va s r) = Some f"
  shows "demand (s\<lparr>pmem := (pmem s)(frame_of s r + 4 * j := w)\<rparr>) U slot t vs hs [r] xs ls (M(pg_va s r \<mapsto> f(j := w))) n"
proof -
  let ?a = "frame_of s r + 4 * j"
  let ?s = "s\<lparr>pmem := (pmem s)(?a := w)\<rparr>" and ?M = "M(pg_va s r \<mapsto> f(j := w))"
  have lay: "demand_layout s U slot (hs @ [r] @ xs @ ls) t vs" and li: "demand_lists s hs [r] ls t vs n" and pg: "demand_pages s U slot [r] M"
    using d by (simp_all add: demand_def)
  have lk: "get_next ?s = get_next s" "get_prev ?s = get_prev s" by (simp_all add: fun_eq_iff get_next_def get_prev_def)
  have fo: "frame_of ?s = frame_of s" by (simp add: fun_eq_iff frame_of_def pg_to_addr_pa_def)
  have "demand_layout ?s U slot (hs @ [r] @ xs @ ls) t vs" using lay by (subst demand_layout_cong [of _ s]) simp_all
  moreover have "demand_lists ?s hs [r] ls t vs n" using li by (simp add: demand_lists_def vma_list_def ring_links [OF lk] free_pages_of_def)
  moreover have "walk_slot ?s (dir_of s) va = Some (slot va) \<and> page_holds ?s slot [r] ?M va" if va: "va \<in> U" for va
  proof -
    have ap: "frame_apart (dir_of s) (slot va) (frame_of s r)" using layoutD(10) [OF lay va] by (simp add: usable_def)
    note ne = apart_word [OF ap j]
    have w: "walk_slot ?s (dir_of s) va = Some (slot va)" and ph: "page_holds s slot [r] M va"
      using pg va ne(2) by (auto simp: demand_pages_def walk_slot_def ld_def)
    have "page_holds ?s slot [r] ?M va"
    proof (cases "va = pg_va s r")
      case True
      have "frame_of s r + 4 * i = ?a \<longleftrightarrow> i = j" if "i < 1024" for i using times4_eq [OF that j] by simp
      then show ?thesis using True ph f ne(1) by (simp add: page_holds_def fo)
    next
      case False
      then show ?thesis using ph ne(1) by (simp add: page_holds_def slot_holds_def cong: option.case_cong)
    qed
    then show ?thesis using w by simp
  qed
  then have "demand_pages ?s U slot [r] ?M" using pg by (simp add: demand_pages_def)
  ultimately show ?thesis by (simp add: demand_def)
qed

lemma cache_demand:
  assumes d: "demand s U slot t vs hs rs xs ls M n" and v: "v \<in> set vs"
  shows "demand (s\<lparr>mm_cache := (mm_cache s)(kpa (mm s) := v)\<rparr>) U slot t vs hs rs xs ls M n"
proof -
  let ?s = "s\<lparr>mm_cache := (mm_cache s)(kpa (mm s) := v)\<rparr>"
  have lk: "get_next ?s = get_next s" "get_prev ?s = get_prev s" by simp_all
  have "demand_layout ?s U slot C t vs = demand_layout s U slot C t vs" for C by (rule demand_layout_cong) simp_all
  moreover have "demand_pages ?s U slot rs M = demand_pages s U slot rs M" by (rule demand_pages_cong) simp_all
  moreover have "demand_lists ?s hs rs ls t vs n"
    using d v by (simp add: demand_def demand_lists_def vma_list_def ring_links [OF lk] free_pages_of_def)
  ultimately show ?thesis using d by (simp add: demand_def)
qed

lemma map_pages:
  assumes l: "demand_layout s U slot (hs @ [] @ [p] @ ls) t vs" and pg: "demand_pages s U slot [] M" and va: "va \<in> U" and b: "b AND 1 = 1"
    and f: "\<forall>j < 1024. pmem s (frame_of s p + 4 * j) = f j"
    and pm: "pmem s' = (pmem s)(slot va := mapped_entry (frame_of s p) b (pmem s (slot va)))" and pv: "pg_va s' = (pg_va s)(p := va)"
    and same: "disk s' = disk s" "dir_of s' = dir_of s" "pages s' = pages s" "pt_begin s' = pt_begin s"
  shows "demand_pages s' U slot [p] (M(va \<mapsto> f))"
  unfolding demand_pages_def
proof (intro conjI ballI)
  have us: "usable s slot (hs @ [] @ [p] @ ls) vs x" if "x \<in> U" for x using layoutD(10) [OF l that] .
  have fo: "frame_of s' = frame_of s" by (simp add: fun_eq_iff frame_of_def pg_to_addr_pa_def same)
  fix x
  assume x: "x \<in> U"
  have ph: "page_holds s slot [] M x" "walk_slot s (dir_of s) x = Some (slot x)" using pg x by (simp_all add: demand_pages_def)
  show "walk_slot s' (dir_of s') x = Some (slot x)"
    unfolding same(2) using walk_slot_upd [OF _ pm] us [OF va] ph(2) by (simp add: usable_def)
  show "page_holds s' slot [p] (M(va \<mapsto> f)) x"
  proof (cases "x = va")
    case True
    have ap: "frame_apart (dir_of s) (slot va) (frame_of s p)" using us [OF va] by (simp add: usable_def)
    have "pmem s' (frame_of s p + 4 * j) = f j" if "j < 1024" for j
      unfolding pm using f that apart_word(1) [OF ap that] by (simp add: fun_upd_apply [of "pmem s"])
    then show ?thesis
      using True mapped_entry_present [OF b] layout_frame(5) [OF l, of p] pm fo by (simp add: page_holds_def pv mapped_entry_addr)
  next
    case False
    then have "slot x \<noteq> slot va" using layoutD(11) [OF l] x va by (auto dest: inj_onD)
    then show ?thesis using ph(1) False by (simp add: page_holds_def pv pm slot_holds_def same(1) cong: option.case_cong)
  qed
qed (use va pv in simp)

text \<open>The page that was allocated is mapped and becomes the resident page.\<close>

lemma map_demand:
  assumes d: "demand s U slot t vs hs [] [p] ls M n" and va: "va \<in> U" and b: "b AND 1 = 1" and f: "\<forall>j < 1024. pmem s (frame_of s p + 4 * j) = f j"
    and s1: "s1 = s\<lparr>pg_ref := z, pmem := (pmem s)(slot va := mapped_entry (frame_of s p) b (pmem s (slot va))), pg_va := (pg_va s)(p := va)\<rparr>"
  shows "demand (list_insert_before (fifo_of s) (page_node (hi p)) s1) U slot t vs hs [p] [] ls (M(va \<mapsto> f)) n"
proof -
  let ?s = "list_insert_before (fifo_of s) (page_node (hi p)) s1"
  have lay: "demand_layout s U slot (hs @ [] @ [p] @ ls) t vs" and li: "demand_lists s hs [] ls t vs n" and pg: "demand_pages s U slot [] M"
    using d by (simp_all add: demand_def)
  have lay': "demand_layout s U slot (hs @ [p] @ [] @ ls) t vs" using lay by simp
  note L = layoutD [OF lay] and D = listsD [OF li] and fc = free_cells [OF lay', of ls]
  have lk: "get_next s1 = get_next s" "get_prev s1 = get_prev s" by (simp_all add: s1 fun_eq_iff get_next_def get_prev_def)
  have q1: "ring s1 (fifo_of s) []" using D(5) by (simp add: ring_links [OF lk])
  have fr: "kpa (page_node (hi p)) \<notin> kpa ` set [fifo_of s]" using layout_cells(2) [OF lay, of "[]" "[p]"] by auto
  have q: "ring ?s (fifo_of s) [page_node (hi p)]" using kl.enqueue [OF q1 fr] by simp
  have oth: "ring ?s hn ms" if "ring s hn ms" "kpa ` set [page_node (hi p), fifo_of s] \<inter> kpa ` set (hn # ms) = {}" for hn ms
    by (rule kl.frame_ins_before [OF q1 _ _ fr]) (use that in \<open>simp_all add: ring_links [OF lk]\<close>)
  have "ring ?s (free_pages_head s) (map page_node (ls @ map hi hs @ [t]))"
  proof (rule oth [OF D(1)])
    have "kpa ` set [page_node (hi p), fifo_of s] = kpa ` set [fifo_of s, page_node (hi p)]" by auto
    then show "kpa ` set [page_node (hi p), fifo_of s] \<inter> kpa ` set (free_pages_head s # map page_node (ls @ map hi hs @ [t])) = {}"
      using fc(3) [of p] by (simp only: Int_commute) simp
  qed
  moreover have "ring ?s (mm_node (mm s)) (map vma_node vs)" by (rule oth [OF D(7)]) (use fc(4) [of p] L(14) in auto)
  ultimately have "demand_lists ?s hs [p] ls t vs n"
    using q D(2-4,8) by (simp add: demand_lists_def vma_list_def s1 free_pages_of_def)
  moreover have "demand_layout ?s U slot (hs @ [p] @ [] @ ls) t vs" using lay by (subst demand_layout_cong [of _ s]) (simp_all add: s1)
  moreover have "demand_pages ?s U slot [p] (M(va \<mapsto> f))"
    by (rule map_pages [OF lay pg va b f]) (simp_all add: s1)
  ultimately show ?thesis by (simp only: demand_def)
qed

text \<open>Mapping the page that was just allocated, in the two orders in which the code does it.\<close>

lemma map_new_page:
  assumes d: "demand s U slot t vs hs [] [p] ls M n" and va: "va \<in> U" and b: "b AND 1 = 1" and f: "\<forall>j < 1024. pmem s (frame_of s p + 4 * j) = f j"
    and absent: "ent_sign (pmem s (slot va)) AND 1 = 0"
  shows "\<exists>s1. pg_map (dir_of s) va (pg_to_addr_pa s (hi p)) b s = Some s1 \<and> mm s1 = mm s \<and>
      demand (list_insert_before (fifo_of s) (page_node (hi p)) (set_va (hi p) va s1)) U slot t vs hs [p] [] ls (M(va \<mapsto> f)) n \<and> pg_va (set_va (hi p) va s1) p = va"
    and "\<exists>s1. pg_map (dir_of s) va (pg_to_addr_pa s (hi p)) b (set_va (hi p) va s) = Some s1 \<and> mm s1 = mm s \<and>
      demand (list_insert_before (fifo_of s) (page_node (hi p)) s1) U slot t vs hs [p] [] ls (M(va \<mapsto> f)) n \<and> pg_va s1 p = va"
proof -
  let ?e = "mapped_entry (frame_of s p) b (pmem s (slot va))" and ?fr = "frame_of s p"
  have "low_page p" using d by (simp add: demand_def demand_layout_def)
  then have lp: "kpa (hi p) = p" by (rule low_hi(1))
  have fr: "pg_to_addr_pa s (hi p) = ?fr" by (simp add: frame_of_def)
  have w: "walk_slot s (dir_of s) va = Some (slot va)" using d va by (simp add: demand_def demand_pages_def)
  obtain z where m1: "pg_map (dir_of s) va ?fr b s = Some (s\<lparr>pg_ref := z, pmem := (pmem s)(slot va := ?e)\<rparr>)"
    using pg_map_empty [OF w absent refl] by blast
  show "\<exists>s1. pg_map (dir_of s) va (pg_to_addr_pa s (hi p)) b s = Some s1 \<and> mm s1 = mm s \<and>
      demand (list_insert_before (fifo_of s) (page_node (hi p)) (set_va (hi p) va s1)) U slot t vs hs [p] [] ls (M(va \<mapsto> f)) n \<and> pg_va (set_va (hi p) va s1) p = va"
    unfolding fr m1 using map_demand [OF d va b f, of _ z] by (simp add: set_va_def lp)
  let ?v = "set_va (hi p) va s"
  have v: "pmem ?v = pmem s" "pg_ref ?v = pg_ref s" by (simp_all add: set_va_def)
  have w': "walk_slot ?v (dir_of s) va = Some (slot va)" using w walk_slot_cong [OF v(1)] by simp
  have a': "ent_sign (pmem ?v (slot va)) AND 1 = 0" using absent v by simp
  obtain z' where m2: "pg_map (dir_of s) va ?fr b ?v = Some (?v\<lparr>pg_ref := z', pmem := (pmem ?v)(slot va := mapped_entry ?fr b (pmem ?v (slot va)))\<rparr>)"
    using pg_map_empty [OF w' a' refl] by blast
  have "?v\<lparr>pg_ref := z', pmem := (pmem ?v)(slot va := mapped_entry ?fr b (pmem ?v (slot va)))\<rparr> = s\<lparr>pg_ref := z', pmem := (pmem s)(slot va := ?e), pg_va := (pg_va s)(p := va)\<rparr>"
    by (simp add: set_va_def lp)
  then show "\<exists>s1. pg_map (dir_of s) va (pg_to_addr_pa s (hi p)) b (set_va (hi p) va s) = Some s1 \<and> mm s1 = mm s \<and>
      demand (list_insert_before (fifo_of s) (page_node (hi p)) s1) U slot t vs hs [p] [] ls (M(va \<mapsto> f)) n \<and> pg_va s1 p = va"
    unfolding fr m2 using map_demand [OF d va b f, of _ z'] by (simp add: set_va_def)
qed

lemma swap_in_demand:
  assumes d: "demand s U slot t vs hs rs [] (p # ls) M (Suc n)" and va: "va \<in> U" "va \<notin> pg_va s ` set rs" and M: "M va = Some f"
  shows "\<exists>s'. swap_in (mm s) va sg s = Some s' \<and> demand s' U slot t vs (hs @ rs) [p] [] ls (M(va \<mapsto> f)) n \<and> pg_va s' p = va"
proof -
  have w: "walk_slot s (dir_of s) va = Some (slot va)" using d va(1) by (simp add: demand_def demand_pages_def)
  obtain pte where pte: "get_pte (dir_of s) va 0 s = Some (pte, s)" "kpa pte = slot va" using get_pte_present [OF w] by blast
  obtain s1 where s1: "alloc_page 1 s = Some (hi p, s1)" "demand s1 U slot t vs (hs @ rs) [] [p] ls M n" "mm s1 = mm s" "mm_pde s1 = mm_pde s"
    using alloc_demand [OF d] by blast
  have lay: "demand_layout s1 U slot ((hs @ rs) @ [] @ [p] @ ls) t vs" using s1(2) by (simp only: demand_def)
  have pC: "p \<in> set ((hs @ rs) @ [] @ [p] @ ls)" by simp
  note F = layout_frame [OF lay pC]
  have ph: "pmem s1 (slot va) = swap_entry va" "slot_holds s1 va f" using s1(2) va(1) M by (auto simp: demand_def demand_pages_def page_holds_def)
  let ?s2 = "swap_read (pg_to_addr_la s1 (hi p)) pte s1"
  have p2: "pmem ?s2 a = (if a - frame_of s1 p < PAGE_SIZE then f ((a - frame_of s1 p) div 4) else pmem s1 a)" for a
    using swap_read_slot [OF ph(2), of pte "frame_of s1 p + VERTUAL_MEM"] ph(1) pte(2) F by (simp add: ld_def)
  obtain m where m: "?s2 = s1\<lparr>pmem := m\<rparr>" using swap_read_modifies by blast
  then have pm: "pmem ?s2 = m" by simp
  have "\<forall>a. PAGE_SIZE \<le> a - frame_of s1 p \<longrightarrow> m a = pmem s1 a" using p2 unfolding pm by (simp add: not_less [symmetric])
  then have d2: "demand ?s2 U slot t vs (hs @ rs) [] [p] ls M n" unfolding m by (rule limbo_demand [OF s1(2)])
  have fo: "frame_of ?s2 p = frame_of s1 p" unfolding m by (simp add: frame_of_def pg_to_addr_pa_def)
  have f2: "\<forall>j < 1024. pmem ?s2 (frame_of ?s2 p + 4 * j) = f j" unfolding p2 fo using in_frame times4_div by simp
  have "page_holds ?s2 slot [] M va" using d2 va(1) by (simp add: demand_def demand_pages_def)
  then have "ent_sign (pmem ?s2 (slot va)) AND 1 = 0" using M swap_entry_absent by (simp add: page_holds_def)
  from map_new_page(1) [OF d2 va(1) _ f2 this, of 7] obtain s3 where s3: "pg_map (dir_of ?s2) va (pg_to_addr_pa ?s2 (hi p)) 7 ?s2 = Some s3"
    "demand (list_insert_before (fifo_of ?s2) (page_node (hi p)) (set_va (hi p) va s3)) U slot t vs (hs @ rs) [p] [] ls (M(va \<mapsto> f)) n" "pg_va (set_va (hi p) va s3) p = va" by auto
  have "mm ?s2 = mm s" unfolding m using s1(3) by simp
  then show ?thesis
    using s3 pte(1) s1(1) by (simp add: swap_in_def Let_def)
qed

lemma do_swap_page_demand:
  assumes d: "demand s U slot t vs hs rs [] (p # ls) M (Suc n)" and va: "va \<in> U" "va \<notin> pg_va s ` set rs" and sg: "sg = 5 \<or> sg = 7"
  shows "\<exists>s' f. do_swap_page va sg s = Some s' \<and> demand s' U slot t vs (hs @ rs) [p] [] ls (M(va \<mapsto> f)) n \<and> pg_va s' p = va \<and> (\<forall>g. M va = Some g \<longrightarrow> f = g)"
proof -
  have w: "walk_slot s (dir_of s) va = Some (slot va)" and ph: "page_holds s slot rs M va"
    using d va(1) by (simp_all add: demand_def demand_pages_def)
  obtain pte where pte: "get_pte (dir_of s) va 1 s = Some (pte, s)" "kpa pte = slot va" using get_pte_present [OF w] by blast
  have e: "ld s pte = pmem s (slot va)" using pte(2) by (simp add: ld_def)
  show ?thesis
  proof (cases "M va")
    case None
    then have z: "pmem s (slot va) = 0" using ph va(2) by (simp add: page_holds_def)
    obtain s1 where s1: "alloc_page 1 s = Some (hi p, s1)" "demand s1 U slot t vs (hs @ rs) [] [p] ls M n" "mm s1 = mm s" "mm_pde s1 = mm_pde s"
        "pmem s1 (slot va) = 0"
      using alloc_demand [OF d] va z by auto
    have "low_page p" using d by (simp add: demand_def demand_layout_def)
    then have nn: "hi p \<noteq> NULL" by (rule low_hi(5))
    have b: "(ucast sg :: u8) AND 1 = 1" using sg by auto
    have "ent_sign (pmem s1 (slot va)) AND 1 = 0" by (simp add: s1(5) ent_sign_def)
    from map_new_page(2) [OF s1(2) va(1) b _ this, of "\<lambda>j. pmem s1 (frame_of s1 p + 4 * j)"] obtain s2 where
      s2: "pg_map (dir_of s1) va (pg_to_addr_pa s1 (hi p)) (ucast sg) (set_va (hi p) va s1) = Some s2" "mm s2 = mm s1"
        "demand (list_insert_before (fifo_of s1) (page_node (hi p)) s2) U slot t vs (hs @ rs) [p] [] ls (M(va \<mapsto> (\<lambda>j. pmem s1 (frame_of s1 p + 4 * j)))) n" "pg_va s2 p = va"
      by auto
    have "dir_of (set_va (hi p) va s1) = dir_of s1" "pg_to_addr_pa (set_va (hi p) va s1) (hi p) = pg_to_addr_pa s1 (hi p)"
      by (simp_all add: set_va_def pg_to_addr_pa_def)
    moreover have "ent_addr (0 :: u32) = 0" "ent_sign (0 :: u32) = 0" by (simp_all add: ent_addr_def ent_sign_def)
    ultimately have "do_swap_page va sg s = Some (list_insert_before (fifo_of s1) (page_node (hi p)) s2)"
      using pte(1) e z s1(1) s2(1,2) nn by (simp add: do_swap_page_def Let_def)
    then show ?thesis using s2(3,4) None by auto
  next
    case (Some f)
    then have z: "pmem s (slot va) = swap_entry va" using ph va(2) by (simp add: page_holds_def)
    have "unat va div 4096 \<notin> {1, 3, 5, 7, 9, 11, 13}" using d va(1) layoutD(10) [of s U slot _ t vs va] by (auto simp: demand_def usable_def)
    then have "\<not> (ent_addr (swap_entry va) = 0 \<and> ent_sign (swap_entry va) = 0)" using swap_marker_ambiguous [of va] by blast
    then have "do_swap_page va sg s = swap_in (mm s) va sg s" using pte(1) e z by (auto simp: do_swap_page_def)
    then show ?thesis using swap_in_demand [OF d va Some, of sg] Some by auto
  qed
qed

lemma do_swap_demand:
  assumes d: "demand s U slot t vs hs rs [] (p # ls) M (Suc n)" and va: "va = ROUNDDOWN cr2" "va \<in> U" "va \<notin> pg_va s ` set rs"
  shows "\<exists>s' f. do_swap cr2 w s = Some (Inr s') \<and> demand s' U slot t vs (hs @ rs) [p] [] ls (M(va \<mapsto> f)) n \<and> pg_va s' p = va \<and> (\<forall>g. M va = Some g \<longrightarrow> f = g)"
proof -
  have lay: "demand_layout s U slot (hs @ rs @ [] @ p # ls) t vs" and li: "demand_lists s hs rs (p # ls) t vs (Suc n)" using d by (simp_all add: demand_def)
  have us: "usable s slot (hs @ rs @ [] @ p # ls) vs va" using layoutD(10) [OF lay va(2)] .
  have vl: "vma_list s (mm s) vs" using listsD(7) [OF li] by (simp add: vma_list_def)
  obtain v s1 where fv: "find_vma (mm s) va s = Some (v, s1)" "v \<noteq> NULL" "v \<in> set vs" "vma_has s va v"
      "s1 = s \<or> s1 = s\<lparr>mm_cache := (mm_cache s)(kpa (mm s) := v)\<rparr>"
    using find_vma_spec [OF vl layoutD(12) [OF lay] listsD(8) [OF li], of va] us unfolding usable_def by blast
  have d1: "demand s1 U slot t vs hs rs [] (p # ls) M (Suc n)" using fv(5) cache_demand [OF d fv(3)] d by auto
  have f1: "vma_flags s1 = vma_flags s" "pg_va s1 = pg_va s" using fv(5) by auto
  have fl: "vma_flags s (kpa v) AND 2 \<noteq> 0" "vma_flags s (kpa v) AND 5 \<noteq> 0" using us fv(3,4) by (auto simp: usable_def)
  let ?sg = "if vma_flags s1 (kpa v) AND 2 = 1 then 7 else 5 :: u32"
  have sg: "?sg = 5 \<or> ?sg = 7" by simp
  obtain s' f where s': "do_swap_page va ?sg s1 = Some s'" "demand s' U slot t vs (hs @ rs) [p] [] ls (M(va \<mapsto> f)) n" "pg_va s' p = va" "\<forall>g. M va = Some g \<longrightarrow> f = g"
    using do_swap_page_demand [OF d1 va(2) _ sg] va(3) f1(2) by auto
  have "do_swap cr2 w s = Some (Inr s')"
    unfolding do_swap_def Let_def va(1) [symmetric] using fv(1,2) fl s'(1) f1 by simp
  then show ?thesis using s'(2-4) by blast
qed

end
