(* ===== verification/Demand.thy ===== *)
theory Demand
  imports DemandState
begin

text \<open>
  Demand paging from the program's point of view. An access translates its address, and a translation that fails raises the page fault
  of \<open>mm/vmm.c\<close> and is tried again. The theory shows that this implements a plain memory although every page that comes in pushes another one out to
  the disk, and that \<open>test_swap\<close> of \<open>mm/swap.c\<close> therefore reads what it has written.
\<close>

section \<open>Accesses\<close>

text \<open>
  The processor in kernel mode, where the write bit of an entry is not checked. The bits 0 and 1 of the error code are present and write. The value
  \<open>None\<close> is an access that faults for ever or a handler that does not return, \<open>Inl\<close> a panic.
\<close>

partial_function (option) access :: "bool \<Rightarrow> u32 \<Rightarrow> 'a machine_scheme \<Rightarrow> (panic + u32 \<times> 'a machine_scheme) option" where
  "access wr va s =
     (case mmu s (pd s) va of
        Some pa \<Rightarrow> Some (Inr (pa, s))
      | None \<Rightarrow> do {
          r \<leftarrow> page_fault (if wr then 2 else 0) va s;
          (case r of Inl e \<Rightarrow> Some (Inl e) | Inr s \<Rightarrow> access wr va s)
        })"

text \<open>A byte is stored into the lane of its word; the loads are of aligned words.\<close>

definition put_byte :: "u32 \<Rightarrow> u8 \<Rightarrow> u32 \<Rightarrow> u32" where
  "put_byte lane b w = (w AND NOT (push_bit (8 * unat lane) 0xFF)) OR push_bit (8 * unat lane) (ucast b)"

definition store_byte :: "u32 \<Rightarrow> u8 \<Rightarrow> 'a machine_scheme \<Rightarrow> (panic + 'a machine_scheme) option" where
  "store_byte va b s =
     do {
       r \<leftarrow> access True va s;
       Some (case r of
               Inl e \<Rightarrow> Inl e
             | Inr (pa, s) \<Rightarrow> let a = pa AND NOT 3 in Inr (s\<lparr>pmem := (pmem s)(a := put_byte (pa AND 3) b (pmem s a))\<rparr>))
     }"

definition load_word :: "u32 \<Rightarrow> 'a machine_scheme \<Rightarrow> (panic + u32 \<times> 'a machine_scheme) option" where
  "load_word va s =
     do {
       r \<leftarrow> access False va s;
       Some (case r of Inl e \<Rightarrow> Inl e | Inr (pa, s) \<Rightarrow> Inr (pmem s (pa AND NOT 3), s))
     }"

datatype mem_op = Store u32 u8 | Load u32

fun run_ops :: "mem_op list \<Rightarrow> 'a machine_scheme \<Rightarrow> (panic + u32 list \<times> 'a machine_scheme) option" where
  "run_ops [] s = Some (Inr ([], s))"
| "run_ops (Store va b # ops) s =
     do {
       r \<leftarrow> store_byte va b s;
       (case r of Inl e \<Rightarrow> Some (Inl e) | Inr s \<Rightarrow> run_ops ops s)
     }"
| "run_ops (Load va # ops) s =
     do {
       r \<leftarrow> load_word va s;
       (case r of
          Inl e \<Rightarrow> Some (Inl e)
        | Inr (w, s) \<Rightarrow> map_option (map_sum id (map_prod (Cons w) id)) (run_ops ops s))
     }"

section \<open>The test of the swapping\<close>

text \<open>The accesses of \<open>test_swap\<close>: its stores and the words it prints.\<close>

definition test_swap_ops :: "mem_op list" where
  "test_swap_ops =
     [Store 0xF00000 0x12, Store 0xF00004 0xAA, Load 0xF00000,
      Store 0xF02000 0x34, Load 0xF02000,
      Store 0xF00008 0x56, Load 0xF00000, Load 0xF00004, Load 0xF00008,
      Store 0xF02004 0x38, Load 0xF02000, Load 0xF02004,
      Store 0xF0000C 0x11, Load 0xF00000, Load 0xF00004, Load 0xF00008, Load 0xF0000C]"

text \<open>The panic with the message \<open>wrong!\<close> is \<open>Inl None\<close>, one of the fault handler \<open>Inl (Some e)\<close>; the result has the words that are printed.\<close>

definition test_swap :: "'a machine_scheme \<Rightarrow> (panic option + u32 list \<times> 'a machine_scheme) option" where
  "test_swap s =
     do {
       (vma, s) \<leftarrow> create_vma (mm s) 0xF00000 0xF04000 7 s;
       (found, s) \<leftarrow> find_vma (mm s) 0xF00230 s;
       if found = vma then map_option (map_sum Some id) (run_ops test_swap_ops s)
       else Some (Inl None)
     }"

section \<open>The specification\<close>

text \<open>The abstract memory: a page and the index of a word in it.\<close>

type_synonym memory = "u32 \<Rightarrow> u32 \<Rightarrow> u32"

definition word_index :: "u32 \<Rightarrow> u32" where
  "word_index va = (va AND 0xFFF) div 4"

definition mem_store :: "u32 \<Rightarrow> u8 \<Rightarrow> memory \<Rightarrow> memory" where
  "mem_store va b m =
     (let pg = ROUNDDOWN va; i = word_index va
      in m(pg := (m pg)(i := put_byte (va AND 3) b (m pg i))))"

fun spec_ops :: "mem_op list \<Rightarrow> memory \<Rightarrow> u32 list \<times> memory" where
  "spec_ops [] m = ([], m)"
| "spec_ops (Store va b # ops) m = spec_ops ops (mem_store va b m)"
| "spec_ops (Load va # ops) m = map_prod (Cons (m (ROUNDDOWN va) (word_index va))) id (spec_ops ops m)"

text \<open>How often the program goes on to another page, if \<open>cur\<close> is the page in memory.\<close>

fun op_page :: "mem_op \<Rightarrow> u32" where
  "op_page (Store va b) = ROUNDDOWN va"
| "op_page (Load va) = ROUNDDOWN va"

fun page_switches :: "u32 option \<Rightarrow> mem_op list \<Rightarrow> nat" where
  "page_switches cur [] = 0"
| "page_switches cur (x # ops) = (if cur = Some (op_page x) then 0 else 1) + page_switches (Some (op_page x)) ops"

text \<open>The invariant of \<open>DemandState\<close> without its lists; \<open>cur\<close> is the page in memory.\<close>

definition paged :: "'a machine_scheme \<Rightarrow> u32 set \<Rightarrow> (u32 \<Rightarrow> u32) \<Rightarrow> u32 \<Rightarrow> u32 list \<Rightarrow> u32 option \<Rightarrow> (u32 \<Rightarrow> (u32 \<Rightarrow> u32) option) \<Rightarrow> nat \<Rightarrow> bool" where
  "paged s U slot t vs cur M n \<longleftrightarrow> (\<exists>hs rs ls. demand s U slot t vs hs rs [] ls M n \<and> cur = (case rs of [] \<Rightarrow> None | r # _ \<Rightarrow> Some (pg_va s r)))"

section \<open>Accesses in such a state\<close>

lemma ROUNDDOWN_and: "ROUNDDOWN va = va AND NOT 0xFFF"
proof -
  have m: "(0xFFF :: u32) = mask 12" by (simp add: mask_eq_exp_minus_1)
  have "va mod PAGE_SIZE = va AND 0xFFF" unfolding m by (simp add: take_bit_eq_mask [symmetric] take_bit_eq_mod)
  moreover have "va = (va AND NOT 0xFFF) + (va AND 0xFFF)" by (subst disjunctive_add) (auto simp: bit_simps intro!: bit_word_eqI)
  ultimately show ?thesis by (simp add: ROUNDDOWN_def algebra_simps)
qed

lemma rounddown_index: "drop_bit 12 (ROUNDDOWN va) = drop_bit 12 va" "drop_bit 22 (ROUNDDOWN va) = drop_bit 22 va"
proof -
  have m: "(0xFFF :: u32) = mask 12" by (simp add: mask_eq_exp_minus_1)
  show "drop_bit 12 (ROUNDDOWN va) = drop_bit 12 va" "drop_bit 22 (ROUNDDOWN va) = drop_bit 22 va"
    unfolding ROUNDDOWN_and m by (rule bit_word_eqI, auto simp: bit_simps dest: bit_imp_le_length)+
qed

lemma walk_slot_page: "walk_slot s dir (ROUNDDOWN va) = walk_slot s dir va"
  unfolding walk_slot_def pde_slot_def pte_slot_def rounddown_index ..

lemma word_index_lt: "word_index va < 1024"
proof -
  have "va AND 0xFFF \<le> 0xFFF" by (rule word_and_le1)
  then have "unat (va AND 0xFFF) \<le> 4095" by (simp add: word_le_nat_alt)
  then show ?thesis by (simp add: word_index_def word_less_nat_alt unat_div)
qed

lemma frame_word:
  assumes "frame = push_bit 12 fn"
  shows "(frame OR (va AND 0xFFF)) AND NOT 3 = frame + 4 * word_index va" and "(frame OR (va AND 0xFFF)) AND 3 = va AND 3"
proof -
  have m: "(0xFFF :: u32) = mask 12" "(3 :: u32) = mask 2" by (simp_all add: mask_eq_exp_minus_1)
  have "4 * word_index va = push_bit 2 (drop_bit 2 (va AND 0xFFF))" by (simp add: word_index_def push_bit_eq_mult drop_bit_eq_div)
  also have "\<dots> = (va AND mask 12) AND NOT (mask 2)"
  proof -
    have "Suc (Suc (n - 2)) = n" if "2 \<le> n" for n using that by linarith
    then show ?thesis unfolding m(1) by (intro bit_word_eqI) (auto simp: bit_simps)
  qed
  finally have i: "4 * word_index va = (va AND mask 12) AND NOT (mask 2)" .
  have "frame + 4 * word_index va = frame OR ((va AND mask 12) AND NOT (mask 2))"
    unfolding i assms by (rule disjunctive_add) (auto simp: bit_simps)
  then show "(frame OR (va AND 0xFFF)) AND NOT 3 = frame + 4 * word_index va"
    unfolding assms m by (auto simp: bit_simps intro!: bit_word_eqI)
  show "(frame OR (va AND 0xFFF)) AND 3 = va AND 3"
    unfolding assms m by (auto simp: bit_simps intro!: bit_word_eqI)
qed

lemma mmu_resident:
  assumes d: "demand s U slot t vs hs [r] xs ls M n" and va: "ROUNDDOWN va = pg_va s r"
  shows "mmu s (pd s) va = Some (frame_of s r OR (va AND 0xFFF))" and "\<exists>f. M (ROUNDDOWN va) = Some f \<and> (\<forall>j < 1024. pmem s (frame_of s r + 4 * j) = f j)"
proof -
  have vU: "pg_va s r \<in> U" and pd: "pd s = dir_of s" using d by (auto simp: demand_def demand_pages_def demand_layout_def)
  then have w: "walk_slot s (pd s) va = Some (slot (pg_va s r))" and ph: "page_holds s slot [r] M (pg_va s r)"
    using d walk_slot_page [of s "dir_of s" va] va by (auto simp: demand_def demand_pages_def)
  show "mmu s (pd s) va = Some (frame_of s r OR (va AND 0xFFF))" using ph by (auto simp: mmu_walk w page_holds_def)
  show "\<exists>f. M (ROUNDDOWN va) = Some f \<and> (\<forall>j < 1024. pmem s (frame_of s r + 4 * j) = f j)" using ph va by (auto simp: page_holds_def)
qed

lemma mmu_absent:
  assumes d: "demand s U slot t vs hs rs xs ls M n" and va: "ROUNDDOWN va \<in> U" "ROUNDDOWN va \<notin> pg_va s ` set rs"
  shows "mmu s (pd s) va = None"
proof -
  have pd: "pd s = dir_of s" using d by (simp add: demand_def demand_layout_def)
  then have w: "walk_slot s (pd s) va = Some (slot (ROUNDDOWN va))" and ph: "page_holds s slot rs M (ROUNDDOWN va)"
    using d walk_slot_page [of s "dir_of s" va] va by (auto simp: demand_def demand_pages_def)
  then show ?thesis using va(2) swap_entry_absent by (auto simp: mmu_walk page_holds_def ent_sign_def split: option.splits)
qed

lemma access_demand:
  assumes d: "demand s U slot t vs hs rs [] ls M n" and va: "ROUNDDOWN va \<in> U" and n: "ROUNDDOWN va \<in> pg_va s ` set rs \<or> 0 < n"
  shows "\<exists>s' hs' r ls' f. access wr va s = Some (Inr (frame_of s' r OR (va AND 0xFFF), s')) \<and>
    demand s' U slot t vs hs' [r] [] ls' (M(ROUNDDOWN va \<mapsto> f)) (if ROUNDDOWN va \<in> pg_va s ` set rs then n else n - 1) \<and>
    pg_va s' r = ROUNDDOWN va \<and> (\<forall>g. M (ROUNDDOWN va) = Some g \<longrightarrow> f = g)"
proof (cases "ROUNDDOWN va \<in> pg_va s ` set rs")
  case True
  then obtain r where r: "rs = [r]" "ROUNDDOWN va = pg_va s r"
    using d listsD(6) [of s hs rs] by (cases rs; cases "tl rs") (auto simp: demand_def dest!: listsD(6))
  then have d': "demand s U slot t vs hs [r] [] ls M n" using d by simp
  obtain f where f: "M (ROUNDDOWN va) = Some f" using mmu_resident(2) [OF d' r(2)] by blast
  have "access wr va s = Some (Inr (frame_of s r OR (va AND 0xFFF), s))" using mmu_resident(1) [OF d' r(2)] by (subst access.simps) simp
  moreover have "M(ROUNDDOWN va \<mapsto> f) = M" using f by auto
  ultimately show ?thesis using d' r f by (intro exI [of _ s] exI [of _ hs] exI [of _ r] exI [of _ ls] exI [of _ f]) simp
next
  case False
  then obtain n' where n': "n = Suc n'" using n by (cases n) auto
  obtain p ls' where ls: "ls = p # ls'" using d by (cases ls) (auto simp: demand_def demand_lists_def)
  obtain s' f where s': "do_swap va (if wr then 1 else 0) s = Some (Inr s')" "demand s' U slot t vs (hs @ rs) [p] [] ls' (M(ROUNDDOWN va \<mapsto> f)) n'"
      "\<forall>g. M (ROUNDDOWN va) = Some g \<longrightarrow> f = g" and pv: "ROUNDDOWN va = pg_va s' p"
    using do_swap_demand [OF d [unfolded n' ls] refl va False] by metis
  have "access wr va s = access wr va s'"
    using mmu_absent [OF d va False] s'(1) by (subst access.simps) (simp add: page_fault_def Let_def split: if_splits)
  also have "\<dots> = Some (Inr (frame_of s' p OR (va AND 0xFFF), s'))" using mmu_resident(1) [OF s'(2) pv] by (subst access.simps) simp
  finally show ?thesis using s'(2,3) False n' pv
    by (intro exI [of _ s'] exI [of _ "hs @ rs"] exI [of _ p] exI [of _ ls'] exI [of _ f]) simp
qed

lemma access_paged:
  assumes p: "paged s U slot t vs cur M n" and va: "ROUNDDOWN va \<in> U" and n: "page_switches cur [Load va] \<le> n"
  shows "\<exists>s' hs r ls f. access wr va s = Some (Inr (frame_of s' r OR (va AND 0xFFF), s')) \<and>
    demand s' U slot t vs hs [r] [] ls (M(ROUNDDOWN va \<mapsto> f)) (n - page_switches cur [Load va]) \<and>
    pg_va s' r = ROUNDDOWN va \<and> (\<forall>g. M (ROUNDDOWN va) = Some g \<longrightarrow> f = g)"
proof -
  obtain hs rs ls where d: "demand s U slot t vs hs rs [] ls M n" and c: "cur = (case rs of [] \<Rightarrow> None | r # _ \<Rightarrow> Some (pg_va s r))"
    using p by (auto simp: paged_def)
  have "length rs \<le> 1" using d listsD(6) [of s hs rs ls t vs n] by (simp add: demand_def)
  then have "cur = Some (ROUNDDOWN va) \<longleftrightarrow> ROUNDDOWN va \<in> pg_va s ` set rs" using c by (cases rs) auto
  moreover from this have "ROUNDDOWN va \<in> pg_va s ` set rs \<or> 0 < n" using n by (auto split: if_splits)
  ultimately show ?thesis using access_demand [OF d va, of wr] by (auto split: if_splits)
qed

lemma paged_resident: "demand s U slot t vs hs [r] [] ls M n \<Longrightarrow> paged s U slot t vs (Some (pg_va s r)) M n"
  unfolding paged_def by (intro exI [of _ hs] exI [of _ "[r]"] exI [of _ ls]) simp

lemma resident_word:
  assumes "demand s U slot t vs hs [r] [] ls M n"
  shows "(frame_of s r OR (va AND 0xFFF)) AND NOT 3 = frame_of s r + 4 * word_index va" and "(frame_of s r OR (va AND 0xFFF)) AND 3 = va AND 3"
proof -
  have "demand_layout s U slot (hs @ [r] @ [] @ ls) t vs" using assms by (simp only: demand_def)
  then obtain fn where "frame_of s r = push_bit 12 fn" using layoutD(8) [of s U slot "hs @ [r] @ [] @ ls" t vs r] by auto
  then show "(frame_of s r OR (va AND 0xFFF)) AND NOT 3 = frame_of s r + 4 * word_index va" "(frame_of s r OR (va AND 0xFFF)) AND 3 = va AND 3"
    by (rule frame_word)+
qed

lemma store_paged:
  assumes p: "paged s U slot t vs cur M n" and va: "ROUNDDOWN va \<in> U" and n: "page_switches cur [Load va] \<le> n"
  shows "\<exists>s' f. store_byte va b s = Some (Inr s') \<and> (\<forall>g. M (ROUNDDOWN va) = Some g \<longrightarrow> f = g) \<and>
    paged s' U slot t vs (Some (ROUNDDOWN va)) (M(ROUNDDOWN va \<mapsto> f(word_index va := put_byte (va AND 3) b (f (word_index va))))) (n - page_switches cur [Load va])"
proof -
  obtain s1 hs r ls f where a: "access True va s = Some (Inr (frame_of s1 r OR (va AND 0xFFF), s1))"
    and d: "demand s1 U slot t vs hs [r] [] ls (M(ROUNDDOWN va \<mapsto> f)) (n - page_switches cur [Load va])"
    and r: "pg_va s1 r = ROUNDDOWN va" and f: "\<forall>g. M (ROUNDDOWN va) = Some g \<longrightarrow> f = g"
    using access_paged [OF assms, of True] by metis
  let ?i = "word_index va" and ?a = "frame_of s1 r + 4 * word_index va"
  let ?s = "s1\<lparr>pmem := (pmem s1)(?a := put_byte (va AND 3) b (f ?i))\<rparr>"
  have w: "pmem s1 ?a = f ?i" using mmu_resident(2) [OF d r [symmetric]] word_index_lt [of va] by auto
  have "store_byte va b s = Some (Inr ?s)"
    using a w resident_word [OF d, of va] by (simp add: store_byte_def Let_def)
  moreover have "demand ?s U slot t vs hs [r] [] ls (M(ROUNDDOWN va \<mapsto> f(?i := put_byte (va AND 3) b (f ?i)))) (n - page_switches cur [Load va])"
    using store_demand [OF d word_index_lt, of f] r by simp
  from paged_resident [OF this] have "paged ?s U slot t vs (Some (ROUNDDOWN va)) (M(ROUNDDOWN va \<mapsto> f(?i := put_byte (va AND 3) b (f ?i)))) (n - page_switches cur [Load va])"
    using r by simp
  ultimately show ?thesis using f by blast
qed

lemma load_paged:
  assumes p: "paged s U slot t vs cur M n" and va: "ROUNDDOWN va \<in> U" and n: "page_switches cur [Load va] \<le> n"
  shows "\<exists>s' f. load_word va s = Some (Inr (f (word_index va), s')) \<and> (\<forall>g. M (ROUNDDOWN va) = Some g \<longrightarrow> f = g) \<and>
    paged s' U slot t vs (Some (ROUNDDOWN va)) (M(ROUNDDOWN va \<mapsto> f)) (n - page_switches cur [Load va])"
proof -
  obtain s1 hs r ls f where a: "access False va s = Some (Inr (frame_of s1 r OR (va AND 0xFFF), s1))"
    and d: "demand s1 U slot t vs hs [r] [] ls (M(ROUNDDOWN va \<mapsto> f)) (n - page_switches cur [Load va])"
    and r: "pg_va s1 r = ROUNDDOWN va" and f: "\<forall>g. M (ROUNDDOWN va) = Some g \<longrightarrow> f = g"
    using access_paged [OF assms, of False] by metis
  have w: "pmem s1 (frame_of s1 r + 4 * word_index va) = f (word_index va)" using mmu_resident(2) [OF d r [symmetric]] word_index_lt [of va] by auto
  then have "load_word va s = Some (Inr (f (word_index va), s1))" using a resident_word [OF d, of va] by (simp add: load_word_def)
  then show ?thesis using f paged_resident [OF d] r by auto
qed

text \<open>One operation, with the plain memory that the rest of the program sees afterwards: the memory before it differs only in the word stored.\<close>

lemma run_op:
  assumes p: "paged s U slot t vs cur M n" and U: "op_page x \<in> U" and n: "page_switches cur [x] \<le> n"
  shows "\<exists>s1 M1. paged s1 U slot t vs (Some (op_page x)) M1 (n - page_switches cur [x]) \<and>
    (\<forall>ops m s'. run_ops ops s1 = Some (Inr (fst (spec_ops ops m), s')) \<and> (\<forall>va f. M1 va = Some f \<longrightarrow> m va = f) \<longrightarrow>
      (\<exists>m0. run_ops (x # ops) s = Some (Inr (fst (spec_ops (x # ops) m0), s')) \<and> snd (spec_ops (x # ops) m0) = snd (spec_ops ops m) \<and>
        (\<forall>va f. M va = Some f \<longrightarrow> m0 va = f)))"
proof (cases x)
  case (Store va b)
  let ?i = "word_index va" and ?pg = "ROUNDDOWN va"
  have pg: "op_page x = ?pg" "page_switches cur [Load va] = page_switches cur [x]" using Store by simp_all
  obtain s1 f where s1: "store_byte va b s = Some (Inr s1)" "\<forall>g. M ?pg = Some g \<longrightarrow> f = g"
      "paged s1 U slot t vs (Some ?pg) (M(?pg \<mapsto> f(?i := put_byte (va AND 3) b (f ?i)))) (n - page_switches cur [x])"
    using store_paged [OF p, of va b] U n unfolding pg by blast
  have "\<exists>m0. run_ops (x # ops) s = Some (Inr (fst (spec_ops (x # ops) m0), s')) \<and> snd (spec_ops (x # ops) m0) = snd (spec_ops ops m) \<and> (\<forall>va f. M va = Some f \<longrightarrow> m0 va = f)"
    if r: "run_ops ops s1 = Some (Inr (fst (spec_ops ops m), s'))" and m: "\<forall>va' g. (M(?pg \<mapsto> f(?i := put_byte (va AND 3) b (f ?i)))) va' = Some g \<longrightarrow> m va' = g" for ops m s'
  proof -
    define m0 where "m0 = m(?pg := f)"
    have "m ?pg = f(?i := put_byte (va AND 3) b (f ?i))" using m by simp
    then have "mem_store va b m0 = m" by (simp add: m0_def mem_store_def Let_def fun_upd_idem)
    then have "spec_ops (x # ops) m0 = spec_ops ops m" using Store by simp
    moreover have "run_ops (x # ops) s = Some (Inr (fst (spec_ops ops m), s'))" using s1(1) r Store by simp
    moreover have "\<forall>va g. M va = Some g \<longrightarrow> m0 va = g" using m s1(2) by (auto simp: m0_def)
    ultimately show ?thesis by (intro exI [of _ m0]) simp
  qed
  then show ?thesis using s1(3) unfolding pg(1) by blast
next
  case (Load va)
  let ?pg = "ROUNDDOWN va"
  have pg: "op_page x = ?pg" using Load by simp
  obtain s1 f where s1: "load_word va s = Some (Inr (f (word_index va), s1))" "\<forall>g. M ?pg = Some g \<longrightarrow> f = g"
      "paged s1 U slot t vs (Some ?pg) (M(?pg \<mapsto> f)) (n - page_switches cur [x])"
    using load_paged [OF p, of va] U n Load unfolding pg by auto
  have "\<exists>m0. run_ops (x # ops) s = Some (Inr (fst (spec_ops (x # ops) m0), s')) \<and> snd (spec_ops (x # ops) m0) = snd (spec_ops ops m) \<and> (\<forall>va f. M va = Some f \<longrightarrow> m0 va = f)"
    if r: "run_ops ops s1 = Some (Inr (fst (spec_ops ops m), s'))" and m: "\<forall>va' g. (M(?pg \<mapsto> f)) va' = Some g \<longrightarrow> m va' = g" for ops m s'
  proof -
    have mf: "m ?pg = f" using m by simp
    then have "spec_ops (x # ops) m = (f (word_index va) # fst (spec_ops ops m), snd (spec_ops ops m))"
      using Load by (simp add: map_prod_def split: prod.split)
    moreover have "run_ops (x # ops) s = Some (Inr (f (word_index va) # fst (spec_ops ops m), s'))" using s1(1) r Load by simp
    moreover have "\<forall>va g. M va = Some g \<longrightarrow> m va = g" using m s1(2) mf by (metis fun_upd_apply)
    ultimately show ?thesis by (intro exI [of _ m]) simp
  qed
  then show ?thesis using s1(3) unfolding pg by blast
qed

lemma run_ops_memory:
  assumes "paged s U slot t vs cur M n" and "\<forall>x \<in> set ops. op_page x \<in> U" and "page_switches cur ops \<le> n"
  shows "\<exists>m s' M'. run_ops ops s = Some (Inr (fst (spec_ops ops m), s')) \<and> (\<forall>va f. M va = Some f \<longrightarrow> m va = f) \<and>
    paged s' U slot t vs (if ops = [] then cur else Some (op_page (last ops))) M' (n - page_switches cur ops) \<and>
    (\<forall>va f. M' va = Some f \<longrightarrow> snd (spec_ops ops m) va = f)"
  using assms
proof (induction ops arbitrary: s cur M n)
  case Nil
  then show ?case
    by (intro exI [of _ "\<lambda>va. case M va of Some f \<Rightarrow> f | None \<Rightarrow> \<lambda>_. 0"] exI [of _ s] exI [of _ M]) simp
next
  case (Cons x ops)
  let ?pg = "op_page x" and ?k = "page_switches cur [x]"
  have k: "page_switches cur (x # ops) = ?k + page_switches (Some ?pg) ops" by simp
  have U: "?pg \<in> U" "\<forall>x \<in> set ops. op_page x \<in> U" and n: "?k \<le> n" "page_switches (Some ?pg) ops \<le> n - ?k" using Cons.prems(2,3) k by auto
  obtain s1 M1 where s1: "paged s1 U slot t vs (Some ?pg) M1 (n - ?k)"
    and run: "\<And>ops m s'. run_ops ops s1 = Some (Inr (fst (spec_ops ops m), s')) \<Longrightarrow> \<forall>va f. M1 va = Some f \<longrightarrow> m va = f \<Longrightarrow>
      \<exists>m0. run_ops (x # ops) s = Some (Inr (fst (spec_ops (x # ops) m0), s')) \<and> snd (spec_ops (x # ops) m0) = snd (spec_ops ops m) \<and> (\<forall>va f. M va = Some f \<longrightarrow> m0 va = f)"
    using run_op [OF Cons.prems(1) U(1) n(1)] by blast
  obtain m s' M' where m: "run_ops ops s1 = Some (Inr (fst (spec_ops ops m), s'))" "\<forall>va f. M1 va = Some f \<longrightarrow> m va = f"
      "paged s' U slot t vs (if ops = [] then Some ?pg else Some (op_page (last ops))) M' (n - ?k - page_switches (Some ?pg) ops)"
      "\<forall>va f. M' va = Some f \<longrightarrow> snd (spec_ops ops m) va = f"
    using Cons.IH [OF s1 U(2) n(2)] by blast
  obtain m0 where m0: "run_ops (x # ops) s = Some (Inr (fst (spec_ops (x # ops) m0), s'))" "snd (spec_ops (x # ops) m0) = snd (spec_ops ops m)"
      "\<forall>va f. M va = Some f \<longrightarrow> m0 va = f"
    using run [OF m(1,2)] by blast
  have "paged s' U slot t vs (if x # ops = [] then cur else Some (op_page (last (x # ops)))) M' (n - page_switches cur (x # ops))"
    using m(3) unfolding k by (simp split: if_splits)
  moreover have "\<forall>va f. M' va = Some f \<longrightarrow> snd (spec_ops (x # ops) m0) va = f" unfolding m0(2) by (rule m(4))
  ultimately show ?case using m0(1,3) by (intro exI conjI)
qed

lemma low_byte: "put_byte 0 b w AND 0xFF = ucast b"
proof -
  have m: "(0xFF :: u32) = mask 8" by (simp add: mask_eq_exp_minus_1)
  show ?thesis unfolding put_byte_def m by (rule bit_word_eqI) (auto simp: bit_simps dest: bit_imp_le_length)
qed

lemma test_swap_spec:
  "map (\<lambda>w. w AND 0xFF) (fst (spec_ops test_swap_ops m)) = [0x12, 0x34, 0x12, 0xAA, 0x56, 0x34, 0x38, 0x12, 0xAA, 0x56, 0x11]"
  "page_switches None test_swap_ops = 5" "\<forall>x \<in> set test_swap_ops. op_page x \<in> {0xF00000, 0xF02000}"
  by (simp_all add: test_swap_ops_def mem_store_def ROUNDDOWN_def word_index_def Let_def low_byte)

section \<open>Properties\<close>

text \<open>
  C1. Demand paging implements memory: a sequence of stores and loads on usable pages, with no more page switches than the state has faults left, runs to its end, and its loads
  return what they return on a plain memory \<open>m\<close>. The pages used before have their old contents in \<open>m\<close>; what a page holds at its first
  use is not determined. The state afterwards is of the same kind and has the contents of the plain memory. (On a processor
  that walks the tables for every access.)
\<close>

theorem demand_paging_is_memory:
  assumes "paged s U slot t vs cur M n" and "\<forall>x \<in> set ops. op_page x \<in> U" and "page_switches cur ops \<le> n"
  shows "\<exists>m s' M'. run_ops ops s = Some (Inr (fst (spec_ops ops m), s')) \<and> (\<forall>va f. M va = Some f \<longrightarrow> m va = f) \<and>
    paged s' U slot t vs (if ops = [] then cur else Some (op_page (last ops))) M' (n - page_switches cur ops) \<and>
    (\<forall>va f. M' va = Some f \<longrightarrow> snd (spec_ops ops m) va = f)"
  by (rule run_ops_memory [OF assms])

text \<open>
  The accesses of \<open>test_swap\<close> as such a program: from a state in which the area is listed and the two pages it uses already have a page table, the accesses swap five times, and
  the low bytes of the printed words are those that were stored. (After \<open>init\<close> there is no table for these pages: there the first fault also takes a page for one, which the invariant leaves out.)
\<close>

theorem test_swap_prints:
  assumes c: "create_vma (mm s) 0xF00000 0xF04000 7 s = Some (v, s1)" and p: "paged s1 {0xF00000, 0xF02000} slot t [v] None M n" and n: "5 \<le> n"
  shows "\<exists>outs s'. test_swap s = Some (Inr (outs, s')) \<and>
    map (\<lambda>w. w AND 0xFF) outs = [0x12, 0x34, 0x12, 0xAA, 0x56, 0x34, 0x38, 0x12, 0xAA, 0x56, 0x11]"
proof -
  let ?U = "{0xF00000, 0xF02000} :: u32 set"
  obtain hs rs ls where d: "demand s1 ?U slot t [v] hs rs [] ls M n" and cur: "None = (case rs of [] \<Rightarrow> None | r # _ \<Rightarrow> Some (pg_va s1 r))"
    using p by (auto simp: paged_def)
  have lay: "demand_layout s1 ?U slot (hs @ rs @ [] @ ls) t [v]" and li: "demand_lists s1 hs rs ls t [v] n" using d by (simp_all add: demand_def)
  have "vma_has s1 0xF00000 v" "vma_has s1 0xF02000 v"
    using layoutD(10) [OF lay, of "0xF00000"] layoutD(10) [OF lay, of "0xF02000"] by (simp_all add: usable_def)
  then have h: "vma_has s1 0xF00230 v" by (auto simp: vma_has_def word_le_nat_alt word_less_nat_alt)
  have "vma_list s1 (mm s1) [v]" using listsD(7) [OF li] by (simp add: vma_list_def)
  from find_vma_spec [OF this layoutD(12) [OF lay] listsD(8) [OF li], of "0xF00230"] h
  obtain s2 where fv: "find_vma (mm s1) 0xF00230 s1 = Some (v, s2)" "s2 = s1 \<or> s2 = s1\<lparr>mm_cache := (mm_cache s1)(kpa (mm s1) := v)\<rparr>" by auto
  have "paged s2 ?U slot t [v] None M n"
  proof -
    have "rs = []" using cur by (cases rs) auto
    moreover have "demand s2 ?U slot t [v] hs rs [] ls M n" using fv(2) cache_demand [OF d, of v] d by auto
    ultimately show ?thesis unfolding paged_def by (intro exI [of _ hs] exI [of _ rs] exI [of _ ls]) simp
  qed
  from run_ops_memory [OF this test_swap_spec(3)] obtain m s' where "run_ops test_swap_ops s2 = Some (Inr (fst (spec_ops test_swap_ops m), s'))"
    using n test_swap_spec(2) by auto
  then have "test_swap s = Some (Inr (fst (spec_ops test_swap_ops m), s'))" using c fv(1) by (simp add: test_swap_def)
  then show ?thesis using test_swap_spec(1) by blast
qed

section \<open>Worked example\<close>

text \<open>
  A heap with one free chunk, an empty address space whose directory has a table for the four megabytes
  from 0xC00000, and eight free pages; then the same after \<open>create_vma\<close>.
\<close>

definition swap_fields :: machine where
  "swap_fields = machine0\<lparr>pmem := (\<lambda>_. 0)(0x10600C := 0x200007), mm := ex_mm, mm_pde := (\<lambda>_. 0xC0106000), is_vmm_inited := 1,
     ck_size := (\<lambda>_. 0)(0x3000F4 := 1000), free_page_num := 8, pg_free_pages := (\<lambda>_. 0)(0x108000 := 8)\<rparr>"

abbreviation ex_chain :: "u32 list" where
  "ex_chain \<equiv> [0x108000, 0x108018, 0x108030, 0x108048, 0x108060, 0x108078, 0x108090]"

definition swap_example :: machine where
  "swap_example =
     (let s = list_init (mm_node ex_mm) (list_init (mm_vm_fifo ex_mm) swap_fields);
          s = list_insert_before 0xC0105010 (ck_node 0xC03000F4) (list_init 0xC0105010 s);
          s = list_init 0xC0105000 s
      in fold (list_insert_before 0xC0105000) (map page_node (ex_chain @ [0x1080A8])) s)"

definition demand_example :: machine where
  "demand_example =
     (let s = snd (malloc_split 0xC03000F4 36 swap_example);
          s = s\<lparr>vma_start := (vma_start s)(0x300100 := 0xF00000), vma_end := (vma_end s)(0x300100 := 0xF04000),
             vma_back_link := (vma_back_link s)(0x300100 := ex_mm), vma_flags := (vma_flags s)(0x300100 := 7)\<rparr>
      in (list_insert_after (mm_node ex_mm) (vma_node ex_v1) s)\<lparr>mm_num := (mm_num s)(0x300000 := 1)\<rparr>)"

lemma swap_example_links:
  "get_next swap_example 0xC0105010 = 0xC03000F8" "get_next swap_example 0xC03000F8 = 0xC0105010"
  "get_next swap_example (mm_node ex_mm) = mm_node ex_mm"
  by (simp_all add: swap_example_def swap_fields_def machine0_def list_op_defs Let_def kpa_def page_node_def mm_vm_fifo_def mm_node_def ck_node_def
      get_next_def get_prev_def set_next_def set_prev_def)

lemma swap_example_fields:
  "free_pages_head swap_example = 0xC0105000" "chunk_head swap_example = 0xC0105010" "mm swap_example = ex_mm" "mm_pde swap_example = (\<lambda>_. 0xC0106000)" "pd swap_example = 0xC0106000"
  "mm_cache swap_example = (\<lambda>_. 0)" "vma_flags swap_example = (\<lambda>_. 0)" "pmem swap_example = (\<lambda>_. 0)(0x10600C := 0x200007)"
  "vma_start swap_example = (\<lambda>_. 0)" "vma_end swap_example = (\<lambda>_. 0)" "free_page_num swap_example = 8" "pg_free_pages swap_example = (\<lambda>_. 0)(0x108000 := 8)"
  "pages swap_example = 0x108000" "pt_begin swap_example = 0x1B9000" "is_vmm_inited swap_example = 1" "ck_size swap_example = (\<lambda>_. 0)(0x3000F4 := 1000)"
  "ck_allocated swap_example = (\<lambda>_. 0)" "mm_num swap_example = (\<lambda>_. 0)"
  by (simp_all add: swap_example_def swap_fields_def machine0_def Let_def)

lemma swap_example_create: "create_vma ex_mm 0xF00000 0xF04000 7 swap_example = Some (ex_v1, demand_example)"
proof -
  have mf: "malloc_find 36 0xC0105010 swap_example = Some (Some 0xC03000F4)"
    by (subst malloc_find.simps) (simp add: swap_example_links swap_example_fields node_chunk_def allocated_of_def size_of_def kpa_def)
  let ?s = "snd (malloc_split 0xC03000F4 36 swap_example)"
  have sp: "malloc_split 0xC03000F4 36 swap_example = (ex_v1, ?s)" by (simp add: malloc_split_def Let_def)
  have m: "malloc sizeof_vma_struct swap_example = Some (ex_v1, ?s)"
    using mf sp by (simp add: malloc_def Let_def swap_example_fields)
  have f: "mm_num ?s = (\<lambda>_. 0)" by (simp add: malloc_split_def Let_def set_allocated_def set_size_def swap_example_fields)
  let ?t = "?s\<lparr>vma_start := (vma_start ?s)(0x300100 := 0xF00000), vma_end := (vma_end ?s)(0x300100 := 0xF04000),
     vma_back_link := (vma_back_link ?s)(0x300100 := ex_mm), vma_flags := (vma_flags ?s)(0x300100 := 7)\<rparr>"
  have l: "get_next ?t (mm_node ex_mm) = mm_node ex_mm"
    by (simp add: swap_example_def swap_fields_def machine0_def list_op_defs Let_def kpa_def page_node_def mm_vm_fifo_def mm_node_def ck_node_def
      malloc_split_def set_allocated_def set_size_def get_next_def get_prev_def set_next_def set_prev_def)
  then have "ring_find P (mm_node ex_mm) (mm_node ex_mm) ?t = Some (mm_node ex_mm)" for P by (subst ring_find.simps) simp
  then have "insert_vma ex_mm ex_v1 0xF00000 ?t = Some demand_example"
    using l f by (simp add: insert_vma_def demand_example_def Let_def kpa_def)
  then show ?thesis using m by (simp add: create_vma_def Let_def kpa_def)
qed

lemma demand_example_rings:
  "ring demand_example 0xC0105000 (map page_node (ex_chain @ [0x1080A8]))"
  "ring demand_example (mm_vm_fifo ex_mm) []" "ring demand_example (mm_node ex_mm) [vma_node ex_v1]"
  by (simp_all add: demand_example_def swap_example_def swap_fields_def machine0_def ring_def list_op_defs Let_def kpa_def page_node_def mm_vm_fifo_def mm_node_def vma_node_def
      malloc_split_def ck_node_def set_allocated_def set_size_def get_next_def get_prev_def set_next_def set_prev_def)

lemma demand_example_fields:
  "free_pages_head demand_example = 0xC0105000" "mm demand_example = ex_mm" "mm_pde demand_example = (\<lambda>_. 0xC0106000)" "pd demand_example = 0xC0106000"
  "mm_cache demand_example = (\<lambda>_. 0)" "vma_flags demand_example = (\<lambda>_. 0)(0x300100 := 7)" "pmem demand_example = (\<lambda>_. 0)(0x10600C := 0x200007)"
  "vma_start demand_example = (\<lambda>_. 0)(0x300100 := 0xF00000)" "vma_end demand_example = (\<lambda>_. 0)(0x300100 := 0xF04000)" "free_page_num demand_example = 8"
  "pg_free_pages demand_example = (\<lambda>_. 0)(0x108000 := 8)"
  "pages demand_example = 0x108000" "pt_begin demand_example = 0x1B9000" "is_vmm_inited demand_example = 1"
  by (simp_all add: demand_example_def malloc_split_def set_allocated_def set_size_def swap_example_fields Let_def)

lemma above_apart:
  assumes "unat x < unat f" and "unat f < 0xF0000000"
  shows "PAGE_SIZE \<le> x - (f :: u32)"
proof -
  have "unat (x - f) = unat x + (4294967296 - unat f)" using assms by (simp add: unat_sub_if' unat_word_ariths)
  then show ?thesis using assms by (simp add: word_le_nat_alt)
qed

abbreviation ex_pages :: "u32 set" where "ex_pages \<equiv> {0xF00000, 0xF02000}"
abbreviation ex_slot :: "u32 \<Rightarrow> u32" where "ex_slot va \<equiv> 0x200000 + 4 * (drop_bit 12 va AND 0x3FF)"

lemma demand_example_frames:
  "map (frame_of demand_example) ex_chain = [0x1B9000, 0x1BA000, 0x1BB000, 0x1BC000, 0x1BD000, 0x1BE000, 0x1BF000]"
  by (simp add: frame_of_def pg_to_addr_pa_def page_diff_def demand_example_fields)

lemma demand_example_walk: "va \<in> ex_pages \<Longrightarrow> walk_slot demand_example 0xC0106000 va = Some (ex_slot va)"
  by (auto simp: walk_slot_def ld_def pde_slot_def pte_slot_def kpa_def demand_example_fields ent_sign_def ent_addr_def)

lemma demand_example_apart:
  assumes "f \<in> set [0x1B9000, 0x1BA000, 0x1BB000, 0x1BC000, 0x1BD000, 0x1BE000, 0x1BF000]" and "va \<in> ex_pages"
  shows "frame_apart 0xC0106000 (ex_slot va) f"
proof -
  have ok: "dir_ok 0xC0106000" by (rule outside_dirI [of _ "0x200000"]) (simp_all add: kpa_def)
  have "unat (kpa (pde_slot 0xC0106000 la)) < 0x107000" for la
  proof -
    have "unat (4 * drop_bit 22 la) < 4096"
      using page_index_lt(1) [of la] unat_times4 [of "drop_bit 22 la"] by (simp add: word_less_nat_alt)
    then show ?thesis using ok page_index_lt(1) [of la] by (simp add: dir_ok_def pde_slot_def kpa_def unat_word_ariths)
  qed
  moreover have "0x107000 < unat f" "unat f < 0xF0000000" using assms(1) by auto
  ultimately have "PAGE_SIZE \<le> kpa (pde_slot 0xC0106000 la) - f" for la using above_apart less_trans by blast
  moreover have "outside_dir 0xC0106000 (ex_slot va)" using assms(2) by (intro outside_dirI) (auto simp: kpa_def)
  ultimately show ?thesis using assms by (auto simp: frame_apart_def)
qed

lemma demand_example_layout: "demand_layout demand_example ex_pages ex_slot ex_chain 0x1080A8 [ex_v1]"
proof -
  have fr: "frame_of demand_example ` set ex_chain = set [0x1B9000, 0x1BA000, 0x1BB000, 0x1BC000, 0x1BD000, 0x1BE000, 0x1BF000]"
    unfolding set_map [symmetric] demand_example_frames ..
  have us: "usable demand_example ex_slot ex_chain [ex_v1] va" if va: "va \<in> ex_pages" for va
  proof -
    have "frame_apart 0xC0106000 (ex_slot va) (frame_of demand_example x)" if "x \<in> set ex_chain" for x
      using demand_example_apart [OF _ va] fr that by blast
    moreover from this [of "0x108000"] have "outside_dir 0xC0106000 (ex_slot va)" by (simp add: frame_apart_def)
    moreover have "ROUNDDOWN va = va" "unat va div 4096 \<notin> {1, 3, 5, 7, 9, 11, 13}" "vma_has demand_example va ex_v1"
      using va by (auto simp: ROUNDDOWN_def vma_has_def demand_example_fields kpa_def)
    ultimately show ?thesis unfolding usable_def by (simp add: demand_example_fields kpa_def)
  qed
  have "\<exists>fn < 0x3FFFF. frame_of demand_example x = push_bit 12 fn" if "x \<in> set ex_chain" for x
    by (rule exI [of _ "drop_bit 12 (frame_of demand_example x)"])
      (use that demand_example_frames in auto)
  moreover have "inj_on (frame_of demand_example) (set ex_chain)" using demand_example_frames by (simp add: inj_on_def)
  ultimately show ?thesis
    unfolding demand_layout_def using us by (simp add: demand_example_fields low_page_def ex_addrs)
qed

lemma demand_example_demand: "demand demand_example ex_pages ex_slot 0x1080A8 [ex_v1] [] [] [] ex_chain Map.empty 5"
proof -
  have "demand_lists demand_example [] [] ex_chain 0x1080A8 [ex_v1] 5"
    using demand_example_rings by (simp add: demand_lists_def demand_example_fields free_pages_of_def kpa_def vma_list_def)
  moreover have "demand_pages demand_example ex_pages ex_slot [] Map.empty"
    by (simp add: demand_pages_def page_holds_def demand_example_fields demand_example_walk)
  ultimately show ?thesis using demand_example_layout by (simp add: demand_def)
qed

lemma demand_example_paged: "paged demand_example ex_pages ex_slot 0x1080A8 [ex_v1] None Map.empty 5"
  using demand_example_demand unfolding paged_def by (intro exI [of _ "[]"] exI [of _ ex_chain]) simp

theorem demand_paging_is_memory_witness:
  "\<exists>w s'. run_ops [Store 0xF00004 0x12, Store 0xF02008 0x34, Load 0xF00004] demand_example = Some (Inr ([w], s')) \<and> w AND 0xFF = 0x12"
proof -
  let ?ops = "[Store 0xF00004 0x12, Store 0xF02008 0x34, Load 0xF00004]"
  have "\<forall>x \<in> set ?ops. op_page x \<in> ex_pages" "page_switches None ?ops \<le> 5" by (simp_all add: ROUNDDOWN_def)
  then obtain m s' where r: "run_ops ?ops demand_example = Some (Inr (fst (spec_ops ?ops m), s'))"
    using demand_paging_is_memory [OF demand_example_paged] by blast
  have "fst (spec_ops ?ops m) = [put_byte 0 0x12 (m 0xF00000 1)]" by (simp add: mem_store_def ROUNDDOWN_def word_index_def Let_def)
  then show ?thesis using r low_byte [of "0x12"] by auto
qed

theorem test_swap_prints_witness:
  "\<exists>outs s'. test_swap swap_example = Some (Inr (outs, s')) \<and> map (\<lambda>w. w AND 0xFF) outs = [0x12, 0x34, 0x12, 0xAA, 0x56, 0x34, 0x38, 0x12, 0xAA, 0x56, 0x11]"
  using test_swap_prints [OF _ demand_example_paged, of swap_example] swap_example_create by (simp add: swap_example_fields)

end
