(* ===== verification/Descr.thy ===== *)
theory Descr
  imports Prelude "HOL-Library.Monad_Syntax"
begin

text \<open>
  Segments, gates and the task state segment: \<open>gdt/gdt.c\<close>, \<open>idt/idt.c\<close>, \<open>idt/tss.c\<close>, \<open>idt/pic.c\<close> and the ports
  of \<open>idt/timer.c\<close>, with the structs of \<open>include/gdt.h\<close>, \<open>include/idt.h\<close> and \<open>include/tss.h\<close>. The packed
  structs are read back the way the processor reads them, as 64-bit descriptors; the writes to
  I/O ports are a trace, which \<open>pic_state\<close> reads the way the 8259A does. Addresses the linker
  chooses (\<open>&gdt\<close>, \<open>&idt\<close>, \<open>&tss0\<close>, \<open>kern_stack\<close>, the stubs \<open>_intrs\<close> of \<open>idt/intr.S\<close>) are arguments.
\<close>

section \<open>Data\<close>

record gdtdesc =
  g_limit0_15 :: u16
  g_base0_15 :: u16
  g_base16_23 :: u8
  g_gate_sign :: u8
  g_limit16_19 :: "4 word"
  g_other_sign :: "4 word"
  g_base24_31 :: u8

record idtdesc =
  i_offset0_15 :: u16
  i_selector :: u16
  i_no_use :: u8
  i_gate_sign :: "5 word"
  i_dpl :: "2 word"
  i_p :: "1 word"
  i_offset16_32 :: u16

text \<open>\<open>struct idtframe\<close>: what \<open>intr.S\<close> and the processor push, from the low address up.\<close>

record idtframe =
  fr_my_eax :: u32
  fr_edi :: u32
  fr_esi :: u32
  fr_ebp :: u32
  fr_no_use_esp :: u32
  fr_ebx :: u32
  fr_edx :: u32
  fr_ecx :: u32
  fr_eax :: u32
  fr_intr_No :: u32
  fr_errorCode :: u32
  fr_eip :: u32
  fr_cs :: u32
  fr_eflags :: u32
  fr_esp :: u32
  fr_ss :: u32

text \<open>\<open>struct tss\<close>; only the ring 0 stack and the back link are ever written.\<close>

record tss =
  t_back_link :: u16
  t_bzero :: u16
  t_esp0 :: u32
  t_ss0 :: u16
  t_bzero0 :: u16
  t_esp1 :: u32
  t_ss1 :: u16
  t_bzero1 :: u16
  t_esp2 :: u32
  t_ss2 :: u16
  t_bzero2 :: u16
  t_cr3_PDBR :: u32
  t_eip :: u32
  t_eflags :: u32
  t_eax :: u32
  t_ecx :: u32
  t_edx :: u32
  t_ebx :: u32
  t_esp :: u32
  t_ebp :: u32
  t_esi :: u32
  t_edi :: u32
  t_es :: u16
  t_bzero3 :: u16
  t_cs :: u16
  t_bzero4 :: u16
  t_ss :: u16
  t_bzero5 :: u16
  t_ds :: u16
  t_bzero6 :: u16
  t_fs :: u16
  t_bzero7 :: u16
  t_gs :: u16
  t_bzero8 :: u16
  t_ldt :: u16
  t_bzero9 :: u16
  t_debug_trap_bit :: "1 word"
  t_bzero10 :: "7 word"
  t_io_map_base :: u16

text \<open>The functions that are ever stored in \<open>handlers\<close>, by name.\<close>

datatype handler = Isr_handler | Page_fault | Timer_handler | Kbd_handler
  | Switch_to_user_handler | Switch_to_kern_handler | System_intr

text \<open>\<open>struct gdtr\<close> and \<open>struct idtr\<close>.\<close>

record dtr =
  dtr_limit :: u16
  dtr_base :: u32

record cpu =
  gdt :: "gdtdesc list"
  idt :: "idtdesc list"
  handlers :: "handler list"
  tss0 :: tss
  gdtr :: dtr
  idtr :: dtr
  tr :: u16
  seg_cs :: u16
  seg_ds :: u16
  seg_es :: u16
  seg_ss :: u16
  seg_fs :: u16
  seg_gs :: u16
  eflags :: u32
  cr3 :: u32
  ports :: "(u16 \<times> u8) list"
  jmp_to_old_esp :: u32
  jiffies :: u32

section \<open>Ports and the interrupt flag\<close>

definition outb :: "u16 \<Rightarrow> u8 \<Rightarrow> 'a cpu_scheme \<Rightarrow> 'a cpu_scheme" where
  "outb port v c = c\<lparr>ports := ports c @ [(port, v)]\<rparr>"

definition sti :: "'a cpu_scheme \<Rightarrow> 'a cpu_scheme" where
  "sti c = c\<lparr>eflags := eflags c OR 0x200\<rparr>"

definition cli :: "'a cpu_scheme \<Rightarrow> 'a cpu_scheme" where
  "cli c = c\<lparr>eflags := eflags c AND NOT 0x200\<rparr>"

definition read_eflags :: "'a cpu_scheme \<Rightarrow> u32" where
  "read_eflags c = eflags c"

definition atom_disable_intr :: "'a cpu_scheme \<Rightarrow> i32 \<times> 'a cpu_scheme" where
  "atom_disable_intr c = (if read_eflags c AND 0x200 \<noteq> 0 then (1, cli c) else (0, c))"

definition atom_enable_intr :: "i32 \<Rightarrow> 'a cpu_scheme \<Rightarrow> 'a cpu_scheme" where
  "atom_enable_intr flag c = (if flag \<noteq> 0 then sti c else c)"

definition pic_init :: "'a cpu_scheme \<Rightarrow> 'a cpu_scheme" where
  "pic_init c =
     (let c = outb 0x21 0xFF c;
          c = outb 0xA1 0xFF c;
          c = outb 0x20 0x11 c;
          c = outb 0x21 32 c;
          c = outb 0x21 0x04 c;
          c = outb 0x21 0x03 c;
          c = outb 0xA0 0x11 c;
          c = outb 0xA1 (32 + 8) c;
          c = outb 0xA1 2 c;
          c = outb 0xA1 0x03 c;
          c = outb 0x21 0x00 c;
          c = outb 0xA1 0x00 c
      in sti c)"

definition set_handler :: "i32 \<Rightarrow> handler \<Rightarrow> 'a cpu_scheme \<Rightarrow> 'a cpu_scheme option" where
  "set_handler intr_No h c =
     (if unat intr_No < length (handlers c) then Some (c\<lparr>handlers := (handlers c)[unat intr_No := h]\<rparr>) else None)"

definition timer_intr_init :: "'a cpu_scheme \<Rightarrow> 'a cpu_scheme option" where
  "timer_intr_init c =
     (let c = outb 0x43 0x34 c;
          c = outb 0x40 (ucast (((1193182 :: u32) div 26) AND 0xFF)) c;
          c = outb 0x40 (ucast (drop_bit 8 ((1193182 :: u32) div 26) AND 0xFF)) c
      in set_handler 32 Timer_handler c)"

definition kbd_init :: "'a cpu_scheme \<Rightarrow> 'a cpu_scheme option" where
  "kbd_init c = set_handler 33 Kbd_handler c"

section \<open>Segment descriptors\<close>

text \<open>An index outside the table is a write outside the array: \<open>None\<close>.\<close>

definition set_seg_gate_desc :: "u32 \<Rightarrow> u32 \<Rightarrow> u32 \<Rightarrow> u8 \<Rightarrow> u8 \<Rightarrow> 'a cpu_scheme \<Rightarrow> 'a cpu_scheme option" where
  "set_seg_gate_desc seg_num base limit gate_sign other_sign c =
     (if unat seg_num < length (gdt c) then
        Some (c\<lparr>gdt := (gdt c)[unat seg_num :=
          \<lparr>g_limit0_15 = ucast limit, g_base0_15 = ucast base, g_base16_23 = ucast (drop_bit 16 base),
           g_gate_sign = gate_sign, g_limit16_19 = ucast (drop_bit 16 limit), g_other_sign = ucast other_sign,
           g_base24_31 = ucast (drop_bit 24 base)\<rparr>]\<rparr>)
      else None)"

definition lgdt :: "dtr \<Rightarrow> 'a cpu_scheme \<Rightarrow> 'a cpu_scheme" where
  "lgdt r c = c\<lparr>gdtr := r\<rparr>"

definition gdt_init :: "u32 \<Rightarrow> 'a cpu_scheme \<Rightarrow> 'a cpu_scheme option" where
  "gdt_init gdt_addr c =
     do {
       c \<leftarrow> set_seg_gate_desc 0 0 0 0 0 c;
       c \<leftarrow> set_seg_gate_desc 1 0x00000000 0xFFFFFFFF 0x9A 0x0C c;
       c \<leftarrow> set_seg_gate_desc 2 0x00000000 0xFFFFFFFF 0x92 0x0C c;
       c \<leftarrow> set_seg_gate_desc 3 0x00000000 0xFFFFFFFF 0xFA 0x0C c;
       c \<leftarrow> set_seg_gate_desc 4 0x00000000 0xFFFFFFFF 0xF2 0x0C c;
       let c = lgdt \<lparr>dtr_limit = of_nat (8 * length (gdt c)) - 1, dtr_base = gdt_addr\<rparr> c
       in Some (c\<lparr>seg_cs := 0x08, seg_ds := 0x10, seg_es := 0x10, seg_ss := 0x10, seg_fs := 0x23, seg_gs := 0x23\<rparr>)
     }"

section \<open>Interrupt gates\<close>

abbreviation IGD :: u8 where "IGD \<equiv> 0x1"
abbreviation TGD :: u8 where "TGD \<equiv> 0x2"

definition set_intr_gate_desc :: "u32 \<Rightarrow> u32 \<Rightarrow> u16 \<Rightarrow> u8 \<Rightarrow> u8 \<Rightarrow> u8 \<Rightarrow> 'a cpu_scheme \<Rightarrow> 'a cpu_scheme option" where
  "set_intr_gate_desc intr offset selector gate_sign dpl p c =
     (if unat intr < length (idt c) then
        let d = idt c ! unat intr;
            d = d\<lparr>i_offset0_15 := ucast offset, i_offset16_32 := ucast (drop_bit 16 offset), i_selector := selector\<rparr>;
            d = (if gate_sign = IGD then d\<lparr>i_gate_sign := 0xE\<rparr>
                 else if gate_sign = TGD then d\<lparr>i_gate_sign := 0xF\<rparr> else d);
            d = d\<lparr>i_dpl := ucast dpl, i_p := ucast p, i_no_use := 0\<rparr>
        in Some (c\<lparr>idt := (idt c)[unat intr := d]\<rparr>)
      else None)"

fun init_handlers :: "nat \<Rightarrow> nat \<Rightarrow> 'a cpu_scheme \<Rightarrow> 'a cpu_scheme option" where
  "init_handlers i 0 c = Some c"
| "init_handlers i (Suc n) c = do { c \<leftarrow> set_handler (of_nat i) Isr_handler c; init_handlers (Suc i) n c }"

fun init_gates :: "(nat \<Rightarrow> u32) \<Rightarrow> nat \<Rightarrow> nat \<Rightarrow> 'a cpu_scheme \<Rightarrow> 'a cpu_scheme option" where
  "init_gates intrs i 0 c = Some c"
| "init_gates intrs i (Suc n) c =
     do { c \<leftarrow> set_intr_gate_desc (of_nat i) (intrs i) 0x08 IGD 0x00 1 c; init_gates intrs (Suc i) n c }"

definition lidt :: "dtr \<Rightarrow> 'a cpu_scheme \<Rightarrow> 'a cpu_scheme" where
  "lidt r c = c\<lparr>idtr := r\<rparr>"

definition idt_init :: "(nat \<Rightarrow> u32) \<Rightarrow> u32 \<Rightarrow> 'a cpu_scheme \<Rightarrow> 'a cpu_scheme option" where
  "idt_init intrs idt_addr c =
     do {
       c \<leftarrow> init_handlers 0 256 c;
       c \<leftarrow> init_gates intrs 0 256 c;
       Some (lidt \<lparr>dtr_limit = of_nat (8 * length (idt c)) - 1, dtr_base = idt_addr\<rparr> c)
     }"

section \<open>The task state segment and the mode switches\<close>

text \<open>\<open>struct tss\<close> is packed: its last members are a byte of bit fields and a \<open>u16\<close>, 103 bytes in all.\<close>

abbreviation sizeof_tss :: u32 where "sizeof_tss \<equiv> 103"

definition ltr :: "u16 \<Rightarrow> 'a cpu_scheme \<Rightarrow> 'a cpu_scheme" where
  "ltr offset_in_gdt c = c\<lparr>tr := offset_in_gdt\<rparr>"

definition tss_init :: "(nat \<Rightarrow> u32) \<Rightarrow> u32 \<Rightarrow> u32 \<Rightarrow> 'a cpu_scheme \<Rightarrow> 'a cpu_scheme option" where
  "tss_init intrs tss_addr kern_stack c =
     (let c = c\<lparr>tss0 := (tss0 c)\<lparr>t_back_link := 0, t_ss0 := 0x10, t_esp0 := kern_stack + 2 * PAGE_SIZE\<rparr>\<rparr>
      in do {
        c \<leftarrow> set_seg_gate_desc 5 tss_addr sizeof_tss 0x89 0x04 c;
        let c = ltr (5 * 8) c
        in do {
          c \<leftarrow> set_intr_gate_desc 121 (intrs 121) 0x08 IGD 0x03 1 c;
          c \<leftarrow> set_handler 120 Switch_to_user_handler c;
          c \<leftarrow> set_handler 121 Switch_to_kern_handler c;
          c \<leftarrow> set_intr_gate_desc 0x80 (intrs 0x80) 0x08 IGD 0x03 1 c;
          set_handler 0x80 System_intr c
        }
      })"

text \<open>The frame lies at address \<open>fp\<close>; \<open>esp\<close> is its member at offset 56.\<close>

definition switch_to_user_handler :: "u32 \<Rightarrow> idtframe \<Rightarrow> idtframe" where
  "switch_to_user_handler fp f =
     (let f = f\<lparr>fr_cs := 0x18 OR 0x03\<rparr>;
          f = f\<lparr>fr_ss := 0x20 OR 0x03, fr_my_eax := 0x20 OR 0x03\<rparr>;
          f = f\<lparr>fr_eflags := fr_eflags f OR 0x3000\<rparr>
      in f\<lparr>fr_esp := fp + 56\<rparr>)"

definition switch_to_kern_handler :: "idtframe \<Rightarrow> 'a cpu_scheme \<Rightarrow> idtframe \<times> 'a cpu_scheme" where
  "switch_to_kern_handler f c =
     (let f = f\<lparr>fr_cs := 0x08 OR 0x00\<rparr>;
          f = f\<lparr>fr_my_eax := 0x10 OR 0x00\<rparr>;
          f = f\<lparr>fr_eflags := fr_eflags f AND NOT 0x3000\<rparr>
      in (f, c\<lparr>jmp_to_old_esp := fr_esp f\<rparr>))"

section \<open>What the processor reads\<close>

text \<open>
  A segment descriptor and a gate as the 64-bit words the packed structs occupy, and the fields
  the processor takes from them: base and last byte (in 4 KB units when bit 55 is set), the
  type bits, the privilege level, the present bit.
\<close>

definition seg_word :: "gdtdesc \<Rightarrow> 64 word" where
  "seg_word d = ucast (g_limit0_15 d) OR push_bit 16 (ucast (g_base0_15 d)) OR push_bit 32 (ucast (g_base16_23 d))
     OR push_bit 40 (ucast (g_gate_sign d)) OR push_bit 48 (ucast (g_limit16_19 d))
     OR push_bit 52 (ucast (g_other_sign d)) OR push_bit 56 (ucast (g_base24_31 d))"

record segment =
  sg_base :: u32
  sg_last :: u32
  sg_type :: "5 word"
  sg_dpl :: "2 word"
  sg_present :: bool

definition segment_of :: "64 word \<Rightarrow> segment" where
  "segment_of w =
     (let lim = (ucast w AND 0xFFFF) OR (ucast (drop_bit 32 w) AND 0xF0000) :: u32
      in \<lparr>sg_base = ucast (drop_bit 16 w AND 0xFFFFFF) OR (push_bit 24 (ucast (drop_bit 56 w))),
          sg_last = (if bit w 55 then push_bit 12 lim OR 0xFFF else lim),
          sg_type = ucast (drop_bit 40 w), sg_dpl = ucast (drop_bit 45 w), sg_present = bit w 47\<rparr>)"

definition gate_word :: "idtdesc \<Rightarrow> 64 word" where
  "gate_word d = ucast (i_offset0_15 d) OR push_bit 16 (ucast (i_selector d)) OR push_bit 32 (ucast (i_no_use d))
     OR push_bit 40 (ucast (i_gate_sign d)) OR push_bit 45 (ucast (i_dpl d))
     OR push_bit 47 (ucast (i_p d)) OR push_bit 48 (ucast (i_offset16_32 d))"

record gate =
  gt_offset :: u32
  gt_selector :: u16
  gt_type :: "5 word"
  gt_dpl :: "2 word"
  gt_present :: bool

definition gate_of :: "64 word \<Rightarrow> gate" where
  "gate_of w = \<lparr>gt_offset = (ucast w AND 0xFFFF) OR (ucast (drop_bit 32 w) AND 0xFFFF0000), gt_selector = ucast (drop_bit 16 w),
     gt_type = ucast (drop_bit 40 w), gt_dpl = ucast (drop_bit 45 w), gt_present = bit w 47\<rparr>"

text \<open>The type bits of a code segment, a data segment, a free 32-bit task state segment and an interrupt gate.\<close>

abbreviation code_type :: "5 word" where "code_type \<equiv> 0x1A"
abbreviation data_type :: "5 word" where "data_type \<equiv> 0x12"
abbreviation tss_type :: "5 word" where "tss_type \<equiv> 0x9"
abbreviation gate_type :: "5 word" where "gate_type \<equiv> 0xE"

lemma bit_masks_descr:
  "bit (0xFFFF :: int) n \<longleftrightarrow> n < 16"
  "bit (0xF0000 :: int) n \<longleftrightarrow> 16 \<le> n \<and> n < 20"
  "bit (0xFFFFFF :: int) n \<longleftrightarrow> n < 24"
  "bit (0xFFFF0000 :: int) n \<longleftrightarrow> 16 \<le> n \<and> n < 32"
proof -
  have m: "(0xFFFF :: int) = mask 16" "(0xF0000 :: int) = push_bit 16 (mask 4)" "(0xFFFFFF :: int) = mask 24"
    "(0xFFFF0000 :: int) = push_bit 16 (mask 16)"
    by (simp_all add: mask_eq_exp_minus_1 push_bit_eq_mult)
  show "bit (0xFFFF :: int) n \<longleftrightarrow> n < 16" "bit (0xF0000 :: int) n \<longleftrightarrow> 16 \<le> n \<and> n < 20"
    "bit (0xFFFFFF :: int) n \<longleftrightarrow> n < 24" "bit (0xFFFF0000 :: int) n \<longleftrightarrow> 16 \<le> n \<and> n < 32"
    unfolding m by (auto simp: bit_simps)
qed

lemma one_bit: "bit (w :: 1 word) 0 \<longleftrightarrow> w = 1"
proof
  assume "bit w 0"
  then show "w = 1" by (intro bit_word_eqI) (auto simp: bit_1_iff)
qed simp

text \<open>Splitting an address over the fields of a descriptor loses nothing.\<close>

lemma gate_fields:
  fixes d :: idtdesc
  assumes "i_offset0_15 d = ucast (a :: u32)" and "i_offset16_32 d = ucast (drop_bit 16 a)"
  shows "gate_of (gate_word d) =
    \<lparr>gt_offset = a, gt_selector = i_selector d, gt_type = i_gate_sign d, gt_dpl = i_dpl d, gt_present = (i_p d = 1)\<rparr>"
proof -
  have o: "(ucast (gate_word d) AND 0xFFFF) OR (ucast (drop_bit 32 (gate_word d)) AND 0xFFFF0000) = a"
    by (rule bit_word_eqI) (auto simp: gate_word_def assms bit_simps bit_masks_descr dest: bit_imp_le_length)
  have s: "ucast (drop_bit 16 (gate_word d)) = i_selector d"
    by (rule bit_word_eqI) (auto simp: gate_word_def bit_simps dest: bit_imp_le_length)
  have t: "ucast (drop_bit 40 (gate_word d)) = i_gate_sign d"
    by (rule bit_word_eqI) (auto simp: gate_word_def bit_simps dest: bit_imp_le_length)
  have l: "ucast (drop_bit 45 (gate_word d)) = i_dpl d"
    by (rule bit_word_eqI) (auto simp: gate_word_def bit_simps dest: bit_imp_le_length)
  have "bit (gate_word d) 47 \<longleftrightarrow> bit (i_p d) 0"
    by (auto simp: gate_word_def bit_simps dest: bit_imp_le_length)
  also have "\<dots> \<longleftrightarrow> i_p d = 1"
    by (rule one_bit)
  finally show ?thesis by (simp add: gate_of_def o s t l)
qed

lemma seg_fields:
  fixes d :: gdtdesc
  assumes "g_base0_15 d = ucast (a :: u32)" and "g_base16_23 d = ucast (drop_bit 16 a)" and "g_base24_31 d = ucast (drop_bit 24 a)"
    and "g_limit0_15 d = ucast (l :: u32)" and "g_limit16_19 d = ucast (drop_bit 16 l)"
  shows "segment_of (seg_word d) =
    \<lparr>sg_base = a, sg_last = (if bit (g_other_sign d) 3 then push_bit 12 l OR 0xFFF else l AND 0xFFFFF),
     sg_type = ucast (g_gate_sign d), sg_dpl = ucast (drop_bit 5 (g_gate_sign d)), sg_present = bit (g_gate_sign d) 7\<rparr>"
proof -
  have w: "bit (seg_word d) n \<longleftrightarrow>
      (if n < 16 then bit l n else if n < 40 then bit a (n - 16) else if n < 48 then bit (g_gate_sign d) (n - 40)
       else if n < 52 then bit l (n - 32) else if n < 56 then bit (g_other_sign d) (n - 52)
       else if n < 64 then bit a (n - 32) else False)" for n
  proof -
    consider "n < 16" | "16 \<le> n" "n < 32" | "32 \<le> n" "n < 40" | "40 \<le> n" "n < 48" | "48 \<le> n" "n < 52"
      | "52 \<le> n" "n < 56" | "56 \<le> n" "n < 64" | "64 \<le> n" by linarith
    then show ?thesis
      by cases (auto simp: seg_word_def assms bit_unsigned_iff bit_or_iff bit_push_bit_iff bit_drop_bit_eq
          dest: bit_imp_le_length)
  qed
  have b: "ucast (drop_bit 16 (seg_word d) AND 0xFFFFFF) OR push_bit 24 (ucast (drop_bit 56 (seg_word d))) = a"
    by (rule bit_word_eqI) (auto simp: w bit_simps bit_masks_descr dest: bit_imp_le_length)
  have l: "(ucast (seg_word d) AND 0xFFFF) OR (ucast (drop_bit 32 (seg_word d)) AND 0xF0000) = l AND 0xFFFFF"
    by (rule bit_word_eqI) (auto simp: w bit_simps bit_masks bit_masks_descr dest: bit_imp_le_length)
  have g: "push_bit 12 (l AND 0xFFFFF) = push_bit 12 l"
  proof -
    have m: "(0xFFFFF :: u32) = mask 20" by (simp add: mask_eq_exp_minus_1)
    show ?thesis unfolding m by (rule bit_word_eqI) (auto simp: bit_push_bit_iff bit_and_iff bit_mask_iff)
  qed
  have ty: "ucast (drop_bit 40 (seg_word d)) = (ucast (g_gate_sign d) :: 5 word)"
    by (rule bit_word_eqI) (auto simp: w bit_simps dest: bit_imp_le_length)
  have dp: "ucast (drop_bit 45 (seg_word d)) = (ucast (drop_bit 5 (g_gate_sign d)) :: 2 word)"
    by (rule bit_word_eqI) (auto simp: w bit_simps dest: bit_imp_le_length)
  have "bit (seg_word d) 47 \<longleftrightarrow> bit (g_gate_sign d) 7" "bit (seg_word d) 55 \<longleftrightarrow> bit (g_other_sign d) 3"
    by (auto simp: w bit_simps dest: bit_imp_le_length)
  then show ?thesis unfolding segment_of_def Let_def b l g ty dp by simp
qed

section \<open>The tables after initialisation\<close>

text \<open>The segment the processor uses for a selector: entry \<open>selector >> 3\<close> of the table.\<close>

definition selected :: "'a cpu_scheme \<Rightarrow> u32 \<Rightarrow> segment" where
  "selected c sel = segment_of (seg_word (gdt c ! unat (drop_bit 3 sel)))"

definition gate_at :: "'a cpu_scheme \<Rightarrow> nat \<Rightarrow> gate" where
  "gate_at c v = gate_of (gate_word (idt c ! v))"

lemma init_handlers_all:
  assumes "length (handlers c) = i + n" and "i + n \<le> 256"
  shows "init_handlers i n c = Some (c\<lparr>handlers := take i (handlers c) @ replicate n Isr_handler\<rparr>)"
  using assms
proof (induction n arbitrary: i c)
  case (Suc n)
  have "unat (of_nat i :: u32) = i" using Suc.prems by (simp add: unat_of_nat_small)
  moreover have "take (Suc i) ((handlers c)[i := Isr_handler]) = take i (handlers c) @ [Isr_handler]"
    using Suc.prems by (simp add: take_Suc_conv_app_nth)
  ultimately show ?case
    using Suc.prems Suc.IH [of "c\<lparr>handlers := (handlers c)[i := Isr_handler]\<rparr>" "Suc i"]
    by (simp add: set_handler_def del: take_Suc)
qed simp

definition kernel_gate :: "u32 \<Rightarrow> u8 \<Rightarrow> idtdesc" where
  "kernel_gate a dpl = \<lparr>i_offset0_15 = ucast a, i_selector = 0x08, i_no_use = 0, i_gate_sign = 0xE, i_dpl = ucast dpl,
     i_p = 1, i_offset16_32 = ucast (drop_bit 16 a)\<rparr>"

lemma set_intr_gate_desc_igd:
  "unat v < length (idt c) \<Longrightarrow>
   set_intr_gate_desc v a 0x08 IGD dpl 1 c = Some (c\<lparr>idt := (idt c)[unat v := kernel_gate a dpl]\<rparr>)"
  by (cases "idt c ! unat v") (simp add: set_intr_gate_desc_def kernel_gate_def Let_def)

lemma init_gates_all:
  assumes "length (idt c) = i + n" and "i + n \<le> 256"
  shows "init_gates intrs i n c =
    Some (c\<lparr>idt := take i (idt c) @ map (\<lambda>j. kernel_gate (intrs j) 0) [i..<i + n]\<rparr>)"
  using assms
proof (induction n arbitrary: i c)
  case (Suc n)
  have "unat (of_nat i :: u32) = i" using Suc.prems by (simp add: unat_of_nat_small)
  moreover have "take (Suc i) ((idt c)[i := g]) = take i (idt c) @ [g]" for g
    using Suc.prems by (simp add: take_Suc_conv_app_nth)
  ultimately show ?case
    using Suc.prems Suc.IH [of "c\<lparr>idt := (idt c)[i := kernel_gate (intrs i) 0]\<rparr>" "Suc i"]
    by (simp add: set_intr_gate_desc_igd upt_conv_Cons del: take_Suc upt_Suc)
qed simp

lemma gate_of_kernel_gate:
  "gate_of (gate_word (kernel_gate a dpl)) =
   \<lparr>gt_offset = a, gt_selector = 0x08, gt_type = gate_type, gt_dpl = ucast dpl, gt_present = True\<rparr>"
  by (simp add: gate_fields [of _ a] kernel_gate_def)

text \<open>A processor with zeroed tables of the declared sizes.\<close>

definition cpu0 :: cpu where
  "cpu0 = \<lparr>gdt = replicate 6 \<lparr>g_limit0_15 = 0, g_base0_15 = 0, g_base16_23 = 0, g_gate_sign = 0, g_limit16_19 = 0,
              g_other_sign = 0, g_base24_31 = 0\<rparr>,
     idt = replicate 256 \<lparr>i_offset0_15 = 0, i_selector = 0, i_no_use = 0, i_gate_sign = 0, i_dpl = 0, i_p = 0, i_offset16_32 = 0\<rparr>,
     handlers = replicate 256 Isr_handler,
     tss0 = \<lparr>t_back_link = 0, t_bzero = 0, t_esp0 = 0, t_ss0 = 0, t_bzero0 = 0, t_esp1 = 0, t_ss1 = 0, t_bzero1 = 0,
       t_esp2 = 0, t_ss2 = 0, t_bzero2 = 0, t_cr3_PDBR = 0, t_eip = 0, t_eflags = 0, t_eax = 0, t_ecx = 0, t_edx = 0,
       t_ebx = 0, t_esp = 0, t_ebp = 0, t_esi = 0, t_edi = 0, t_es = 0, t_bzero3 = 0, t_cs = 0, t_bzero4 = 0, t_ss = 0,
       t_bzero5 = 0, t_ds = 0, t_bzero6 = 0, t_fs = 0, t_bzero7 = 0, t_gs = 0, t_bzero8 = 0, t_ldt = 0, t_bzero9 = 0,
       t_debug_trap_bit = 0, t_bzero10 = 0, t_io_map_base = 0\<rparr>,
     gdtr = \<lparr>dtr_limit = 0, dtr_base = 0\<rparr>, idtr = \<lparr>dtr_limit = 0, dtr_base = 0\<rparr>, tr = 0, seg_cs = 8, seg_ds = 0x10,
     seg_es = 0x10, seg_ss = 0x10, seg_fs = 0x10, seg_gs = 0x10, eflags = 0, cr3 = 0, ports = [], jmp_to_old_esp = 0, jiffies = 0\<rparr>"

definition seg_entry :: "u32 \<Rightarrow> u32 \<Rightarrow> u8 \<Rightarrow> u8 \<Rightarrow> gdtdesc" where
  "seg_entry base limit gate_sign other_sign =
     \<lparr>g_limit0_15 = ucast limit, g_base0_15 = ucast base, g_base16_23 = ucast (drop_bit 16 base),
      g_gate_sign = gate_sign, g_limit16_19 = ucast (drop_bit 16 limit), g_other_sign = ucast other_sign,
      g_base24_31 = ucast (drop_bit 24 base)\<rparr>"

lemma set_seg_gate_desc_entry:
  "unat n < length (gdt c) \<Longrightarrow>
   set_seg_gate_desc n base limit g x c = Some (c\<lparr>gdt := (gdt c)[unat n := seg_entry base limit g x]\<rparr>)"
  by (simp add: set_seg_gate_desc_def seg_entry_def)

lemma segment_of_entry:
  "segment_of (seg_word (seg_entry base limit g x)) =
    \<lparr>sg_base = base, sg_last = (if bit x 3 then push_bit 12 limit OR 0xFFF else limit AND 0xFFFFF),
     sg_type = ucast g, sg_dpl = ucast (drop_bit 5 g), sg_present = bit g 7\<rparr>"
  by (subst seg_fields [of _ base limit]) (simp_all add: seg_entry_def bit_unsigned_iff)

text \<open>
  \<open>gdt_init\<close> builds the flat segments the kernel relies on: the kernel selectors 0x08 and 0x10 and the
  user selectors 0x1B and 0x23 select present segments with base 0 and last byte 0xFFFFFFFF, code and data
  in turn, with the privilege level that the two low bits of the selector ask for; the segment
  registers hold selectors of these segments, and the table register covers the table's 48 bytes.
\<close>

theorem gdt_init_flat:
  assumes "length (gdt c) = 6"
  shows "\<exists>c'. gdt_init a c = Some c' \<and> gdtr c' = \<lparr>dtr_limit = 47, dtr_base = a\<rparr> \<and> length (gdt c') = 6
    \<and> selected c' 0x08 = \<lparr>sg_base = 0, sg_last = 0xFFFFFFFF, sg_type = code_type, sg_dpl = 0, sg_present = True\<rparr>
    \<and> selected c' 0x10 = \<lparr>sg_base = 0, sg_last = 0xFFFFFFFF, sg_type = data_type, sg_dpl = 0, sg_present = True\<rparr>
    \<and> selected c' 0x1B = \<lparr>sg_base = 0, sg_last = 0xFFFFFFFF, sg_type = code_type, sg_dpl = 3, sg_present = True\<rparr>
    \<and> selected c' 0x23 = \<lparr>sg_base = 0, sg_last = 0xFFFFFFFF, sg_type = data_type, sg_dpl = 3, sg_present = True\<rparr>
    \<and> \<not> sg_present (selected c' 0)
    \<and> seg_cs c' = 0x08 \<and> seg_ds c' = 0x10 \<and> seg_es c' = 0x10 \<and> seg_ss c' = 0x10 \<and> seg_fs c' = 0x23 \<and> seg_gs c' = 0x23"
  using assms
  by (simp add: gdt_init_def set_seg_gate_desc_entry lgdt_def selected_def segment_of_entry)

theorem gdt_init_flat_witness:
  "\<exists>c'. gdt_init 0xC0104000 cpu0 = Some c' \<and> gdtr c' = \<lparr>dtr_limit = 47, dtr_base = 0xC0104000\<rparr>
     \<and> sg_dpl (selected c' 0x1B) = 3"
  using gdt_init_flat [of cpu0 "0xC0104000"] by (auto simp: cpu0_def)

text \<open>
  After \<open>idt_init\<close> and \<open>tss_init\<close> every vector has a present interrupt gate to its stub through the kernel
  code segment, and user code can raise exactly the vectors 121 and 0x80 with an \<open>int\<close> instruction:
  all other gates have privilege level 0. The handlers of 120, 121 and 0x80 are the mode switches and the
  system call, all others the default; the task register selects a present task state segment at \<open>tss0\<close>
  whose ring 0 stack is the end of \<open>kern_stack\<close> in the kernel data segment.
\<close>

theorem interrupt_tables:
  assumes "length (gdt c) = 6" and "length (idt c) = 256" and "length (handlers c) = 256"
  shows "\<exists>c1 c2. idt_init intrs a c = Some c1 \<and> tss_init intrs t k c1 = Some c2
    \<and> idtr c2 = \<lparr>dtr_limit = 2047, dtr_base = a\<rparr>
    \<and> (\<forall>v < 256. gate_at c2 v = \<lparr>gt_offset = intrs v, gt_selector = 0x08, gt_type = gate_type,
         gt_dpl = (if v = 121 \<or> v = 0x80 then 3 else 0), gt_present = True\<rparr>)
    \<and> (\<forall>v < 256. handlers c2 ! v = (if v = 120 then Switch_to_user_handler else if v = 121 then Switch_to_kern_handler
         else if v = 0x80 then System_intr else Isr_handler))
    \<and> selected c2 (ucast (tr c2)) = \<lparr>sg_base = t, sg_last = 103, sg_type = tss_type, sg_dpl = 0, sg_present = True\<rparr>
    \<and> t_ss0 (tss0 c2) = 0x10 \<and> t_esp0 (tss0 c2) = k + 0x2000"
proof -
  define c1 where "c1 = c\<lparr>handlers := replicate 256 Isr_handler, idt := map (\<lambda>j. kernel_gate (intrs j) 0) [0..<256],
    idtr := \<lparr>dtr_limit = 2047, dtr_base = a\<rparr>\<rparr>"
  have 1: "idt_init intrs a c = Some c1"
    using assms init_handlers_all [of c 0 256] init_gates_all [of "c\<lparr>handlers := replicate 256 Isr_handler\<rparr>" 0 256 intrs]
    by (simp add: idt_init_def c1_def lidt_def del: upt_Suc)
  have l: "length (gdt c1) = 6" "length (idt c1) = 256" "length (handlers c1) = 256"
    using assms by (simp_all add: c1_def del: upt_Suc)
  define c2 where "c2 = c1\<lparr>tss0 := (tss0 c1)\<lparr>t_back_link := 0, t_ss0 := 0x10, t_esp0 := k + 2 * PAGE_SIZE\<rparr>,
    gdt := (gdt c1)[5 := seg_entry t sizeof_tss 0x89 0x04], tr := 5 * 8,
    idt := ((idt c1)[121 := kernel_gate (intrs 121) 3])[0x80 := kernel_gate (intrs 0x80) 3],
    handlers := (((handlers c1)[120 := Switch_to_user_handler])[121 := Switch_to_kern_handler])[0x80 := System_intr]\<rparr>"
  have 2: "tss_init intrs t k c1 = Some c2"
    using l by (simp add: tss_init_def set_seg_gate_desc_entry ltr_def set_intr_gate_desc_igd set_handler_def c2_def)
  show ?thesis
  proof (intro exI conjI, rule 1, rule 2)
    show "idtr c2 = \<lparr>dtr_limit = 2047, dtr_base = a\<rparr>" by (simp add: c2_def c1_def)
    show "\<forall>v < 256. gate_at c2 v = \<lparr>gt_offset = intrs v, gt_selector = 0x08, gt_type = gate_type,
         gt_dpl = (if v = 121 \<or> v = 0x80 then 3 else 0), gt_present = True\<rparr>"
      by (simp add: gate_at_def c2_def c1_def nth_list_update gate_of_kernel_gate del: upt_Suc)
    show "\<forall>v < 256. handlers c2 ! v = (if v = 120 then Switch_to_user_handler else if v = 121 then Switch_to_kern_handler
         else if v = 0x80 then System_intr else Isr_handler)"
      by (simp add: c2_def c1_def nth_list_update)
    show "selected c2 (ucast (tr c2)) = \<lparr>sg_base = t, sg_last = 103, sg_type = tss_type, sg_dpl = 0, sg_present = True\<rparr>"
      using l by (simp add: selected_def c2_def segment_of_entry)
  qed (simp_all add: c2_def)
qed

theorem interrupt_tables_witness:
  "\<exists>c1 c2. idt_init (\<lambda>v. 0xC0101000 + of_nat v) 0xC0104100 cpu0 = Some c1
     \<and> tss_init (\<lambda>v. 0xC0101000 + of_nat v) 0xC0104900 0xC0105000 c1 = Some c2 \<and> gt_dpl (gate_at c2 14) = 0 \<and> gt_dpl (gate_at c2 0x80) = 3"
proof -
  have "length (gdt cpu0) = 6" "length (idt cpu0) = 256" "length (handlers cpu0) = 256"
    by (simp_all add: cpu0_def)
  from interrupt_tables [OF this, of "\<lambda>v. 0xC0101000 + of_nat v" "0xC0104100" "0xC0104900" "0xC0105000"]
  show ?thesis by auto
qed

section \<open>The interrupt flag, the mode switches and the interrupt controllers\<close>

definition intr_on :: "'a cpu_scheme \<Rightarrow> bool" where
  "intr_on c \<longleftrightarrow> bit (eflags c) 9"

lemma bit_masks_intr:
  "bit (0x200 :: int) n \<longleftrightarrow> n = 9"
  "bit (- 0x201 :: int) n \<longleftrightarrow> n \<noteq> 9"
proof -
  show "bit (0x200 :: int) n \<longleftrightarrow> n = 9"
    using bit_exp_iff [of 9 n, where ?'a = int] by auto
  then show "bit (- 0x201 :: int) n \<longleftrightarrow> n \<noteq> 9"
    using bit_not_int_iff [of "0x200 :: int" n] by simp
qed

lemma and_0x200: "(x :: u32) AND 0x200 \<noteq> 0 \<longleftrightarrow> bit x 9"
  by (auto simp: bit_eq_iff [of "x AND 0x200"] bit_and_iff bit_masks_intr bit_simps)

lemma intr_on_sti [simp]: "intr_on (sti c)"
  by (simp add: intr_on_def sti_def bit_or_iff bit_masks_intr bit_simps)

lemma intr_on_cli [simp]: "\<not> intr_on (cli c)"
  by (simp add: intr_on_def cli_def bit_and_iff bit_not_iff bit_masks_intr bit_simps)

lemma cli_off: "\<not> intr_on c \<Longrightarrow> cli c = c"
proof -
  assume "\<not> intr_on c"
  then have "eflags c AND NOT 0x200 = eflags c"
    by (intro bit_word_eqI) (auto simp: intr_on_def bit_and_iff bit_not_iff bit_masks_intr bit_simps)
  then show "cli c = c" by (simp add: cli_def)
qed

lemma sti_cli: "intr_on c \<Longrightarrow> sti (cli c) = c"
proof -
  assume "intr_on c"
  then have "(eflags c AND NOT 0x200) OR 0x200 = eflags c"
    by (intro bit_word_eqI) (auto simp: intr_on_def bit_and_iff bit_or_iff bit_not_iff bit_masks_intr bit_simps)
  then show "sti (cli c) = c" by (simp add: sti_def cli_def)
qed

text \<open>A critical section: interrupts are off inside, and leaving it restores the flag.\<close>

lemma atom_disable_intr_eq: "atom_disable_intr c = ((if intr_on c then 1 else 0), cli c)"
  using and_0x200 [of "eflags c"] cli_off [of c] by (auto simp: atom_disable_intr_def read_eflags_def intr_on_def)

lemma atom_restores: "atom_enable_intr (fst (atom_disable_intr c)) (snd (atom_disable_intr c)) = c"
  by (simp add: atom_disable_intr_eq atom_enable_intr_def sti_cli cli_off)

text \<open>
  The initialisation sequence of one 8259A: after ICW1 (bit 4 of the command port) the data port takes
  ICW2 (vector base), ICW3 (unless bit 1 of ICW1 says there is no second controller), ICW4 (if bit 0 of
  ICW1 says so), and then the mask.
\<close>

datatype pic_phase = Masking | ICW2 | ICW3 | ICW4

record pic =
  pic_phase :: pic_phase
  pic_icw1 :: u8
  pic_vector :: u8
  pic_cascade :: u8
  pic_mode :: u8
  pic_mask :: u8

definition after_icw3 :: "pic \<Rightarrow> pic_phase" where
  "after_icw3 p = (if bit (pic_icw1 p) 0 then ICW4 else Masking)"

definition pic_write :: "u16 \<Rightarrow> pic \<Rightarrow> u16 \<times> u8 \<Rightarrow> pic" where
  "pic_write cmd p w = (case w of (port, v) \<Rightarrow>
     if port = cmd \<and> bit v 4 then p\<lparr>pic_phase := ICW2, pic_icw1 := v, pic_mask := 0\<rparr>
     else if port = cmd + 1 then
       (case pic_phase p of
          ICW2 \<Rightarrow> p\<lparr>pic_vector := v AND 0xF8, pic_phase := (if bit (pic_icw1 p) 1 then after_icw3 p else ICW3)\<rparr>
        | ICW3 \<Rightarrow> p\<lparr>pic_cascade := v, pic_phase := after_icw3 p\<rparr>
        | ICW4 \<Rightarrow> p\<lparr>pic_mode := v, pic_phase := Masking\<rparr>
        | Masking \<Rightarrow> p\<lparr>pic_mask := v\<rparr>)
     else p)"

definition pic_state :: "u16 \<Rightarrow> pic \<Rightarrow> 'a cpu_scheme \<Rightarrow> pic" where
  "pic_state cmd p c = foldl (pic_write cmd) p (ports c)"

lemma pic_init_ports:
  "ports (pic_init c) = ports c @ [(0x21, 0xFF), (0xA1, 0xFF), (0x20, 0x11), (0x21, 32), (0x21, 4), (0x21, 3),
     (0xA0, 0x11), (0xA1, 40), (0xA1, 2), (0xA1, 3), (0x21, 0), (0xA1, 0)]"
  by (simp add: pic_init_def outb_def sti_def Let_def)

text \<open>
  \<open>pic_init\<close> leaves both interrupt controllers operational whatever state they were in before the kernel
  wrote to them: the master delivers its lines at vectors 32 to 39 and has the slave on line 2, the
  slave delivers its lines at 40 to 47 and has identity 2, both in 8086 mode with automatic end of interrupt
  (so no handler acknowledges anything), nothing is masked, and interrupts are enabled.
\<close>

theorem pic_init_remaps:
  assumes "pic_phase m = Masking" and "pic_phase s = Masking" and "ports c = []"
  shows "pic_state 0x20 m (pic_init c) = \<lparr>pic_phase = Masking, pic_icw1 = 0x11, pic_vector = 32, pic_cascade = 4, pic_mode = 3, pic_mask = 0\<rparr>
    \<and> pic_state 0xA0 s (pic_init c) = \<lparr>pic_phase = Masking, pic_icw1 = 0x11, pic_vector = 40, pic_cascade = 2, pic_mode = 3, pic_mask = 0\<rparr>
    \<and> intr_on (pic_init c)"
proof (intro conjI)
  show "pic_state 0x20 m (pic_init c) = \<lparr>pic_phase = Masking, pic_icw1 = 0x11, pic_vector = 32, pic_cascade = 4, pic_mode = 3, pic_mask = 0\<rparr>"
    using assms(1) by (simp add: pic_state_def pic_init_ports assms(3) pic_write_def after_icw3_def)
  show "pic_state 0xA0 s (pic_init c) = \<lparr>pic_phase = Masking, pic_icw1 = 0x11, pic_vector = 40, pic_cascade = 2, pic_mode = 3, pic_mask = 0\<rparr>"
    using assms(2) by (simp add: pic_state_def pic_init_ports assms(3) pic_write_def after_icw3_def)
  show "intr_on (pic_init c)" by (simp add: pic_init_def)
qed

theorem pic_init_remaps_witness:
  "pic_state 0x20 \<lparr>pic_phase = Masking, pic_icw1 = 0, pic_vector = 8, pic_cascade = 0, pic_mode = 1, pic_mask = 0\<rparr> (pic_init cpu0)
     = \<lparr>pic_phase = Masking, pic_icw1 = 0x11, pic_vector = 32, pic_cascade = 4, pic_mode = 3, pic_mask = 0\<rparr>"
  using pic_init_remaps [of "\<lparr>pic_phase = Masking, pic_icw1 = 0, pic_vector = 8, pic_cascade = 0, pic_mode = 1, pic_mask = 0\<rparr>"
      "\<lparr>pic_phase = Masking, pic_icw1 = 0, pic_vector = 112, pic_cascade = 0, pic_mode = 1, pic_mask = 0\<rparr>" cpu0]
  by (simp add: cpu0_def)

text \<open>The divisor the timer is programmed with: 1193182 / 45891 is 26 interrupts a second.\<close>

lemma timer_intr_init_divisor:
  assumes "length (handlers c) = 256"
  shows "\<exists>c'. timer_intr_init c = Some c' \<and> ports c' = ports c @ [(0x43, 0x34), (0x40, 0x43), (0x40, 0xB3)]
    \<and> handlers c' = (handlers c)[32 := Timer_handler] \<and> (0x43 + 256 * 0xB3 :: nat) = 1193182 div 26"
  using assms by (simp add: timer_intr_init_def outb_def set_handler_def Let_def)

text \<open>
  The two mode switches undo each other. On a frame of kernel code with I/O privilege 0,
  \<open>switch_to_user_handler\<close> makes the return go to ring 3 code and data segments with I/O privilege 3 and a
  stack at the frame's own \<open>esp\<close> member; \<open>switch_to_kern_handler\<close> on that frame gives back the kernel's selectors and
  flags, keeps every other register, and notes the user stack pointer in \<open>jmp_to_old_esp\<close>.
\<close>

theorem mode_switch_roundtrip:
  assumes "fr_cs f = 0x08" and "fr_my_eax f = 0x10" and "fr_eflags f AND 0x3000 = 0"
  shows "fr_cs (switch_to_user_handler fp f) = 0x1B \<and> fr_ss (switch_to_user_handler fp f) = 0x23
      \<and> fr_my_eax (switch_to_user_handler fp f) = 0x23 \<and> fr_eflags (switch_to_user_handler fp f) AND 0x3000 = 0x3000
    \<and> switch_to_kern_handler (switch_to_user_handler fp f) c = (f\<lparr>fr_ss := 0x23, fr_esp := fp + 56\<rparr>, c\<lparr>jmp_to_old_esp := fp + 56\<rparr>)"
proof -
  have "(fr_eflags f OR 0x3000) AND NOT 0x3000 = (fr_eflags f AND 0x3000) OR (fr_eflags f AND NOT 0x3000)"
    using assms(3) by (simp add: bit.conj_disj_distrib2)
  also have "\<dots> = fr_eflags f"
    by (simp add: bit.conj_disj_distrib [symmetric])
  finally have e: "(fr_eflags f OR 0x3000) AND NOT 0x3000 = fr_eflags f" .
  have "fr_eflags (switch_to_user_handler fp f) AND 0x3000 = 0x3000"
    by (simp add: switch_to_user_handler_def bit.conj_disj_distrib2)
  moreover have "switch_to_kern_handler (switch_to_user_handler fp f) c
      = (f\<lparr>fr_ss := 0x23, fr_esp := fp + 56\<rparr>, c\<lparr>jmp_to_old_esp := fp + 56\<rparr>)"
    using assms(1,2) e by (cases f) (simp add: switch_to_user_handler_def switch_to_kern_handler_def)
  ultimately show ?thesis
    by (simp add: switch_to_user_handler_def)
qed

definition frame0 :: idtframe where
  "frame0 = \<lparr>fr_my_eax = 0x10, fr_edi = 0, fr_esi = 0, fr_ebp = 0, fr_no_use_esp = 0, fr_ebx = 0, fr_edx = 0, fr_ecx = 0,
     fr_eax = 0, fr_intr_No = 120, fr_errorCode = 0, fr_eip = 0xC0100000, fr_cs = 0x08, fr_eflags = 0x202, fr_esp = 0, fr_ss = 0\<rparr>"

theorem mode_switch_roundtrip_witness:
  "switch_to_kern_handler (switch_to_user_handler 0x8000 frame0) cpu0
     = (frame0\<lparr>fr_ss := 0x23, fr_esp := 0x8038\<rparr>, cpu0\<lparr>jmp_to_old_esp := 0x8038\<rparr>)"
proof -
  have "fr_cs frame0 = 0x08" "fr_my_eax frame0 = 0x10" "fr_eflags frame0 AND 0x3000 = 0" by (simp_all add: frame0_def)
  from mode_switch_roundtrip [OF this, of "0x8000" cpu0] show ?thesis by simp
qed

end
