(* ===== verification/Proc.thy ===== *)
theory Proc
  imports Vmm Descr
begin

text \<open>
  Process control blocks: the structs of \<open>include/proc.h\<close>, and of \<open>schedule/process/proc.c\<close> the pid bitmap,
  the creation of control blocks and kernel stacks, and the context switch (with
  \<open>schedule/process/switch_to.S\<close>). The kernel state extends the memory state by the fields of
  \<open>struct pcb_t\<close>, keyed like all structs by the physical address, by the interrupt frames in
  memory, by the globals of \<open>proc.c\<close>, and by the processor: \<open>cpu\<close> (tables, flags) and \<open>regs\<close>, the registers that
  \<open>switch_to\<close> saves, as they are when its caller continues.
\<close>

section \<open>State\<close>

datatype proc_lifecircle = TASK_READY | TASK_SLEEPING | TASK_RUNNABLE | TASK_ZOMBIE

datatype proc_waitstate = NOT_WT | WT_CHILD

record proc_context =
  cx_eip :: u32
  cx_ebx :: u32
  cx_ecx :: u32
  cx_edx :: u32
  cx_esi :: u32
  cx_edi :: u32
  cx_ebp :: u32
  cx_esp :: u32

record kernel = machine +
  \<comment> \<open>struct pcb_t (\<open>include/proc.h\<close>), its two nodes are in \<open>list_heap\<close>\<close>
  pcb_state :: "u32 \<Rightarrow> proc_lifecircle"
  pcb_pid :: "u32 \<Rightarrow> i32"
  pcb_start_stack :: "u32 \<Rightarrow> u32"
  pcb_parent :: "u32 \<Rightarrow> u32"
  pcb_mm :: "u32 \<Rightarrow> u32"
  pcb_backup_pde :: "u32 \<Rightarrow> u32"
  pcb_context :: "u32 \<Rightarrow> proc_context"
  pcb_frame :: "u32 \<Rightarrow> u32"
  pcb_waitstate :: "u32 \<Rightarrow> proc_waitstate"
  pcb_cptr :: "u32 \<Rightarrow> u32"
  pcb_yptr :: "u32 \<Rightarrow> u32"
  pcb_optr :: "u32 \<Rightarrow> u32"
  \<comment> \<open>struct idtframe objects in memory\<close>
  frames :: "u32 \<Rightarrow> idtframe"
  \<comment> \<open>struct semaphore_t, struct condition_t, struct monitor_t\<close>
  sem_value :: "u32 \<Rightarrow> i32"
  cond_x_count :: "u32 \<Rightarrow> i32"
  cond_monitor :: "u32 \<Rightarrow> u32"
  mon_next_count :: "u32 \<Rightarrow> i32"
  mon_cvs :: "u32 \<Rightarrow> u32"
  \<comment> \<open>global variables\<close>
  idle :: u32
  init_proc :: u32
  current :: u32
  proc_num :: i32
  pids :: "u32 list"
  \<comment> \<open>link-time addresses of the list head, the boot stack and two assembly entry points\<close>
  proc_list :: u32
  kern_stack :: u32
  context_to_intr :: u32
  kernel_thread_entry :: u32
  exit_proc_addr :: u32
  \<comment> \<open>the processor\<close>
  cpu :: cpu
  regs :: proc_context

abbreviation sizeof_pcb_t :: u32 where "sizeof_pcb_t \<equiv> 92"
abbreviation sizeof_idtframe :: u32 where "sizeof_idtframe \<equiv> 64"
abbreviation MAX_PROCESS :: i32 where "MAX_PROCESS \<equiv> 4096"
abbreviation KTHREAD_STACK_PAGE :: u32 where "KTHREAD_STACK_PAGE \<equiv> 2"

definition pcb_node :: "u32 \<Rightarrow> u32" where
  "pcb_node p = p + 76"

definition node_pcb :: "u32 \<Rightarrow> u32" where
  "node_pcb n = n - 76"

definition pcb_sem_node :: "u32 \<Rightarrow> u32" where
  "pcb_sem_node p = p + 84"

definition sem_node_pcb :: "u32 \<Rightarrow> u32" where
  "sem_node_pcb n = n - 84"

lemma node_pcb_inverse [simp]: "node_pcb (pcb_node p) = p" "sem_node_pcb (pcb_sem_node p) = p"
  by (simp_all add: node_pcb_def pcb_node_def sem_node_pcb_def pcb_sem_node_def)

definition on_cpu :: "(cpu \<Rightarrow> cpu) \<Rightarrow> 'a kernel_scheme \<Rightarrow> 'a kernel_scheme" where
  "on_cpu f s = s\<lparr>cpu := f (cpu s)\<rparr>"

text \<open>
  The members of a control block that the code reaches through a pointer it has not tested. Address 0 is
  no control block but the page directory that \<open>kern_init\<close> placed there: through \<open>NULL\<close> the
  members \<open>state\<close>, \<open>waitstate\<close>, \<open>cptr\<close> and \<open>yptr\<close> are the words at 0, 60, 64 and 68 of untyped memory.
\<close>

definition set_state :: "u32 \<Rightarrow> proc_lifecircle \<Rightarrow> 'a kernel_scheme \<Rightarrow> 'a kernel_scheme" where
  "set_state p v s =
     (if p = NULL then st p (case v of TASK_READY \<Rightarrow> 0 | TASK_SLEEPING \<Rightarrow> 1 | TASK_RUNNABLE \<Rightarrow> 2 | TASK_ZOMBIE \<Rightarrow> 3) s
      else s\<lparr>pcb_state := (pcb_state s)(kpa p := v)\<rparr>)"

definition waits_child :: "'a kernel_scheme \<Rightarrow> u32 \<Rightarrow> bool" where
  "waits_child s p = (if p = NULL then ld s (p + 60) = 1 else pcb_waitstate s (kpa p) = WT_CHILD)"

definition get_cptr :: "'a kernel_scheme \<Rightarrow> u32 \<Rightarrow> u32" where
  "get_cptr s p = (if p = NULL then ld s (p + 64) else pcb_cptr s (kpa p))"

definition set_cptr :: "u32 \<Rightarrow> u32 \<Rightarrow> 'a kernel_scheme \<Rightarrow> 'a kernel_scheme" where
  "set_cptr p v s = (if p = NULL then st (p + 64) v s else s\<lparr>pcb_cptr := (pcb_cptr s)(kpa p := v)\<rparr>)"

definition set_yptr :: "u32 \<Rightarrow> u32 \<Rightarrow> 'a kernel_scheme \<Rightarrow> 'a kernel_scheme" where
  "set_yptr p v s = (if p = NULL then st (p + 68) v s else s\<lparr>pcb_yptr := (pcb_yptr s)(kpa p := v)\<rparr>)"

section \<open>The pid bitmap\<close>

definition set_bit_u32 :: "u32 \<Rightarrow> nat \<Rightarrow> i32 \<Rightarrow> u32" where
  "set_bit_u32 num pos is_set_one =
     (if is_set_one \<noteq> 0 then num OR push_bit pos 1 else num AND NOT (push_bit pos 1))"

definition get_bit_u32 :: "u32 \<Rightarrow> nat \<Rightarrow> i32" where
  "get_bit_u32 num pos = (if num AND push_bit pos 1 = 0 then 0 else 1)"

text \<open>The two loops of \<open>get_pid\<close>, \<open>n\<close> iterations from \<open>j\<close> and from \<open>i\<close> on.\<close>

fun get_pid_bit :: "u32 \<Rightarrow> nat \<Rightarrow> nat \<Rightarrow> nat option" where
  "get_pid_bit w j 0 = None"
| "get_pid_bit w j (Suc n) = (if get_bit_u32 w (31 - j) = 0 then Some j else get_pid_bit w (Suc j) n)"

fun get_pid_loop :: "u32 list \<Rightarrow> nat \<Rightarrow> nat \<Rightarrow> (nat \<times> nat) option" where
  "get_pid_loop ps i 0 = None"
| "get_pid_loop ps i (Suc n) =
     (if ps ! i \<noteq> 0xFFFFFFFF then
        (case get_pid_bit (ps ! i) 0 32 of
           Some j \<Rightarrow> Some (i, j)
         | None \<Rightarrow> get_pid_loop ps (Suc i) n)
      else get_pid_loop ps (Suc i) n)"

definition get_pid :: "'a kernel_scheme \<Rightarrow> i32 \<times> 'a kernel_scheme" where
  "get_pid s =
     (case get_pid_loop (pids s) 0 (length (pids s)) of
        Some (i, j) \<Rightarrow> (of_nat (i * 32 + j), s\<lparr>pids := (pids s)[i := set_bit_u32 (pids s ! i) (31 - j) 1]\<rparr>)
      | None \<Rightarrow> (- 1, s))"

section \<open>Control blocks, stacks and the context switch\<close>

definition create_pcb :: "'a kernel_scheme \<Rightarrow> (u32 \<times> 'a kernel_scheme) option" where
  "create_pcb s =
     do {
       (pcb, s) \<leftarrow> malloc sizeof_pcb_t s;
       if pcb = NULL then Some (NULL, s)
       else Some (pcb, s
         \<lparr>pcb_state := (pcb_state s)(kpa pcb := TASK_READY),
          pcb_pid := (pcb_pid s)(kpa pcb := - 1),
          pcb_start_stack := (pcb_start_stack s)(kpa pcb := 0),
          pcb_mm := (pcb_mm s)(kpa pcb := NULL),
          pcb_context := (pcb_context s)(kpa pcb :=
            \<lparr>cx_eip = 0, cx_ebx = 0, cx_ecx = 0, cx_edx = 0, cx_esi = 0, cx_edi = 0, cx_ebp = 0, cx_esp = 0\<rparr>),
          pcb_backup_pde := (pcb_backup_pde s)(kpa pcb := pd s),
          pcb_parent := (pcb_parent s)(kpa pcb := NULL),
          pcb_waitstate := (pcb_waitstate s)(kpa pcb := NOT_WT),
          pcb_optr := (pcb_optr s)(kpa pcb := NULL),
          pcb_cptr := (pcb_cptr s)(kpa pcb := NULL),
          pcb_yptr := (pcb_yptr s)(kpa pcb := NULL)\<rparr>)
     }"

definition set_kthread_stack :: "u32 \<Rightarrow> u32 \<Rightarrow> 'a kernel_scheme \<Rightarrow> (i32 \<times> 'a kernel_scheme) option" where
  "set_kthread_stack pcb offset s =
     do {
       (pg, s) \<leftarrow> alloc_page KTHREAD_STACK_PAGE s;
       if pg = NULL then Some (- 1, s)
       else
         let s = s\<lparr>pcb_start_stack := (pcb_start_stack s)(kpa pcb := pg_to_addr_la s pg + KTHREAD_STACK_PAGE * PAGE_SIZE)\<rparr>;
             s = s\<lparr>pcb_start_stack := (pcb_start_stack s)(kpa pcb := pcb_start_stack s (kpa pcb) - 4)\<rparr>;
             s = (if offset \<noteq> 0 then st (pcb_start_stack s (kpa pcb)) (exit_proc_addr s) s else s)
         in Some (0, s)
     }"

definition wakeup_process :: "u32 \<Rightarrow> 'a kernel_scheme \<Rightarrow> 'a kernel_scheme" where
  "wakeup_process pcb s = set_state pcb TASK_RUNNABLE s"

definition switch_to :: "u32 \<Rightarrow> u32 \<Rightarrow> 'a kernel_scheme \<Rightarrow> 'a kernel_scheme" where
  "switch_to prv nxt s =
     (let s = s\<lparr>pcb_context := (pcb_context s)(kpa prv := regs s)\<rparr>
      in s\<lparr>regs := pcb_context s (kpa nxt)\<rparr>)"

definition run_thread :: "u32 \<Rightarrow> 'a kernel_scheme \<Rightarrow> 'a kernel_scheme" where
  "run_thread pcb s =
     (if current s = pcb then s
      else
        let prv = current s;
            s = s\<lparr>current := pcb\<rparr>;
            s = on_cpu (\<lambda>c. c\<lparr>tss0 := (tss0 c)\<lparr>t_esp0 := pcb_start_stack s (kpa pcb)\<rparr>\<rparr>) s;
            s = on_cpu (\<lambda>c. c\<lparr>cr3 := pcb_backup_pde s (kpa pcb)\<rparr>) s
        in switch_to prv (current s) s)"

definition proc_init :: "'a kernel_scheme \<Rightarrow> (unit + 'a kernel_scheme) option" where
  "proc_init s =
     (let s = list_init (proc_list s) s;
          s = s\<lparr>pids := replicate 128 0\<rparr>
      in do {
        (p, s) \<leftarrow> create_pcb s;
        let s = s\<lparr>idle := p\<rparr>
        in if p = NULL then Some (Inl ())
           else
             let (pid, s) = get_pid s;
                 s = s\<lparr>pcb_pid := (pcb_pid s)(kpa p := pid)\<rparr>;
                 s = s\<lparr>pcb_start_stack := (pcb_start_stack s)(kpa p := kern_stack s + KTHREAD_STACK_PAGE * PAGE_SIZE)\<rparr>;
                 s = set_state p TASK_READY s;
                 s = s\<lparr>current := p\<rparr>
             in Some (Inr (s\<lparr>proc_num := proc_num s + 1\<rparr>))
      })"

text \<open>What \<open>print_thread_chains\<close> prints: pid and state of every process, oldest first.\<close>

partial_function (option) thread_chain :: "u32 \<Rightarrow> 'a kernel_scheme \<Rightarrow> (i32 \<times> proc_lifecircle) list option" where
  "thread_chain beg s =
     (if beg = proc_list s then Some []
      else do {
        ps \<leftarrow> thread_chain (get_prev s beg) s;
        Some ((pcb_pid s (kpa (node_pcb beg)), pcb_state s (kpa (node_pcb beg))) # ps)
      })"

definition print_thread_chains :: "'a kernel_scheme \<Rightarrow> (i32 \<times> (i32 \<times> proc_lifecircle) list) option" where
  "print_thread_chains s =
     do {
       ps \<leftarrow> thread_chain (get_prev s (proc_list s)) s;
       Some (pcb_pid s (kpa (current s)), ps)
     }"

section \<open>The least free pid\<close>

lemma get_bit_u32_iff: "pos < 32 \<Longrightarrow> get_bit_u32 w pos = 0 \<longleftrightarrow> \<not> bit w pos"
proof -
  assume p: "pos < 32"
  have "w AND 2 ^ pos = 0 \<longleftrightarrow> (\<forall>n. \<not> bit (w AND 2 ^ pos) n)"
    by (metis bit_0_eq bit_eq_iff bot_apply bot_bool_def)
  also have "\<dots> \<longleftrightarrow> \<not> bit w pos"
    using p by (auto simp: bit_and_iff bit_exp_iff)
  finally show ?thesis by (simp add: get_bit_u32_def)
qed

lemma bit_set_bit_u32: "pos < 32 \<Longrightarrow> bit (set_bit_u32 w pos 1) n \<longleftrightarrow> bit w n \<or> n = pos"
  by (auto simp: set_bit_u32_def bit_or_iff bit_exp_iff)

text \<open>Pid \<open>n\<close> is taken: bit \<open>31 - n mod 32\<close> of word \<open>n div 32\<close> is set.\<close>

definition pid_used :: "u32 list \<Rightarrow> nat \<Rightarrow> bool" where
  "pid_used ps n \<longleftrightarrow> bit (ps ! (n div 32)) (31 - n mod 32)"

lemma get_pid_bit_Some:
  "get_pid_bit w j n = Some k \<Longrightarrow> j + n \<le> 32 \<Longrightarrow>
   j \<le> k \<and> k < j + n \<and> \<not> bit w (31 - k) \<and> (\<forall>i. j \<le> i \<longrightarrow> i < k \<longrightarrow> bit w (31 - i))"
proof (induction n arbitrary: j)
  case (Suc n)
  show ?case
  proof (cases "get_bit_u32 w (31 - j) = 0")
    case True
    then show ?thesis using Suc.prems get_bit_u32_iff [of "31 - j" w] by auto
  next
    case False
    then have b: "bit w (31 - j)" using get_bit_u32_iff [of "31 - j" w] by simp
    have "get_pid_bit w (Suc j) n = Some k" using Suc.prems False by simp
    from Suc.IH [OF this] Suc.prems b show ?thesis
      by (metis Suc_leD Suc_le_eq add_Suc add_Suc_right le_neq_implies_less)
  qed
qed simp

lemma get_pid_bit_None: "get_pid_bit w j n = None \<Longrightarrow> j \<le> k \<Longrightarrow> k < j + n \<Longrightarrow> bit w (31 - k)"
proof (induction n arbitrary: j)
  case (Suc n)
  then have f: "get_bit_u32 w (31 - j) \<noteq> 0" and r: "get_pid_bit w (Suc j) n = None"
    by (auto split: if_splits)
  show ?case
  proof (cases "k = j")
    case True
    then show ?thesis using f get_bit_u32_iff [of "31 - j" w] by simp
  next
    case False
    then show ?thesis using Suc.IH [OF r] Suc.prems by simp
  qed
qed simp

lemma full_word_used: "ps ! i = 0xFFFFFFFF \<Longrightarrow> n div 32 = i \<Longrightarrow> pid_used ps n"
proof -
  assume "ps ! i = 0xFFFFFFFF" "n div 32 = i"
  moreover have "(0xFFFFFFFF :: u32) = - 1" by simp
  ultimately show ?thesis by (simp add: pid_used_def bit_minus_1_iff)
qed

lemma no_bit_used: "get_pid_bit (ps ! i) 0 32 = None \<Longrightarrow> n div 32 = i \<Longrightarrow> pid_used ps n"
  unfolding pid_used_def by (auto intro: get_pid_bit_None)

lemma get_pid_loop_skip:
  assumes "ps ! i = 0xFFFFFFFF \<or> get_pid_bit (ps ! i) 0 32 = None"
  shows "get_pid_loop ps i (Suc n) = get_pid_loop ps (Suc i) n" and "m div 32 = i \<Longrightarrow> pid_used ps m"
  using assms full_word_used no_bit_used by auto

lemma get_pid_loop_Some:
  "get_pid_loop ps i n = Some (a, b) \<Longrightarrow>
   i \<le> a \<and> a < i + n \<and> b < 32 \<and> \<not> pid_used ps (a * 32 + b) \<and> (\<forall>m. i * 32 \<le> m \<longrightarrow> m < a * 32 + b \<longrightarrow> pid_used ps m)"
proof (induction n arbitrary: i)
  case (Suc n)
  show ?case
  proof (cases "ps ! i = 0xFFFFFFFF \<or> get_pid_bit (ps ! i) 0 32 = None")
    case True
    note skip = get_pid_loop_skip [OF True]
    have IH: "Suc i \<le> a \<and> a < Suc i + n \<and> b < 32 \<and> \<not> pid_used ps (a * 32 + b)
        \<and> (\<forall>m. Suc i * 32 \<le> m \<longrightarrow> m < a * 32 + b \<longrightarrow> pid_used ps m)"
      using Suc.IH [of "Suc i"] Suc.prems unfolding skip(1) .
    have "pid_used ps m" if "i * 32 \<le> m" "m < a * 32 + b" for m
      using IH skip(2) [of m] that by (cases "m < Suc i * 32") (auto simp: div_nat_eqI)
    with IH show ?thesis by auto
  next
    case False
    then obtain j where j: "get_pid_bit (ps ! i) 0 32 = Some j" and "a = i" "b = j"
      using Suc.prems by auto
    from get_pid_bit_Some [OF j]
    have b: "b < 32" "\<not> bit (ps ! i) (31 - b)" "\<And>k. k < b \<Longrightarrow> bit (ps ! i) (31 - k)"
      using \<open>b = j\<close> by auto
    have "pid_used ps m" if "i * 32 \<le> m" "m < i * 32 + b" for m
    proof -
      have d: "m div 32 = i" using that b(1) by (intro div_nat_eqI) auto
      moreover have "m mod 32 < b" using that(2) mult_div_mod_eq [of 32 m] unfolding d by linarith
      ultimately show ?thesis using b(3) by (simp add: pid_used_def)
    qed
    with b \<open>a = i\<close> show ?thesis by (simp add: pid_used_def)
  qed
qed simp

lemma get_pid_loop_None: "get_pid_loop ps i n = None \<Longrightarrow> i * 32 \<le> m \<Longrightarrow> m < (i + n) * 32 \<Longrightarrow> pid_used ps m"
proof (induction n arbitrary: i)
  case (Suc n)
  then have skip: "ps ! i = 0xFFFFFFFF \<or> get_pid_bit (ps ! i) 0 32 = None"
    by (auto split: option.splits if_splits)
  show ?case
  proof (cases "m div 32 = i")
    case True
    then show ?thesis by (rule get_pid_loop_skip(2) [OF skip])
  next
    case False
    then have "Suc i * 32 \<le> m" using Suc.prems(2) by (metis div_nat_eqI mult.commute not_le)
    moreover have "get_pid_loop ps (Suc i) n = None" using Suc.prems(1) unfolding get_pid_loop_skip(1) [OF skip] .
    ultimately show ?thesis using Suc.IH [of "Suc i"] Suc.prems(3) by simp
  qed
qed simp

lemma get_pid_free:
  assumes "length (pids s) = 128"
  shows "if \<forall>n < 4096. pid_used (pids s) n then get_pid s = (- 1, s)
    else \<exists>n ps. n < 4096 \<and> get_pid s = (of_nat n, s\<lparr>pids := ps\<rparr>) \<and> length ps = 128
      \<and> \<not> pid_used (pids s) n \<and> (\<forall>m < n. pid_used (pids s) m)
      \<and> (\<forall>m < 4096. pid_used ps m \<longleftrightarrow> pid_used (pids s) m \<or> m = n)"
proof (cases "get_pid_loop (pids s) 0 128")
  case None
  then have "\<forall>n < 4096. pid_used (pids s) n" using get_pid_loop_None [of "pids s" 0 128] by auto
  with None show ?thesis by (simp add: get_pid_def assms)
next
  case (Some p)
  obtain i j where p: "p = (i, j)" by (cases p)
  note l = get_pid_loop_Some [OF Some [unfolded p]]
  define ps where "ps = (pids s)[i := set_bit_u32 (pids s ! i) (31 - j) 1]"
  have n: "i * 32 + j < 4096" using l by linarith
  have "pid_used ps m \<longleftrightarrow> pid_used (pids s) m \<or> m = i * 32 + j" if "m < 4096" for m
  proof -
    have "m mod 32 < 32" by simp
    then have "31 - m mod 32 = 31 - j \<longleftrightarrow> m mod 32 = j" using l by linarith
    moreover have "m = i * 32 + j \<longleftrightarrow> m div 32 = i \<and> m mod 32 = j"
    proof
      assume "m = i * 32 + j"
      with l show "m div 32 = i \<and> m mod 32 = j" by (simp add: div_nat_eqI)
    next
      assume "m div 32 = i \<and> m mod 32 = j"
      then show "m = i * 32 + j" using div_mult_mod_eq [of m 32] by simp
    qed
    moreover have "i < length (pids s)" using l assms by simp
    ultimately show ?thesis
      by (simp add: pid_used_def ps_def nth_list_update bit_set_bit_u32)
  qed
  moreover have "get_pid s = (of_nat (i * 32 + j), s\<lparr>pids := ps\<rparr>)"
    using Some p by (simp add: get_pid_def assms ps_def)
  moreover have "length ps = 128" by (simp add: ps_def assms)
  moreover have "\<not> (\<forall>n < 4096. pid_used (pids s) n)" using l n by blast
  moreover have "\<not> pid_used (pids s) (i * 32 + j)" "\<forall>m < i * 32 + j. pid_used (pids s) m" using l by simp_all
  ultimately show ?thesis using n by (metis (no_types, lifting))
qed

text \<open>
  C26. \<open>get_pid\<close> returns the least pid that is not taken and marks exactly that one as taken; it
  returns -1 and changes nothing exactly when all 4096 pids of the bitmap are taken.
\<close>

theorem get_pid_least:
  assumes "length (pids s) = 128"
  shows "if \<forall>n < 4096. pid_used (pids s) n then get_pid s = (- 1, s)
    else \<exists>n ps. n < 4096 \<and> get_pid s = (of_nat n, s\<lparr>pids := ps\<rparr>) \<and> length ps = 128
      \<and> \<not> pid_used (pids s) n \<and> (\<forall>m < n. pid_used (pids s) m)
      \<and> (\<forall>m < 4096. pid_used ps m \<longleftrightarrow> pid_used (pids s) m \<or> m = n)"
  by (rule get_pid_free [OF assms])

section \<open>A blank kernel\<close>

text \<open>No process yet; the worked examples start from it.\<close>

definition kernel0 :: kernel where
  "kernel0 = machine.extend machine0
     \<lparr>pcb_state = \<lambda>_. TASK_READY, pcb_pid = \<lambda>_. 0, pcb_start_stack = \<lambda>_. 0, pcb_parent = \<lambda>_. 0, pcb_mm = \<lambda>_. 0,
      pcb_backup_pde = \<lambda>_. 0, pcb_context = \<lambda>_. \<lparr>cx_eip = 0, cx_ebx = 0, cx_ecx = 0, cx_edx = 0, cx_esi = 0,
      cx_edi = 0, cx_ebp = 0, cx_esp = 0\<rparr>, pcb_frame = \<lambda>_. 0, pcb_waitstate = \<lambda>_. NOT_WT, pcb_cptr = \<lambda>_. 0,
      pcb_yptr = \<lambda>_. 0, pcb_optr = \<lambda>_. 0, frames = \<lambda>_. frame0, sem_value = \<lambda>_. 0, cond_x_count = \<lambda>_. 0,
      cond_monitor = \<lambda>_. 0, mon_next_count = \<lambda>_. 0, mon_cvs = \<lambda>_. 0, idle = 0, init_proc = 0, current = 0,
      proc_num = 0, pids = replicate 128 0, proc_list = 0xC0105020, kern_stack = 0xC0102000,
      context_to_intr = 0xC0101020, kernel_thread_entry = 0xC0101040, exit_proc_addr = 0xC0101060, cpu = cpu0,
      regs = \<lparr>cx_eip = 0xC0100100, cx_ebx = 0, cx_ecx = 0, cx_edx = 0, cx_esi = 0, cx_edi = 0, cx_ebp = 0, cx_esp = 0xC0103000\<rparr>\<rparr>"

lemmas kernel0_fields = kernel0_def machine.extend_def machine0_def

theorem get_pid_least_witness:
  "\<exists>ps. get_pid kernel0 = (0, kernel0\<lparr>pids := ps\<rparr>) \<and> pid_used ps 0 \<and> \<not> pid_used ps 1"
proof -
  have z: "\<not> pid_used (replicate 128 0) n" if "n < 4096" for n
    using that by (simp add: pid_used_def less_mult_imp_div_less)
  have p: "pids kernel0 = replicate 128 0" by (simp add: kernel0_fields)
  have "length (pids kernel0) = 128" by (simp add: p)
  note least = get_pid_least [OF this, unfolded p]
  have "\<not> (\<forall>n < 4096. pid_used (replicate 128 0) n)"
  proof
    assume "\<forall>n < 4096. pid_used (replicate 128 0) n"
    then have "pid_used (replicate 128 0) 0" by (rule allE [of _ 0]) simp
    with z [of 0] show False by simp
  qed
  with least obtain n ps where n: "n < 4096" "get_pid kernel0 = (of_nat n, kernel0\<lparr>pids := ps\<rparr>)"
      "\<forall>m < n. pid_used (replicate 128 0) m" "\<forall>m < 4096. pid_used ps m \<longleftrightarrow> pid_used (replicate 128 0) m \<or> m = n"
    unfolding if_not_P [OF \<open>\<not> (\<forall>n < 4096. pid_used (replicate 128 0) n)\<close>] by blast
  have "n = 0"
  proof (rule ccontr)
    assume "n \<noteq> 0"
    then have "pid_used (replicate 128 0) 0" using n(3) by simp
    with z [of 0] show False by simp
  qed
  moreover have "pid_used ps 0 \<longleftrightarrow> pid_used (replicate 128 0) 0 \<or> 0 = n" "pid_used ps 1 \<longleftrightarrow> pid_used (replicate 128 0) 1 \<or> 1 = n"
    using n(4) by simp_all
  ultimately show ?thesis using n(2) z [of 1] by (intro exI [of _ ps]) simp
qed

end
