(* ===== verification/Sched.thy ===== *)
theory Sched
  imports Proc
begin

text \<open>
  The scheduler: \<open>schedule/process/sched.c\<close> and the timer interrupt of \<open>idt/timer.c\<close>. A call of \<open>schedule\<close> ends
  in a context switch; the state it returns is the machine at the moment after the switch. What is left
  to do for the process that called it, when it is switched back to, is \<open>schedule_resume\<close> with
  the saved interrupt flag. The abstract scheduler \<open>rr_next\<close> is a round robin over the list of processes.
\<close>

section \<open>The code\<close>

partial_function (option) schedule_loop :: "u32 \<Rightarrow> u32 \<Rightarrow> u32 \<Rightarrow> 'a kernel_scheme \<Rightarrow> u32 option" where
  "schedule_loop beg nxt target_pcb s =
     (if nxt = beg then Some target_pcb
      else if nxt = proc_list s then schedule_loop beg (get_next s nxt) target_pcb s
      else if pcb_state s (kpa (node_pcb nxt)) = TASK_RUNNABLE then Some (node_pcb nxt)
      else schedule_loop beg (get_next s nxt) (node_pcb nxt) s)"

text \<open>From the first line to the return of \<open>run_thread\<close>, with the flag that the last line restores.\<close>

definition schedule_switch :: "'a kernel_scheme \<Rightarrow> (i32 \<times> 'a kernel_scheme) option" where
  "schedule_switch s =
     (let (flag, c) = atom_disable_intr (cpu s);
          s = s\<lparr>cpu := c\<rparr>
      in if current s = NULL then Some (0, s)
         else
           let beg = (if current s = idle s then proc_list s else pcb_node (current s))
           in do {
             target_pcb \<leftarrow> schedule_loop beg (get_next s beg) NULL s;
             Some (flag, if target_pcb \<noteq> NULL \<and> pcb_state s (kpa target_pcb) = TASK_RUNNABLE
                         then run_thread target_pcb s else run_thread (idle s) s)
           })"

definition schedule_resume :: "i32 \<Rightarrow> 'a kernel_scheme \<Rightarrow> 'a kernel_scheme" where
  "schedule_resume flag s = on_cpu (atom_enable_intr flag) s"

definition schedule :: "'a kernel_scheme \<Rightarrow> 'a kernel_scheme option" where
  "schedule s =
     do {
       (flag, s') \<leftarrow> schedule_switch s;
       Some (if current s' = current s then schedule_resume flag s' else s')
     }"

definition timer_handler :: "'a kernel_scheme \<Rightarrow> 'a kernel_scheme option" where
  "timer_handler s =
     (let (flag, c) = atom_disable_intr (cpu s);
          s = s\<lparr>cpu := c\<lparr>jiffies := jiffies c + 1\<rparr>\<rparr>
      in do {
        s' \<leftarrow> schedule s;
        Some (if current s' = current s then on_cpu (atom_enable_intr flag) s' else s')
      })"

section \<open>Round robin\<close>

definition runnable :: "'a kernel_scheme \<Rightarrow> u32 \<Rightarrow> bool" where
  "runnable s p \<longleftrightarrow> pcb_state s (kpa p) = TASK_RUNNABLE"

text \<open>The processes in the order in which they are offered the processor after \<open>cur\<close>.\<close>

definition rr_order :: "'p \<Rightarrow> 'p list \<Rightarrow> 'p list" where
  "rr_order cur ps = tl (dropWhile (\<lambda>p. p \<noteq> cur) ps) @ takeWhile (\<lambda>p. p \<noteq> cur) ps"

definition rr_next :: "('p \<Rightarrow> bool) \<Rightarrow> 'p \<Rightarrow> 'p \<Rightarrow> 'p list \<Rightarrow> 'p" where
  "rr_next ready idle_proc cur ps = (case find ready (rr_order cur ps) of Some p \<Rightarrow> p | None \<Rightarrow> idle_proc)"

text \<open>The process list of the kernel: \<open>ps\<close> in list order, the idle process is not on it.\<close>

definition proc_ring :: "'a kernel_scheme \<Rightarrow> u32 list \<Rightarrow> bool" where
  "proc_ring s ps \<longleftrightarrow> ring s (proc_list s) (map pcb_node ps) \<and> NULL \<notin> set ps \<and> idle s \<notin> set ps
     \<and> idle s \<noteq> NULL \<and> (current s = idle s \<or> current s \<in> set ps)"

lemma split_at:
  "cur \<notin> set as \<Longrightarrow> takeWhile (\<lambda>p. p \<noteq> cur) (as @ cur # bs) = as \<and> dropWhile (\<lambda>p. p \<noteq> cur) (as @ cur # bs) = cur # bs"
  by (induction as) auto

lemma rr_order_split: "cur \<notin> set as \<Longrightarrow> rr_order cur (as @ cur # bs) = bs @ as"
  using split_at [of cur as bs] by (simp add: rr_order_def)

lemma rr_order_notin: "cur \<notin> set ps \<Longrightarrow> rr_order cur ps = ps"
proof -
  assume "cur \<notin> set ps"
  then have "takeWhile (\<lambda>p. p \<noteq> cur) ps = ps" "dropWhile (\<lambda>p. p \<noteq> cur) ps = []"
    by (induction ps) auto
  then show ?thesis unfolding rr_order_def by (simp only: list.sel append.simps)
qed

lemma find_append: "find P (xs @ ys) = (case find P xs of Some x \<Rightarrow> Some x | None \<Rightarrow> find P ys)"
  by (induction xs) auto

lemma schedule_loop_seg:
  assumes "seg s x (map pcb_node qs) y" and "beg \<notin> pcb_node ` set qs" and "proc_list s \<notin> pcb_node ` set qs"
  shows "schedule_loop beg (get_next s x) t s =
    (case find (runnable s) qs of Some p \<Rightarrow> Some p | None \<Rightarrow> schedule_loop beg y (last (t # qs)) s)"
  using assms
proof (induction qs arbitrary: x t)
  case Nil
  then show ?case by simp
next
  case (Cons q qs)
  then have "get_next s x = pcb_node q" "pcb_node q \<noteq> beg" "pcb_node q \<noteq> proc_list s" by auto
  moreover have "schedule_loop beg (get_next s (pcb_node q)) q s =
      (case find (runnable s) qs of Some p \<Rightarrow> Some p | None \<Rightarrow> schedule_loop beg y (last (q # qs)) s)"
    by (rule Cons.IH) (use Cons.prems in auto)
  ultimately show ?case by (subst schedule_loop.simps) (simp add: runnable_def split: option.split)
qed

lemma inj_pcb_node: "inj pcb_node"
  by (simp add: inj_def pcb_node_def)

lemma schedule_loop_order:
  assumes "proc_ring s ps"
  defines "beg \<equiv> (if current s = idle s then proc_list s else pcb_node (current s))"
  shows "schedule_loop beg (get_next s beg) NULL s =
    Some (case find (runnable s) (rr_order (current s) ps) of Some p \<Rightarrow> p | None \<Rightarrow> last (NULL # rr_order (current s) ps))"
proof -
  have r: "ring s (proc_list s) (map pcb_node ps)" using assms(1) by (simp add: proc_ring_def)
  have h: "proc_list s \<notin> pcb_node ` set ps" using ring_not_head [OF r] by simp
  have d: "distinct ps"
    using r by (auto simp: ring_def distinct_map)
  show ?thesis
  proof (cases "current s = idle s")
    case True
    then have "rr_order (current s) ps = ps" using assms(1) by (simp add: proc_ring_def rr_order_notin)
    moreover have "seg s (proc_list s) (map pcb_node ps) (proc_list s)" using r by (simp add: ring_def)
    moreover have "schedule_loop (proc_list s) (proc_list s) t s = Some t" for t
      by (subst schedule_loop.simps) simp
    ultimately show ?thesis
      using True schedule_loop_seg [of s "proc_list s" ps "proc_list s" beg NULL] h
      by (simp add: beg_def split: option.splits)
  next
    case False
    then have "current s \<in> set ps" using assms(1) by (auto simp: proc_ring_def)
    then obtain as bs where ps: "ps = as @ current s # bs" by (blast dest: split_list)
    define cur where "cur = current s"
    have ps: "ps = as @ cur # bs" using ps by (simp add: cur_def)
    have sg: "seg s (proc_list s) (map pcb_node as) (pcb_node cur)" "seg s (pcb_node cur) (map pcb_node bs) (proc_list s)"
      using r by (simp_all add: ps ring_def seg_append_Cons)
    have nb: "pcb_node cur \<notin> pcb_node ` set as" "pcb_node cur \<notin> pcb_node ` set bs"
      using d inj_pcb_node by (auto simp: ps dest: injD)
    have hd: "proc_list s \<notin> pcb_node ` set as" "proc_list s \<notin> pcb_node ` set bs" "proc_list s \<noteq> pcb_node cur"
      using h by (auto simp: ps)
    have beg: "beg = pcb_node cur" using False by (simp add: beg_def cur_def)
    have one: "schedule_loop beg (get_next s beg) NULL s = (case find (runnable s) bs of Some p \<Rightarrow> Some p
        | None \<Rightarrow> schedule_loop beg (proc_list s) (last (NULL # bs)) s)"
      unfolding beg by (rule schedule_loop_seg [OF sg(2) nb(2) hd(2)])
    have wrap: "schedule_loop beg (proc_list s) t s = schedule_loop beg (get_next s (proc_list s)) t s" for t
      using hd(3) by (subst schedule_loop.simps) (simp add: beg)
    have two: "schedule_loop beg (get_next s (proc_list s)) t s = (case find (runnable s) as of Some p \<Rightarrow> Some p
        | None \<Rightarrow> Some (last (t # as)))" for t
      unfolding beg schedule_loop_seg [OF sg(1) nb(1) hd(1)]
      by (subst schedule_loop.simps) simp
    have "rr_order cur ps = bs @ as" using d by (simp add: ps rr_order_split)
    then show ?thesis
      unfolding one wrap two cur_def [symmetric]
      by (simp add: find_append split: option.splits)
  qed
qed

lemma set_rr_order: "distinct ps \<Longrightarrow> set (rr_order cur ps) = set ps - {cur}"
proof (cases "cur \<in> set ps")
  case True
  then obtain as bs where "ps = as @ cur # bs" by (blast dest: split_list)
  moreover assume "distinct ps"
  ultimately show ?thesis by (auto simp: rr_order_split)
qed (simp add: rr_order_notin)

lemma proc_ring_distinct: "proc_ring s ps \<Longrightarrow> distinct ps"
  by (auto simp: proc_ring_def ring_def distinct_map)

text \<open>What \<open>run_thread\<close> does to the machine when it really switches.\<close>

definition switched :: "u32 \<Rightarrow> 'a kernel_scheme \<Rightarrow> 'a kernel_scheme" where
  "switched p s = s\<lparr>current := p, pcb_context := (pcb_context s)(kpa (current s) := regs s),
     regs := ((pcb_context s)(kpa (current s) := regs s)) (kpa p),
     cpu := (cli (cpu s))\<lparr>tss0 := (tss0 (cpu s))\<lparr>t_esp0 := pcb_start_stack s (kpa p)\<rparr>, cr3 := pcb_backup_pde s (kpa p)\<rparr>\<rparr>"

lemma cli_fields [simp]: "tss0 (cli c) = tss0 c" "cr3 (cli c) = cr3 c"
  by (simp_all add: cli_def)

lemma run_thread_switched:
  "p \<noteq> current s \<Longrightarrow> run_thread p (s\<lparr>cpu := cli (cpu s)\<rparr>) = switched p s"
  by (simp add: run_thread_def switched_def switch_to_def on_cpu_def Let_def)

lemma proc_ring_cpu [simp]: "proc_ring (s\<lparr>cpu := c\<rparr>) ps = proc_ring s ps"
proof -
  have "ring (s\<lparr>cpu := c\<rparr>) h ns = ring s h ns" for h ns
    by (rule ring_links) (simp_all add: get_next_def get_prev_def fun_eq_iff)
  then show ?thesis by (simp add: proc_ring_def)
qed

lemma runnable_cpu [simp]: "runnable (s\<lparr>cpu := c\<rparr>) = runnable s"
  by (simp add: runnable_def fun_eq_iff)

lemma find_runnable: "find P xs = Some x \<Longrightarrow> P x \<and> x \<in> set xs"
  by (induction xs) (auto split: if_splits)

lemma schedule_rr:
  assumes "proc_ring s ps"
  shows "schedule s = Some (let p = rr_next (runnable s) (idle s) (current s) ps in if p = current s then s else switched p s)"
proof -
  define s1 where "s1 = s\<lparr>cpu := cli (cpu s)\<rparr>"
  define t where "t = (case find (runnable s) (rr_order (current s) ps) of Some p \<Rightarrow> p
    | None \<Rightarrow> last (NULL # rr_order (current s) ps))"
  define p where "p = rr_next (runnable s) (idle s) (current s) ps"
  have r1: "proc_ring s1 ps" and f1: "current s1 = current s" "idle s1 = idle s" "runnable s1 = runnable s" "proc_list s1 = proc_list s"
    using assms by (simp_all add: s1_def)
  have cur: "current s \<noteq> NULL" using assms by (auto simp: proc_ring_def)
  have loop: "schedule_loop beg (get_next s1 beg) NULL s1 = Some t"
    if "beg = (if current s = idle s then proc_list s else pcb_node (current s))" for beg
    unfolding t_def that by (rule schedule_loop_order [OF r1, unfolded f1])
  have sel: "(if t \<noteq> NULL \<and> pcb_state s (kpa t) = TASK_RUNNABLE then t else idle s) = p"
  proof (cases "find (runnable s) (rr_order (current s) ps)")
    case None
    have "t = NULL \<or> t \<in> set (rr_order (current s) ps)" using None by (simp add: t_def)
    moreover have "\<not> runnable s q" if "q \<in> set (rr_order (current s) ps)" for q
      using None that by (simp add: find_None_iff)
    ultimately have "t = NULL \<or> \<not> runnable s t" by blast
    with None show ?thesis by (auto simp: p_def rr_next_def runnable_def)
  next
    case (Some q)
    then have "runnable s q" "q \<in> set ps"
      using find_runnable [OF Some] set_rr_order [OF proc_ring_distinct [OF assms]] by auto
    moreover have "q \<noteq> NULL" using \<open>q \<in> set ps\<close> assms by (auto simp: proc_ring_def)
    ultimately show ?thesis using Some by (simp add: t_def p_def rr_next_def runnable_def)
  qed
  have sw: "schedule_switch s = Some (fst (atom_disable_intr (cpu s)), run_thread p s1)"
    using loop cur sel
    by (auto simp: schedule_switch_def atom_disable_intr_eq Let_def s1_def [symmetric] f1
        simp del: split_paired_Ex)
  show ?thesis
  proof (cases "p = current s")
    case True
    then have "run_thread p s1 = s1" by (simp add: run_thread_def f1)
    moreover have "schedule_resume (fst (atom_disable_intr (cpu s))) s1 = s"
      using atom_restores [of "cpu s"] by (simp add: schedule_resume_def on_cpu_def s1_def atom_disable_intr_eq)
    ultimately show ?thesis
      using True by (simp add: schedule_def sw f1 p_def [symmetric])
  next
    case False
    then have "run_thread p s1 = switched p s" unfolding s1_def by (rule run_thread_switched)
    then show ?thesis using False by (simp add: schedule_def sw p_def [symmetric] switched_def)
  qed
qed

lemma rr_next_ready: "rr_next ready i cur ps = i \<or> ready (rr_next ready i cur ps) \<and> rr_next ready i cur ps \<in> set (rr_order cur ps)"
  by (cases "find ready (rr_order cur ps)") (auto simp: rr_next_def dest: find_runnable)

lemma proc_ring_switched:
  assumes "proc_ring s ps" and "p = idle s \<or> p \<in> set ps"
  shows "proc_ring (switched p s) ps"
proof -
  have "ring (switched p s) h ns = ring s h ns" for h ns
    by (rule ring_links) (simp_all add: get_next_def get_prev_def fun_eq_iff switched_def)
  then show ?thesis using assms by (simp add: proc_ring_def switched_def)
qed

text \<open>
  C3. \<open>schedule\<close> implements round robin. With a well-formed process list it always returns; the process that runs
  next is the first runnable one after the current process in list order, wrapping around, and the idle
  process if there is none. If this is a different process, the registers of the old one are saved in its
  context, those of the new one are loaded, its kernel stack and page directory are installed, and
  interrupts are off; otherwise nothing changes. Nothing else of the kernel changes, the list included.
\<close>

theorem schedule_round_robin:
  assumes "proc_ring s ps"
  shows "\<exists>s'. schedule s = Some s' \<and> proc_ring s' ps \<and> current s' = rr_next (runnable s) (idle s) (current s) ps
    \<and> (if current s' = current s then s' = s
       else pcb_context s' (kpa (current s)) = regs s
         \<and> (kpa (current s') \<noteq> kpa (current s) \<longrightarrow> regs s' = pcb_context s (kpa (current s')))
         \<and> t_esp0 (tss0 (cpu s')) = pcb_start_stack s (kpa (current s')) \<and> cr3 (cpu s') = pcb_backup_pde s (kpa (current s'))
         \<and> \<not> intr_on (cpu s')
         \<and> s' = s\<lparr>current := current s', pcb_context := pcb_context s', regs := regs s', cpu := cpu s'\<rparr>)"
proof -
  define p where "p = rr_next (runnable s) (idle s) (current s) ps"
  have p: "p = idle s \<or> p \<in> set ps"
    using rr_next_ready [of "runnable s" "idle s" "current s" ps] set_rr_order [OF proc_ring_distinct [OF assms]]
    by (auto simp: p_def)
  have s': "schedule s = Some (if p = current s then s else switched p s)"
    using schedule_rr [OF assms] by (simp add: p_def Let_def)
  have i: "intr_on (c\<lparr>tss0 := x, cr3 := y\<rparr>) = intr_on c" for c :: cpu and x y
    by (simp add: intr_on_def)
  show ?thesis
  proof (cases "p = current s")
    case True
    then show ?thesis using s' assms by (simp add: p_def)
  next
    case False
    then show ?thesis
      using s' proc_ring_switched [OF assms p] by (simp add: p_def [symmetric]) (simp add: switched_def i)
  qed
qed

text \<open>
  C18. The scheduler never resumes a process that sleeps or has exited: after \<open>schedule\<close> or a timer interrupt the current process
  is the idle process, or it is on the process list and runnable.
\<close>

theorem schedule_only_runnable:
  assumes "proc_ring s ps" and "f = schedule \<or> f = timer_handler"
  shows "\<exists>s'. f s = Some s' \<and> (current s' = idle s \<or> current s' \<in> set ps \<and> runnable s (current s'))
    \<and> pcb_state s' = pcb_state s"
proof -
  have one: "\<exists>s'. schedule u = Some s' \<and> (current s' = idle u \<or> current s' \<in> set ps \<and> runnable u (current s'))
    \<and> pcb_state s' = pcb_state u" if "proc_ring u ps" for u :: "'a kernel_scheme"
  proof -
    define p where "p = rr_next (runnable u) (idle u) (current u) ps"
    have "p = idle u \<or> p \<in> set ps \<and> runnable u p"
      using rr_next_ready [of "runnable u" "idle u" "current u" ps]
        set_rr_order [OF proc_ring_distinct [OF that], of "current u"]
      unfolding p_def by blast
    moreover have "schedule u = Some (if p = current u then u else switched p u)"
      using schedule_rr [OF that] by (simp add: p_def Let_def)
    ultimately show ?thesis by (cases "p = current u") (simp_all add: switched_def)
  qed
  show ?thesis
  proof (cases "f = schedule")
    case True
    then show ?thesis using one [OF assms(1)] by simp
  next
    case False
    define u where "u = s\<lparr>cpu := (cli (cpu s))\<lparr>jiffies := jiffies (cli (cpu s)) + 1\<rparr>\<rparr>"
    have u: "proc_ring u ps" "idle u = idle s" "runnable u = runnable s" "pcb_state u = pcb_state s" "current u = current s"
      using assms(1) by (simp_all add: u_def)
    from one [OF u(1), unfolded u] obtain s' where s': "schedule u = Some s'"
      "current s' = idle s \<or> current s' \<in> set ps \<and> runnable s (current s')" "pcb_state s' = pcb_state s"
      by blast
    have "f = timer_handler" using False assms(2) by simp
    then have "f s = Some (if current s' = current s then on_cpu (atom_enable_intr (fst (atom_disable_intr (cpu s)))) s' else s')"
      using s'(1) by (simp add: timer_handler_def atom_disable_intr_eq Let_def u_def)
    then show ?thesis using s'(2,3) by (cases "current s' = current s") (simp_all add: on_cpu_def)
  qed
qed

section \<open>No runnable process starves\<close>

text \<open>How many processes are offered the processor before \<open>p\<close>.\<close>

definition rr_ahead :: "'p \<Rightarrow> 'p \<Rightarrow> 'p list \<Rightarrow> nat" where
  "rr_ahead p cur ps = length (takeWhile (\<lambda>q. q \<noteq> p) (rr_order cur ps))"

lemma rr_order_advance:
  assumes "distinct ps" and "rr_order cur ps = as @ q # bs"
  shows "\<exists>zs. rr_order q ps = bs @ zs"
proof (cases "cur \<in> set ps")
  case False
  then have "ps = as @ q # bs" using assms(2) by (simp add: rr_order_notin)
  then show ?thesis using assms(1) by (auto simp: rr_order_split)
next
  case True
  then obtain l r where ps: "ps = l @ cur # r" by (blast dest: split_list)
  then have "r @ l = as @ q # bs" using assms by (simp add: rr_order_split)
  then consider r2 where "r = as @ q # r2" "bs = r2 @ l" | l1 where "as = r @ l1" "l = l1 @ q # bs"
    by (auto simp: append_eq_append_conv2 Cons_eq_append_conv append_eq_Cons_conv)
  then show ?thesis
  proof cases
    case 1
    then have p: "ps = (l @ cur # as) @ q # r2" using ps by simp
    have "q \<notin> set (l @ cur # as)" using assms(1) unfolding p by auto
    then have "rr_order q ps = r2 @ l @ cur # as" unfolding p by (rule rr_order_split)
    then show ?thesis using 1 by simp
  next
    case 2
    then have "ps = l1 @ q # (bs @ cur # r)" using ps by simp
    then show ?thesis using assms(1) by (auto simp: rr_order_split)
  qed
qed

lemma takeWhile_pos:
  assumes "p \<in> set bs" and "p \<noteq> q" and "p \<notin> set as"
  shows "length (takeWhile (\<lambda>x. x \<noteq> p) (bs @ zs)) < length (takeWhile (\<lambda>x. x \<noteq> p) (as @ q # bs))"
proof -
  have "takeWhile (\<lambda>x. x \<noteq> p) (bs @ zs) = takeWhile (\<lambda>x. x \<noteq> p) bs"
    using assms(1) by (induction bs) auto
  moreover have "takeWhile (\<lambda>x. x \<noteq> p) (as @ q # bs) = as @ q # takeWhile (\<lambda>x. x \<noteq> p) bs"
    using assms(2,3) by (induction as) auto
  ultimately show ?thesis by simp
qed

lemma length_takeWhile_neq: "p \<in> set xs \<Longrightarrow> length (takeWhile (\<lambda>x. x \<noteq> p) xs) < length xs"
  by (induction xs) auto

lemma find_split:
  "find P xs = Some q \<Longrightarrow> \<exists>as bs. xs = as @ q # bs \<and> P q \<and> (\<forall>x \<in> set as. \<not> P x)"
proof (induction xs)
  case (Cons x xs)
  show ?case
  proof (cases "P x")
    case True
    then show ?thesis using Cons.prems by (intro exI [of _ "[]"] exI [of _ xs]) simp
  next
    case False
    then obtain as bs where "xs = as @ q # bs" "P q" "\<forall>y \<in> set as. \<not> P y" using Cons by auto
    then show ?thesis using False by (intro exI [of _ "x # as"] exI [of _ bs]) simp
  qed
qed simp

lemma rr_next_closer:
  assumes "distinct ps" and "p \<in> set ps" and "ready p" and "p \<noteq> cur" and "rr_next ready i cur ps \<noteq> p"
  shows "rr_ahead p (rr_next ready i cur ps) ps < rr_ahead p cur ps"
proof -
  have p: "p \<in> set (rr_order cur ps)" using assms set_rr_order [OF assms(1)] by auto
  then obtain q where q: "find ready (rr_order cur ps) = Some q"
    using assms(3) by (metis find_None_iff not_None_eq)
  then obtain as bs where o: "rr_order cur ps = as @ q # bs" "\<forall>x \<in> set as. \<not> ready x"
    using find_split [OF q] by blast
  have n: "rr_next ready i cur ps = q" using q by (simp add: rr_next_def)
  have "p \<in> set bs" "p \<notin> set as" "p \<noteq> q" using p o assms(3,5) n by auto
  moreover obtain zs where "rr_order q ps = bs @ zs" using rr_order_advance [OF assms(1) o(1)] by blast
  ultimately show ?thesis unfolding n rr_ahead_def o(1) by (metis takeWhile_pos)
qed

lemma schedule_reaches:
  fixes \<sigma> :: "nat \<Rightarrow> 'a kernel_scheme"
  assumes "\<And>j. proc_ring (\<sigma> j) ps" and "p \<in> set ps" and "\<And>j. runnable (\<sigma> j) p"
    and "\<And>j. \<exists>s'. schedule (\<sigma> j) = Some s' \<and> current (\<sigma> (Suc j)) = current s'"
    and "current (\<sigma> i) \<noteq> p"
  shows "\<exists>k. i < k \<and> k \<le> i + Suc (rr_ahead p (current (\<sigma> i)) ps) \<and> current (\<sigma> k) = p"
  using assms(5)
proof (induction "rr_ahead p (current (\<sigma> i)) ps" arbitrary: i rule: less_induct)
  case less
  define q where "q = rr_next (runnable (\<sigma> i)) (idle (\<sigma> i)) (current (\<sigma> i)) ps"
  have d: "distinct ps" using proc_ring_distinct [OF assms(1)] .
  have nxt: "current (\<sigma> (Suc i)) = q"
    using assms(4) [of i] schedule_rr [OF assms(1), of i] by (auto simp: q_def Let_def switched_def split: if_splits)
  show ?case
  proof (cases "q = p")
    case True
    then show ?thesis using nxt by (intro exI [of _ "Suc i"]) simp
  next
    case False
    then have "rr_ahead p (current (\<sigma> (Suc i))) ps < rr_ahead p (current (\<sigma> i)) ps"
      unfolding nxt unfolding q_def using d assms(2,3) less.prems by (intro rr_next_closer) auto
    moreover from less.hyps [OF this] False nxt obtain k where
      "Suc i < k" "k \<le> Suc i + Suc (rr_ahead p (current (\<sigma> (Suc i))) ps)" "current (\<sigma> k) = p" by auto
    ultimately show ?thesis by (intro exI [of _ k]) simp
  qed
qed

text \<open>
  C21. No runnable process starves. Consider any run in which the scheduler is called again and again and the code
  between two calls leaves the process list and the choice of the current process alone, while the states of the other
  processes may change in any way. A process that stays runnable gets the processor within as many
  calls as there are processes on the list.
\<close>

theorem schedule_fair:
  fixes \<sigma> :: "nat \<Rightarrow> 'a kernel_scheme"
  assumes "\<And>j. proc_ring (\<sigma> j) ps" and "p \<in> set ps" and "\<And>j. runnable (\<sigma> j) p"
    and "\<And>j. \<exists>s'. schedule (\<sigma> j) = Some s' \<and> current (\<sigma> (Suc j)) = current s'"
  shows "\<exists>k. i \<le> k \<and> k \<le> i + length ps \<and> current (\<sigma> k) = p"
proof (cases "current (\<sigma> i) = p")
  case False
  have "rr_ahead p (current (\<sigma> i)) ps < length ps"
  proof -
    have "p \<in> set (rr_order (current (\<sigma> i)) ps)"
      using set_rr_order [OF proc_ring_distinct [OF assms(1)]] assms(2) False by auto
    then have "rr_ahead p (current (\<sigma> i)) ps < length (rr_order (current (\<sigma> i)) ps)"
      unfolding rr_ahead_def by (rule length_takeWhile_neq)
    also have "\<dots> \<le> length ps"
    proof -
      let ?P = "\<lambda>q. q \<noteq> current (\<sigma> i)"
      have "length (takeWhile ?P ps) + length (dropWhile ?P ps) = length ps"
        by (metis length_append takeWhile_dropWhile_id)
      then show ?thesis by (simp add: rr_order_def)
    qed
    finally show ?thesis .
  qed
  moreover from schedule_reaches [OF assms False] obtain k where
    "i < k" "k \<le> i + Suc (rr_ahead p (current (\<sigma> i)) ps)" "current (\<sigma> k) = p" by blast
  ultimately show ?thesis by (intro exI [of _ k]) simp
qed auto

section \<open>A worked example\<close>

text \<open>Two processes on the list, the second of them runnable, and the idle process.\<close>

abbreviation ex_p1 :: u32 where "ex_p1 \<equiv> 0xC0300000"
abbreviation ex_p2 :: u32 where "ex_p2 \<equiv> 0xC0300100"
abbreviation ex_idle :: u32 where "ex_idle \<equiv> 0xC0300200"

definition sched_list :: kernel where
  "sched_list = list_insert_after (proc_list kernel0) (pcb_node ex_p1)
     (list_insert_after (proc_list kernel0) (pcb_node ex_p2) (list_init (proc_list kernel0) kernel0))"

definition sched_example :: "u32 \<Rightarrow> kernel" where
  "sched_example cur = sched_list\<lparr>idle := ex_idle, current := cur, pcb_state := (pcb_state kernel0)(kpa ex_p2 := TASK_RUNNABLE)\<rparr>"

lemma list_ops_kernel [simp]:
  "proc_list (list_insert_after a b s) = proc_list s" "proc_list (list_init a s) = proc_list s"
  by (simp_all add: list_op_defs set_next_def set_prev_def Let_def)

lemma sched_example_ring:
  assumes "cur = ex_idle \<or> cur = ex_p2"
  shows "proc_ring (sched_example cur) [ex_p1, ex_p2]"
proof -
  have h: "proc_list kernel0 = 0xC0105020" by (simp add: kernel0_fields)
  have "ring sched_list (proc_list kernel0) [pcb_node ex_p1, pcb_node ex_p2]"
    unfolding sched_list_def h
    by (intro kl.push_front kl.rep_init) (simp_all add: kpa_def pcb_node_def)
  moreover have "ring (sched_example cur) hn ns = ring sched_list hn ns" for hn ns
    by (rule ring_links) (simp_all add: sched_example_def get_next_def get_prev_def fun_eq_iff)
  ultimately show ?thesis
    using assms by (auto simp: proc_ring_def sched_example_def) (simp_all add: sched_list_def)
qed

lemma sched_example_next:
  "rr_next (runnable (sched_example ex_idle)) (idle (sched_example ex_idle)) (current (sched_example ex_idle)) [ex_p1, ex_p2] = ex_p2"
  "rr_next (runnable (sched_example ex_p2)) (idle (sched_example ex_p2)) (current (sched_example ex_p2)) [ex_p1, ex_p2] = ex_idle"
  by (simp_all add: rr_next_def rr_order_def sched_example_def runnable_def kpa_def kernel0_fields)

theorem schedule_round_robin_witness:
  "\<exists>s'. schedule (sched_example ex_idle) = Some s' \<and> proc_ring s' [ex_p1, ex_p2] \<and> current s' = ex_p2"
  using schedule_round_robin [OF sched_example_ring [of ex_idle]] by (auto simp: sched_example_next)

theorem schedule_only_runnable_witness:
  "\<exists>s'. timer_handler (sched_example ex_idle) = Some s' \<and> pcb_state s' = pcb_state (sched_example ex_idle)"
  using schedule_only_runnable [OF sched_example_ring [of ex_idle], of timer_handler] by blast

theorem schedule_fair_witness:
  "\<exists>k :: nat. 7 \<le> k \<and> k \<le> 9 \<and> current (if even k then sched_example ex_idle else sched_example ex_p2) = ex_p2"
proof -
  let ?s = "\<lambda>j :: nat. if even j then sched_example ex_idle else sched_example ex_p2"
  have r: "proc_ring (?s j) [ex_p1, ex_p2]" for j using sched_example_ring by simp
  have c: "current (sched_example q) = q" for q by (simp add: sched_example_def)
  have "\<exists>s'. schedule (?s j) = Some s' \<and> current (?s (Suc j)) = current s'" for j
    using schedule_rr [OF sched_example_ring [of ex_idle], unfolded sched_example_next]
      schedule_rr [OF sched_example_ring [of ex_p2], unfolded sched_example_next]
    by (cases "even j") (simp_all add: Let_def c switched_def)
  moreover have "runnable (?s j) ex_p2" for j by (simp add: runnable_def sched_example_def)
  ultimately have "\<exists>k. 7 \<le> k \<and> k \<le> 7 + length [ex_p1, ex_p2] \<and> current (?s k) = ex_p2"
    by (intro schedule_fair [OF r]) auto
  then show ?thesis by simp
qed

end
