(* ===== verification/Semaphore.thy ===== *)
theory Semaphore
  imports Sched
begin

text \<open>
  Semaphores: \<open>schedule/synchronize/semaphore.c\<close>. A process that has to wait in \<open>P\<close> is put at the end of the semaphore's
  queue and the processor is given away; as for \<open>schedule\<close>, the state returned is the machine after the switch. The
  locale \<open>semaphore_spec\<close> is the contract of a family of semaphores with first-in first-out queues, and the last section
  shows that the code fulfils it, for all processes and semaphores in memory at once.
\<close>

section \<open>The code\<close>

definition sem_queue :: "u32 \<Rightarrow> u32" where
  "sem_queue a = a + 4"

definition set_sem_value :: "u32 \<Rightarrow> i32 \<Rightarrow> 'a kernel_scheme \<Rightarrow> 'a kernel_scheme" where
  "set_sem_value a v s = s\<lparr>sem_value := (sem_value s)(kpa a := v)\<rparr>"

definition semaphore_init :: "u32 \<Rightarrow> i32 \<Rightarrow> 'a kernel_scheme \<Rightarrow> 'a kernel_scheme" where
  "semaphore_init a v s =
     (let s = set_sem_value a v s
      in list_init (sem_queue a) s)"

definition P :: "u32 \<Rightarrow> 'a kernel_scheme \<Rightarrow> 'a kernel_scheme option" where
  "P a s =
     (let (flag, c) = atom_disable_intr (cpu s);
          s = s\<lparr>cpu := c\<rparr>;
          s = set_sem_value a (sem_value s (kpa a) - 1) s
      in if sem_value s (kpa a) <s 0 then
           let s = list_insert_before (sem_queue a) (pcb_sem_node (current s)) s;
               s = set_state (current s) TASK_SLEEPING s
           in do {
             s' \<leftarrow> schedule s;
             Some (if current s' = current s then on_cpu (atom_enable_intr flag) s' else s')
           }
         else Some (on_cpu (atom_enable_intr flag) s))"

definition V :: "u32 \<Rightarrow> 'a kernel_scheme \<Rightarrow> 'a kernel_scheme" where
  "V a s =
     (let (flag, c) = atom_disable_intr (cpu s);
          s = s\<lparr>cpu := c\<rparr>;
          s = set_sem_value a (sem_value s (kpa a) + 1) s;
          s = (if sem_value s (kpa a) \<le>s 0 then
                 let pcb = sem_node_pcb (get_next s (sem_queue a));
                     s = set_state pcb TASK_RUNNABLE s
                 in if get_next s (sem_queue a) \<noteq> sem_queue a then list_delete (get_next s (sem_queue a)) s else s
               else s)
      in on_cpu (atom_enable_intr flag) s)"

section \<open>The contract\<close>

text \<open>
  \<open>rep s v q\<close>: in state \<open>s\<close> semaphore \<open>b\<close> has value \<open>v b\<close> and the processes \<open>q b\<close> wait for it, in this order.
\<close>

locale semaphore_spec =
  fixes rep :: "'s \<Rightarrow> ('b \<Rightarrow> int) \<Rightarrow> ('b \<Rightarrow> 'p list) \<Rightarrow> bool"
    and sems :: "'s \<Rightarrow> 'b set"
    and may_wait :: "'s \<Rightarrow> bool"
    and cur :: "'s \<Rightarrow> 'p"
    and down :: "'b \<Rightarrow> 's \<Rightarrow> 's option"
    and up :: "'b \<Rightarrow> 's \<Rightarrow> 's"
  assumes rep_queue: "rep s v q \<Longrightarrow> b \<in> sems s \<Longrightarrow> int (length (q b)) = max 0 (- v b)"
    and down_free: "rep s v q \<Longrightarrow> b \<in> sems s \<Longrightarrow> 0 < v b \<Longrightarrow>
      \<exists>s'. down b s = Some s' \<and> rep s' (v(b := v b - 1)) q \<and> cur s' = cur s \<and> sems s' = sems s"
    and down_wait: "rep s v q \<Longrightarrow> b \<in> sems s \<Longrightarrow> v b \<le> 0 \<Longrightarrow> - (2 ^ 31) < v b \<Longrightarrow> may_wait s \<Longrightarrow>
      \<exists>s'. down b s = Some s' \<and> rep s' (v(b := v b - 1)) (q(b := q b @ [cur s])) \<and> cur s' \<noteq> cur s \<and> sems s' = sems s"
    and up_free: "rep s v q \<Longrightarrow> b \<in> sems s \<Longrightarrow> 0 \<le> v b \<Longrightarrow> v b < 2 ^ 31 - 1 \<Longrightarrow>
      rep (up b s) (v(b := v b + 1)) q \<and> cur (up b s) = cur s \<and> sems (up b s) = sems s"
    and up_wake: "rep s v q \<Longrightarrow> b \<in> sems s \<Longrightarrow> v b < 0 \<Longrightarrow>
      rep (up b s) (v(b := v b + 1)) (q(b := tl (q b))) \<and> cur (up b s) = cur s \<and> sems (up b s) = sems s"
begin

lemma waiters_iff: "rep s v q \<Longrightarrow> b \<in> sems s \<Longrightarrow> q b \<noteq> [] \<longleftrightarrow> v b < 0"
  using rep_queue [of s v q b] by (cases "q b") auto

text \<open>A \<open>down\<close> that does not wait is undone by an \<open>up\<close>.\<close>

lemma down_up:
  assumes "rep s v q" and "b \<in> sems s" and "0 < v b" and "v b < 2 ^ 31"
  shows "\<exists>s'. down b s = Some s' \<and> rep (up b s') v q \<and> cur (up b s') = cur s"
proof -
  obtain s' where s': "down b s = Some s'" "rep s' (v(b := v b - 1)) q" "cur s' = cur s" "sems s' = sems s"
    using down_free [OF assms(1-3)] by blast
  then show ?thesis using up_free [OF s'(2), of b] assms by simp
qed

text \<open>The process that waits longest leaves the queue first; as many \<open>up\<close>s as there are waiters empty it.\<close>

lemma ups_empty:
  assumes "rep s v q" and "b \<in> sems s"
  shows "rep ((up b ^^ length (q b)) s) (v(b := v b + int (length (q b)))) (q(b := []))"
  using assms
proof (induction "length (q b)" arbitrary: s v q)
  case 0
  then show ?case using fun_upd_triv [of q b] by simp
next
  case (Suc n)
  then have "v b < 0" using waiters_iff [of s v q b] by auto
  from up_wake [OF Suc.prems this]
  have u: "rep (up b s) (v(b := v b + 1)) (q(b := tl (q b)))" "b \<in> sems (up b s)" using Suc.prems by simp_all
  have "length (tl (q b)) = n" using Suc.hyps(2) by simp
  with Suc.hyps(1) [of "q(b := tl (q b))" "up b s" "v(b := v b + 1)"] u Suc.hyps(2) [symmetric]
  show ?case by (simp add: funpow_swap1 add.assoc)
qed

end

section \<open>The operations on the contract's view\<close>

text \<open>
  The values and queues of a family of semaphores, and what \<open>P\<close> of a process \<open>t\<close> and \<open>V\<close> do to them. The synchronisation
  examples are analysed at this level.
\<close>

record ('b, 't) sems =
  val :: "'b \<Rightarrow> int"
  que :: "'b \<Rightarrow> 't list"

definition sem_P :: "'b \<Rightarrow> 't \<Rightarrow> ('b, 't, 'z) sems_scheme \<Rightarrow> ('b, 't, 'z) sems_scheme" where
  "sem_P b t \<sigma> =
     (let x = val \<sigma> b - 1
      in \<sigma>\<lparr>val := (val \<sigma>)(b := x), que := (if x < 0 then (que \<sigma>)(b := que \<sigma> b @ [t]) else que \<sigma>)\<rparr>)"

definition sem_V :: "'b \<Rightarrow> ('b, 't, 'z) sems_scheme \<Rightarrow> ('b, 't, 'z) sems_scheme" where
  "sem_V b \<sigma> =
     (let x = val \<sigma> b + 1
      in \<sigma>\<lparr>val := (val \<sigma>)(b := x), que := (if x \<le> 0 then (que \<sigma>)(b := tl (que \<sigma> b)) else que \<sigma>)\<rparr>)"

section \<open>Updates that leave lists alone\<close>

lemma ring_updates [simp]:
  fixes s :: "'a kernel_scheme"
  shows "ring (s\<lparr>cpu := c\<rparr>) = ring s"
    and "ring (on_cpu f s) = ring s"
    and "ring (set_sem_value a w s) = ring s"
    and "ring (set_state p x s) = ring s"
    and "ring (switched p s) = ring s"
proof -
  have e: "ring s' = ring s" if "get_next s' = get_next s" "get_prev s' = get_prev s" for s' :: "'a kernel_scheme"
    using ring_links [OF that] by (simp add: fun_eq_iff)
  show "ring (s\<lparr>cpu := c\<rparr>) = ring s" "ring (on_cpu f s) = ring s" "ring (set_sem_value a w s) = ring s"
    "ring (set_state p x s) = ring s" "ring (switched p s) = ring s"
    by (rule e; simp add: get_next_def get_prev_def fun_eq_iff on_cpu_def set_sem_value_def set_state_def switched_def st_def)+
qed

lemma get_next_updates [simp]:
  "get_next (on_cpu f s) = get_next s" "get_next (set_sem_value a w s) = get_next s" "get_next (set_state p x s) = get_next s"
  by (simp_all add: get_next_def fun_eq_iff on_cpu_def set_sem_value_def set_state_def st_def)

lemma kernel_list_ops [simp]:
  fixes s :: "'a kernel_scheme"
  shows "pcb_state (list_insert_before x y s) = pcb_state s" "sem_value (list_insert_before x y s) = sem_value s"
    "current (list_insert_before x y s) = current s" "idle (list_insert_before x y s) = idle s"
    "proc_list (list_insert_before x y s) = proc_list s" "cpu (list_insert_before x y s) = cpu s"
    "pcb_state (list_delete x s) = pcb_state s" "sem_value (list_delete x s) = sem_value s"
    "current (list_delete x s) = current s" "idle (list_delete x s) = idle s"
    "proc_list (list_delete x s) = proc_list s" "cpu (list_delete x s) = cpu s"
    "pcb_state (list_init x s) = pcb_state s" "sem_value (list_init x s) = sem_value s"
    "current (list_init x s) = current s" "idle (list_init x s) = idle s" "cpu (list_init x s) = cpu s"
  by (simp_all add: list_op_defs set_next_def set_prev_def Let_def)

lemma kernel_updates [simp]:
  "pcb_state (on_cpu f s) = pcb_state s" "sem_value (on_cpu f s) = sem_value s" "current (on_cpu f s) = current s"
  "idle (on_cpu f s) = idle s" "proc_list (on_cpu f s) = proc_list s"
  "pcb_state (set_sem_value a w s) = pcb_state s" "sem_value (set_sem_value a w s) = (sem_value s)(kpa a := w)"
  "current (set_sem_value a w s) = current s" "idle (set_sem_value a w s) = idle s"
  "proc_list (set_sem_value a w s) = proc_list s"
  "sem_value (set_state p x s) = sem_value s" "current (set_state p x s) = current s"
  "idle (set_state p x s) = idle s" "proc_list (set_state p x s) = proc_list s"
  "p \<noteq> NULL \<Longrightarrow> pcb_state (set_state p x s) = (pcb_state s)(kpa p := x)"
  "pcb_state (switched p s) = pcb_state s" "sem_value (switched p s) = sem_value s" "current (switched p s) = p"
  "idle (switched p s) = idle s" "proc_list (switched p s) = proc_list s"
  by (simp_all add: on_cpu_def set_sem_value_def set_state_def switched_def st_def)

section \<open>Where the nodes lie\<close>

text \<open>
  The list cells of the processes \<open>ps\<close> and the semaphores \<open>S\<close>, the process list included, are distinct cells of memory, and
  so are the control blocks and the semaphores themselves.
\<close>

definition sync_cells :: "'a kernel_scheme \<Rightarrow> u32 list \<Rightarrow> u32 list \<Rightarrow> u32 list" where
  "sync_cells s S ps = proc_list s # map pcb_node ps @ map pcb_sem_node ps @ map sem_queue S"

definition sync_layout :: "'a kernel_scheme \<Rightarrow> u32 list \<Rightarrow> u32 list \<Rightarrow> bool" where
  "sync_layout s S ps \<longleftrightarrow> distinct (map kpa (sync_cells s S ps)) \<and> distinct (map kpa ps) \<and> distinct (map kpa S)"

lemma sync_layout_apart:
  assumes "sync_layout s S ps" and "A \<subseteq> set (sync_cells s S ps)" and "B \<subseteq> set (sync_cells s S ps)" and "A \<inter> B = {}"
  shows "kpa ` A \<inter> kpa ` B = {}"
proof -
  have "inj_on kpa (set (sync_cells s S ps))" using assms(1) by (simp add: sync_layout_def distinct_map)
  from inj_on_image_Int [OF this assms(2,3)] show ?thesis by (simp add: assms(4))
qed

lemma sync_layout_sets:
  assumes "sync_layout s S ps"
  shows "pcb_sem_node ` set ps \<inter> insert (proc_list s) (pcb_node ` set ps) = {}"
    and "sem_queue ` set S \<inter> insert (proc_list s) (pcb_node ` set ps) = {}"
    and "sem_queue ` set S \<inter> pcb_sem_node ` set ps = {}"
proof -
  have "distinct (sync_cells s S ps)" using assms by (simp add: sync_layout_def distinct_map)
  then show "pcb_sem_node ` set ps \<inter> insert (proc_list s) (pcb_node ` set ps) = {}"
    and "sem_queue ` set S \<inter> insert (proc_list s) (pcb_node ` set ps) = {}"
    and "sem_queue ` set S \<inter> pcb_sem_node ` set ps = {}"
    by (auto simp: sync_cells_def)
qed

lemma inj_sem_queue: "sem_queue a = sem_queue b \<longleftrightarrow> a = b" "pcb_sem_node p = pcb_sem_node p' \<longleftrightarrow> p = p'"
  by (simp_all add: sem_queue_def pcb_sem_node_def)

text \<open>\<open>sem_rep S ps s v q\<close>: the processes \<open>ps\<close> and the semaphores \<open>S\<close> lie well in memory, and exactly the processes in the queues sleep.\<close>

definition sem_ok :: "'a kernel_scheme \<Rightarrow> u32 list \<Rightarrow> u32 \<Rightarrow> int \<Rightarrow> u32 list \<Rightarrow> bool" where
  "sem_ok s ps b v q \<longleftrightarrow> sint (sem_value s (kpa b)) = v \<and> ring s (sem_queue b) (map pcb_sem_node q) \<and> set q \<subseteq> set ps
     \<and> int (length q) = max 0 (- v)"

definition sem_rep :: "u32 list \<Rightarrow> u32 list \<Rightarrow> 'a kernel_scheme \<Rightarrow> (u32 \<Rightarrow> int) \<Rightarrow> (u32 \<Rightarrow> u32 list) \<Rightarrow> bool" where
  "sem_rep S ps s v q \<longleftrightarrow> proc_ring s ps \<and> sync_layout s S ps \<and> (\<forall>b \<in> set S. sem_ok s ps b (v b) (q b))
     \<and> (\<forall>p \<in> set ps. pcb_state s (kpa p) = TASK_SLEEPING \<longleftrightarrow> (\<exists>b \<in> set S. p \<in> set (q b)))
     \<and> (\<forall>b \<in> set S. \<forall>c \<in> set S. b \<noteq> c \<longrightarrow> set (q b) \<inter> set (q c) = {})"

definition may_sleep :: "u32 list \<Rightarrow> 'a kernel_scheme \<Rightarrow> bool" where
  "may_sleep ps s \<longleftrightarrow> current s \<in> set ps \<and> pcb_state s (kpa (current s)) \<noteq> TASK_SLEEPING"

lemma queue_cells: "set q \<subseteq> set ps \<Longrightarrow> b \<in> set S \<Longrightarrow> set (sem_queue b # map pcb_sem_node q) \<subseteq> set (sync_cells s S ps)"
  by (auto simp: sync_cells_def)

lemma proc_cells: "set (proc_list s # map pcb_node ps) \<subseteq> set (sync_cells s S ps)"
  by (auto simp: sync_cells_def)

lemma queue_apart_procs:
  assumes "sync_layout s S ps" and "set q \<subseteq> set ps" and "b \<in> set S"
  shows "kpa ` set (sem_queue b # map pcb_sem_node q) \<inter> kpa ` set (proc_list s # map pcb_node ps) = {}"
proof (intro sync_layout_apart [OF assms(1)] queue_cells proc_cells assms(2,3))
  have "set (sem_queue b # map pcb_sem_node q) \<subseteq> sem_queue ` set S \<union> pcb_sem_node ` set ps" using assms(2,3) by auto
  moreover have "set (proc_list s # map pcb_node ps) = insert (proc_list s) (pcb_node ` set ps)" by auto
  ultimately show "set (sem_queue b # map pcb_sem_node q) \<inter> set (proc_list s # map pcb_node ps) = {}"
    using sync_layout_sets(1,2) [OF assms(1)] by blast
qed

lemma queues_apart:
  assumes "sync_layout s S ps" and "set q \<subseteq> set ps" and "b \<in> set S" and "set r \<subseteq> set ps" and "c \<in> set S"
    and "b \<noteq> c" and "set q \<inter> set r = {}"
  shows "kpa ` set (sem_queue b # map pcb_sem_node q) \<inter> kpa ` set (sem_queue c # map pcb_sem_node r) = {}"
  using sync_layout_sets(3) [OF assms(1)] assms(2-7)
  by (intro sync_layout_apart [OF assms(1)] queue_cells) (auto simp: inj_sem_queue)

section \<open>The code fulfils the contract\<close>

lemma sint_dec: "- (2 ^ 31) < sint (x :: i32) \<Longrightarrow> sint (x - 1) = sint x - 1"
proof -
  assume "- (2 ^ 31) < sint x"
  moreover have "sint x < 2 ^ 31" using sint_lt [of x] by simp
  ultimately have "signed_take_bit 31 (sint x - 1) = sint x - 1"
    by (intro signed_take_bit_int_eq_self) auto
  then show ?thesis by (simp add: signed_minus_1 sint_word_ariths)
qed

lemma sint_inc: "sint (x :: i32) < 2 ^ 31 - 1 \<Longrightarrow> sint (x + 1) = sint x + 1"
proof -
  assume "sint x < 2 ^ 31 - 1"
  moreover have "- (2 ^ 31) \<le> sint x" using sint_ge [of x] by simp
  ultimately have "signed_take_bit 31 (sint x + 1) = sint x + 1"
    by (intro signed_take_bit_int_eq_self) auto
  then show ?thesis by (simp add: sint_word_ariths)
qed

lemma sem_rep_D:
  assumes "sem_rep S ps s v q" and "b \<in> set S"
  shows "sint (sem_value s (kpa b)) = v b" and "ring s (sem_queue b) (map pcb_sem_node (q b))" and "set (q b) \<subseteq> set ps"
    and "int (length (q b)) = max 0 (- v b)"
  using assms by (auto simp: sem_rep_def sem_ok_def)

text \<open>Changing the value of one semaphore, and the processor state, in place.\<close>

lemma kpa_sem_neq: "sync_layout s S ps \<Longrightarrow> b \<in> set S \<Longrightarrow> c \<in> set S \<Longrightarrow> b \<noteq> c \<Longrightarrow> kpa c \<noteq> kpa b"
  by (auto simp: sync_layout_def distinct_map inj_on_def)

lemma kpa_pcb_neq: "sync_layout s S ps \<Longrightarrow> p \<in> set ps \<Longrightarrow> p' \<in> set ps \<Longrightarrow> kpa p = kpa p' \<longleftrightarrow> p = p'"
  by (auto simp: sync_layout_def distinct_map inj_on_def)

lemma sync_cells_cong: "proc_list s' = proc_list s \<Longrightarrow> sync_layout s' S ps = sync_layout s S ps"
  by (simp add: sync_layout_def sync_cells_def)

lemma sem_rep_on_cpu [simp]: "sem_rep S ps (on_cpu f s) v q = sem_rep S ps s v q"
  by (simp add: sem_rep_def proc_ring_def sem_ok_def sync_cells_cong [of "on_cpu f s" s])

lemma sem_rep_set_value:
  assumes "sem_rep S ps s v q" and "b \<in> set S" and "sint w = x" and "max 0 (- x) = max 0 (- v b)"
  shows "sem_rep S ps (set_sem_value b w s) (v(b := x)) q"
proof -
  have l: "sync_layout s S ps" using assms(1) by (simp add: sem_rep_def)
  have "sem_ok (set_sem_value b w s) ps c ((v(b := x)) c) (q c)" if "c \<in> set S" for c
    using sem_rep_D [OF assms(1) that] assms(3,4) kpa_sem_neq [OF l assms(2) that] by (auto simp: sem_ok_def)
  then show ?thesis
    using assms(1) by (simp add: sem_rep_def proc_ring_def sync_cells_cong [of "set_sem_value b w s" s])
qed

lemma P_free:
  assumes "sem_rep S ps s v q" and "b \<in> set S" and "0 < v b"
  shows "P b s = Some (set_sem_value b (sem_value s (kpa b) - 1) s)"
    and "sem_rep S ps (set_sem_value b (sem_value s (kpa b) - 1) s) (v(b := v b - 1)) q"
proof -
  have d: "sint (sem_value s (kpa b) - 1) = v b - 1"
    using sem_rep_D(1) [OF assms(1,2)] assms(3) by (subst sint_dec) auto
  then have "\<not> (sem_value s (kpa b) - 1 <s 0)" using assms(3) by (simp add: word_sless_alt)
  then show "P b s = Some (set_sem_value b (sem_value s (kpa b) - 1) s)"
    using atom_restores [of "cpu s"]
    by (simp add: P_def atom_disable_intr_eq Let_def on_cpu_def set_sem_value_def)
  show "sem_rep S ps (set_sem_value b (sem_value s (kpa b) - 1) s) (v(b := v b - 1)) q"
    using assms d by (intro sem_rep_set_value) auto
qed

text \<open>Entering the queue: the new node is at the end, and every other list is as before.\<close>

lemma sem_rep_enqueue:
  assumes rep: "sem_rep S ps s v q" and b: "b \<in> set S" and p: "p \<in> set ps" "pcb_state s (kpa p) \<noteq> TASK_SLEEPING"
    and x: "sint w = v b - 1" "v b \<le> 0"
  shows "sem_rep S ps (set_state p TASK_SLEEPING (list_insert_before (sem_queue b) (pcb_sem_node p) (set_sem_value b w s)))
    (v(b := v b - 1)) (q(b := q b @ [p]))"
proof -
  define s1 where "s1 = set_sem_value b w s"
  define s2 where "s2 = list_insert_before (sem_queue b) (pcb_sem_node p) s1"
  have l: "sync_layout s S ps" and pr: "proc_ring s ps" using rep by (simp_all add: sem_rep_def)
  have p0: "p \<noteq> NULL" using p(1) pr by (auto simp: proc_ring_def)
  have pq: "p \<notin> set (q c)" if "c \<in> set S" for c using rep p that by (auto simp: sem_rep_def)
  note rb = sem_rep_D(2) [OF rep b]
  have sub: "set (q c) \<subseteq> set ps" if "c \<in> set S" for c using sem_rep_D(3) [OF rep that] .
  have subp: "set (p # q b) \<subseteq> set ps" using sub [OF b] p(1) by simp
  have fresh: "kpa (pcb_sem_node p) \<notin> kpa ` set (sem_queue b # map pcb_sem_node (q b))"
  proof -
    have "kpa ` {pcb_sem_node p} \<inter> kpa ` set (sem_queue b # map pcb_sem_node (q b)) = {}"
      using sync_layout_sets(3) [OF l] p(1) b sub [OF b] pq [OF b]
      by (intro sync_layout_apart [OF l] queue_cells) (auto simp: sync_cells_def inj_sem_queue)
    then show ?thesis by blast
  qed
  have r1: "ring s1 = ring s" by (simp add: s1_def)
  have "ring s2 (sem_queue b) (map pcb_sem_node (q b @ [p]))"
    unfolding s2_def using kl.enqueue [of s1 "sem_queue b" "map pcb_sem_node (q b)" "pcb_sem_node p"] rb fresh
    by (simp add: r1)
  moreover have "ring s2 (sem_queue c) (map pcb_sem_node (q c))" if "c \<in> set S" "c \<noteq> b" for c
  proof -
    have "set (p # q b) \<inter> set (q c) = {}" using rep b that pq [OF that(1)] by (auto simp: sem_rep_def)
    from queues_apart [OF l subp b sub [OF that(1)] that(1) that(2) [symmetric] this]
    have "kpa ` set (pcb_sem_node p # sem_queue b # map pcb_sem_node (q b)) \<inter> kpa ` set (sem_queue c # map pcb_sem_node (q c)) = {}"
      by (simp add: insert_commute)
    then show ?thesis
      unfolding s2_def using rb fresh sem_rep_D(2) [OF rep that(1)]
      by (intro kl.frame_ins_before [of s1 "sem_queue b" "map pcb_sem_node (q b)"]) (simp_all add: r1)
  qed
  moreover have "ring s2 (proc_list s) (map pcb_node ps)"
  proof -
    have "kpa ` set (pcb_sem_node p # sem_queue b # map pcb_sem_node (q b)) \<inter> kpa ` set (proc_list s # map pcb_node ps) = {}"
      using queue_apart_procs [OF l subp b] by (simp add: insert_commute)
    then show ?thesis
      unfolding s2_def using rb fresh pr
      by (intro kl.frame_ins_before [of s1 "sem_queue b" "map pcb_sem_node (q b)"]) (simp_all add: r1 proc_ring_def)
  qed
  moreover have "sem_value s2 = (sem_value s)(kpa b := w)" "pcb_state s2 = pcb_state s" "proc_list s2 = proc_list s"
    "current s2 = current s" "idle s2 = idle s"
    by (simp_all add: s2_def s1_def)
  note f2 = this and rings = calculation
  define s3 where "s3 = set_state p TASK_SLEEPING s2"
  have f3: "ring s3 = ring s2" "sem_value s3 = (sem_value s)(kpa b := w)" "pcb_state s3 = (pcb_state s)(kpa p := TASK_SLEEPING)"
    "proc_list s3 = proc_list s" "current s3 = current s" "idle s3 = idle s"
    using p0 by (simp_all add: s3_def f2)
  have "sem_ok s3 ps c ((v(b := v b - 1)) c) ((q(b := q b @ [p])) c)" if "c \<in> set S" for c
    using rings that sem_rep_D [OF rep that] sub p(1) x kpa_sem_neq [OF l b that]
    by (cases "c = b") (auto simp: sem_ok_def f3)
  moreover have "proc_ring s3 ps" using rings pr by (simp add: proc_ring_def f3)
  moreover have "sync_layout s3 S ps" using l by (simp add: sync_cells_cong [OF f3(4)])
  moreover have "pcb_state s3 (kpa p') = TASK_SLEEPING \<longleftrightarrow> (\<exists>c \<in> set S. p' \<in> set ((q(b := q b @ [p])) c))" if "p' \<in> set ps" for p'
    using rep that b p(1) kpa_pcb_neq [OF l that p(1)] by (auto simp: f3 sem_rep_def)
  moreover have "set ((q(b := q b @ [p])) c) \<inter> set ((q(b := q b @ [p])) d) = {}" if "c \<in> set S" "d \<in> set S" "c \<noteq> d" for c d
    using rep b that pq by (auto simp: sem_rep_def)
  ultimately have "sem_rep S ps s3 (v(b := v b - 1)) (q(b := q b @ [p]))"
    unfolding sem_rep_def by blast
  then show ?thesis by (simp add: s3_def s2_def s1_def)
qed

lemma sem_rep_cpu [simp]: "sem_rep S ps (s\<lparr>cpu := c\<rparr>) v q = sem_rep S ps s v q"
  using sem_rep_on_cpu [of S ps "\<lambda>_. c" s v q] by (simp add: on_cpu_def)

lemma sem_rep_switched:
  assumes "sem_rep S ps s v q" and "p = idle s \<or> p \<in> set ps"
  shows "sem_rep S ps (switched p s) v q"
  using assms proc_ring_switched [of s ps p] by (simp add: sem_rep_def sem_ok_def sync_cells_cong [of "switched p s" s])

lemma rr_next_in: "proc_ring s ps \<Longrightarrow> rr_next f (idle s) (current s) ps = idle s \<or> rr_next f (idle s) (current s) ps \<in> set ps - {current s}"
  using rr_next_ready [of f "idle s" "current s" ps] set_rr_order [OF proc_ring_distinct, of s ps "current s"] by auto

definition asleep :: "u32 \<Rightarrow> 'a kernel_scheme \<Rightarrow> 'a kernel_scheme" where
  "asleep b s = set_state (current s) TASK_SLEEPING (list_insert_before (sem_queue b) (pcb_sem_node (current s))
     (set_sem_value b (sem_value s (kpa b) - 1) (s\<lparr>cpu := cli (cpu s)\<rparr>)))"

lemma P_wait:
  assumes rep: "sem_rep S ps s v q" and b: "b \<in> set S" and x: "v b \<le> 0" "- (2 ^ 31) < v b" and m: "may_sleep ps s"
  defines "p \<equiv> rr_next (runnable (asleep b s)) (idle s) (current s) ps"
  shows "P b s = Some (switched p (asleep b s))" and "p \<noteq> current s"
    and "sem_rep S ps (switched p (asleep b s)) (v(b := v b - 1)) (q(b := q b @ [current s]))"
proof -
  have d: "sint (sem_value s (kpa b) - 1) = v b - 1"
    using sem_rep_D(1) [OF rep b] x(2) by (subst sint_dec) auto
  then have neg: "sem_value s (kpa b) - 1 <s 0" using x(1) by (simp add: word_sless_alt)
  have f: "current (asleep b s) = current s" "idle (asleep b s) = idle s" by (simp_all add: asleep_def)
  have rep3: "sem_rep S ps (asleep b s) (v(b := v b - 1)) (q(b := q b @ [current s]))"
    unfolding asleep_def using rep b m d x by (intro sem_rep_enqueue) (simp_all add: may_sleep_def)
  then have pr: "proc_ring (asleep b s) ps" by (simp add: sem_rep_def)
  have pin: "p = idle s \<or> p \<in> set ps - {current s}"
    using rr_next_in [OF pr, of "runnable (asleep b s)"] by (simp add: p_def f)
  then show ne: "p \<noteq> current s" using m rep by (auto simp: may_sleep_def sem_rep_def proc_ring_def)
  have "schedule (asleep b s) = Some (switched p (asleep b s))"
    using schedule_rr [OF pr] ne by (simp add: f p_def [symmetric] Let_def)
  then show "P b s = Some (switched p (asleep b s))"
    using neg ne by (simp add: P_def atom_disable_intr_eq Let_def asleep_def [symmetric])
  show "sem_rep S ps (switched p (asleep b s)) (v(b := v b - 1)) (q(b := q b @ [current s]))"
    using sem_rep_switched [OF rep3, of p] pin by (auto simp: f)
qed

lemma V_free:
  assumes "sem_rep S ps s v q" and "b \<in> set S" and "0 \<le> v b" and "v b < 2 ^ 31 - 1"
  shows "V b s = set_sem_value b (sem_value s (kpa b) + 1) s"
    and "sem_rep S ps (set_sem_value b (sem_value s (kpa b) + 1) s) (v(b := v b + 1)) q"
proof -
  have d: "sint (sem_value s (kpa b) + 1) = v b + 1"
    using sem_rep_D(1) [OF assms(1,2)] assms(4) by (subst sint_inc) auto
  then have "\<not> (sem_value s (kpa b) + 1 \<le>s 0)" using assms(3) by (simp add: word_sle_eq)
  then show "V b s = set_sem_value b (sem_value s (kpa b) + 1) s"
    using atom_restores [of "cpu s"]
    by (simp add: V_def atom_disable_intr_eq Let_def on_cpu_def set_sem_value_def)
  show "sem_rep S ps (set_sem_value b (sem_value s (kpa b) + 1) s) (v(b := v b + 1)) q"
    using assms d by (intro sem_rep_set_value) auto
qed

text \<open>Leaving the queue: the first process becomes runnable, and every other list is as before.\<close>

lemma sem_rep_dequeue:
  assumes rep: "sem_rep S ps s v q" and b: "b \<in> set S" and q: "q b = p # qs" and x: "sint w = v b + 1" "v b < 0"
  shows "sem_rep S ps (list_delete (pcb_sem_node p) (set_state p TASK_RUNNABLE (set_sem_value b w s)))
    (v(b := v b + 1)) (q(b := qs))"
proof -
  define s1 where "s1 = set_state p TASK_RUNNABLE (set_sem_value b w s)"
  define s2 where "s2 = list_delete (pcb_sem_node p) s1"
  have l: "sync_layout s S ps" and pr: "proc_ring s ps" using rep by (simp_all add: sem_rep_def)
  have sub: "set (q c) \<subseteq> set ps" if "c \<in> set S" for c using sem_rep_D(3) [OF rep that] .
  have p: "p \<in> set ps" using sub [OF b] q by simp
  have p0: "p \<noteq> NULL" using p pr by (auto simp: proc_ring_def)
  have rb: "ring s (sem_queue b) (pcb_sem_node p # map pcb_sem_node qs)" using sem_rep_D(2) [OF rep b] q by simp
  have dq: "distinct (q b)" using sem_rep_D(2) [OF rep b] by (auto simp: ring_def distinct_map)
  have r1: "ring s1 = ring s" by (simp add: s1_def)
  have "ring s2 (sem_queue b) (map pcb_sem_node qs)"
    unfolding s2_def using kl.rep_del [of s1 "sem_queue b" "[]" "pcb_sem_node p"] rb by (simp add: r1)
  moreover have "ring s2 (sem_queue c) (map pcb_sem_node (q c))" if "c \<in> set S" "c \<noteq> b" for c
  proof -
    have "set (q b) \<inter> set (q c) = {}" using rep b that by (auto simp: sem_rep_def)
    from queues_apart [OF l sub [OF b] b sub [OF that(1)] that(1) that(2) [symmetric] this]
    show ?thesis unfolding s2_def using rb sem_rep_D(2) [OF rep that(1)]
      by (intro kl.frame_del [of s1 "sem_queue b" "pcb_sem_node p # map pcb_sem_node qs"]) (simp_all add: r1 q)
  qed
  moreover have "ring s2 (proc_list s) (map pcb_node ps)"
    unfolding s2_def using rb pr queue_apart_procs [OF l sub [OF b] b]
    by (intro kl.frame_del [of s1 "sem_queue b" "pcb_sem_node p # map pcb_sem_node qs"]) (simp_all add: r1 q proc_ring_def)
  moreover have f2: "sem_value s2 = (sem_value s)(kpa b := w)" "pcb_state s2 = (pcb_state s)(kpa p := TASK_RUNNABLE)"
    "proc_list s2 = proc_list s" "current s2 = current s" "idle s2 = idle s"
    using p0 by (simp_all add: s2_def s1_def)
  note rings = calculation
  have "sem_ok s2 ps c ((v(b := v b + 1)) c) ((q(b := qs)) c)" if "c \<in> set S" for c
    using rings that sem_rep_D [OF rep that] sub [OF b] q x kpa_sem_neq [OF l b that]
    by (cases "c = b") (auto simp: sem_ok_def f2)
  moreover have "proc_ring s2 ps" using rings pr by (simp add: proc_ring_def f2)
  moreover have "sync_layout s2 S ps" using l by (simp add: sync_cells_cong [OF f2(3)])
  moreover have "pcb_state s2 (kpa p') = TASK_SLEEPING \<longleftrightarrow> (\<exists>c \<in> set S. p' \<in> set ((q(b := qs)) c))" if "p' \<in> set ps" for p'
  proof (cases "p' = p")
    case True
    have "p \<notin> set (q c)" if "c \<in> set S" "c \<noteq> b" for c
      using rep b that q by (auto simp: sem_rep_def)
    then show ?thesis using True dq q by (auto simp: f2)
  next
    case False
    then have "p' \<in> set ((q(b := qs)) c) \<longleftrightarrow> p' \<in> set (q c)" for c using q by simp
    moreover have "pcb_state s2 (kpa p') = pcb_state s (kpa p')" using False kpa_pcb_neq [OF l that p] by (simp add: f2)
    ultimately show ?thesis using rep that by (simp add: sem_rep_def)
  qed
  moreover have "set ((q(b := qs)) c) \<inter> set ((q(b := qs)) d) = {}" if "c \<in> set S" "d \<in> set S" "c \<noteq> d" for c d
  proof -
    have "set ((q(b := qs)) e) \<subseteq> set (q e)" for e using q by auto
    moreover have "set (q c) \<inter> set (q d) = {}" using rep that by (simp add: sem_rep_def)
    ultimately show ?thesis by blast
  qed
  ultimately have "sem_rep S ps s2 (v(b := v b + 1)) (q(b := qs))"
    unfolding sem_rep_def by blast
  then show ?thesis by (simp add: s2_def s1_def)
qed

lemma V_wake:
  assumes rep: "sem_rep S ps s v q" and b: "b \<in> set S" and x: "v b < 0"
  obtains p qs where "q b = p # qs" and "sem_rep S ps (V b s) (v(b := v b + 1)) (q(b := qs))"
    and "current (V b s) = current s" and "pcb_state (V b s) = (pcb_state s)(kpa p := TASK_RUNNABLE)" and "cpu (V b s) = cpu s"
proof -
  obtain p qs where q: "q b = p # qs" using sem_rep_D(4) [OF rep b] x by (cases "q b") auto
  have rb: "ring s (sem_queue b) (pcb_sem_node p # map pcb_sem_node qs)" using sem_rep_D(2) [OF rep b] q by simp
  have p0: "p \<noteq> NULL" using sem_rep_D(3) [OF rep b] q rep by (auto simp: sem_rep_def proc_ring_def)
  have nx: "get_next s (sem_queue b) = pcb_sem_node p" using kl.next_head [OF rb] by simp
  have ne: "pcb_sem_node p \<noteq> sem_queue b" using kl.head_fresh [OF rb] by auto
  have "sint (sem_value s (kpa b)) < 2 ^ 31 - 1" using sem_rep_D(1) [OF rep b] x by simp
  then have d: "sint (sem_value s (kpa b) + 1) = v b + 1"
    using sem_rep_D(1) [OF rep b] by (simp add: sint_inc)
  then have c: "sem_value s (kpa b) + 1 \<le>s 0" using x by (simp add: word_sle_eq)
  define u where "u = s\<lparr>cpu := cli (cpu s)\<rparr>"
  have u: "sem_rep S ps u v q" "sem_value u = sem_value s" "get_next u = get_next s"
    using rep by (simp_all add: u_def get_next_def fun_eq_iff)
  have V: "V b s = on_cpu (atom_enable_intr (fst (atom_disable_intr (cpu s))))
      (list_delete (pcb_sem_node p) (set_state p TASK_RUNNABLE (set_sem_value b (sem_value s (kpa b) + 1) u)))"
    using c ne by (simp add: V_def atom_disable_intr_eq Let_def u_def [symmetric] u nx)
  have cp: "cpu (set_state p' y s') = cpu s'" "cpu (set_sem_value a w s') = cpu s'" for p' y a w and s' :: "'a kernel_scheme"
    by (simp_all add: set_state_def set_sem_value_def st_def)
  show ?thesis
  proof (rule that [OF q])
    show "sem_rep S ps (V b s) (v(b := v b + 1)) (q(b := qs))"
      unfolding V sem_rep_on_cpu using sem_rep_dequeue [OF u(1) b q d x] by simp
    show "current (V b s) = current s" by (simp add: V u_def)
    show "pcb_state (V b s) = (pcb_state s)(kpa p := TASK_RUNNABLE)" using p0 by (simp add: V u_def)
    show "cpu (V b s) = cpu s"
      using atom_restores [of "cpu s"] by (simp add: V on_cpu_def cp u_def atom_disable_intr_eq)
  qed
qed

interpretation ks: semaphore_spec "sem_rep S ps" "\<lambda>_. set S" "may_sleep ps" current P V
proof
  fix s :: "'a kernel_scheme" and v q b
  assume rep: "sem_rep S ps s v q" and b: "b \<in> set S"
  show "int (length (q b)) = max 0 (- v b)" by (rule sem_rep_D(4) [OF rep b])
  show "\<exists>s'. P b s = Some s' \<and> sem_rep S ps s' (v(b := v b - 1)) q \<and> current s' = current s \<and> set S = set S" if "0 < v b"
    using P_free [OF rep b that] by simp
  show "\<exists>s'. P b s = Some s' \<and> sem_rep S ps s' (v(b := v b - 1)) (q(b := q b @ [current s])) \<and> current s' \<noteq> current s \<and> set S = set S"
    if "v b \<le> 0" "- (2 ^ 31) < v b" "may_sleep ps s"
    using P_wait [OF rep b that] by simp
  show "sem_rep S ps (V b s) (v(b := v b + 1)) q \<and> current (V b s) = current s \<and> set S = set S" if "0 \<le> v b" "v b < 2 ^ 31 - 1"
    using V_free [OF rep b that] by simp
  show "sem_rep S ps (V b s) (v(b := v b + 1)) (q(b := tl (q b))) \<and> current (V b s) = current s \<and> set S = set S" if "v b < 0"
    by (rule V_wake [OF rep b that]) simp
qed

section \<open>Properties\<close>

text \<open>
  C7. \<open>P\<close> implements the abstract operation \<open>sem_P\<close> on the semaphore's value and queue, whatever the other semaphores are.
  On a positive value it just takes one unit: the process goes on, nothing but the value
  changes. Otherwise the process falls asleep at the end of the semaphore's queue, and the scheduler's round robin chooses
  another process (the idle process if nobody is runnable), whose registers are loaded. In both cases the
  number of waiting processes is again the negated value (if negative), and all other semaphores are as before.
\<close>

theorem P_takes_or_waits:
  assumes "sem_rep S ps s v q" and "b \<in> set S" and "- (2 ^ 31) < v b" and "may_sleep ps s"
  shows "\<exists>s'. P b s = Some s'
    \<and> sem_rep S ps s' (val (sem_P b (current s) \<lparr>val = v, que = q\<rparr>)) (que (sem_P b (current s) \<lparr>val = v, que = q\<rparr>))
    \<and> (if 0 < v b then s' = set_sem_value b (sem_value s (kpa b) - 1) s
       else current s' = rr_next (runnable s') (idle s) (current s) ps \<and> current s' \<noteq> current s
         \<and> pcb_state s' = (pcb_state s)(kpa (current s) := TASK_SLEEPING)
         \<and> pcb_context s' (kpa (current s)) = regs s \<and> \<not> intr_on (cpu s'))"
proof (cases "0 < v b")
  case True
  then show ?thesis using P_free [OF assms(1,2)] by (simp add: sem_P_def Let_def)
next
  case False
  define p where "p = rr_next (runnable (asleep b s)) (idle s) (current s) ps"
  note w = P_wait [OF assms(1,2) _ assms(3,4), folded p_def]
  have c0: "current s \<noteq> NULL" using assms(1,4) by (auto simp: may_sleep_def sem_rep_def proc_ring_def)
  have st: "pcb_state (asleep b s) = (pcb_state s)(kpa (current s) := TASK_SLEEPING)"
    using c0 by (simp add: asleep_def)
  have rn: "runnable (switched p (asleep b s)) = runnable (asleep b s)" by (simp add: runnable_def fun_eq_iff)
  have cx: "pcb_context (switched p (asleep b s)) (kpa (current s)) = regs s"
    by (simp add: switched_def asleep_def set_state_def st_def set_sem_value_def list_op_defs set_next_def set_prev_def Let_def)
  have "cpu (asleep b s) = cli (cpu s)"
    by (simp add: asleep_def set_state_def st_def set_sem_value_def)
  then have off: "\<not> intr_on (cpu (switched p (asleep b s)))"
    using intr_on_cli [of "cli (cpu s)"] by (simp add: switched_def intr_on_def)
  show ?thesis
    using False w c0 st rn cx off by (intro exI [of _ "switched p (asleep b s)"]) (simp add: p_def sem_P_def Let_def)
qed

text \<open>
  C8. \<open>V\<close> implements \<open>sem_V\<close>: it hands its unit to the process that waits longest, if one waits; that process becomes runnable
  and leaves the queue, the others move up. If nobody waits the value is all that changes. \<open>V\<close> never gives the processor away.
\<close>

theorem V_wakes_first:
  assumes "sem_rep S ps s v q" and "b \<in> set S" and "v b < 2 ^ 31 - 1"
  shows "sem_rep S ps (V b s) (val (sem_V b \<lparr>val = v, que = q\<rparr>)) (que (sem_V b \<lparr>val = v, que = q\<rparr>))
    \<and> current (V b s) = current s \<and> cpu (V b s) = cpu s
    \<and> pcb_state (V b s) = (case q b of [] \<Rightarrow> pcb_state s | p # _ \<Rightarrow> (pcb_state s)(kpa p := TASK_RUNNABLE))"
proof (cases "v b < 0")
  case True
  show ?thesis by (rule V_wake [OF assms(1,2) True]) (use True in \<open>simp add: sem_V_def Let_def\<close>)
next
  case False
  then have "q b = []" using ks.waiters_iff [OF assms(1), of b] assms(2) by simp
  then show ?thesis
    using V_free [OF assms(1,2)] False assms(3) by (simp add: set_sem_value_def sem_V_def Let_def)
qed

text \<open>\<open>semaphore_init\<close> establishes the contract for one semaphore.\<close>

lemma semaphore_init_rep:
  assumes "proc_ring s ps" and "sync_layout s [b] ps" and "\<And>p. p \<in> set ps \<Longrightarrow> pcb_state s (kpa p) \<noteq> TASK_SLEEPING" and "0 \<le> sint w"
  shows "sem_rep [b] ps (semaphore_init b w s) (\<lambda>_. sint w) (\<lambda>_. [])"
proof -
  have f: "pcb_state (semaphore_init b w s) = pcb_state s" "proc_list (semaphore_init b w s) = proc_list s"
      "sem_value (semaphore_init b w s) = (sem_value s)(kpa b := w)" "current (semaphore_init b w s) = current s"
      "idle (semaphore_init b w s) = idle s"
    by (simp_all add: semaphore_init_def)
  have "ring (semaphore_init b w s) (sem_queue b) []" by (simp add: semaphore_init_def kl.rep_init)
  moreover have "ring (semaphore_init b w s) (proc_list s) (map pcb_node ps)"
  proof -
    have fresh: "kpa (sem_queue b) \<notin> kpa ` set (proc_list s # map pcb_node ps)"
      using queue_apart_procs [OF assms(2), of "[]" b] by auto
    show ?thesis
      unfolding semaphore_init_def Let_def ring_other_init [OF fresh] using assms(1) by (simp add: proc_ring_def)
  qed
  ultimately show ?thesis
    using assms by (simp add: sem_rep_def sem_ok_def proc_ring_def f sync_cells_cong [of "semaphore_init b w s" s])
qed

text \<open>The processes of the scheduling example with a semaphore of value 0.\<close>

definition sem_example :: kernel where
  "sem_example = semaphore_init 0xC0106000 0 (sched_example ex_p2)"

lemma sem_example_rep: "sem_rep [0xC0106000] [ex_p1, ex_p2] sem_example (\<lambda>_. 0) (\<lambda>_. [])"
proof -
  have "proc_list (sched_example ex_p2) = 0xC0105020"
    by (simp add: sched_example_def sched_list_def kernel0_fields)
  then have "sync_layout (sched_example ex_p2) [0xC0106000] [ex_p1, ex_p2]"
    by (simp add: sync_layout_def sync_cells_def sem_queue_def pcb_node_def pcb_sem_node_def kpa_def)
  moreover have "pcb_state (sched_example ex_p2) (kpa p) \<noteq> TASK_SLEEPING" for p
    by (simp add: sched_example_def kernel0_fields)
  ultimately have "sem_rep [0xC0106000] [ex_p1, ex_p2] sem_example (\<lambda>_. sint (0 :: i32)) (\<lambda>_. [])"
    unfolding sem_example_def by (intro semaphore_init_rep sched_example_ring) auto
  then show ?thesis by simp
qed

lemma sem_example_sleep: "may_sleep [ex_p1, ex_p2] sem_example" "current sem_example = ex_p2"
  by (simp_all add: may_sleep_def sem_example_def semaphore_init_def sched_example_def kernel0_fields)

theorem P_takes_or_waits_witness:
  "\<exists>s'. P 0xC0106000 sem_example = Some s' \<and> sem_rep [0xC0106000] [ex_p1, ex_p2] s' ((\<lambda>_. 0)(0xC0106000 := - 1)) ((\<lambda>_. [])(0xC0106000 := [ex_p2]))
     \<and> current s' \<noteq> ex_p2"
  using P_takes_or_waits [OF sem_example_rep _ _ sem_example_sleep(1), of "0xC0106000"] sem_example_sleep(2)
  by (auto simp: sem_P_def)

theorem V_wakes_first_witness:
  "sem_rep [0xC0106000] [ex_p1, ex_p2] (V 0xC0106000 sem_example) ((\<lambda>_. 0)(0xC0106000 := 1)) (\<lambda>_. [])
     \<and> current (V 0xC0106000 sem_example) = ex_p2"
  using V_wakes_first [OF sem_example_rep, of "0xC0106000"] sem_example_sleep(2) by (simp add: sem_V_def)

end
