(* ===== verification/ProdCons.thy ===== *)
theory ProdCons
  imports Semaphore
begin

text \<open>
  The producer and the consumer with semaphores: the first half of \<open>schedule/synchronize/productor_consumer.c\<close>. Both are
  kernel threads that the timer may interrupt between any two statements, so a run of the system is any interleaving of
  their statements; \<open>P\<close> and \<open>V\<close> are the atomic operations \<open>sem_P\<close> and \<open>sem_V\<close> that the code of \<open>semaphore.c\<close> implements. A thread in
  a queue takes no step; the statement after its \<open>P\<close> is where it goes on when it has been woken.
\<close>

section \<open>The code\<close>

datatype thread = Producer | Consumer

datatype psem = Empty_s | Full_s | Mutex_s

datatype producer_pc = P_Check | P_Lock | P_Produce | P_Unlock | P_Release

datatype consumer_pc = C_Take | C_Lock | C_Consume | C_Unlock

record prodcons = "(psem, thread) sems" +
  p_pc :: producer_pc
  c_pc :: consumer_pc
  buffer_s :: int

definition test_semaphore :: prodcons where
  "test_semaphore = \<lparr>val = (\<lambda>b. case b of Empty_s \<Rightarrow> 5 | Full_s \<Rightarrow> 0 | Mutex_s \<Rightarrow> 1), que = (\<lambda>_. []),
     p_pc = P_Check, c_pc = C_Take, buffer_s = 0\<rparr>"

definition producer_semaphore :: "prodcons \<Rightarrow> prodcons" where
  "producer_semaphore s =
     (case p_pc s of
        P_Check \<Rightarrow> if buffer_s s < 5 then s\<lparr>p_pc := P_Lock\<rparr> else s
      | P_Lock \<Rightarrow> sem_P Mutex_s Producer (s\<lparr>p_pc := P_Produce\<rparr>)
      | P_Produce \<Rightarrow> s\<lparr>buffer_s := buffer_s s + 1, p_pc := P_Unlock\<rparr>
      | P_Unlock \<Rightarrow> sem_V Mutex_s (s\<lparr>p_pc := P_Release\<rparr>)
      | P_Release \<Rightarrow> sem_V Full_s (s\<lparr>p_pc := P_Check\<rparr>))"

definition consumer_semaphore :: "prodcons \<Rightarrow> prodcons" where
  "consumer_semaphore s =
     (case c_pc s of
        C_Take \<Rightarrow> sem_P Full_s Consumer (s\<lparr>c_pc := C_Lock\<rparr>)
      | C_Lock \<Rightarrow> sem_P Mutex_s Consumer (s\<lparr>c_pc := C_Consume\<rparr>)
      | C_Consume \<Rightarrow> s\<lparr>buffer_s := buffer_s s - 1, c_pc := C_Unlock\<rparr>
      | C_Unlock \<Rightarrow> sem_V Mutex_s (s\<lparr>c_pc := C_Take\<rparr>))"

definition waits :: "'t \<Rightarrow> ('b, 't, 'z) sems_scheme \<Rightarrow> bool" where
  "waits t s \<longleftrightarrow> (\<exists>b. t \<in> set (que s b))"

inductive pc_step :: "prodcons \<Rightarrow> prodcons \<Rightarrow> bool" where
  producer: "\<not> waits Producer s \<Longrightarrow> pc_step s (producer_semaphore s)"
| consumer: "\<not> waits Consumer s \<Longrightarrow> pc_step s (consumer_semaphore s)"

inductive_cases pc_stepE: "pc_step s s'"

section \<open>The invariant\<close>

text \<open>Who is inside the critical section.\<close>

definition p_inside :: "prodcons \<Rightarrow> bool" where
  "p_inside s \<longleftrightarrow> p_pc s \<in> {P_Produce, P_Unlock} \<and> \<not> waits Producer s"

definition c_inside :: "prodcons \<Rightarrow> bool" where
  "c_inside s \<longleftrightarrow> c_pc s \<in> {C_Consume, C_Unlock} \<and> \<not> waits Consumer s"

text \<open>
  A thread waits only where its next \<open>P\<close> put it, and alone. The mutex counts the free place and the waiting threads;
  \<open>full_s\<close> counts the products that are signalled and not yet claimed.
\<close>

definition pc_inv :: "prodcons \<Rightarrow> bool" where
  "pc_inv s \<longleftrightarrow>
     que s Empty_s = [] \<and> val s Empty_s = 5
     \<and> que s Full_s \<in> {[], [Consumer]} \<and> (que s Full_s \<noteq> [] \<longrightarrow> c_pc s = C_Lock)
     \<and> que s Mutex_s \<in> {[], [Producer], [Consumer]}
     \<and> (que s Mutex_s = [Producer] \<longrightarrow> p_pc s = P_Produce) \<and> (que s Mutex_s = [Consumer] \<longrightarrow> c_pc s = C_Consume)
     \<and> val s Mutex_s = 1 - of_bool (p_pc s \<in> {P_Produce, P_Unlock}) - of_bool (c_pc s \<in> {C_Consume, C_Unlock})
     \<and> int (length (que s Mutex_s)) = max 0 (- val s Mutex_s)
     \<and> int (length (que s Full_s)) = max 0 (- val s Full_s)
     \<and> buffer_s s = val s Full_s + of_bool (p_pc s \<in> {P_Unlock, P_Release}) + of_bool (c_pc s \<in> {C_Lock, C_Consume})
     \<and> buffer_s s \<le> 5 \<and> (p_pc s \<in> {P_Lock, P_Produce} \<longrightarrow> buffer_s s \<le> 4)"

lemma thread_sem_UNIV: "(\<forall>b. Q b) \<longleftrightarrow> Q Empty_s \<and> Q Full_s \<and> Q Mutex_s" "(\<exists>b. Q b) \<longleftrightarrow> Q Empty_s \<or> Q Full_s \<or> Q Mutex_s"
  by (metis psem.exhaust)+

lemma pc_inv_init: "pc_inv test_semaphore"
  by (simp add: pc_inv_def test_semaphore_def)

lemma pc_inv_step: "pc_step s s' \<Longrightarrow> pc_inv s \<Longrightarrow> pc_inv s'"
proof (erule pc_stepE)
  assume "s' = producer_semaphore s" "\<not> waits Producer s" and i: "pc_inv s"
  then show "pc_inv s'"
    by (cases "p_pc s"; cases "c_pc s")
      (auto simp: pc_inv_def producer_semaphore_def sem_P_def sem_V_def Let_def waits_def thread_sem_UNIV split: if_splits)
next
  assume "s' = consumer_semaphore s" "\<not> waits Consumer s" and i: "pc_inv s"
  then show "pc_inv s'"
    by (cases "p_pc s"; cases "c_pc s")
      (auto simp: pc_inv_def consumer_semaphore_def sem_P_def sem_V_def Let_def waits_def thread_sem_UNIV split: if_splits)
qed

section \<open>Properties\<close>

lemma pc_inv_reachable: "pc_step\<^sup>*\<^sup>* test_semaphore s \<Longrightarrow> pc_inv s"
  by (induction rule: rtranclp_induct) (auto intro: pc_inv_init pc_inv_step)

text \<open>
  C9. In every interleaving the buffer holds between 0 and 5 products and the two threads are never inside the critical
  section together, although the producer reads the fill level outside of it; and the two never wait at the same
  time, so one of them can always go on. The semaphore \<open>empty_s\<close> that should count the free places stays at 5.
\<close>

theorem producer_consumer_safe:
  assumes "pc_step\<^sup>*\<^sup>* test_semaphore s"
  shows "0 \<le> buffer_s s \<and> buffer_s s \<le> 5 \<and> \<not> (p_inside s \<and> c_inside s) \<and> \<not> (waits Producer s \<and> waits Consumer s)
    \<and> val s Empty_s = 5"
proof -
  have i: "pc_inv s" by (rule pc_inv_reachable [OF assms])
  have full: "que s Full_s = [] \<or> que s Full_s = [Consumer]" "que s Full_s \<noteq> [] \<longrightarrow> c_pc s = C_Lock"
      "int (length (que s Full_s)) = max 0 (- val s Full_s)"
    and mutex: "que s Mutex_s = [] \<or> que s Mutex_s = [Producer] \<or> que s Mutex_s = [Consumer]"
      "int (length (que s Mutex_s)) = max 0 (- val s Mutex_s)"
    using i unfolding pc_inv_def by blast+
  have "val s Full_s \<ge> - 1" "val s Full_s = - 1 \<longrightarrow> c_pc s = C_Lock"
    using full by auto
  moreover have "buffer_s s = val s Full_s + of_bool (p_pc s \<in> {P_Unlock, P_Release}) + of_bool (c_pc s \<in> {C_Lock, C_Consume})"
    using i by (simp add: pc_inv_def)
  ultimately have "0 \<le> buffer_s s" by auto
  moreover have "\<not> (p_inside s \<and> c_inside s)"
  proof
    assume in2: "p_inside s \<and> c_inside s"
    then have "val s Mutex_s = - 1" using i unfolding pc_inv_def p_inside_def c_inside_def by simp
    then have "que s Mutex_s \<noteq> []" using mutex(2) by auto
    then have "waits Producer s \<or> waits Consumer s" using mutex(1) unfolding waits_def by (metis list.set_intros(1))
    with in2 show False by (auto simp: p_inside_def c_inside_def)
  qed
  moreover have "\<not> (waits Producer s \<and> waits Consumer s)"
  proof -
    have e: "que s Empty_s = []"
        and v: "val s Mutex_s = 1 - of_bool (p_pc s \<in> {P_Produce, P_Unlock}) - of_bool (c_pc s \<in> {C_Consume, C_Unlock})"
      using i unfolding pc_inv_def by blast+
    show ?thesis
    proof
      assume w: "waits Producer s \<and> waits Consumer s"
      then have "Producer \<in> set (que s Mutex_s)" using full(1) e unfolding waits_def thread_sem_UNIV by auto
      then have m: "que s Mutex_s = [Producer]" using mutex(1) by auto
      then have "Consumer \<in> set (que s Full_s)" using w e unfolding waits_def thread_sem_UNIV by auto
      then have "c_pc s = C_Lock" using full(1,2) by auto
      moreover have "val s Mutex_s = - 1" using m mutex(2) by auto
      ultimately show False using v by (cases "p_pc s") simp_all
    qed
  qed
  ultimately show ?thesis using i by (simp add: pc_inv_def)
qed

theorem producer_consumer_safe_witness:
  "pc_step\<^sup>*\<^sup>* test_semaphore (consumer_semaphore test_semaphore)
     \<and> buffer_s (consumer_semaphore test_semaphore) \<le> 5 \<and> waits Consumer (consumer_semaphore test_semaphore)
     \<and> \<not> waits Producer (consumer_semaphore test_semaphore)"
proof -
  have w: "\<not> waits Consumer test_semaphore" by (simp add: waits_def test_semaphore_def)
  have r: "pc_step\<^sup>*\<^sup>* test_semaphore (consumer_semaphore test_semaphore)"
    using pc_step.consumer [OF w] by blast
  have "waits Consumer (consumer_semaphore test_semaphore)"
    by (auto simp: waits_def consumer_semaphore_def test_semaphore_def sem_P_def intro: exI [of _ Full_s])
  with producer_consumer_safe [OF r] r show ?thesis by simp
qed

end
