(* ===== verification/Monitor.thy ===== *)
theory Monitor
  imports ProdCons
begin

text \<open>
  Monitors: \<open>schedule/synchronize/monitor.c\<close> and the second half of \<open>schedule/synchronize/productor_consumer.c\<close>. The
  operations \<open>enter\<close>, \<open>wait\<close>, \<open>signal\<close> and \<open>leave\<close> are sequences of statements in which the calling thread may be interrupted or fall asleep; the
  program counter of a thread says at which statement it is. Every statement is one step of the
  relation \<open>mon_step\<close>. The analysis abstracts the system to the status of the two threads towards the monitor
  (\<open>mon_rel\<close>), a simulation under which the invariant \<open>compatible\<close> is checked status by status.
\<close>

section \<open>Initialisation\<close>

text \<open>
  \<open>struct monitor_t\<close> has the semaphores \<open>mutex\<close> and \<open>next\<close> at 0 and 12, \<open>next_count\<close> at 24 and the pointer \<open>cvs\<close> at 28; \<open>struct condition_t\<close>
  has its semaphore at 0, \<open>x_count\<close> at 12, \<open>monitor\<close> at 16 and takes 20 bytes.
\<close>

abbreviation sizeof_condition_t :: u32 where "sizeof_condition_t \<equiv> 20"

definition mon_next :: "u32 \<Rightarrow> u32" where
  "mon_next m = m + 12"

fun monitor_init_loop :: "u32 \<Rightarrow> u32 \<Rightarrow> nat \<Rightarrow> 'a kernel_scheme \<Rightarrow> 'a kernel_scheme" where
  "monitor_init_loop m cv 0 s = s"
| "monitor_init_loop m cv (Suc n) s =
     (let s = semaphore_init cv 0 s;
          s = s\<lparr>cond_x_count := (cond_x_count s)(kpa cv := 0)\<rparr>;
          s = s\<lparr>cond_monitor := (cond_monitor s)(kpa cv := m)\<rparr>
      in monitor_init_loop m (cv + sizeof_condition_t) n s)"

definition monitor_init :: "u32 \<Rightarrow> i32 \<Rightarrow> 'a kernel_scheme \<Rightarrow> 'a kernel_scheme option" where
  "monitor_init m cond_num s =
     (let s = semaphore_init m 1 s;
          s = semaphore_init (mon_next m) 0 s;
          s = s\<lparr>mon_next_count := (mon_next_count s)(kpa m := 0)\<rparr>
      in do {
        (cv, s) \<leftarrow> malloc (sizeof_condition_t * cond_num) s;
        let s = s\<lparr>mon_cvs := (mon_cvs s)(kpa m := cv)\<rparr>
        in Some (monitor_init_loop m cv (nat (sint cond_num)) s)
      })"

section \<open>The code\<close>

datatype msem = Mutex_m | Next_m | X_sem thread

datatype mpc = Enter | Check | Wait_Count | Wait_Test | Wait_V_Next | Wait_V_Mutex | Wait_P | Wait_Done
  | Update | Test | Sig_Test | Sig_Count | Sig_V | Sig_P | Sig_Done | Leave_Test | Leave_Next | Leave_Mutex

record monsys = "(msem, thread) sems" +
  pc :: "thread \<Rightarrow> mpc"
  next_count :: int
  x_count :: "thread \<Rightarrow> int"
  buffer_m :: int

definition goto :: "thread \<Rightarrow> mpc \<Rightarrow> monsys \<Rightarrow> monsys" where
  "goto t l s = s\<lparr>pc := (pc s)(t := l)\<rparr>"

definition test_monitor :: monsys where
  "test_monitor = \<lparr>val = (\<lambda>b. case b of Mutex_m \<Rightarrow> 1 | _ \<Rightarrow> 0), que = (\<lambda>_. []), pc = (\<lambda>_. Enter), next_count = 0,
     x_count = (\<lambda>_. 0), buffer_m = 0\<rparr>"

definition enter :: "thread \<Rightarrow> monsys \<Rightarrow> monsys" where
  "enter t s = sem_P Mutex_m t (goto t Check s)"

definition mon_wait :: "thread \<Rightarrow> thread \<Rightarrow> monsys \<Rightarrow> monsys" where
  "mon_wait c t s =
     (case pc s t of
        Wait_Count \<Rightarrow> goto t Wait_Test (s\<lparr>x_count := (x_count s)(c := x_count s c + 1)\<rparr>)
      | Wait_Test \<Rightarrow> goto t (if next_count s > 0 then Wait_V_Next else Wait_V_Mutex) s
      | Wait_V_Next \<Rightarrow> sem_V Next_m (goto t Wait_P s)
      | Wait_V_Mutex \<Rightarrow> sem_V Mutex_m (goto t Wait_P s)
      | Wait_P \<Rightarrow> sem_P (X_sem c) t (goto t Wait_Done s)
      | Wait_Done \<Rightarrow> goto t Update (s\<lparr>x_count := (x_count s)(c := x_count s c - 1)\<rparr>)
      | _ \<Rightarrow> s)"

definition mon_signal :: "thread \<Rightarrow> thread \<Rightarrow> monsys \<Rightarrow> monsys" where
  "mon_signal c t s =
     (case pc s t of
        Sig_Test \<Rightarrow> goto t (if x_count s c > 0 then Sig_Count else Leave_Test) s
      | Sig_Count \<Rightarrow> goto t Sig_V (s\<lparr>next_count := next_count s + 1\<rparr>)
      | Sig_V \<Rightarrow> sem_V (X_sem c) (goto t Sig_P s)
      | Sig_P \<Rightarrow> sem_P Next_m t (goto t Sig_Done s)
      | Sig_Done \<Rightarrow> goto t Leave_Test (s\<lparr>next_count := next_count s - 1\<rparr>)
      | _ \<Rightarrow> s)"

definition leave :: "thread \<Rightarrow> monsys \<Rightarrow> monsys" where
  "leave t s =
     (case pc s t of
        Leave_Test \<Rightarrow> goto t (if next_count s > 0 then Leave_Next else Leave_Mutex) s
      | Leave_Next \<Rightarrow> sem_V Next_m (goto t Enter s)
      | Leave_Mutex \<Rightarrow> sem_V Mutex_m (goto t Enter s)
      | _ \<Rightarrow> s)"

definition producer_monitor :: "monsys \<Rightarrow> monsys" where
  "producer_monitor s =
     (let t = Producer
      in case pc s t of
           Enter \<Rightarrow> enter t s
         | Check \<Rightarrow> goto t (if buffer_m s = 5 then Wait_Count else Update) s
         | Update \<Rightarrow> goto t Test (s\<lparr>buffer_m := buffer_m s + 1\<rparr>)
         | Test \<Rightarrow> goto t (if buffer_m s = 1 then Sig_Test else Leave_Test) s
         | l \<Rightarrow> if l \<in> {Wait_Count, Wait_Test, Wait_V_Next, Wait_V_Mutex, Wait_P, Wait_Done} then mon_wait Producer t s
               else if l \<in> {Sig_Test, Sig_Count, Sig_V, Sig_P, Sig_Done} then mon_signal Consumer t s
               else leave t s)"

definition consumer_monitor :: "monsys \<Rightarrow> monsys" where
  "consumer_monitor s =
     (let t = Consumer
      in case pc s t of
           Enter \<Rightarrow> enter t s
         | Check \<Rightarrow> goto t (if buffer_m s = 0 then Wait_Count else Update) s
         | Update \<Rightarrow> goto t Test (s\<lparr>buffer_m := buffer_m s - 1\<rparr>)
         | Test \<Rightarrow> goto t (if buffer_m s = 4 then Sig_Test else Leave_Test) s
         | l \<Rightarrow> if l \<in> {Wait_Count, Wait_Test, Wait_V_Next, Wait_V_Mutex, Wait_P, Wait_Done} then mon_wait Consumer t s
               else if l \<in> {Sig_Test, Sig_Count, Sig_V, Sig_P, Sig_Done} then mon_signal Producer t s
               else leave t s)"

inductive mon_step :: "monsys \<Rightarrow> monsys \<Rightarrow> bool" where
  producer_m: "\<not> waits Producer s \<Longrightarrow> mon_step s (producer_monitor s)"
| consumer_m: "\<not> waits Consumer s \<Longrightarrow> mon_step s (consumer_monitor s)"

inductive_cases mon_stepE: "mon_step s s'"

section \<open>One thread and the other\<close>

fun other :: "thread \<Rightarrow> thread" where
  "other Producer = Consumer"
| "other Consumer = Producer"

lemma other_neq [simp]: "other t \<noteq> t" "t \<noteq> other t" "other (other t) = t"
  by (cases t; simp)+

text \<open>The free places for the producer, the products for the consumer.\<close>

fun room :: "thread \<Rightarrow> int \<Rightarrow> int" where
  "room Producer n = 5 - n"
| "room Consumer n = n"

lemma room_other [simp]: "room (other t) n = 5 - room t n"
  by (cases t) auto

definition thread_step :: "thread \<Rightarrow> monsys \<Rightarrow> monsys" where
  "thread_step t s =
     (case pc s t of
           Enter \<Rightarrow> enter t s
         | Check \<Rightarrow> goto t (if room t (buffer_m s) = 0 then Wait_Count else Update) s
         | Update \<Rightarrow> goto t Test (s\<lparr>buffer_m := (case t of Producer \<Rightarrow> buffer_m s + 1 | Consumer \<Rightarrow> buffer_m s - 1)\<rparr>)
         | Test \<Rightarrow> goto t (if room (other t) (buffer_m s) = 1 then Sig_Test else Leave_Test) s
         | l \<Rightarrow> if l \<in> {Wait_Count, Wait_Test, Wait_V_Next, Wait_V_Mutex, Wait_P, Wait_Done} then mon_wait t t s
               else if l \<in> {Sig_Test, Sig_Count, Sig_V, Sig_P, Sig_Done} then mon_signal (other t) t s
               else leave t s)"

lemma thread_step_eq: "thread_step Producer = producer_monitor" "thread_step Consumer = consumer_monitor"
  by (auto simp: fun_eq_iff thread_step_def producer_monitor_def consumer_monitor_def Let_def split: mpc.split)

lemma mon_step_iff: "mon_step s s' \<longleftrightarrow> (\<exists>t. \<not> waits t s \<and> s' = thread_step t s)"
proof
  assume "mon_step s s'"
  then show "\<exists>t. \<not> waits t s \<and> s' = thread_step t s"
    by (cases rule: mon_step.cases) (metis thread_step_eq)+
next
  assume "\<exists>t. \<not> waits t s \<and> s' = thread_step t s"
  then obtain t where "\<not> waits t s" "s' = thread_step t s" by blast
  then show "mon_step s s'" by (cases t) (simp_all add: thread_step_eq mon_step.intros)
qed

section \<open>The states of the monitor\<close>

text \<open>
  Seen from the monitor a thread is outside, waits for the mutex, is inside at some statement, or has given the monitor up
  in \<open>wait\<close> or \<open>signal\<close>: before the \<open>P\<close> there (the unit may already have come), or asleep in it.
\<close>

datatype status = Outside | Queued | Inside mpc | Before_X | Got_X | Asleep_X | Before_Next | Got_Next | Asleep_Next

fun owns :: "status \<Rightarrow> bool" where
  "owns (Inside _) = True"
| "owns Got_X = True"
| "owns Got_Next = True"
| "owns _ = False"

fun pc_of :: "status \<Rightarrow> mpc" where
  "pc_of Outside = Enter"
| "pc_of Queued = Check"
| "pc_of (Inside l) = l"
| "pc_of Before_X = Wait_P"
| "pc_of Got_X = Wait_P"
| "pc_of Asleep_X = Wait_Done"
| "pc_of Before_Next = Sig_P"
| "pc_of Got_Next = Sig_P"
| "pc_of Asleep_Next = Sig_Done"

fun signals :: "status \<Rightarrow> bool" where
  "signals (Inside l) \<longleftrightarrow> l = Sig_V \<or> l = Sig_Done"
| "signals a \<longleftrightarrow> a = Before_Next \<or> a = Got_Next \<or> a = Asleep_Next"

fun counted :: "status \<Rightarrow> bool" where
  "counted (Inside l) \<longleftrightarrow> l = Wait_Test \<or> l = Wait_V_Next \<or> l = Wait_V_Mutex \<or> l = Wait_Done"
| "counted a \<longleftrightarrow> a = Before_X \<or> a = Got_X \<or> a = Asleep_X"

text \<open>
  \<open>mon_rel u a b s\<close>: thread \<open>u\<close> has status \<open>a\<close>, the other one status \<open>b\<close>; the values, queues, counters and program counters
  are determined by that.
\<close>

definition mon_rel :: "thread \<Rightarrow> status \<Rightarrow> status \<Rightarrow> monsys \<Rightarrow> bool" where
  "mon_rel u a b s \<longleftrightarrow>
     pc s u = pc_of a \<and> pc s (other u) = pc_of b
     \<and> val s Mutex_m = of_bool (\<not> owns a \<and> \<not> owns b) - of_bool (a = Queued) - of_bool (b = Queued)
     \<and> val s Next_m = of_bool (a = Got_Next) + of_bool (b = Got_Next) - of_bool (a = Asleep_Next) - of_bool (b = Asleep_Next)
     \<and> val s (X_sem u) = of_bool (a = Got_X) - of_bool (a = Asleep_X)
     \<and> val s (X_sem (other u)) = of_bool (b = Got_X) - of_bool (b = Asleep_X)
     \<and> que s Mutex_m = (if a = Queued then [u] else if b = Queued then [other u] else [])
     \<and> que s Next_m = (if a = Asleep_Next then [u] else if b = Asleep_Next then [other u] else [])
     \<and> que s (X_sem u) = (if a = Asleep_X then [u] else [])
     \<and> que s (X_sem (other u)) = (if b = Asleep_X then [other u] else [])
     \<and> next_count s = of_bool (signals a) + of_bool (signals b)
     \<and> x_count s u = of_bool (counted a) \<and> x_count s (other u) = of_bool (counted b)"

text \<open>What holds between a thread with status \<open>a\<close> and \<open>r\<close> units of its resource, and the other one with status \<open>b\<close>.\<close>

definition fits_with :: "status \<Rightarrow> status \<Rightarrow> int \<Rightarrow> bool" where
  "fits_with a b r \<longleftrightarrow>
     (owns a \<longrightarrow> \<not> owns b)
     \<and> (a \<in> {Queued, Before_Next, Asleep_Next} \<longrightarrow> owns b)
     \<and> a \<notin> {Inside Enter, Inside Wait_P, Inside Sig_P}
     \<and> (signals a \<or> a = Inside Sig_Count \<longrightarrow> \<not> signals b \<and> b \<noteq> Inside Sig_Count)
     \<and> (a \<in> {Inside Sig_Count, Inside Sig_V} \<longrightarrow> b \<in> {Before_X, Asleep_X})
     \<and> (a \<in> {Inside Wait_V_Next, Inside Leave_Next} \<longrightarrow> b \<in> {Before_Next, Asleep_Next})
     \<and> (a \<in> {Inside Wait_V_Mutex, Inside Leave_Mutex} \<longrightarrow> b \<notin> {Before_Next, Asleep_Next})
     \<and> (a \<in> {Inside Sig_Test, Inside Sig_Count, Inside Sig_V} \<longrightarrow> r \<le> 4)
     \<and> (a \<in> {Inside Update, Inside Wait_Done, Got_X} \<longrightarrow> 1 \<le> r)
     \<and> (a \<in> {Inside Wait_Count, Inside Wait_Test, Inside Wait_V_Next, Inside Wait_V_Mutex} \<longrightarrow> r = 0)
     \<and> (a \<in> {Before_X, Asleep_X} \<longrightarrow> r = 0 \<or> r = 1 \<and> b \<in> {Inside Test, Inside Sig_Test, Inside Sig_Count, Inside Sig_V})
     \<and> 0 \<le> r"

definition compatible :: "status \<Rightarrow> status \<Rightarrow> int \<Rightarrow> bool" where
  "compatible a b r \<longleftrightarrow> fits_with a b r \<and> fits_with b a (5 - r)"

text \<open>One statement of a thread with status \<open>a\<close>, against the other with \<open>b\<close>: the new statuses and the units used.\<close>

fun wake_next :: "status \<Rightarrow> status" where
  "wake_next Before_Next = Got_Next"
| "wake_next Asleep_Next = Inside Sig_Done"
| "wake_next b = b"

fun wake_mutex :: "status \<Rightarrow> status" where
  "wake_mutex Queued = Inside Check"
| "wake_mutex b = b"

fun wake_x :: "status \<Rightarrow> status" where
  "wake_x Before_X = Got_X"
| "wake_x Asleep_X = Inside Wait_Done"
| "wake_x b = b"

fun inside_step :: "mpc \<Rightarrow> status \<Rightarrow> int \<Rightarrow> status \<times> status" where
  "inside_step Check b r = (Inside (if r = 0 then Wait_Count else Update), b)"
| "inside_step Update b r = (Inside Test, b)"
| "inside_step Test b r = (Inside (if r = 4 then Sig_Test else Leave_Test), b)"
| "inside_step Wait_Count b r = (Inside Wait_Test, b)"
| "inside_step Wait_Test b r = (Inside (if signals b then Wait_V_Next else Wait_V_Mutex), b)"
| "inside_step Wait_V_Next b r = (Before_X, wake_next b)"
| "inside_step Wait_V_Mutex b r = (Before_X, wake_mutex b)"
| "inside_step Wait_Done b r = (Inside Update, b)"
| "inside_step Sig_Test b r = (Inside (if counted b then Sig_Count else Leave_Test), b)"
| "inside_step Sig_Count b r = (Inside Sig_V, b)"
| "inside_step Sig_V b r = (Before_Next, wake_x b)"
| "inside_step Sig_Done b r = (Inside Leave_Test, b)"
| "inside_step Leave_Test b r = (Inside (if signals b then Leave_Next else Leave_Mutex), b)"
| "inside_step Leave_Next b r = (Outside, wake_next b)"
| "inside_step Leave_Mutex b r = (Outside, wake_mutex b)"
| "inside_step _ b r = (Outside, b)"

fun status_step :: "status \<Rightarrow> status \<Rightarrow> int \<Rightarrow> status \<times> status" where
  "status_step Outside b r = (if owns b then Queued else Inside Check, b)"
| "status_step Before_X b r = (Asleep_X, b)"
| "status_step Got_X b r = (Inside Wait_Done, b)"
| "status_step Before_Next b r = (Asleep_Next, b)"
| "status_step Got_Next b r = (Inside Sig_Done, b)"
| "status_step (Inside l) b r = inside_step l b r"
| "status_step a b r = (a, b)"

definition units :: "status \<Rightarrow> int" where
  "units a = of_bool (a = Inside Update)"

lemma compatible_step:
  assumes "compatible a b r" and "a \<notin> {Queued, Asleep_X, Asleep_Next}"
  shows "compatible (fst (status_step a b r)) (snd (status_step a b r)) (r - units a)"
proof (cases a)
  case (Inside l)
  then show ?thesis using assms
    by (cases l; cases b) (auto simp: compatible_def fits_with_def units_def)
qed (use assms in \<open>cases b; auto simp: compatible_def fits_with_def units_def\<close>)+

lemmas mon_step_defs = thread_step_def enter_def mon_wait_def mon_signal_def leave_def goto_def sem_P_def sem_V_def Let_def

lemma thread_step_pc:
  "pc s t = Enter \<Longrightarrow> thread_step t s = sem_P Mutex_m t (goto t Check s)"
  "pc s t = Check \<Longrightarrow> thread_step t s = goto t (if room t (buffer_m s) = 0 then Wait_Count else Update) s"
  "pc s t = Update \<Longrightarrow> thread_step t s = goto t Test (s\<lparr>buffer_m := (case t of Producer \<Rightarrow> buffer_m s + 1 | Consumer \<Rightarrow> buffer_m s - 1)\<rparr>)"
  "pc s t = Test \<Longrightarrow> thread_step t s = goto t (if room (other t) (buffer_m s) = 1 then Sig_Test else Leave_Test) s"
  "pc s t = Wait_Count \<Longrightarrow> thread_step t s = goto t Wait_Test (s\<lparr>x_count := (x_count s)(t := x_count s t + 1)\<rparr>)"
  "pc s t = Wait_Test \<Longrightarrow> thread_step t s = goto t (if next_count s > 0 then Wait_V_Next else Wait_V_Mutex) s"
  "pc s t = Wait_V_Next \<Longrightarrow> thread_step t s = sem_V Next_m (goto t Wait_P s)"
  "pc s t = Wait_V_Mutex \<Longrightarrow> thread_step t s = sem_V Mutex_m (goto t Wait_P s)"
  "pc s t = Wait_P \<Longrightarrow> thread_step t s = sem_P (X_sem t) t (goto t Wait_Done s)"
  "pc s t = Wait_Done \<Longrightarrow> thread_step t s = goto t Update (s\<lparr>x_count := (x_count s)(t := x_count s t - 1)\<rparr>)"
  "pc s t = Sig_Test \<Longrightarrow> thread_step t s = goto t (if x_count s (other t) > 0 then Sig_Count else Leave_Test) s"
  "pc s t = Sig_Count \<Longrightarrow> thread_step t s = goto t Sig_V (s\<lparr>next_count := next_count s + 1\<rparr>)"
  "pc s t = Sig_V \<Longrightarrow> thread_step t s = sem_V (X_sem (other t)) (goto t Sig_P s)"
  "pc s t = Sig_P \<Longrightarrow> thread_step t s = sem_P Next_m t (goto t Sig_Done s)"
  "pc s t = Sig_Done \<Longrightarrow> thread_step t s = goto t Leave_Test (s\<lparr>next_count := next_count s - 1\<rparr>)"
  "pc s t = Leave_Test \<Longrightarrow> thread_step t s = goto t (if next_count s > 0 then Leave_Next else Leave_Mutex) s"
  "pc s t = Leave_Next \<Longrightarrow> thread_step t s = sem_V Next_m (goto t Enter s)"
  "pc s t = Leave_Mutex \<Longrightarrow> thread_step t s = sem_V Mutex_m (goto t Enter s)"
  by (simp_all add: thread_step_def enter_def mon_wait_def mon_signal_def leave_def)

lemma mon_relI:
  assumes "pc s u = pc_of a" "pc s (other u) = pc_of b"
    and "val s Mutex_m = of_bool (\<not> owns a \<and> \<not> owns b) - of_bool (a = Queued) - of_bool (b = Queued)"
    and "val s Next_m = of_bool (a = Got_Next) + of_bool (b = Got_Next) - of_bool (a = Asleep_Next) - of_bool (b = Asleep_Next)"
    and "val s (X_sem u) = of_bool (a = Got_X) - of_bool (a = Asleep_X)"
    and "val s (X_sem (other u)) = of_bool (b = Got_X) - of_bool (b = Asleep_X)"
    and "que s Mutex_m = (if a = Queued then [u] else if b = Queued then [other u] else [])"
    and "que s Next_m = (if a = Asleep_Next then [u] else if b = Asleep_Next then [other u] else [])"
    and "que s (X_sem u) = (if a = Asleep_X then [u] else [])"
    and "que s (X_sem (other u)) = (if b = Asleep_X then [other u] else [])"
    and "next_count s = of_bool (signals a) + of_bool (signals b)"
    and "x_count s u = of_bool (counted a)" "x_count s (other u) = of_bool (counted b)"
  shows "mon_rel u a b s"
  unfolding mon_rel_def using assms by (intro conjI)

lemma mon_relD:
  assumes "mon_rel u a b s"
  shows "pc s u = pc_of a" "pc s (other u) = pc_of b"
    and "val s Mutex_m = of_bool (\<not> owns a \<and> \<not> owns b) - of_bool (a = Queued) - of_bool (b = Queued)"
    and "val s Next_m = of_bool (a = Got_Next) + of_bool (b = Got_Next) - of_bool (a = Asleep_Next) - of_bool (b = Asleep_Next)"
    and "val s (X_sem u) = of_bool (a = Got_X) - of_bool (a = Asleep_X)"
    and "val s (X_sem (other u)) = of_bool (b = Got_X) - of_bool (b = Asleep_X)"
    and "que s Mutex_m = (if a = Queued then [u] else if b = Queued then [other u] else [])"
    and "que s Next_m = (if a = Asleep_Next then [u] else if b = Asleep_Next then [other u] else [])"
    and "que s (X_sem u) = (if a = Asleep_X then [u] else [])"
    and "que s (X_sem (other u)) = (if b = Asleep_X then [other u] else [])"
    and "next_count s = of_bool (signals a) + of_bool (signals b)"
    and "x_count s u = of_bool (counted a)" "x_count s (other u) = of_bool (counted b)"
  using assms unfolding mon_rel_def by blast+

lemma room_update:
  "room t (case t of Producer \<Rightarrow> n + 1 | Consumer \<Rightarrow> n - 1) = room t n - 1"
  by (cases t) auto

text \<open>Statements that change no semaphore, those that perform a \<open>V\<close> and those that perform a \<open>P\<close>.\<close>

lemma mon_rel_local:
  assumes "mon_rel u (Inside l) b s" and "fits_with (Inside l) b (room u (buffer_m s))"
    and "l \<notin> {Wait_V_Next, Wait_V_Mutex, Sig_V, Leave_Next, Leave_Mutex}"
  shows "mon_rel u (fst (inside_step l b (room u (buffer_m s)))) (snd (inside_step l b (room u (buffer_m s)))) (thread_step u s)"
proof -
  have p: "pc s u = l" using mon_relD(1) [OF assms(1)] by simp
  have "l \<notin> {Enter, Wait_P, Sig_P}" using assms(2) by (auto simp: fits_with_def)
  then show ?thesis using p assms(3)
    by (cases l; simp add: thread_step_pc; intro conjI impI mon_relI; simp add: mon_relD [OF assms(1)] goto_def)
qed

lemma mon_rel_V:
  assumes "mon_rel u (Inside l) b s" and "fits_with (Inside l) b (room u (buffer_m s))"
    and "l \<in> {Wait_V_Next, Wait_V_Mutex, Sig_V, Leave_Next, Leave_Mutex}"
  shows "mon_rel u (fst (inside_step l b (room u (buffer_m s)))) (snd (inside_step l b (room u (buffer_m s)))) (thread_step u s)"
proof -
  have p: "pc s u = l" using mon_relD(1) [OF assms(1)] by simp
  have b: "\<not> owns b" "l = Sig_V \<longrightarrow> b = Before_X \<or> b = Asleep_X"
    "l = Wait_V_Next \<or> l = Leave_Next \<longrightarrow> b = Before_Next \<or> b = Asleep_Next"
    using assms(2) by (auto simp: fits_with_def)
  show ?thesis using p assms(3) b
    by (elim insertE emptyE; simp add: thread_step_pc; intro conjI impI mon_relI; cases b;
        simp add: mon_relD [OF assms(1)] goto_def sem_V_def Let_def)
qed

lemma mon_rel_P:
  assumes "mon_rel u a b s" and "compatible a b (room u (buffer_m s))" and "a \<in> {Outside, Before_X, Got_X, Before_Next, Got_Next}"
  shows "mon_rel u (fst (status_step a b (room u (buffer_m s)))) (snd (status_step a b (room u (buffer_m s)))) (thread_step u s)"
proof -
  have p: "pc s u = pc_of a" using mon_relD(1) [OF assms(1)] .
  have b: "owns a \<longrightarrow> \<not> owns b" "a = Before_Next \<longrightarrow> owns b" "b = Queued \<longrightarrow> owns a" "signals a \<longrightarrow> \<not> signals b"
    using assms(2) unfolding compatible_def fits_with_def by blast+
  show ?thesis using p assms(3) b
    by (elim insertE emptyE; simp add: thread_step_pc; intro conjI impI mon_relI; cases b;
        simp add: mon_relD [OF assms(1)] goto_def sem_P_def Let_def)
qed

definition asleep_status :: "status \<Rightarrow> bool" where
  "asleep_status a \<longleftrightarrow> a \<in> {Queued, Asleep_X, Asleep_Next}"

lemma mon_rel_step:
  assumes "mon_rel u a b s" and "compatible a b (room u (buffer_m s))" and "\<not> asleep_status a"
  shows "mon_rel u (fst (status_step a b (room u (buffer_m s)))) (snd (status_step a b (room u (buffer_m s)))) (thread_step u s)"
    and "room u (buffer_m (thread_step u s)) = room u (buffer_m s) - units a"
proof -
  show "mon_rel u (fst (status_step a b (room u (buffer_m s)))) (snd (status_step a b (room u (buffer_m s)))) (thread_step u s)"
  proof (cases a)
    case (Inside l)
    then have f: "fits_with (Inside l) b (room u (buffer_m s))" using assms(2) by (simp add: compatible_def)
    show ?thesis using mon_rel_local [OF assms(1) [unfolded Inside] f] mon_rel_V [OF assms(1) [unfolded Inside] f] Inside
      by (cases "l \<in> {Wait_V_Next, Wait_V_Mutex, Sig_V, Leave_Next, Leave_Mutex}") simp_all
  qed (use mon_rel_P [OF assms(1,2)] assms(3) in \<open>simp_all add: asleep_status_def\<close>)
  have p: "pc s u = pc_of a" using mon_relD(1) [OF assms(1)] .
  have e: "pc_of a = Update \<longleftrightarrow> a = Inside Update" by (cases a) auto
  have "buffer_m (thread_step u s) = (if pc s u = Update then case u of Producer \<Rightarrow> buffer_m s + 1 | Consumer \<Rightarrow> buffer_m s - 1 else buffer_m s)"
    by (cases "pc s u") (simp_all add: thread_step_pc goto_def sem_P_def sem_V_def Let_def)
  then show "room u (buffer_m (thread_step u s)) = room u (buffer_m s) - units a"
    by (simp add: p e units_def room_update)
qed

definition mon_inv :: "thread \<Rightarrow> monsys \<Rightarrow> bool" where
  "mon_inv u s \<longleftrightarrow> (\<exists>a b. mon_rel u a b s \<and> compatible a b (room u (buffer_m s)))"

lemma mon_rel_swap: "mon_rel u a b s \<Longrightarrow> compatible a b r \<Longrightarrow> mon_rel (other u) b a s"
proof (rule mon_relI)
  assume r: "mon_rel u a b s" and c: "compatible a b r"
  have q: "\<not> (a = Queued \<and> b = Queued)" "\<not> (a = Asleep_Next \<and> b = Asleep_Next)"
    using c unfolding compatible_def fits_with_def by auto
  show "que s Mutex_m = (if b = Queued then [other u] else if a = Queued then [other (other u)] else [])"
    "que s Next_m = (if b = Asleep_Next then [other u] else if a = Asleep_Next then [other (other u)] else [])"
    using q by (simp_all add: mon_relD [OF r])
qed (simp_all add: mon_relD)

lemma mon_inv_other: "mon_inv u s \<Longrightarrow> mon_inv (other u) s"
  unfolding mon_inv_def using mon_rel_swap by (fastforce simp: compatible_def)

lemma mon_inv_all: "mon_inv u s \<Longrightarrow> mon_inv t s"
  using mon_inv_other [of u s] by (cases u; cases t) auto

lemma waits_status: "mon_rel u a b s \<Longrightarrow> compatible a b r \<Longrightarrow> waits u s \<longleftrightarrow> asleep_status a"
proof -
  assume r: "mon_rel u a b s" and c: "compatible a b r"
  have u: "(\<exists>b. Q b) \<longleftrightarrow> Q Mutex_m \<or> Q Next_m \<or> Q (X_sem u) \<or> Q (X_sem (other u))" for Q
  proof
    assume "\<exists>b. Q b"
    then obtain b where "Q b" by blast
    then show "Q Mutex_m \<or> Q Next_m \<or> Q (X_sem u) \<or> Q (X_sem (other u))"
    proof (cases b)
      case (X_sem t)
      then show ?thesis using \<open>Q b\<close> by (cases t; cases u) auto
    qed auto
  qed auto
  show ?thesis
    unfolding waits_def u by (cases a) (simp_all add: mon_relD [OF r] asleep_status_def)
qed

lemma mon_inv_step: "mon_inv u s \<Longrightarrow> mon_step s s' \<Longrightarrow> mon_inv u s'"
proof -
  assume i: "mon_inv u s" and "mon_step s s'"
  then obtain t where t: "\<not> waits t s" "s' = thread_step t s" by (auto simp: mon_step_iff)
  obtain a b where r: "mon_rel t a b s" "compatible a b (room t (buffer_m s))"
    using mon_inv_all [OF i, of t] by (auto simp: mon_inv_def)
  have n: "\<not> asleep_status a" using waits_status [OF r] t(1) by simp
  have "mon_inv t s'"
    unfolding mon_inv_def t(2) mon_rel_step(2) [OF r n]
    using mon_rel_step(1) [OF r n] compatible_step [OF r(2)] n by (auto simp: asleep_status_def)
  then show ?thesis by (rule mon_inv_all)
qed

lemma mon_inv_init: "mon_inv t test_monitor"
proof -
  have "mon_rel t Outside Outside test_monitor" by (rule mon_relI) (simp_all add: test_monitor_def)
  moreover have "compatible Outside Outside (room t 0)" by (cases t) (simp_all add: compatible_def fits_with_def)
  ultimately show ?thesis by (auto simp: mon_inv_def test_monitor_def)
qed

lemma mon_inv_reachable: "mon_step\<^sup>*\<^sup>* test_monitor s \<Longrightarrow> mon_inv t s"
  by (induction rule: rtranclp_induct) (auto intro: mon_inv_init mon_inv_step)

section \<open>Properties\<close>

definition inside :: "thread \<Rightarrow> monsys \<Rightarrow> bool" where
  "inside t s \<longleftrightarrow> pc s t \<notin> {Enter, Wait_P, Sig_P} \<and> \<not> waits t s"

lemma inside_owns: "mon_rel u a b s \<Longrightarrow> compatible a b r \<Longrightarrow> inside u s \<Longrightarrow> owns a"
  using waits_status [of u a b s r] mon_relD(1) [of u a b s] by (cases a) (auto simp: inside_def asleep_status_def)

text \<open>
  C4. The monitor keeps its promises in every interleaving of the producer and the consumer that use it: the two are never
  inside it together, also not around a \<open>wait\<close> or \<open>signal\<close>; the buffer always holds between 0 and 5 products;
  a thread that comes back from \<open>wait\<close> finds its condition true; and there is no deadlock: the two never sleep
  at the same time.
\<close>

theorem monitor_safe:
  assumes "mon_step\<^sup>*\<^sup>* test_monitor s"
  shows "\<not> (inside Producer s \<and> inside Consumer s) \<and> 0 \<le> buffer_m s \<and> buffer_m s \<le> 5
    \<and> (inside Producer s \<and> pc s Producer = Wait_Done \<longrightarrow> buffer_m s < 5)
    \<and> (inside Consumer s \<and> pc s Consumer = Wait_Done \<longrightarrow> 0 < buffer_m s)
    \<and> \<not> (waits Producer s \<and> waits Consumer s)"
proof -
  have one: "\<not> (inside u s \<and> inside (other u) s) \<and> 0 \<le> room u (buffer_m s)
      \<and> (inside u s \<and> pc s u = Wait_Done \<longrightarrow> 1 \<le> room u (buffer_m s)) \<and> \<not> (waits u s \<and> waits (other u) s)" for u
  proof -
    obtain a b where r: "mon_rel u a b s" "compatible a b (room u (buffer_m s))"
      using mon_inv_reachable [OF assms, of u] by (auto simp: mon_inv_def)
    have r': "mon_rel (other u) b a s" "compatible b a (5 - room u (buffer_m s))"
      using mon_rel_swap [OF r] r(2) by (simp_all add: compatible_def)
    have "\<not> (owns a \<and> owns b)" "0 \<le> room u (buffer_m s)" "a = Inside Wait_Done \<longrightarrow> 1 \<le> room u (buffer_m s)"
      using r(2) unfolding compatible_def fits_with_def by auto
    moreover have "inside u s \<and> pc s u = Wait_Done \<longrightarrow> a = Inside Wait_Done"
      using inside_owns [OF r] mon_relD(1) [OF r(1)] by (cases a) auto
    moreover have "\<not> (asleep_status a \<and> asleep_status b)"
      using r(2) by (cases a; cases b; simp add: compatible_def fits_with_def asleep_status_def)
    ultimately show ?thesis
      using inside_owns [OF r] inside_owns [OF r'] waits_status [OF r] waits_status [OF r'] by blast
  qed
  from one [of Producer] one [of Consumer] show ?thesis by (simp, linarith)
qed

theorem monitor_safe_witness:
  "mon_step\<^sup>*\<^sup>* test_monitor (producer_monitor test_monitor) \<and> inside Producer (producer_monitor test_monitor)
     \<and> \<not> inside Consumer (producer_monitor test_monitor)"
proof -
  have w: "\<not> waits Producer test_monitor" by (simp add: waits_def test_monitor_def)
  have r: "mon_step\<^sup>*\<^sup>* test_monitor (producer_monitor test_monitor)"
    using mon_step.producer_m [OF w] by blast
  have "inside Producer (producer_monitor test_monitor)"
    by (simp add: inside_def waits_def producer_monitor_def test_monitor_def enter_def goto_def sem_P_def)
  with monitor_safe [OF r] r show ?thesis by blast
qed

end
