(* ===== verification/CString.thy ===== *)
theory CString
  imports Prelude "HOL-Library.Monad_Syntax"
begin

text \<open>
  The string library of \<open>libs/string.c\<close> on a flat memory of bytes. A loop that looks for a terminating zero may run forever
  when there is none, so it is a partial function into \<open>option\<close>; the counted loops of \<open>memset\<close> and \<open>memcpy\<close> recurse
  over their count. \<open>char\<close> is signed, as gcc has it on this machine.
\<close>

section \<open>The code\<close>

type_synonym bytes = "u32 \<Rightarrow> u8"

partial_function (option) strlen_loop :: "bytes \<Rightarrow> u32 \<Rightarrow> u32 \<Rightarrow> u32 option" where
  "strlen_loop m ptr len = (if m ptr \<noteq> 0 then strlen_loop m (ptr + 1) (len + 1) else Some len)"

definition strlen :: "bytes \<Rightarrow> u32 \<Rightarrow> u32 option" where
  "strlen m ptr = (if ptr = NULL then Some 0 else strlen_loop m ptr 0)"

definition char_minus :: "u8 \<Rightarrow> u8 \<Rightarrow> i32" where
  "char_minus x y = scast x - scast y"

partial_function (option) strcmp_loop :: "bytes \<Rightarrow> u32 \<Rightarrow> u32 \<Rightarrow> i32 option" where
  "strcmp_loop m lhs rhs =
     (if m lhs \<noteq> 0 \<and> m rhs \<noteq> 0 then
        if m lhs = m rhs then strcmp_loop m (lhs + 1) (rhs + 1)
        else Some (char_minus (m (lhs + 1)) (m (rhs + 1)))
      else Some (char_minus (m lhs) (m rhs)))"

definition strcmp :: "bytes \<Rightarrow> u32 \<Rightarrow> u32 \<Rightarrow> i32 option" where
  "strcmp m lhs rhs = (if lhs = NULL \<or> rhs = NULL then Some 0 else strcmp_loop m lhs rhs)"

partial_function (option) strcpy_loop :: "u32 \<Rightarrow> u32 \<Rightarrow> bytes \<Rightarrow> bytes option" where
  "strcpy_loop dest src m =
     (if m src \<noteq> 0 then strcpy_loop (dest + 1) (src + 1) (m(dest := m src))
      else Some (m(dest := 0)))"

definition strcpy :: "u32 \<Rightarrow> u32 \<Rightarrow> bytes \<Rightarrow> (u32 \<times> bytes) option" where
  "strcpy dest src m =
     (if dest = NULL \<or> src = NULL then Some (NULL, m)
      else do { m \<leftarrow> strcpy_loop dest src m; Some (dest, m) })"

fun memset_loop :: "nat \<Rightarrow> u32 \<Rightarrow> u8 \<Rightarrow> bytes \<Rightarrow> bytes" where
  "memset_loop 0 ptr ch m = m"
| "memset_loop (Suc n) ptr ch m = memset_loop n (ptr + 1) ch (m(ptr := ch))"

definition memset :: "u32 \<Rightarrow> u8 \<Rightarrow> u32 \<Rightarrow> bytes \<Rightarrow> bytes" where
  "memset src ch sz m = memset_loop (unat sz) src ch m"

fun memcpy_loop :: "nat \<Rightarrow> u32 \<Rightarrow> u32 \<Rightarrow> bytes \<Rightarrow> bytes" where
  "memcpy_loop 0 new_dst new_src m = m"
| "memcpy_loop (Suc n) new_dst new_src m = memcpy_loop n (new_dst + 1) (new_src + 1) (m(new_dst := m new_src))"

definition memcpy :: "u32 \<Rightarrow> u32 \<Rightarrow> u32 \<Rightarrow> bytes \<Rightarrow> u32 \<times> bytes" where
  "memcpy dst src sz m = (dst, memcpy_loop (unat sz) dst src m)"

section \<open>Strings in memory\<close>

text \<open>\<open>cstring m a xs\<close>: at \<open>a\<close> starts a zero-terminated string with the characters \<open>xs\<close>.\<close>

fun cstring :: "bytes \<Rightarrow> u32 \<Rightarrow> u8 list \<Rightarrow> bool" where
  "cstring m a [] \<longleftrightarrow> m a = 0"
| "cstring m a (x # xs) \<longleftrightarrow> m a = x \<and> x \<noteq> 0 \<and> cstring m (a + 1) xs"

lemma cstring_cong:
  assumes "\<And>i. i \<le> length xs \<Longrightarrow> m' (a + of_nat i) = m (a + of_nat i)"
  shows "cstring m' a xs = cstring m a xs"
  using assms
proof (induction xs arbitrary: a)
  case Nil
  then show ?case using Nil [of 0] by simp
next
  case (Cons x xs)
  have "m' (a + 1 + of_nat i) = m (a + 1 + of_nat i)" if "i \<le> length xs" for i
    using Cons.prems [of "Suc i"] that by (simp add: ac_simps)
  with Cons.IH [of "a + 1"] Cons.prems [of 0] show ?case by simp
qed

lemma strlen_loop_cstring: "cstring m a xs \<Longrightarrow> strlen_loop m a n = Some (n + of_nat (length xs))"
  by (induction xs arbitrary: a n) (subst strlen_loop.simps, simp add: ac_simps)+

lemma strcpy_loop_cstring:
  assumes "cstring m src xs" and "length xs < 4294967295" and "\<forall>i \<le> length xs. \<forall>j \<le> length xs. dest + of_nat i \<noteq> src + of_nat j"
  shows "\<exists>m'. strcpy_loop dest src m = Some m' \<and> cstring m' dest xs
    \<and> (\<forall>a. (\<forall>i \<le> length xs. a \<noteq> dest + of_nat i) \<longrightarrow> m' a = m a)"
  using assms
proof (induction xs arbitrary: dest src m)
  case Nil
  then show ?case by (subst strcpy_loop.simps) auto
next
  case (Cons x xs)
  let ?m = "m(dest := x)"
  have ne: "src + of_nat j \<noteq> dest" if "j \<le> Suc (length xs)" for j
    using Cons.prems(3) [rule_format, of 0 j] that by auto
  have ne': "src + 1 + of_nat i \<noteq> dest" if "i \<le> length xs" for i
    using ne [of "Suc i"] that by (simp add: ac_simps)
  have "cstring ?m (src + 1) xs = cstring m (src + 1) xs"
    using ne' by (intro cstring_cong) auto
  moreover have "dest + 1 + of_nat i \<noteq> src + 1 + of_nat j" if "i \<le> length xs" "j \<le> length xs" for i j
    using Cons.prems(3) [rule_format, of "Suc i" "Suc j"] that by (simp add: ac_simps)
  ultimately obtain m' where m': "strcpy_loop (dest + 1) (src + 1) ?m = Some m'" "cstring m' (dest + 1) xs"
      "\<And>a. (\<forall>i \<le> length xs. a \<noteq> dest + 1 + of_nat i) \<Longrightarrow> m' a = ?m a"
    using Cons.IH [of ?m "src + 1" "dest + 1"] Cons.prems(1,2) by (auto simp del: fun_upd_apply)
  have "dest \<noteq> dest + 1 + of_nat i" if "i \<le> length xs" for i
  proof
    assume "dest = dest + 1 + of_nat i"
    then have "(of_nat (Suc i) :: u32) = 0" by (simp add: add.assoc)
    then have "Suc i mod 2 ^ 32 = 0" using unat_of_nat [of "Suc i", where 'a = 32] by simp
    then show False using that Cons.prems(2) by simp
  qed
  then have "m' dest = x" using m'(3) [of dest] by simp
  moreover have "m' a = m a" if "\<forall>i \<le> Suc (length xs). a \<noteq> dest + of_nat i" for a
  proof -
    have "a \<noteq> dest + 1 + of_nat i" if "i \<le> length xs" for i
      using \<open>\<forall>i \<le> Suc (length xs). a \<noteq> dest + of_nat i\<close> [rule_format, of "Suc i"] that by (simp add: ac_simps)
    then show ?thesis using m'(3) [of a] that [rule_format, of 0] by simp
  qed
  ultimately show ?case
    using Cons.prems(1) m'(1,2) by (subst strcpy_loop.simps) (intro exI [of _ m'], auto)
qed

text \<open>What \<open>strcmp\<close> computes: at the first difference it compares the characters that follow.\<close>

fun strcmp_spec :: "u8 list \<Rightarrow> u8 list \<Rightarrow> i32" where
  "strcmp_spec (x # xs) (y # ys) =
     (if x = y then strcmp_spec xs ys
      else char_minus (case xs of [] \<Rightarrow> 0 | c # _ \<Rightarrow> c) (case ys of [] \<Rightarrow> 0 | c # _ \<Rightarrow> c))"
| "strcmp_spec xs ys = char_minus (case xs of [] \<Rightarrow> 0 | c # _ \<Rightarrow> c) (case ys of [] \<Rightarrow> 0 | c # _ \<Rightarrow> c)"

lemma cstring_first: "cstring m a xs \<Longrightarrow> m a = (case xs of [] \<Rightarrow> 0 | c # _ \<Rightarrow> c)"
  by (cases xs) auto

lemma strcmp_loop_spec:
  "cstring m a xs \<Longrightarrow> cstring m b ys \<Longrightarrow> strcmp_loop m a b = Some (strcmp_spec xs ys)"
proof (induction xs arbitrary: a b ys)
  case Nil
  then show ?case by (subst strcmp_loop.simps) (auto simp: cstring_first [of m b ys])
next
  case (Cons x xs)
  then show ?case
    by (subst strcmp_loop.simps, cases ys)
       (auto simp: cstring_first [of m "a + 1" xs] cstring_first [of m "b + 1" "tl ys"])
qed

lemma char_minus_0: "char_minus x y = 0 \<longleftrightarrow> x = y"
proof
  assume "char_minus x y = 0"
  then have "sint (scast x :: i32) = sint (scast y :: i32)" by (simp add: char_minus_def)
  then have "sint x = sint y" by (simp add: sint_up_scast is_up)
  then show "x = y" by (simp add: signed_word_eqI)
qed (simp add: char_minus_def)

lemma strcmp_spec_same: "strcmp_spec xs xs = 0"
  by (induction xs) (auto simp: char_minus_0)

section \<open>Blocks of bytes\<close>

lemma memcpy_loop_copies:
  assumes "n < 4294967296" and "dst = src \<or> n \<le> unat (dst - src)"
  shows "memcpy_loop n dst src m a = (if a - dst < of_nat n then m (src + (a - dst)) else m a)"
  using assms
proof (induction n arbitrary: dst src m)
  case 0
  then show ?case by simp
next
  case (Suc n)
  have sp: "a - dst < of_nat (Suc n) \<longleftrightarrow> a = dst \<or> a - (dst + 1) < of_nat n"
    using word_less_Suc [of n "a - dst"] Suc.prems by (simp add: algebra_simps)
  have nz: "\<not> dst - (dst + 1) < of_nat n" using Suc.prems by (simp add: word_less_nat_alt unat_of_nat)
  have IH: "memcpy_loop n (dst + 1) (src + 1) (m(dst := m src)) a =
      (if a - (dst + 1) < of_nat n then (m(dst := m src)) (src + 1 + (a - (dst + 1))) else (m(dst := m src)) a)"
    using Suc.prems by (intro Suc.IH) auto
  have "src + (a - dst) \<noteq> dst" if "a - (dst + 1) < of_nat n"
  proof
    assume eq: "src + (a - dst) = dst"
    then have d: "a - dst = dst - src" by (simp add: algebra_simps)
    have ne: "a \<noteq> dst" using that nz by auto
    then have "dst \<noteq> src" using eq by auto
    then have "Suc n \<le> unat (a - dst)" using Suc.prems(2) d by simp
    moreover have "a - dst < of_nat (Suc n)" using sp that by simp
    moreover have "unat (of_nat (Suc n) :: u32) = Suc n" using Suc.prems(1) unat_of_nat [of "Suc n", where 'a = 32] by simp
    ultimately show False by (simp only: word_less_nat_alt)
  qed
  moreover have "src + 1 + (a - (dst + 1)) = src + (a - dst)" by simp
  ultimately show ?case unfolding memcpy_loop.simps IH sp using nz by auto
qed

lemma memset_loop_sets:
  assumes "n < 4294967296"
  shows "memset_loop n p c m a = (if a - p < of_nat n then c else m a)"
  using assms
proof (induction n arbitrary: p m)
  case 0
  then show ?case by simp
next
  case (Suc n)
  have sp: "a - p < of_nat (Suc n) \<longleftrightarrow> a = p \<or> a - (p + 1) < of_nat n"
    using word_less_Suc [of n "a - p"] Suc.prems by (simp add: algebra_simps)
  have nz: "\<not> p - (p + 1) < of_nat n" using Suc.prems by (simp add: word_less_nat_alt unat_of_nat)
  have "memset_loop n (p + 1) c (m(p := c)) a = (if a - (p + 1) < of_nat n then c else (m(p := c)) a)"
    using Suc.prems by (intro Suc.IH) auto
  then show ?case unfolding memset_loop.simps sp using nz by auto
qed

section \<open>Properties\<close>

text \<open>
  \<open>strcpy\<close> and \<open>strlen\<close>: between two places that do not overlap, \<open>strcpy\<close> ends, returns the destination, leaves a
  copy of the string there and changes nothing else, and \<open>strlen\<close> of the copy is the length of the string.
\<close>

theorem strcpy_strlen:
  assumes "cstring m src xs" and "length xs < 4294967295" and "\<forall>i \<le> length xs. \<forall>j \<le> length xs. dest + of_nat i \<noteq> src + of_nat j"
    and "src \<noteq> NULL" and "dest \<noteq> NULL"
  shows "\<exists>m'. strcpy dest src m = Some (dest, m') \<and> cstring m' dest xs \<and> strlen m' dest = Some (of_nat (length xs))
    \<and> (\<forall>a. (\<forall>i \<le> length xs. a \<noteq> dest + of_nat i) \<longrightarrow> m' a = m a)"
proof -
  from strcpy_loop_cstring [OF assms(1-3)] obtain m' where m': "strcpy_loop dest src m = Some m'" "cstring m' dest xs"
      "\<forall>a. (\<forall>i \<le> length xs. a \<noteq> dest + of_nat i) \<longrightarrow> m' a = m a" by blast
  moreover have "strlen m' dest = Some (of_nat (length xs))"
    using strlen_loop_cstring [OF m'(2), of 0] assms(5) by (simp add: strlen_def)
  ultimately show ?thesis using assms(4,5) by (simp add: strcpy_def)
qed

text \<open>
  C40. \<open>strcmp\<close> is no comparison: equal strings give 0, but where two strings first differ the pointers have already moved on, so the result is the
  difference of the next characters. Strings that differ in one character and then agree again are reported as equal.
\<close>

theorem strcmp_misses_difference:
  assumes "cstring m a (ps @ x # xs)" and "cstring m b (ps @ y # ys)" and "x \<noteq> y" and "a \<noteq> NULL" and "b \<noteq> NULL"
  shows "strcmp m a b = Some (char_minus (case xs of [] \<Rightarrow> 0 | c # _ \<Rightarrow> c) (case ys of [] \<Rightarrow> 0 | c # _ \<Rightarrow> c))"
proof -
  have "strcmp_spec (ps @ x # xs) (ps @ y # ys) = strcmp_spec (x # xs) (y # ys)" by (induction ps) auto
  then show ?thesis using strcmp_loop_spec [OF assms(1,2)] assms(3-5) by (simp add: strcmp_def)
qed

text \<open>
  \<open>memcpy\<close> and \<open>memset\<close>: \<open>memset\<close> sets exactly the bytes of its range, and \<open>memcpy\<close> copies exactly its range unless the destination starts inside the source. Copying
  downwards is allowed. Copying one byte upwards repeats the first byte.
\<close>

theorem memcpy_memset:
  "memset p c n m = (\<lambda>a. if a - p < n then c else m a)
   \<and> (dst = src \<or> n \<le> dst - src \<longrightarrow> memcpy dst src n m = (dst, \<lambda>a. if a - dst < n then m (src + (a - dst)) else m a))
   \<and> memcpy (src + 1) src 2 m = (src + 1, m(src + 1 := m src, src + 2 := m src))"
proof -
  have n: "unat n < 4294967296" using unsigned_less [of n] by simp
  have "memset p c n m = (\<lambda>a. if a - p < n then c else m a)"
    using n by (simp add: memset_def memset_loop_sets fun_eq_iff)
  moreover have "memcpy dst src n m = (dst, \<lambda>a. if a - dst < n then m (src + (a - dst)) else m a)" if "dst = src \<or> n \<le> dst - src"
    using that n by (simp add: memcpy_def memcpy_loop_copies fun_eq_iff word_le_nat_alt)
  moreover have "memcpy (src + 1) src 2 m = (src + 1, m(src + 1 := m src, src + 2 := m src))"
  proof -
    have "unat (2 :: u32) = Suc (Suc 0)" by simp
    then show ?thesis unfolding memcpy_def by (simp only: memcpy_loop.simps fun_upd_same) (simp add: add.assoc)
  qed
  ultimately show ?thesis by blast
qed

definition string_example :: bytes where
  "string_example = (\<lambda>_. 0)(0x100 := 0x61, 0x101 := 0x62, 0x200 := 0x63, 0x201 := 0x62)"

theorem strcpy_strlen_witness:
  "\<exists>m'. strcpy 0x300 0x100 string_example = Some (0x300, m') \<and> cstring m' 0x300 [0x61, 0x62] \<and> strlen m' 0x300 = Some 2"
proof -
  have "\<forall>i \<le> length [0x61, 0x62 :: u8]. \<forall>j \<le> length [0x61, 0x62 :: u8]. (0x300 :: u32) + of_nat i \<noteq> 0x100 + of_nat j"
  proof (intro allI impI)
    fix i j assume "i \<le> length [0x61, 0x62 :: u8]" "j \<le> length [0x61, 0x62 :: u8]"
    then have "i \<in> {0, 1, 2}" "j \<in> {0, 1, 2}" by auto
    then show "(0x300 :: u32) + of_nat i \<noteq> 0x100 + of_nat j" by auto
  qed
  then show ?thesis using strcpy_strlen [of string_example "0x100" "[0x61, 0x62]" "0x300"] by (auto simp: string_example_def)
qed

theorem strcmp_misses_difference_witness: "strcmp string_example 0x100 0x200 = Some 0"
  using strcmp_misses_difference [of string_example "0x100" "[]" "0x61" "[0x62]" "0x200" "0x63" "[0x62]"]
  by (simp add: string_example_def char_minus_0)

theorem memcpy_memset_witness:
  "memcpy 0x300 0x100 2 string_example = (0x300, \<lambda>a. if a - 0x300 < 2 then string_example (0x100 + (a - 0x300)) else string_example a)"
  using memcpy_memset [where dst = "0x300" and src = "0x100" and n = 2 and m = string_example] by simp

end
