(* ===== verification/Console.thy ===== *)
theory Console
  imports CString Descr
begin

text \<open>
  Text output: the screen of \<open>libs/VGA.c\<close> and \<open>printf\<close> of \<open>libs/stdio.c\<close>. The state is the processor (for the ports of the
  display controller), the cells of the video memory by their index from \<open>VGA_START\<close>, and the two static variables of the cursor. The variable
  arguments of \<open>printf\<close> are a list of words; taking one too many, like writing beyond the digit buffer of \<open>put_int\<close>, is the value \<open>None\<close>.
\<close>

section \<open>The screen\<close>

datatype color = black | blue | green | cyan | red | magenta | brown | light_grey | dark_grey | light_blue | light_green
  | light_cyan | light_red | light_magenta | light_brown | white

fun color_u8 :: "color \<Rightarrow> u8" where
  "color_u8 black = 0" | "color_u8 blue = 1" | "color_u8 green = 2" | "color_u8 cyan = 3" | "color_u8 red = 4"
| "color_u8 magenta = 5" | "color_u8 brown = 6" | "color_u8 light_grey = 7" | "color_u8 dark_grey = 8" | "color_u8 light_blue = 9"
| "color_u8 light_green = 10" | "color_u8 light_cyan = 11" | "color_u8 light_red = 12" | "color_u8 light_magenta = 13"
| "color_u8 light_brown = 14" | "color_u8 white = 15"

record console = cpu +
  screen :: "nat \<Rightarrow> u16"
  cursor_x :: u8
  cursor_y :: u8

definition move_cursor :: "console \<Rightarrow> console" where
  "move_cursor s =
     (let cursor = ucast (ucast (cursor_y s) * 80 + ucast (cursor_x s) :: i32) :: u16;
          s = outb 0x3D4 14 s;
          s = outb 0x3D5 (ucast (drop_bit 8 cursor)) s;
          s = outb 0x3D4 15 s
      in outb 0x3D5 (ucast cursor) s)"

definition char_mix :: "color \<Rightarrow> color \<Rightarrow> u8 \<Rightarrow> u16" where
  "char_mix back front c =
     (let back_color = color_u8 back;
          front_color = color_u8 front;
          mix = ucast (push_bit 4 (ucast back_color) OR (ucast front_color AND 0xf) :: i32) :: u16
      in ucast (push_bit 8 (ucast mix) OR scast c :: i32))"

text \<open>The three loops of \<open>scroll\<close>: \<open>n\<close> more columns of row \<open>i\<close>, \<open>n\<close> more rows, \<open>n\<close> more cells of the last row.\<close>

fun scroll_row :: "nat \<Rightarrow> nat \<Rightarrow> nat \<Rightarrow> (nat \<Rightarrow> u16) \<Rightarrow> nat \<Rightarrow> u16" where
  "scroll_row i j 0 v = v"
| "scroll_row i j (Suc n) v = scroll_row i (Suc j) n (v((i - 1) * 80 + j := v (i * 80 + j)))"

fun scroll_rows :: "nat \<Rightarrow> nat \<Rightarrow> (nat \<Rightarrow> u16) \<Rightarrow> nat \<Rightarrow> u16" where
  "scroll_rows i 0 v = v"
| "scroll_rows i (Suc n) v = scroll_rows (Suc i) n (scroll_row i 0 80 v)"

fun scroll_blank :: "nat \<Rightarrow> nat \<Rightarrow> (nat \<Rightarrow> u16) \<Rightarrow> nat \<Rightarrow> u16" where
  "scroll_blank i 0 v = v"
| "scroll_blank i (Suc n) v = scroll_blank (Suc i) n (v(24 * 80 + i := char_mix black white 0x20))"

definition scroll :: "console \<Rightarrow> console" where
  "scroll s =
     (if cursor_y s < 25 then s
      else s\<lparr>screen := scroll_blank 0 80 (scroll_rows 1 24 (screen s)), cursor_y := 24\<rparr>)"

definition show_char :: "color \<Rightarrow> color \<Rightarrow> u8 \<Rightarrow> console \<Rightarrow> console" where
  "show_char back front c s =
     (if c = 0x08 \<and> cursor_x s \<noteq> 0 then move_cursor (s\<lparr>cursor_x := cursor_x s - 1\<rparr>)
      else if c = 0x09 then move_cursor (s\<lparr>cursor_x := ucast ((ucast (cursor_x s) + 4) OR 0xFC :: i32)\<rparr>)
      else if c = 0x0A then
        let s = s\<lparr>cursor_x := 0\<rparr>;
            s = s\<lparr>cursor_y := cursor_y s + 1\<rparr>
        in move_cursor (scroll s)
      else if 0x20 \<le>s c then
        let s = s\<lparr>screen := (screen s)(unat (cursor_y s) * 80 + unat (cursor_x s) := char_mix back front c)\<rparr>;
            s = s\<lparr>cursor_x := cursor_x s + 1\<rparr>;
            s = (if 80 \<le> cursor_x s then
                   let s = s\<lparr>cursor_x := 0\<rparr>;
                       s = s\<lparr>cursor_y := cursor_y s + 1\<rparr>
                   in scroll s
                 else s)
        in move_cursor s
      else s)"

text \<open>\<open>clear_screen\<close>: \<open>n\<close> more columns of row \<open>i\<close>, \<open>n\<close> more rows.\<close>

fun clear_row :: "nat \<Rightarrow> nat \<Rightarrow> nat \<Rightarrow> u16 \<Rightarrow> (nat \<Rightarrow> u16) \<Rightarrow> nat \<Rightarrow> u16" where
  "clear_row i j 0 c v = v"
| "clear_row i j (Suc n) c v = clear_row i (Suc j) n c (v(i * 80 + j := c))"

fun clear_rows :: "nat \<Rightarrow> nat \<Rightarrow> u16 \<Rightarrow> (nat \<Rightarrow> u16) \<Rightarrow> nat \<Rightarrow> u16" where
  "clear_rows i 0 c v = v"
| "clear_rows i (Suc n) c v = clear_rows (Suc i) n c (clear_row i 0 80 c v)"

definition clear_screen :: "console \<Rightarrow> console" where
  "clear_screen s =
     (let c = char_mix black white 0x20;
          s = s\<lparr>screen := clear_rows 0 25 c (screen s)\<rparr>;
          s = s\<lparr>cursor_x := 0, cursor_y := 0\<rparr>
      in move_cursor s)"

section \<open>Formatted output\<close>

definition putc :: "u8 \<Rightarrow> console \<Rightarrow> console" where
  "putc c s = show_char black white c s"

partial_function (option) put_raw_string :: "bytes \<Rightarrow> u32 \<Rightarrow> console \<Rightarrow> console option" where
  "put_raw_string m c s =
     (if m c \<noteq> 0 then put_raw_string m (c + 1) (show_char black white (m c) s) else Some s)"

text \<open>\<open>put_raw_string\<close> of a string literal or a local buffer, by its characters.\<close>

definition put_chars :: "u8 list \<Rightarrow> console \<Rightarrow> console" where
  "put_chars cs s = fold (show_char black white) cs s"

definition digit_table :: "u8 list" where
  "digit_table = [0x30, 0x31, 0x32, 0x33, 0x34, 0x35, 0x36, 0x37, 0x38, 0x39, 0x61, 0x62, 0x63, 0x64, 0x65, 0x66]"

text \<open>\<open>buf\<close> is the part of the 11 bytes that has been written, so \<open>cnt\<close> is its length.\<close>

partial_function (option) put_int_digits :: "u32 \<Rightarrow> u32 \<Rightarrow> u8 list \<Rightarrow> u8 list option" where
  "put_int_digits num base buf =
     (if num \<noteq> 0 then
        if base = 0 \<or> 16 \<le> num mod base \<or> 11 \<le> length buf then None
        else put_int_digits (num div base) base (buf @ [digit_table ! unat (num mod base)])
      else Some buf)"

fun put_int_swap :: "nat \<Rightarrow> nat \<Rightarrow> u8 list \<Rightarrow> u8 list" where
  "put_int_swap i 0 buf = buf"
| "put_int_swap i (Suc n) buf =
     (let tmp = buf ! i;
          buf = buf[i := buf ! (length buf - 1 - i)];
          buf = buf[length buf - 1 - i := tmp]
      in put_int_swap (Suc i) n buf)"

definition put_int :: "u32 \<Rightarrow> u32 \<Rightarrow> console \<Rightarrow> console option" where
  "put_int num base s =
     do {
       buf \<leftarrow> put_int_digits num base (if num = 0 then [digit_table ! 0] else []);
       let cnt = length buf;
           buf = put_int_swap 0 ((cnt - 1) div 2 + 1) buf
       in if 11 \<le> cnt then None
          else
            let s = (if base = 16 then put_chars [0x30, 0x78] s else s);
                s = (if base = 8 then put_chars [0x30] s else s)
            in Some (put_chars buf s)
     }"

definition va_arg :: "u32 list \<Rightarrow> (u32 \<times> u32 list) option" where
  "va_arg ap = (case ap of [] \<Rightarrow> None | a # ap \<Rightarrow> Some (a, ap))"

text \<open>One conversion; an unknown one prints nothing and takes no argument.\<close>

definition printf_conv :: "bytes \<Rightarrow> u8 \<Rightarrow> u32 list \<Rightarrow> console \<Rightarrow> (u32 list \<times> console) option" where
  "printf_conv m c ap s =
     (if c = 0x63 then do { (a, ap) \<leftarrow> va_arg ap; Some (ap, putc (ucast a) s) }
      else if c = 0x73 then do { (a, ap) \<leftarrow> va_arg ap; s \<leftarrow> put_raw_string m a s; Some (ap, s) }
      else if c = 0x64 then do { (a, ap) \<leftarrow> va_arg ap; s \<leftarrow> put_int a 10 s; Some (ap, s) }
      else if c = 0x78 then do { (a, ap) \<leftarrow> va_arg ap; s \<leftarrow> put_int a 16 s; Some (ap, s) }
      else if c = 0x6F then do { (a, ap) \<leftarrow> va_arg ap; s \<leftarrow> put_int a 8 s; Some (ap, s) }
      else Some (ap, s))"

partial_function (option) printf_loop :: "bytes \<Rightarrow> u32 \<Rightarrow> u32 list \<Rightarrow> console \<Rightarrow> console option" where
  "printf_loop m ptr ap s =
     (if m ptr = 0 then Some s
      else if m ptr \<noteq> 0x25 then printf_loop m (ptr + 1) ap (putc (m ptr) s)
      else do {
        (ap, s) \<leftarrow> printf_conv m (m (ptr + 1)) ap s;
        printf_loop m (ptr + 1 + 1) ap s
      })"

definition printf :: "bytes \<Rightarrow> u32 \<Rightarrow> u32 list \<Rightarrow> console \<Rightarrow> console option" where
  "printf m fmt ap s = printf_loop m fmt ap s"

section \<open>The screen as a terminal\<close>

text \<open>The abstract terminal: 25 rows of 80 cells and a position.\<close>

record terminal =
  t_rows :: "u16 list list"
  t_y :: nat
  t_x :: nat

definition term_of :: "console \<Rightarrow> terminal" where
  "term_of s = \<lparr>t_rows = map (\<lambda>r. map (\<lambda>c. screen s (r * 80 + c)) [0..<80]) [0..<25], t_y = unat (cursor_y s), t_x = unat (cursor_x s)\<rparr>"

definition term_newline :: "terminal \<Rightarrow> terminal" where
  "term_newline t =
     (if t_y t = 24 then t\<lparr>t_rows := tl (t_rows t) @ [replicate 80 (char_mix black white 0x20)], t_x := 0\<rparr>
      else t\<lparr>t_y := t_y t + 1, t_x := 0\<rparr>)"

definition term_put :: "u16 \<Rightarrow> terminal \<Rightarrow> terminal" where
  "term_put cell t =
     (let t = t\<lparr>t_rows := (t_rows t)[t_y t := (t_rows t ! t_y t)[t_x t := cell]]\<rparr>
      in if t_x t = 79 then term_newline t else t\<lparr>t_x := t_x t + 1\<rparr>)"

definition term_char :: "color \<Rightarrow> color \<Rightarrow> u8 \<Rightarrow> terminal \<Rightarrow> terminal" where
  "term_char back front c t =
     (if c = 0x08 then t\<lparr>t_x := t_x t - 1\<rparr>
      else if c = 0x0A then term_newline t
      else if 0x20 \<le>s c then term_put (char_mix back front c) t
      else t)"

definition on_screen :: "console \<Rightarrow> bool" where
  "on_screen s \<longleftrightarrow> cursor_x s < 80 \<and> cursor_y s < 25"

lemma scroll_row_cell:
  "0 < i \<Longrightarrow> scroll_row i j n v k = (if (i - 1) * 80 + j \<le> k \<and> k < (i - 1) * 80 + j + n then v (k + 80) else v k)"
proof (induction n arbitrary: j v)
  case (Suc n)
  obtain i' where "i = Suc i'" using Suc.prems by (cases i) auto
  with Suc show ?case by (cases "k = i' * 80 + j") (auto simp: ac_simps)
qed auto

lemma scroll_rows_cell:
  "0 < i \<Longrightarrow> scroll_rows i n v k = (if (i - 1) * 80 \<le> k \<and> k < (i - 1 + n) * 80 then v (k + 80) else v k)"
proof (induction n arbitrary: i v)
  case (Suc n)
  obtain i' where "i = Suc i'" using Suc.prems by (cases i) auto
  moreover have "scroll_rows (Suc i) n (scroll_row i 0 80 v) k =
      (if (Suc i - 1) * 80 \<le> k \<and> k < (Suc i - 1 + n) * 80 then scroll_row i 0 80 v (k + 80) else scroll_row i 0 80 v k)"
    by (rule Suc.IH) simp
  ultimately show ?case by (auto simp: scroll_row_cell)
qed auto

lemma scroll_blank_cell:
  "scroll_blank i n v k = (if 24 * 80 + i \<le> k \<and> k < 24 * 80 + i + n then char_mix black white 0x20 else v k)"
  by (induction n arbitrary: i v) auto

lemma clear_row_cell: "clear_row i j n c v k = (if i * 80 + j \<le> k \<and> k < i * 80 + j + n then c else v k)"
  by (induction n arbitrary: j v) auto

lemma clear_rows_cell: "clear_rows i n c v k = (if i * 80 \<le> k \<and> k < (i + n) * 80 then c else v k)"
  by (induction n arbitrary: i v) (auto simp: clear_row_cell)

lemma move_cursor_fields [simp]:
  "screen (move_cursor s) = screen s" "cursor_x (move_cursor s) = cursor_x s" "cursor_y (move_cursor s) = cursor_y s"
  by (simp_all add: move_cursor_def Let_def outb_def)

lemma move_cursor_terminal [simp]: "term_of (move_cursor s) = term_of s" "on_screen (move_cursor s) = on_screen s"
  by (simp_all add: term_of_def on_screen_def)

text \<open>A screen in which the rows from the second on moved up and the last one is blank.\<close>

lemma rows_scrolled:
  assumes "\<And>k. k < 1920 \<Longrightarrow> v' k = v (k + 80)" and "\<And>k. 1920 \<le> k \<Longrightarrow> k < 2000 \<Longrightarrow> v' k = b"
  shows "map (\<lambda>r. map (\<lambda>c. v' (r * 80 + c)) [0..<80]) [0..<25] =
    tl (map (\<lambda>r. map (\<lambda>c. v (r * 80 + c)) [0..<80]) [0..<25]) @ [replicate 80 b]"
proof (rule nth_equalityI)
  fix i assume i: "i < length (map (\<lambda>r. map (\<lambda>c. v' (r * 80 + c)) [0..<80]) [0..<25])"
  let ?r = "\<lambda>v. map (\<lambda>r. map (\<lambda>c. v (r * 80 + c)) [0..<80]) [0..<25 :: nat]"
  have "?r v' ! i = map (\<lambda>c. v' (i * 80 + c)) [0..<80]" using i by simp
  also have "\<dots> = (tl (?r v) @ [replicate 80 b]) ! i"
  proof (cases "i < 24")
    case True
    then have "map (\<lambda>c. v' (i * 80 + c)) [0..<80] = map (\<lambda>c. v (Suc i * 80 + c)) [0..<80]"
      using assms(1) by (simp add: ac_simps)
    then show ?thesis using True by (simp add: nth_append nth_tl)
  next
    case False
    then have "i = 24" using i by simp
    moreover have "map (\<lambda>c. v' (24 * 80 + c)) [0..<80] = replicate 80 b"
      using assms(2) by (intro nth_equalityI) auto
    ultimately show ?thesis by (simp add: nth_append)
  qed
  finally show "?r v' ! i = (tl (?r v) @ [replicate 80 b]) ! i" .
qed simp

lemma newline_terminal:
  assumes "cursor_y s < 25"
  defines "s' \<equiv> scroll (s\<lparr>cursor_x := 0, cursor_y := cursor_y s + 1\<rparr>)"
  shows "term_of s' = term_newline (term_of s)" and "on_screen s'" and "2000 \<le> k \<Longrightarrow> screen s' k = screen s k"
proof -
  have y: "unat (cursor_y s + 1) = unat (cursor_y s) + 1" using assms(1) by (simp add: word_less_nat_alt unat_word_ariths)
  show "on_screen s'" using assms(1) y by (auto simp: s'_def on_screen_def scroll_def word_less_nat_alt)
  show "2000 \<le> k \<Longrightarrow> screen s' k = screen s k"
    by (simp add: s'_def scroll_def scroll_blank_cell scroll_rows_cell)
  show "term_of s' = term_newline (term_of s)"
  proof (cases "cursor_y s = 24")
    case True
    then have "s' = s\<lparr>cursor_x := 0, cursor_y := 24, screen := scroll_blank 0 80 (scroll_rows 1 24 (screen s))\<rparr>"
      by (simp add: s'_def scroll_def)
    moreover have "map (\<lambda>r. map (\<lambda>c. scroll_blank 0 80 (scroll_rows 1 24 (screen s)) (r * 80 + c)) [0..<80]) [0..<25] =
      tl (map (\<lambda>r. map (\<lambda>c. screen s (r * 80 + c)) [0..<80]) [0..<25]) @ [replicate 80 (char_mix black white 0x20)]"
      by (rule rows_scrolled) (simp_all add: scroll_blank_cell scroll_rows_cell)
    ultimately show ?thesis using True by (simp add: term_of_def term_newline_def del: upt_rec_numeral)
  next
    case False
    then have "cursor_y s + 1 < 25" "unat (cursor_y s) \<noteq> 24"
      using assms(1) y by (auto simp: word_less_nat_alt word_unat_eq_iff)
    then show ?thesis using y by (simp add: s'_def scroll_def term_of_def term_newline_def)
  qed
qed

lemma rows_put:
  assumes "y < 25" and "x < 80"
  shows "map (\<lambda>r. map (\<lambda>c. (v(y * 80 + x := a)) (r * 80 + c)) [0..<80]) [0..<25] =
    (map (\<lambda>r. map (\<lambda>c. v (r * 80 + c)) [0..<80]) [0..<25])[y := (map (\<lambda>r. map (\<lambda>c. v (r * 80 + c)) [0..<80]) [0..<25] ! y)[x := a]]"
proof (rule nth_equalityI)
  fix i assume "i < length (map (\<lambda>r. map (\<lambda>c. (v(y * 80 + x := a)) (r * 80 + c)) [0..<80]) [0..<25])"
  then have i: "i < 25" by simp
  have cell: "r * 80 + c = y * 80 + x \<longleftrightarrow> r = y \<and> c = x" if "c < 80" for r c
  proof
    assume eq: "r * 80 + c = y * 80 + x"
    then have "(r * 80 + c) div 80 = (y * 80 + x) div 80" by simp
    moreover have "(r * 80 + c) div 80 = r" "(y * 80 + x) div 80 = y" using that assms(2) by simp_all
    ultimately show "r = y \<and> c = x" using eq by simp
  qed simp
  have "map (\<lambda>c. (v(y * 80 + x := a)) (i * 80 + c)) [0..<80] =
    (if i = y then (map (\<lambda>c. v (y * 80 + c)) [0..<80])[x := a] else map (\<lambda>c. v (i * 80 + c)) [0..<80])"
    by (rule nth_equalityI) (auto simp: cell nth_list_update assms(2))
  then show "map (\<lambda>r. map (\<lambda>c. (v(y * 80 + x := a)) (r * 80 + c)) [0..<80]) [0..<25] ! i =
    (map (\<lambda>r. map (\<lambda>c. v (r * 80 + c)) [0..<80]) [0..<25])[y := (map (\<lambda>r. map (\<lambda>c. v (r * 80 + c)) [0..<80]) [0..<25] ! y)[x := a]] ! i"
    using i assms(1) by (simp add: nth_list_update del: fun_upd_apply)
qed simp

lemma put_terminal:
  assumes "on_screen s" and "0x20 \<le>s c"
  shows "term_of (show_char b f c s) = term_put (char_mix b f c) (term_of s)" and "on_screen (show_char b f c s)"
    and "2000 \<le> k \<Longrightarrow> screen (show_char b f c s) k = screen s k"
proof -
  define s1 where "s1 = s\<lparr>screen := (screen s)(unat (cursor_y s) * 80 + unat (cursor_x s) := char_mix b f c)\<rparr>"
  have xy: "unat (cursor_x s) < 80" "unat (cursor_y s) < 25" "cursor_y s1 < 25" "cursor_x s1 = cursor_x s" "cursor_y s1 = cursor_y s"
    using assms(1) by (simp_all add: on_screen_def word_less_nat_alt s1_def)
  have x1: "unat (cursor_x s + 1) = unat (cursor_x s) + 1" using xy(1) by (simp add: unat_word_ariths)
  have c: "c \<noteq> 0x08" "c \<noteq> 0x09" "c \<noteq> 0x0A" using assms(2) by (auto simp: word_sle_eq)
  have t1: "term_of s1 = (term_of s)\<lparr>t_rows := (t_rows (term_of s))[t_y (term_of s) := (t_rows (term_of s) ! t_y (term_of s))[t_x (term_of s) := char_mix b f c]]\<rparr>"
    using rows_put [OF xy(2,1), of "screen s" "char_mix b f c"] by (simp add: s1_def term_of_def del: upt_rec_numeral fun_upd_apply)
  have k1: "2000 \<le> k \<Longrightarrow> screen s1 k = screen s k" using xy by (simp add: s1_def)
  have sc: "show_char b f c s = move_cursor (if 80 \<le> cursor_x s + 1 then scroll (s1\<lparr>cursor_x := 0, cursor_y := cursor_y s1 + 1\<rparr>)
      else s1\<lparr>cursor_x := cursor_x s + 1\<rparr>)"
    using assms(2) c by (simp add: show_char_def s1_def Let_def)
  have tp: "term_put (char_mix b f c) (term_of s) = (if unat (cursor_x s) = 79 then term_newline (term_of s1) else (term_of s1)\<lparr>t_x := unat (cursor_x s) + 1\<rparr>)"
    unfolding term_put_def Let_def t1 [symmetric] by (simp add: term_of_def xy(4))
  note nl = newline_terminal [OF xy(3)]
  show "term_of (show_char b f c s) = term_put (char_mix b f c) (term_of s)"
    using nl(1) x1 xy(1) unfolding sc tp by (simp add: word_le_nat_alt) (simp add: term_of_def)
  show "on_screen (show_char b f c s)"
    using nl(2) x1 xy unfolding sc by (simp add: word_le_nat_alt) (simp add: on_screen_def word_less_nat_alt)
  show "2000 \<le> k \<Longrightarrow> screen (show_char b f c s) k = screen s k"
    using nl(3) [of k] k1 unfolding sc by simp
qed

lemma show_char_refines:
  assumes "on_screen s" and "c \<noteq> 0x09"
  shows "term_of (show_char b f c s) = term_char b f c (term_of s)" and "on_screen (show_char b f c s)"
    and "2000 \<le> k \<Longrightarrow> screen (show_char b f c s) k = screen s k"
proof -
  have y: "cursor_y s < 25" using assms(1) by (simp add: on_screen_def)
  note nl = newline_terminal [OF y]
  have "(term_of (show_char b f c s) = term_char b f c (term_of s) \<and> on_screen (show_char b f c s)) \<and> (2000 \<le> k \<longrightarrow> screen (show_char b f c s) k = screen s k)"
  proof (cases "c = 0x08 \<or> c = 0x0A \<or> \<not> 0x20 \<le>s c")
    case True
    have dec: "cursor_x s \<noteq> 0 \<Longrightarrow> unat (cursor_x s - 1) = unat (cursor_x s) - 1" by unat_arith
    have "show_char b f 0x08 s = (if cursor_x s = 0 then s else move_cursor (s\<lparr>cursor_x := cursor_x s - 1\<rparr>))"
      by (simp add: show_char_def word_sle_eq)
    moreover have "term_of (s\<lparr>cursor_x := cursor_x s - 1\<rparr>) = (term_of s)\<lparr>t_x := unat (cursor_x s) - 1\<rparr>" if "cursor_x s \<noteq> 0"
      using dec [OF that] by (simp add: term_of_def)
    moreover have "on_screen (s\<lparr>cursor_x := cursor_x s - 1\<rparr>)" if "cursor_x s \<noteq> 0"
      using assms(1) dec [OF that] by (auto simp: on_screen_def word_less_nat_alt)
    moreover have "show_char b f 0x0A s = move_cursor (scroll (s\<lparr>cursor_x := 0, cursor_y := cursor_y s + 1\<rparr>))"
      by (simp add: show_char_def Let_def)
    moreover have "show_char b f c s = s" if "c \<noteq> 0x08" "c \<noteq> 0x0A" "\<not> 0x20 \<le>s c"
      using that assms(2) by (simp add: show_char_def)
    moreover have "t_x (term_of s) = unat (cursor_x s)" by (simp add: term_of_def)
    moreover have "(term_of s)\<lparr>t_x := 0\<rparr> = term_of s" if "cursor_x s = 0" using that by (simp add: term_of_def)
    ultimately show ?thesis using True nl assms(1) by (auto simp: term_char_def)
  next
    case False
    then show ?thesis using put_terminal [OF assms(1), of c] by (auto simp: term_char_def)
  qed
  then show "term_of (show_char b f c s) = term_char b f c (term_of s)" "on_screen (show_char b f c s)"
    "2000 \<le> k \<Longrightarrow> screen (show_char b f c s) k = screen s k" by auto
qed

lemma put_chars_refines:
  assumes "on_screen s" and "0x09 \<notin> set cs"
  shows "term_of (put_chars cs s) = fold (term_char black white) cs (term_of s) \<and> on_screen (put_chars cs s)
    \<and> (\<forall>k \<ge> 2000. screen (put_chars cs s) k = screen s k)"
  using assms
proof (induction cs arbitrary: s)
  case Nil
  then show ?case by (simp add: put_chars_def)
next
  case (Cons c cs)
  note f = show_char_refines [OF Cons.prems(1), of c]
  have "c \<noteq> 0x09" using Cons.prems(2) by auto
  with Cons.IH [of "show_char black white c s"] f Cons.prems(2) show ?case by (auto simp: put_chars_def)
qed

section \<open>Numbers\<close>

text \<open>The digits of a number, most significant first.\<close>

fun num_digits :: "nat \<Rightarrow> nat \<Rightarrow> nat list" where
  "num_digits b n = (if n < b \<or> b < 2 then [n] else num_digits b (n div b) @ [n mod b])"

declare num_digits.simps [simp del]

definition num_text :: "u32 \<Rightarrow> u32 \<Rightarrow> u8 list" where
  "num_text base num = (if base = 16 then [0x30, 0x78] else if base = 8 then [0x30] else [])
     @ map (\<lambda>d. digit_table ! d) (num_digits (unat base) (unat num))"

lemma num_digits_value: "2 \<le> b \<Longrightarrow> foldl (\<lambda>a d. a * b + d) 0 (num_digits b n) = n"
proof (induction b n rule: num_digits.induct)
  case (1 b n)
  then show ?case by (subst num_digits.simps) auto
qed

lemma num_digits_nonempty: "num_digits b n \<noteq> []"
  by (subst num_digits.simps) auto

lemma num_digits_length:
  assumes "2 \<le> b"
  shows "length (num_digits b n) \<le> Suc k \<longleftrightarrow> n < b ^ Suc k"
proof (induction k arbitrary: n)
  case 0
  have "0 < length (num_digits b (n div b))" using num_digits_nonempty by simp
  then show ?case using assms by (subst num_digits.simps) auto
next
  case (Suc k)
  have "n div b < b ^ Suc k \<longleftrightarrow> n < b ^ Suc k * b" using assms by (simp add: div_less_iff_less_mult)
  then have step: "length (num_digits b (n div b)) \<le> Suc k \<longleftrightarrow> n < b ^ Suc (Suc k)" using Suc.IH [of "n div b"] by (simp add: mult.commute)
  show ?case
  proof (cases "n < b")
    case True
    moreover have "b \<le> b ^ Suc (Suc k)" using assms by (intro self_le_power) auto
    ultimately have "n < b ^ Suc (Suc k)" by linarith
    then show ?thesis using True by (subst num_digits.simps) auto
  next
    case False
    then show ?thesis using assms step by (subst num_digits.simps) auto
  qed
qed

lemma put_int_digits_eq:
  assumes "2 \<le> unat base" and "unat base \<le> 16" and "num \<noteq> 0"
    and "length buf + length (num_digits (unat base) (unat num)) \<le> 11"
  shows "put_int_digits num base buf = Some (buf @ rev (map (\<lambda>d. digit_table ! d) (num_digits (unat base) (unat num))))"
  using assms
proof (induction "unat num" arbitrary: num buf rule: less_induct)
  case less
  let ?b = "unat base" and ?n = "unat num"
  have n0: "?n \<noteq> 0" using less.prems(3) by (simp add: unat_eq_zero)
  have b0: "base \<noteq> 0" using less.prems(1) by auto
  have m: "unat (num mod base) = ?n mod ?b" "unat (num div base) = ?n div ?b" by (simp_all add: unat_mod unat_div)
  have m16: "\<not> 16 \<le> num mod base"
  proof -
    have "?n mod ?b < ?b" using less.prems(1) by simp
    then have "unat (num mod base) < 16" using less.prems(2) m(1) by linarith
    then show ?thesis by (simp add: word_le_nat_alt)
  qed
  have len: "\<not> 11 \<le> length buf" using less.prems(4) num_digits_nonempty [of ?b ?n] by (cases "num_digits ?b ?n") auto
  show ?case
  proof (cases "?n < ?b")
    case True
    then have "num div base = 0" using m(2) by (simp add: unat_eq_zero [symmetric])
    moreover have "num_digits ?b ?n = [?n]" using True by (subst num_digits.simps) simp
    ultimately show ?thesis
      using less.prems(3) b0 m16 len m(1) True
      by (subst put_int_digits.simps) (simp, subst put_int_digits.simps, simp)
  next
    case False
    then have d: "num_digits ?b ?n = num_digits ?b (?n div ?b) @ [?n mod ?b]" using less.prems(1) by (subst num_digits.simps) simp
    have "?n div ?b \<noteq> 0" using False less.prems(1) by (simp add: div_eq_0_iff)
    then have q0: "num div base \<noteq> 0" using m(2) by (auto simp: unat_eq_zero [symmetric])
    have lt: "unat (num div base) < ?n" using n0 less.prems(1) m(2) by simp
    have "put_int_digits (num div base) base (buf @ [digit_table ! (?n mod ?b)]) =
        Some ((buf @ [digit_table ! (?n mod ?b)]) @ rev (map (\<lambda>d. digit_table ! d) (num_digits ?b (unat (num div base)))))"
      using less.prems by (intro less.hyps [OF lt] q0) (simp_all add: m d)
    then show ?thesis
      using less.prems(3) b0 m16 len by (subst put_int_digits.simps) (simp add: m d)
  qed
qed

lemma put_int_swap_nth:
  assumes "k < length buf" and "i + n \<le> (length buf - 1) div 2 + 1"
  shows "length (put_int_swap i n buf) = length buf \<and> put_int_swap i n buf ! k =
    (if i \<le> min k (length buf - 1 - k) \<and> min k (length buf - 1 - k) < i + n then buf ! (length buf - 1 - k) else buf ! k)"
  using assms
proof (induction n arbitrary: i buf)
  case 0
  then show ?case by auto
next
  case (Suc n)
  let ?L = "length buf"
  define buf' where "buf' = buf[i := buf ! (?L - 1 - i), ?L - 1 - i := buf ! i]"
  have L: "length buf' = ?L" by (simp add: buf'_def)
  have i: "i < ?L" using Suc.prems by auto
  have nth: "buf' ! j = (if j = i \<or> j = ?L - 1 - i then buf ! (?L - 1 - j) else buf ! j)" if "j < ?L" for j
    using that i by (auto simp: buf'_def nth_list_update)
  have st: "put_int_swap i (Suc n) buf = put_int_swap (Suc i) n buf'" by (simp add: buf'_def Let_def)
  have IH: "length (put_int_swap (Suc i) n buf') = length buf' \<and> put_int_swap (Suc i) n buf' ! k =
    (if Suc i \<le> min k (length buf' - 1 - k) \<and> min k (length buf' - 1 - k) < Suc i + n then buf' ! (length buf' - 1 - k) else buf' ! k)"
    by (rule Suc.IH) (use Suc.prems L in auto)
  have k': "?L - 1 - k < ?L" using Suc.prems(1) by simp
  have "i + i \<le> ?L - 1" using Suc.prems(2) by linarith
  then have mi: "min k (?L - 1 - k) = i \<longleftrightarrow> k = i \<or> k = ?L - 1 - i" "?L - 1 - k = i \<or> ?L - 1 - k = ?L - 1 - i \<longleftrightarrow> k = i \<or> k = ?L - 1 - i"
    using Suc.prems(1) by (auto simp: min_def)
  have rng: "i \<le> x \<and> x < i + Suc n \<longleftrightarrow> x = i \<or> Suc i \<le> x \<and> x < Suc i + n" for x by auto
  show ?case
  proof (cases "k = i \<or> k = ?L - 1 - i")
    case True
    then have "min k (?L - 1 - k) = i" using mi(1) by blast
    then show ?thesis unfolding st rng using IH L nth [OF Suc.prems(1)] True by simp
  next
    case False
    then have "min k (?L - 1 - k) \<noteq> i" "buf' ! k = buf ! k" "buf' ! (?L - 1 - k) = buf ! (?L - 1 - k)"
      using mi nth [OF Suc.prems(1)] nth [OF k'] by (blast, simp, metis)
    then show ?thesis unfolding st rng using IH L by simp
  qed
qed

lemma put_int_swap_rev: "buf \<noteq> [] \<Longrightarrow> put_int_swap 0 ((length buf - 1) div 2 + 1) buf = rev buf"
proof (rule nth_equalityI)
  assume "buf \<noteq> []"
  note sw = put_int_swap_nth [of _ buf 0 "(length buf - 1) div 2 + 1"]
  show "length (put_int_swap 0 ((length buf - 1) div 2 + 1) buf) = length (rev buf)" using sw [of 0] \<open>buf \<noteq> []\<close> by simp
  fix k assume "k < length (put_int_swap 0 ((length buf - 1) div 2 + 1) buf)"
  then have k: "k < length buf" using sw [of 0] \<open>buf \<noteq> []\<close> by simp
  then show "put_int_swap 0 ((length buf - 1) div 2 + 1) buf ! k = rev buf ! k"
    using sw [OF k] by (auto simp: rev_nth min_def)
qed

lemma put_int_text:
  assumes "base \<in> {8, 10, 16}"
  shows "put_int num base s = (if base = 8 \<and> 0x40000000 \<le> num then None else Some (put_chars (num_text base num) s))"
proof -
  let ?ds = "num_digits (unat base) (unat num)"
  have b: "2 \<le> unat base" "unat base \<le> 16" using assms by auto
  have n: "unat num < 4294967296" using unsigned_less [of num] by simp
  have len: "length ?ds \<le> 11" "length ?ds \<le> 10 \<longleftrightarrow> \<not> (base = 8 \<and> 0x40000000 \<le> num)"
    using assms n num_digits_length [OF b(1), of "unat num" 10] num_digits_length [OF b(1), of "unat num" 9]
    by (auto simp: word_le_nat_alt)
  have buf: "put_int_digits num base (if num = 0 then [digit_table ! 0] else []) = Some (rev (map (\<lambda>d. digit_table ! d) ?ds))"
  proof (cases "num = 0")
    case True
    then have "?ds = [0]" using b by (subst num_digits.simps) simp
    then show ?thesis using True by (subst put_int_digits.simps) simp
  next
    case False
    then show ?thesis using put_int_digits_eq [OF b, of num "[]"] len(1) by simp
  qed
  define buf where "buf = rev (map (\<lambda>d. digit_table ! d) ?ds)"
  have bl: "length buf = length ?ds" "rev buf = map (\<lambda>d. digit_table ! d) ?ds" "buf \<noteq> []"
    using num_digits_nonempty by (simp_all add: buf_def)
  have "put_int num base s = (if 11 \<le> length ?ds then None else Some (put_chars (num_text base num) s))"
    unfolding put_int_def buf [folded buf_def] using put_int_swap_rev [OF bl(3)] assms
    by (auto simp: Let_def bl(1,2) num_text_def put_chars_def)
  then show ?thesis using len(2) by auto
qed

section \<open>Formats\<close>

text \<open>The text that a format stands for; \<open>str\<close> gives the strings that the arguments of \<open>%s\<close> point to.\<close>

definition conv_text :: "(u32 \<Rightarrow> u8 list option) \<Rightarrow> u8 \<Rightarrow> u32 list \<Rightarrow> (u8 list \<times> u32 list) option" where
  "conv_text str d ap =
     (if d \<in> {0x63, 0x73, 0x64, 0x78, 0x6F} then
        case ap of
          [] \<Rightarrow> None
        | a # ap \<Rightarrow>
            if d = 0x63 then Some ([ucast a], ap)
            else if d = 0x73 then map_option (\<lambda>t. (t, ap)) (str a)
            else if d = 0x64 then Some (num_text 10 a, ap)
            else if d = 0x78 then Some (num_text 16 a, ap)
            else if a < 0x40000000 then Some (num_text 8 a, ap) else None
      else Some ([], ap))"

fun format_text :: "(u32 \<Rightarrow> u8 list option) \<Rightarrow> u8 list \<Rightarrow> u32 list \<Rightarrow> u8 list option" where
  "format_text str [] ap = Some []"
| "format_text str [c] ap = (if c = 0x25 then None else Some [c])"
| "format_text str (c # d # cs) ap =
     (if c \<noteq> 0x25 then map_option (Cons c) (format_text str (d # cs) ap)
      else case conv_text str d ap of
             None \<Rightarrow> None
           | Some (t, ap) \<Rightarrow> map_option (append t) (format_text str cs ap))"

lemma put_chars_append: "put_chars (xs @ ys) s = put_chars ys (put_chars xs s)"
  by (simp add: put_chars_def)

lemma put_raw_string_cstring: "cstring m a xs \<Longrightarrow> put_raw_string m a s = Some (put_chars xs s)"
  by (induction xs arbitrary: a s) (subst put_raw_string.simps, simp add: put_chars_def)+

lemma printf_conv_text:
  assumes "\<And>p xs. str p = Some xs \<Longrightarrow> cstring m p xs" and "conv_text str d ap = Some (t, ap')"
  shows "printf_conv m d ap s = Some (ap', put_chars t s)"
proof (cases ap)
  case Nil
  then show ?thesis using assms(2) by (auto simp: conv_text_def printf_conv_def put_chars_def split: if_splits)
next
  case (Cons a as)
  have n: "put_int a 10 s = Some (put_chars (num_text 10 a) s)" "put_int a 16 s = Some (put_chars (num_text 16 a) s)"
    "a < 0x40000000 \<Longrightarrow> put_int a 8 s = Some (put_chars (num_text 8 a) s)"
    by (simp_all add: put_int_text)
  show ?thesis
    using assms(2) Cons put_raw_string_cstring [OF assms(1)]
    by (auto simp: conv_text_def printf_conv_def va_arg_def putc_def put_chars_def n [unfolded put_chars_def] split: if_splits)
qed

lemma printf_loop_text:
  "\<forall>p xs. str p = Some xs \<longrightarrow> cstring m p xs \<Longrightarrow> cstring m a f \<Longrightarrow> format_text str f ap = Some out
    \<Longrightarrow> printf_loop m a ap s = Some (put_chars out s)"
proof (induction str f ap arbitrary: a out s rule: format_text.induct)
  case (1 str ap)
  then show ?case by (subst printf_loop.simps) (simp add: put_chars_def)
next
  case (2 str c ap)
  then show ?case by (subst printf_loop.simps) (auto simp: put_chars_def putc_def printf_loop.simps [of _ "a + 1"] split: if_splits)
next
  case (3 str c d cs ap)
  show ?case
  proof (cases "c = 0x25")
    case False
    then obtain o' where o': "format_text str (d # cs) ap = Some o'" "out = c # o'" using "3.prems"(3) by auto
    have "printf_loop m (a + 1) ap (putc c s) = Some (put_chars o' (putc c s))"
      using "3.prems"(2) by (intro "3.IH"(1) [OF False "3.prems"(1) _ o'(1)]) simp
    then show ?thesis using False "3.prems"(2) o'(2) by (subst printf_loop.simps) (simp add: put_chars_def putc_def)
  next
    case True
    then obtain t ap' o' where o': "conv_text str d ap = Some (t, ap')" "format_text str cs ap' = Some o'" "out = t @ o'"
      using "3.prems"(3) by (auto split: option.splits)
    have "printf_loop m (a + 1 + 1) ap' (put_chars t s) = Some (put_chars o' (put_chars t s))"
      using "3.prems"(2) True o'(1) by (intro "3.IH"(2) [OF _ o'(1) refl "3.prems"(1) _ o'(2)]) auto
    moreover have "printf_conv m d ap s = Some (ap', put_chars t s)" using printf_conv_text [OF _ o'(1)] "3.prems"(1) by blast
    ultimately show ?thesis
      using True "3.prems"(2) o'(3) by (subst printf_loop.simps) (simp add: put_chars_append)
  qed
qed

lemma tab_column: "unat (ucast ((ucast (x :: u8) + 4) OR 0xFC :: i32) :: u8) = 252 + unat x mod 4"
proof -
  define z where "z = (ucast x + 4 :: i32)"
  have y: "ucast z = x + 4"
  proof -
    have "unat x < 256" using unsigned_less [of x] by simp
    then have "unat z = unat x + 4" by (simp add: z_def unat_word_ariths unsigned_ucast_eq take_bit_eq_mod)
    then show ?thesis by (simp add: word_unat_eq_iff unsigned_ucast_eq take_bit_eq_mod unat_word_ariths)
  qed
  have "ucast (z OR 0xFC) = (x + 4) OR (0xFC :: u8)"
    unfolding y [symmetric] by (rule bit_word_eqI) (simp add: bit_simps)
  also have "\<dots> = ((x + 4) AND mask 2) + 0xFC"
  proof -
    have fc: "(0xFC :: u8) = NOT (mask 2)" by (simp add: mask_eq_exp_minus_1)
    have "(x + 4) OR 0xFC = ((x + 4) AND mask 2) OR 0xFC" and "((x + 4) AND mask 2) AND 0xFC = 0"
      unfolding fc by (auto intro!: bit_word_eqI simp: bit_simps)
    then show ?thesis by (simp add: disjunctive_add_eq_or)
  qed
  finally have e: "ucast (z OR 0xFC) = ((x + 4) AND mask 2) + 0xFC" .
  have "unat ((x + 4) AND mask 2) = unat (x + 4) mod 4" by (simp add: take_bit_eq_mask [symmetric] take_bit_eq_mod unat_mod)
  also have "\<dots> = unat x mod 4"
  proof -
    have "unat (x + 4) = (unat x + 4) mod 256" by (simp add: unat_word_ariths)
    moreover have "(unat x + 4) mod 256 mod 4 = (unat x + 4) mod 4" by (rule mod_mod_cancel) simp
    ultimately show ?thesis by simp
  qed
  finally have m: "unat ((x + 4) AND mask 2) = unat x mod 4" .
  have "unat x mod 4 < 4" by simp
  then have "unat (((x + 4) AND mask 2) + 0xFC) = unat x mod 4 + 252" by (simp only: unat_word_ariths m) simp
  then show ?thesis unfolding z_def [symmetric] e by simp
qed

section \<open>Properties\<close>

text \<open>
  C19. The screen is a terminal of 25 rows and 80 columns: from a cursor on the screen, writing a text without tabs changes
  rows and cursor as the abstract terminal does, with scrolling at the end of the last row. The cursor stays on the screen
  and no cell outside of the 2000 visible ones is written.
\<close>

theorem screen_is_terminal:
  assumes "on_screen s" and "0x09 \<notin> set cs"
  shows "term_of (put_chars cs s) = fold (term_char black white) cs (term_of s) \<and> on_screen (put_chars cs s)
    \<and> (\<forall>k \<ge> 2000. screen (put_chars cs s) k = screen s k)"
  by (rule put_chars_refines [OF assms])

text \<open>
  A tab leaves the screen: \<open>(cursor_x + 4) | 0xFC\<close> is at least 252 for every column, meant was a mask that clears the two low bits.
  In the last row the next character is written behind the visible cells.
\<close>


theorem tab_leaves_screen:
  assumes "cursor_y s = 24" and "0x20 \<le>s c"
  shows "unat (cursor_x (show_char b f 0x09 s)) = 252 + unat (cursor_x s) mod 4
    \<and> screen (show_char b f c (show_char b f 0x09 s)) (2172 + unat (cursor_x s) mod 4) = char_mix b f c"
proof -
  let ?x = "cursor_x s" and ?s = "show_char b f 0x09 s"
  have s: "cursor_x ?s = ucast ((ucast ?x + 4) OR 0xFC :: i32)" "cursor_y ?s = 24" using assms(1) by (simp_all add: show_char_def)
  have x: "unat (cursor_x ?s) = 252 + unat ?x mod 4" unfolding s(1) by (rule tab_column)
  have c: "c \<noteq> 0x08" "c \<noteq> 0x09" "c \<noteq> 0x0A" using assms(2) by (auto simp: word_sle_eq)
  have keep: "screen (scroll u) k = screen u k" if "2000 \<le> k" for u k
    using that by (simp add: scroll_def scroll_blank_cell scroll_rows_cell)
  have "unat (cursor_y ?s) * 80 + unat (cursor_x ?s) = 2172 + unat ?x mod 4" using x s(2) by simp
  then have "screen (show_char b f c ?s) (2172 + unat ?x mod 4) = char_mix b f c"
    unfolding show_char_def [of b f c] using c assms(2) by (simp add: Let_def keep)
  with x show ?thesis by blast
qed

text \<open>
  C20. \<open>printf\<close> prints exactly the text its format stands for, numbers in decimal, hexadecimal and octal included, provided that the format does not end in a lone percent sign, that
  there are enough arguments and that those of \<open>%s\<close> point to strings.
\<close>

theorem printf_formats:
  assumes "cstring m a f" and "\<And>p xs. str p = Some xs \<Longrightarrow> cstring m p xs" and "format_text str f ap = Some out"
  shows "printf m a ap s = Some (put_chars out s)"
  using printf_loop_text [of str m a f ap out s] assms by (simp add: printf_def)

text \<open>
  \<open>put_int\<close> prints the digits of the number: read in the base they give the number back. Octal numbers from \<open>2 ^ 30\<close> on have eleven digits, whose terminating zero is
  written behind the buffer of eleven bytes.
\<close>

theorem put_int_roundtrip:
  assumes "base \<in> {8, 10, 16}"
  shows "put_int num base s = (if base = 8 \<and> 0x40000000 \<le> num then None
      else Some (put_chars ((if base = 16 then [0x30, 0x78] else if base = 8 then [0x30] else [])
        @ map (\<lambda>d. digit_table ! d) (num_digits (unat base) (unat num))) s))
    \<and> foldl (\<lambda>v d. v * unat base + d) 0 (num_digits (unat base) (unat num)) = unat num"
  using put_int_text [OF assms] num_digits_value [of "unat base" "unat num"] assms by (auto simp: num_text_def)

section \<open>Examples\<close>

definition console0 :: console where
  "console0 = cpu.extend cpu0 \<lparr>screen = \<lambda>_. 0, cursor_x = 0, cursor_y = 24\<rparr>"

lemma console0_fields: "screen console0 = (\<lambda>_. 0)" "cursor_x console0 = 0" "cursor_y console0 = 24"
  by (simp_all add: console0_def cpu.extend_def)

theorem screen_is_terminal_witness:
  "t_x (term_of (put_chars [0x68, 0x69, 0x0A] console0)) = 0 \<and> t_y (term_of (put_chars [0x68, 0x69, 0x0A] console0)) = 24
    \<and> on_screen (put_chars [0x68, 0x69, 0x0A] console0)"
proof -
  have "on_screen console0" by (simp add: on_screen_def console0_fields)
  from screen_is_terminal [OF this, of "[0x68, 0x69, 0x0A]"] show ?thesis
    by (simp add: term_of_def [of console0] console0_fields term_char_def term_put_def term_newline_def word_sle_eq Let_def)
qed

theorem tab_leaves_screen_witness:
  "screen (show_char black white 0x41 (show_char black white 0x09 console0)) 2172 = char_mix black white 0x41"
  using tab_leaves_screen [of console0 "0x41" black white] by (simp add: console0_fields word_sle_eq)

text \<open>The format \<open>"a%d"\<close> with the argument 7.\<close>

theorem printf_formats_witness:
  "printf ((\<lambda>_. 0)(0x100 := 0x61, 0x101 := 0x25, 0x102 := 0x64)) 0x100 [7] console0 = Some (put_chars [0x61, 0x37] console0)"
proof -
  have "num_text 10 7 = [0x37]" by (simp add: num_text_def num_digits.simps digit_table_def)
  then have "format_text (\<lambda>_. None) [0x61, 0x25, 0x64] [7] = Some [0x61, 0x37]" by (simp add: conv_text_def)
  then show ?thesis
    using printf_formats [of "(\<lambda>_. 0)(0x100 := 0x61, 0x101 := 0x25, 0x102 := 0x64)" "0x100" "[0x61, 0x25, 0x64]" "\<lambda>_. None" "[7]"]
    by simp
qed

theorem put_int_roundtrip_witness: "put_int 0xFF 16 console0 = Some (put_chars [0x30, 0x78, 0x66, 0x66] console0)"
  using put_int_roundtrip [of 16 "0xFF" console0] by (simp add: num_digits.simps digit_table_def)

end
