(* ===== verification/Keyboard.thy ===== *)
theory Keyboard
  imports Console
begin

text \<open>
  The keyboard of \<open>idt/keyboard.c\<close> and \<open>include/keyboard.h\<close>. Port 0x60 is the list of the bytes it will return, the static
  variables are a record. The address of the format string that \<open>kbd_handler\<close> prints is a parameter.
\<close>

section \<open>The code\<close>

definition keyboard_origin :: "u8 list" where
  "keyboard_origin =
     [0, 0x31, 0x32, 0x33, 0x34, 0x35, 0x36, 0x37, 0x38, 0x39, 0x30, 0x2D, 0x3D, 0x08,
      0x09, 0x71, 0x77, 0x65, 0x72, 0x74, 0x79, 0x75, 0x69, 0x6F, 0x70, 0x5B, 0x5D, 0x0A,
      0,
      0x61, 0x73, 0x64, 0x66, 0x67, 0x68, 0x6A, 0x6B, 0x6C, 0x3B, 0x27, 0x60, 0, 0x5C,
      0x7A, 0x78, 0x63, 0x76, 0x62, 0x6E, 0x6D, 0x2C, 0x2E, 0x2F, 0,
      0, 0, 0x20]
     @ replicate 198 0"

definition keyboard_shift :: "u8 list" where
  "keyboard_shift =
     [0, 0x21, 0x40, 0x23, 0x24, 0x25, 0x5E, 0x26, 0x2A, 0x28, 0x29, 0x5F, 0x2B, 0x08,
      0x09, 0x51, 0x57, 0x45, 0x52, 0x54, 0x59, 0x55, 0x49, 0x4F, 0x50, 0x7B, 0x7D, 0x0A,
      0,
      0x41, 0x53, 0x44, 0x46, 0x47, 0x48, 0x4A, 0x4B, 0x4C, 0x3A, 0x22, 0x7E, 0, 0x7C,
      0x5A, 0x58, 0x43, 0x56, 0x42, 0x4E, 0x4D, 0x3C, 0x3E, 0x3F, 0,
      0, 0, 0x20]
     @ replicate 198 0"

abbreviation DOUBLE_KEY :: u8 where "DOUBLE_KEY \<equiv> 0xE0"
abbreviation PRESS_CAPS_LOCK :: u8 where "PRESS_CAPS_LOCK \<equiv> 0x3A"
abbreviation PRESS_CTRL :: u8 where "PRESS_CTRL \<equiv> 0x1D"
abbreviation RELEASE_CTRL :: u8 where "RELEASE_CTRL \<equiv> 0x9D"
abbreviation PRESS_LF_SHIFT :: u8 where "PRESS_LF_SHIFT \<equiv> 0x2A"
abbreviation PRESS_RT_SHIFT :: u8 where "PRESS_RT_SHIFT \<equiv> 0x36"
abbreviation RELEASE_LF_SHIFT :: u8 where "RELEASE_LF_SHIFT \<equiv> 0xAA"
abbreviation RELEASE_RT_SHIFT :: u8 where "RELEASE_RT_SHIFT \<equiv> 0xB6"

record kbd =
  double_key_on :: u8
  is_lf_shift_pressed :: u8
  is_rt_shift_pressed :: u8
  is_lf_ctrl_pressed :: u8
  is_rt_ctrl_pressed :: u8
  is_capslock_pressed :: u8

definition letter_to_upper_case :: "u8 \<Rightarrow> u8" where
  "letter_to_upper_case c = c - 32"

fun get_raw_msg :: "u8 list \<Rightarrow> (u8 \<times> u8 list) option" where
  "get_raw_msg [] = None"
| "get_raw_msg (data # rest) = (if data = 0 then get_raw_msg rest else Some (data, rest))"

definition kbd_switch :: "u8 \<Rightarrow> kbd \<Rightarrow> kbd" where
  "kbd_switch c k =
     (if c = PRESS_CAPS_LOCK then k\<lparr>is_capslock_pressed := (if is_capslock_pressed k = 0 then 1 else 0)\<rparr>
      else if c = PRESS_LF_SHIFT then k\<lparr>is_lf_shift_pressed := 1\<rparr>
      else if c = PRESS_RT_SHIFT then k\<lparr>is_rt_shift_pressed := 1\<rparr>
      else if c = PRESS_CTRL then
        if double_key_on k = 0 then k\<lparr>is_lf_ctrl_pressed := 1\<rparr> else k\<lparr>is_rt_ctrl_pressed := 1\<rparr>
      else if c = RELEASE_LF_SHIFT then k\<lparr>is_lf_shift_pressed := 0\<rparr>
      else if c = RELEASE_RT_SHIFT then k\<lparr>is_rt_shift_pressed := 0\<rparr>
      else if c = DOUBLE_KEY then k\<lparr>double_key_on := 1\<rparr>
      else if c = RELEASE_CTRL then
        let k = (if double_key_on k = 0 then k\<lparr>is_lf_ctrl_pressed := 0\<rparr> else k\<lparr>is_rt_ctrl_pressed := 0\<rparr>)
        in k\<lparr>double_key_on := 0\<rparr>
      else k)"

definition getchar :: "u8 list \<Rightarrow> kbd \<Rightarrow> (u8 \<times> u8 list \<times> kbd) option" where
  "getchar inp k =
     (case get_raw_msg inp of
        None \<Rightarrow> None
      | Some (c, rest) \<Rightarrow>
          let k = kbd_switch c k;
              i = nat (uint c - 1);
              shift = (is_lf_shift_pressed k \<noteq> 0 \<or> is_rt_shift_pressed k \<noteq> 0)
          in Some (if is_capslock_pressed k \<noteq> 0 then (if shift then keyboard_origin ! i else keyboard_shift ! i)
                   else if shift then keyboard_shift ! i else keyboard_origin ! i, rest, k))"

definition kbd_handler :: "bytes \<Rightarrow> u32 \<Rightarrow> idtframe \<Rightarrow> u8 list \<Rightarrow> kbd \<Rightarrow> console \<Rightarrow> (u8 list \<times> kbd \<times> console) option" where
  "kbd_handler m fmt frame inp k s =
     do {
       (c, rest, k) \<leftarrow> getchar inp k;
       s \<leftarrow> printf m fmt [fr_intr_No frame, ucast c] s;
       Some (rest, k, s)
     }"

section \<open>Properties\<close>

definition shift_held :: "kbd \<Rightarrow> bool" where
  "shift_held k \<longleftrightarrow> is_lf_shift_pressed k \<noteq> 0 \<or> is_rt_shift_pressed k \<noteq> 0"

definition caps_on :: "kbd \<Rightarrow> bool" where
  "caps_on k \<longleftrightarrow> is_capslock_pressed k \<noteq> 0"

lemma keyboard_length: "length keyboard_origin = 255" "length keyboard_shift = 255"
  unfolding keyboard_origin_def keyboard_shift_def by (simp_all only: length_append length_replicate list.size)

lemma keyboard_tables: "list_all2 (\<lambda>x y. 0x61 \<le> x \<and> x \<le> 0x7A \<longrightarrow> y = letter_to_upper_case x) keyboard_origin keyboard_shift"
  unfolding keyboard_origin_def keyboard_shift_def
  by (intro list_all2_appendI) (simp_all only: list_all2_Cons list_all2_Nil letter_to_upper_case_def, simp_all add: list_all2_conv_all_nth)

lemma keyboard_upper:
  "i < 255 \<Longrightarrow> 0x61 \<le> keyboard_origin ! i \<Longrightarrow> keyboard_origin ! i \<le> 0x7A \<Longrightarrow> keyboard_shift ! i = letter_to_upper_case (keyboard_origin ! i)"
  using keyboard_tables list_all2_nthD [of _ keyboard_origin keyboard_shift i] keyboard_length by fastforce

lemma get_raw_msg_nonzero: "get_raw_msg inp = Some (c, rest) \<Longrightarrow> c \<noteq> 0"
  by (induction inp) (auto split: if_splits)

text \<open>
  \<open>getchar\<close> reads its tables in bounds, and a letter key gives the capital letter exactly if either shift or caps lock is in effect, after the key itself was taken
  into account. The keyboard is polled until it delivers a nonzero byte.
\<close>

theorem getchar_letters:
  assumes "get_raw_msg inp = Some (c, rest)"
  shows "unat c - 1 < length keyboard_origin \<and> unat c - 1 < length keyboard_shift
    \<and> (\<exists>x. getchar inp k = Some (x, rest, kbd_switch c k)
      \<and> (0x61 \<le> keyboard_origin ! (unat c - 1) \<and> keyboard_origin ! (unat c - 1) \<le> 0x7A \<longrightarrow>
         x = (if caps_on (kbd_switch c k) \<noteq> shift_held (kbd_switch c k) then letter_to_upper_case (keyboard_origin ! (unat c - 1))
              else keyboard_origin ! (unat c - 1))))"
proof -
  have "unat c \<noteq> 0" using get_raw_msg_nonzero [OF assms] by (simp add: unat_eq_zero)
  moreover have "unat c < 256" using unsigned_less [of c] by simp
  ultimately have i: "unat c - 1 < 255" by linarith
  have n: "nat (uint c - 1) = unat c - 1" using uint_nat [of c] by linarith
  define low up k' where d: "low = keyboard_origin ! (unat c - 1)" "up = keyboard_shift ! (unat c - 1)" "k' = kbd_switch c k"
  have "getchar inp k = Some (if caps_on k' \<noteq> shift_held k' then up else low, rest, k')"
    unfolding getchar_def assms n d caps_on_def shift_held_def by (simp add: Let_def n)
  moreover have "up = letter_to_upper_case low" if "0x61 \<le> low" "low \<le> 0x7A"
    using keyboard_upper [OF i] that by (simp add: d)
  ultimately show ?thesis unfolding d [symmetric] keyboard_length using i by auto
qed

definition kbd0 :: kbd where
  "kbd0 = \<lparr>double_key_on = 0, is_lf_shift_pressed = 0, is_rt_shift_pressed = 0, is_lf_ctrl_pressed = 0, is_rt_ctrl_pressed = 0, is_capslock_pressed = 1\<rparr>"

text \<open>With caps lock on, the key q gives Q (and, unlike other keyboards, the key 1 an exclamation mark).\<close>

lemma caps_lock_shifts_digits: "getchar [0x02] kbd0 = Some (0x21, [], kbd0)"
  by (simp add: getchar_def kbd_switch_def kbd0_def keyboard_shift_def Let_def)

theorem getchar_letters_witness: "\<exists>k'. getchar [0, 0x10, 0x1E] kbd0 = Some (0x51, [0x1E], k')"
  using getchar_letters [of "[0, 0x10, 0x1E]" "0x10" "[0x1E]" kbd0]
  by (simp add: keyboard_origin_def kbd_switch_def kbd0_def caps_on_def shift_held_def letter_to_upper_case_def)

end
