(* ===== verification/Boot.thy ===== *)
theory Boot
  imports CString Ide
begin

text \<open>
  The boot loader \<open>boot/bootmain.c\<close> with the ELF headers of \<open>include/elf.h\<close>, on the flat byte memory before paging. The disks are
  bytes by drive, sector and position; the status register is the list of the values it will return, and polling beyond it is the value
  \<open>None\<close>. The drive and sector a transfer reaches are decoded from the task-file registers as in the theory \<open>Ide\<close>.
\<close>

section \<open>ELF headers in memory\<close>

definition rd16 :: "bytes \<Rightarrow> u32 \<Rightarrow> u16" where
  "rd16 m a = ucast (m a) OR push_bit 8 (ucast (m (a + 1)))"

definition rd32 :: "bytes \<Rightarrow> u32 \<Rightarrow> u32" where
  "rd32 m a = ucast (m a) OR push_bit 8 (ucast (m (a + 1))) OR push_bit 16 (ucast (m (a + 2))) OR push_bit 24 (ucast (m (a + 3)))"

record elf_t =
  e_magic :: u32
  e_type :: u16
  e_machine :: u16
  e_version :: u32
  e_entry :: u32
  e_phoff :: u32
  e_shoff :: u32
  e_flags :: u32
  e_ehsize :: u16
  e_phentsize :: u16
  e_phnum :: u16
  e_shentsize :: u16
  e_shnum :: u16
  e_shstrndx :: u16

definition elf_at :: "bytes \<Rightarrow> u32 \<Rightarrow> elf_t" where
  "elf_at m a =
     \<lparr>e_magic = rd32 m a, e_type = rd16 m (a + 16), e_machine = rd16 m (a + 18), e_version = rd32 m (a + 20),
      e_entry = rd32 m (a + 24), e_phoff = rd32 m (a + 28), e_shoff = rd32 m (a + 32), e_flags = rd32 m (a + 36),
      e_ehsize = rd16 m (a + 40), e_phentsize = rd16 m (a + 42), e_phnum = rd16 m (a + 44), e_shentsize = rd16 m (a + 46),
      e_shnum = rd16 m (a + 48), e_shstrndx = rd16 m (a + 50)\<rparr>"

record prog_t =
  ph_type :: u32
  ph_off :: u32
  ph_vaddr :: u32
  ph_paddr :: u32
  ph_filesz :: u32
  ph_memsz :: u32
  ph_flags :: u32
  ph_align :: u32

abbreviation sizeof_prog_t :: u32 where "sizeof_prog_t \<equiv> 32"

definition prog_at :: "bytes \<Rightarrow> u32 \<Rightarrow> prog_t" where
  "prog_at m a =
     \<lparr>ph_type = rd32 m a, ph_off = rd32 m (a + 4), ph_vaddr = rd32 m (a + 8), ph_paddr = rd32 m (a + 12),
      ph_filesz = rd32 m (a + 16), ph_memsz = rd32 m (a + 20), ph_flags = rd32 m (a + 24), ph_align = rd32 m (a + 28)\<rparr>"

abbreviation ELF_MAGIC :: u32 where "ELF_MAGIC \<equiv> 0x464C457F"

section \<open>The loader\<close>

type_synonym disks = "u32 \<Rightarrow> u32 \<Rightarrow> nat \<Rightarrow> u8"

fun boot_waitdisk :: "u8 list \<Rightarrow> u8 list option" where
  "boot_waitdisk [] = None"
| "boot_waitdisk (x # xs) = (if x AND 0xC0 \<noteq> 0x40 then boot_waitdisk xs else Some xs)"

definition insl_bytes :: "(nat \<Rightarrow> u8) \<Rightarrow> u32 \<Rightarrow> bytes \<Rightarrow> bytes" where
  "insl_bytes sect dst m = (\<lambda>a. if a - dst < SECTSIZE then sect (unat (a - dst)) else m a)"

definition boot_readsect :: "disks \<Rightarrow> u32 \<Rightarrow> u32 \<Rightarrow> u8 list \<Rightarrow> bytes \<Rightarrow> (u8 list \<times> bytes) option" where
  "boot_readsect d dst offset p m =
     do {
       p \<leftarrow> boot_waitdisk p;
       let r = ide_program offset 0 1
       in do {
         p \<leftarrow> boot_waitdisk p;
         Some (p, insl_bytes (d (ata_drive r) (ata_lba r)) dst m)
       }
     }"

partial_function (option) readseg_loop :: "disks \<Rightarrow> u32 \<Rightarrow> u32 \<Rightarrow> u32 \<Rightarrow> u8 list \<Rightarrow> bytes \<Rightarrow> (u8 list \<times> bytes) option" where
  "readseg_loop d pa epa offset p m =
     (if pa < epa then
        do {
          (p, m) \<leftarrow> boot_readsect d pa offset p m;
          readseg_loop d (pa + SECTSIZE) epa (offset + 1) p m
        }
      else Some (p, m))"

definition readseg :: "disks \<Rightarrow> u32 \<Rightarrow> u32 \<Rightarrow> u32 \<Rightarrow> u8 list \<Rightarrow> bytes \<Rightarrow> (u8 list \<times> bytes) option" where
  "readseg d pa cnt offset p m =
     (let epa = pa + cnt;
          pa = pa - offset mod SECTSIZE;
          offset = offset div SECTSIZE + 1
      in readseg_loop d pa epa offset p m)"

definition stosb :: "u32 \<Rightarrow> u8 \<Rightarrow> u32 \<Rightarrow> bytes \<Rightarrow> bytes" where
  "stosb addr data cnt m = (\<lambda>a. if a - addr < cnt then data else m a)"

definition load_segment :: "disks \<Rightarrow> u32 \<Rightarrow> u8 list \<Rightarrow> bytes \<Rightarrow> (u8 list \<times> bytes) option" where
  "load_segment d ph p m =
     (let pa = ph_paddr (prog_at m ph)
      in do {
        (p, m) \<leftarrow> readseg d pa (ph_filesz (prog_at m ph)) (ph_off (prog_at m ph)) p m;
        Some (p, if ph_filesz (prog_at m ph) < ph_memsz (prog_at m ph)
                 then stosb (pa + ph_filesz (prog_at m ph)) 0 (ph_memsz (prog_at m ph) - ph_filesz (prog_at m ph)) m
                 else m)
      })"

partial_function (option) load_segments :: "disks \<Rightarrow> u32 \<Rightarrow> u32 \<Rightarrow> u8 list \<Rightarrow> bytes \<Rightarrow> (u8 list \<times> bytes) option" where
  "load_segments d ph eph p m =
     (if ph < eph then
        do {
          (p, m) \<leftarrow> load_segment d ph p m;
          load_segments d (ph + sizeof_prog_t) eph p m
        }
      else Some (p, m))"

text \<open>\<open>Inl\<close> is the return to \<open>bootasm.S\<close>, \<open>Inr\<close> the jump to the entry point of the kernel.\<close>

definition bootmain :: "disks \<Rightarrow> u8 list \<Rightarrow> bytes \<Rightarrow> (bytes + u32 \<times> bytes) option" where
  "bootmain d p m =
     (let elf = 0x10000
      in do {
        (p, m) \<leftarrow> readseg d elf (4096 * 20) 0 p m;
        if e_magic (elf_at m elf) \<noteq> ELF_MAGIC then Some (Inl m)
        else
          let ph = elf + e_phoff (elf_at m elf);
              eph = ph + sizeof_prog_t * ucast (e_phnum (elf_at m elf))
          in do {
            (p, m) \<leftarrow> load_segments d ph eph p m;
            Some (Inr (e_entry (elf_at m elf), m))
          }
      })"

section \<open>Reading segments\<close>

abbreviation ready_count :: "u8 list \<Rightarrow> nat" where
  "ready_count p \<equiv> length (filter (\<lambda>x. x AND 0xC0 = 0x40) p)"

lemma boot_waitdisk_ready:
  "0 < ready_count p \<Longrightarrow> \<exists>p'. boot_waitdisk p = Some p' \<and> ready_count p' = ready_count p - 1"
  by (induction p) auto

text \<open>The bytes of the kernel image, which starts at sector 1 of the first disk.\<close>

definition kernel_image :: "disks \<Rightarrow> nat \<Rightarrow> u8" where
  "kernel_image d i = d 0 (1 + of_nat (i div 512)) (i mod 512)"

lemma ata_drive_first:
  assumes "sectno < 0x10000000"
  shows "ata_drive (ide_program sectno 0 n) = 0"
proof -
  have top: "k < 28" if "bit sectno k" for k
    using word_lt_exp_bit [OF _ that, of 28] assms by (simp add: word_less_nat_alt)
  show ?thesis
    unfolding ata_drive_def ide_program_def
    by (rule bit_word_eqI) (auto simp: bit_simps bit_masks_ide dest: top)
qed

lemma boot_readsect_reads:
  assumes "2 \<le> ready_count p" and "offset < 0x10000000"
  shows "\<exists>p'. boot_readsect d dst offset p m = Some (p', insl_bytes (d 0 offset) dst m) \<and> ready_count p' = ready_count p - 2"
proof -
  have "0 < ready_count p" using assms(1) by linarith
  from boot_waitdisk_ready [OF this] obtain p1 where p1: "boot_waitdisk p = Some p1" "ready_count p1 = ready_count p - 1" by blast
  then have "0 < ready_count p1" using assms(1) by linarith
  from boot_waitdisk_ready [OF this] obtain p2 where "boot_waitdisk p1 = Some p2" "ready_count p2 = ready_count p1 - 1" by blast
  with p1 show ?thesis by (simp add: boot_readsect_def Let_def ata_lba_program [OF assms(2)] ata_drive_first [OF assms(2)])
qed

text \<open>Number of sectors that \<open>readseg\<close> reads from address \<open>b\<close> up to \<open>e\<close>.\<close>

definition sectors :: "nat \<Rightarrow> nat \<Rightarrow> nat" where
  "sectors b e = (e - b + 511) div 512"

lemma sectors_step: "b < e \<Longrightarrow> sectors b e = Suc (sectors (b + 512) e)"
  by (cases "e - b \<le> 512") (auto simp: sectors_def le_div_geq)

lemma word_range:
  assumes "unat p + unat n \<le> 4294967296"
  shows "(a :: u32) - p < n \<longleftrightarrow> unat p \<le> unat a \<and> unat a < unat p + unat n"
proof (cases "p \<le> a")
  case True
  then have "unat (a - p) = unat a - unat p" "unat p \<le> unat a" by (simp_all add: unat_sub word_le_nat_alt)
  then show ?thesis by (auto simp: word_less_nat_alt)
next
  case False
  then have lt: "unat a < unat p" by (simp add: word_le_nat_alt)
  then have "unat (a - p) = unat a + 4294967296 - unat p" by (simp add: unat_sub_if_size word_le_nat_alt word_size)
  then have "unat n \<le> unat (a - p)" using assms by linarith
  then show ?thesis using lt by (simp add: word_less_nat_alt)
qed

lemma insl_bytes_nat:
  assumes "unat dst + 512 \<le> 4294967296"
  shows "insl_bytes f dst m a = (if unat dst \<le> unat a \<and> unat a < unat dst + 512 then f (unat a - unat dst) else m a)"
  using word_range [of dst 512 a] assms by (auto simp: insl_bytes_def unat_sub word_le_nat_alt)

lemma readseg_loop_reads:
  assumes "k = sectors (unat pa) (unat epa)" and "unat epa + 512 \<le> 4294967296" and "unat offset + k \<le> 0x10000000" and "2 * k \<le> ready_count p"
  shows "\<exists>p' m'. readseg_loop d pa epa offset p m = Some (p', m') \<and> ready_count p' = ready_count p - 2 * k
    \<and> (\<forall>a. m' a = (if unat pa \<le> unat a \<and> unat a < unat pa + 512 * k
         then d 0 (offset + of_nat ((unat a - unat pa) div 512)) ((unat a - unat pa) mod 512) else m a))"
  using assms
proof (induction k arbitrary: pa offset p m)
  case 0
  then have "\<not> pa < epa" by (auto simp: sectors_def word_less_nat_alt)
  then show ?case by (subst readseg_loop.simps) auto
next
  case (Suc k)
  have lt: "pa < epa" using Suc.prems(1) by (auto simp: sectors_def word_less_nat_alt intro: ccontr)
  then have ltn: "unat pa < unat epa" by (simp add: word_less_nat_alt)
  have pa': "unat (pa + 512) = unat pa + 512" using ltn Suc.prems(2) by (simp add: unat_word_ariths)
  have off': "unat (offset + 1) = unat offset + 1" using Suc.prems(3) by (simp add: unat_word_ariths)
  have "offset < 0x10000000" using Suc.prems(3) by (simp add: word_less_nat_alt)
  then obtain p1 where p1: "boot_readsect d pa offset p m = Some (p1, insl_bytes (d 0 offset) pa m)" "ready_count p1 = ready_count p - 2"
    using boot_readsect_reads [of p offset d pa m] Suc.prems(4) by auto
  have k: "k = sectors (unat (pa + 512)) (unat epa)" using Suc.prems(1) sectors_step [OF ltn] pa' by simp
  have h: "unat (offset + 1) + k \<le> 0x10000000" "2 * k \<le> ready_count p1" using Suc.prems(3,4) p1(2) off' by (linarith, simp)
  obtain p' m' where r: "readseg_loop d (pa + 512) epa (offset + 1) p1 (insl_bytes (d 0 offset) pa m) = Some (p', m')"
      "ready_count p' = ready_count p1 - 2 * k"
      "\<And>a. m' a = (if unat (pa + 512) \<le> unat a \<and> unat a < unat (pa + 512) + 512 * k
         then d 0 (offset + 1 + of_nat ((unat a - unat (pa + 512)) div 512)) ((unat a - unat (pa + 512)) mod 512)
         else insl_bytes (d 0 offset) pa m a)"
    using Suc.IH [OF k Suc.prems(2) h, of "insl_bytes (d 0 offset) pa m"] by blast
  have "m' a = (if unat pa \<le> unat a \<and> unat a < unat pa + 512 * Suc k
      then d 0 (offset + of_nat ((unat a - unat pa) div 512)) ((unat a - unat pa) mod 512) else m a)" for a
  proof (cases "unat pa + 512 \<le> unat a")
    case True
    then obtain j where j: "unat a = unat pa + 512 + j" by (metis le_add_diff_inverse)
    have "(unat a - unat pa) div 512 = Suc (j div 512)" "(unat a - unat pa) mod 512 = j mod 512" by (simp_all add: j)
    then show ?thesis using Suc.prems(2) ltn unfolding r(3) pa' by (simp add: j insl_bytes_nat add.assoc)
  next
    case False
    then show ?thesis using Suc.prems(2) ltn unfolding r(3) pa' by (auto simp: insl_bytes_nat)
  qed
  then show ?case
    using lt p1 r(1,2) Suc.prems(4) by (subst readseg_loop.simps) auto
qed

text \<open>What \<open>readseg\<close> needs to work as intended, and the sectors it reads.\<close>

definition seg_ok :: "nat \<Rightarrow> nat \<Rightarrow> nat \<Rightarrow> bool" where
  "seg_ok pa cnt off \<longleftrightarrow> off mod 512 \<le> pa \<and> pa + cnt + 512 \<le> 4294967296 \<and> off + cnt < 0x1F00000000"

definition seg_sectors :: "nat \<Rightarrow> nat \<Rightarrow> nat \<Rightarrow> nat" where
  "seg_sectors pa cnt off = sectors (pa - off mod 512) (pa + cnt)"

definition seg_touched :: "nat \<Rightarrow> nat \<Rightarrow> nat \<Rightarrow> nat set" where
  "seg_touched pa cnt off = {pa - off mod 512 ..< pa - off mod 512 + 512 * seg_sectors pa cnt off}"

lemma image_at:
  assumes "r = off mod 512" and "j + off < 4294967296 * 512"
  shows "kernel_image d (off + j) = d 0 (of_nat (off div 512) + 1 + of_nat ((j + r) div 512)) ((j + r) mod 512)"
proof -
  have "off + j = 512 * (off div 512) + (j + r)" using assms(1) by simp
  then have "(off + j) div 512 = off div 512 + (j + r) div 512" by simp
  moreover have "(off + j) mod 512 = (j + r) mod 512" unfolding assms(1) by (simp add: mod_simps add.commute)
  ultimately show ?thesis by (simp add: kernel_image_def ac_simps)
qed

lemma sector_cover: "x \<le> 512 * ((x + 511) div 512 :: nat)"
proof -
  have "512 * ((x + 511) div 512) + (x + 511) mod 512 = x + 511" by (rule mult_div_mod_eq)
  moreover have "(x + 511) mod 512 < 512" by simp
  ultimately show ?thesis by linarith
qed

lemma div_plus_le: "a div 512 + b div 512 \<le> (a + b) div (512 :: nat)"
proof -
  have "(a div 512 + b div 512) * 512 \<le> a + b" unfolding add_mult_distrib by (intro add_mono div_times_less_eq_dividend)
  then show ?thesis by (subst less_eq_div_iff_mult_less_eq) simp_all
qed

lemma seg_sectors_cover: "off mod 512 \<le> pa \<Longrightarrow> pa + cnt \<le> pa - off mod 512 + 512 * seg_sectors pa cnt off"
proof -
  assume "off mod 512 \<le> pa"
  have "pa + cnt - (pa - off mod 512) \<le> 512 * seg_sectors pa cnt off"
    unfolding seg_sectors_def sectors_def by (rule sector_cover)
  then show ?thesis using \<open>off mod 512 \<le> pa\<close> by linarith
qed

lemma readseg_reads:
  assumes ok: "seg_ok (unat pa) (unat cnt) (unat off)" and rd: "2 * seg_sectors (unat pa) (unat cnt) (unat off) \<le> ready_count p"
  shows "\<exists>p' m'. readseg d pa cnt off p m = Some (p', m') \<and> ready_count p' = ready_count p - 2 * seg_sectors (unat pa) (unat cnt) (unat off)
    \<and> (\<forall>a. unat pa \<le> unat a \<longrightarrow> unat a < unat pa + unat cnt \<longrightarrow> m' a = kernel_image d (unat off + (unat a - unat pa)))
    \<and> (\<forall>a. unat a \<notin> seg_touched (unat pa) (unat cnt) (unat off) \<longrightarrow> m' a = m a)"
proof -
  let ?P = "unat pa" and ?C = "unat cnt" and ?O = "unat off" and ?R = "unat off mod 512" and ?k = "seg_sectors (unat pa) (unat cnt) (unat off)"
  have o32: "?O < 4294967296" using unsigned_less [of off] by simp
  have R: "?R \<le> ?P" and E: "?P + ?C + 512 \<le> 4294967296" and OC: "?O + ?C < 0x1F00000000" using ok by (simp_all add: seg_ok_def)
  have mo: "unat (off mod 512) = ?R" "unat (off div 512) = ?O div 512" by (simp_all add: unat_mod unat_div)
  have b: "unat (pa - off mod 512) = ?P - ?R" using R mo(1) by (simp add: unat_sub word_le_nat_alt)
  have e: "unat (pa + cnt) = ?P + ?C" using E by (simp add: unat_word_ariths)
  have s: "unat (off div 512 + 1) = ?O div 512 + 1" using o32 mo(2) by (simp add: unat_word_ariths)
  have k: "?k = sectors (unat (pa - off mod 512)) (unat (pa + cnt))" by (simp add: seg_sectors_def b e)
  have cap: "unat (off div 512 + 1) + ?k \<le> 0x10000000"
  proof -
    have "?k \<le> (?C + ?R + 511) div 512" using R by (simp add: seg_sectors_def sectors_def)
    moreover have "?O div 512 + (?C + ?R + 511) div 512 \<le> (?O + (?C + ?R + 511)) div 512" by (rule div_plus_le)
    moreover have "?R < 512" by simp
    then have "(?O + (?C + ?R + 511)) div 512 \<le> 0x1F00001000 div 512" using OC by (intro div_le_mono) linarith
    ultimately show ?thesis using s by linarith
  qed
  have e': "unat (pa + cnt) + 512 \<le> 4294967296" using e E by simp
  from readseg_loop_reads [OF k e' cap rd, of d m]
  obtain p' m' where r: "readseg_loop d (pa - off mod 512) (pa + cnt) (off div 512 + 1) p m = Some (p', m')"
      "ready_count p' = ready_count p - 2 * ?k"
      "\<And>a. m' a = (if ?P - ?R \<le> unat a \<and> unat a < ?P - ?R + 512 * ?k
         then d 0 (off div 512 + 1 + of_nat ((unat a - (?P - ?R)) div 512)) ((unat a - (?P - ?R)) mod 512) else m a)"
    unfolding b by blast
  have "m' a = kernel_image d (?O + (unat a - ?P))" if "?P \<le> unat a" "unat a < ?P + ?C" for a
  proof -
    have "?P - ?R \<le> unat a \<and> unat a < ?P - ?R + 512 * ?k" using seg_sectors_cover [OF R, of ?C] that by linarith
    moreover have "unat a - (?P - ?R) = unat a - ?P + ?R" using R that by linarith
    moreover have "of_nat (?O div 512) = off div 512" unfolding mo(2) [symmetric] by simp
    moreover have "unat a - ?P + ?O < 4294967296 * 512" using that o32 E by linarith
    ultimately show ?thesis using image_at [OF refl, of "unat a - ?P" ?O d] unfolding r(3) by (simp only: if_True simp_thms)
  qed
  moreover have "m' a = m a" if "unat a \<notin> seg_touched ?P ?C ?O" for a
    using that by (auto simp: r(3) seg_touched_def)
  ultimately show ?thesis using r(1,2) by (simp add: readseg_def Let_def)
qed

section \<open>Loading a kernel\<close>

text \<open>The addresses that a segment occupies, the ones that loading it changes, and what it means that it is loaded.\<close>

definition seg_covers :: "prog_t \<Rightarrow> nat set" where
  "seg_covers s = {unat (ph_paddr s) ..< unat (ph_paddr s) + unat (ph_filesz s)} \<union>
     {unat (ph_paddr s) + unat (ph_filesz s) ..< unat (ph_paddr s) + unat (ph_memsz s)}"

definition seg_changes :: "prog_t \<Rightarrow> nat set" where
  "seg_changes s = seg_touched (unat (ph_paddr s)) (unat (ph_filesz s)) (unat (ph_off s)) \<union> seg_covers s"

definition seg_loadable :: "prog_t \<Rightarrow> bool" where
  "seg_loadable s \<longleftrightarrow> seg_ok (unat (ph_paddr s)) (unat (ph_filesz s)) (unat (ph_off s)) \<and> unat (ph_paddr s) + unat (ph_memsz s) \<le> 4294967296"

definition seg_cost :: "prog_t \<Rightarrow> nat" where
  "seg_cost s = 2 * seg_sectors (unat (ph_paddr s)) (unat (ph_filesz s)) (unat (ph_off s))"

definition seg_loaded :: "disks \<Rightarrow> bytes \<Rightarrow> prog_t \<Rightarrow> bool" where
  "seg_loaded d m s \<longleftrightarrow>
     (\<forall>a. unat (ph_paddr s) \<le> unat a \<longrightarrow> unat a < unat (ph_paddr s) + unat (ph_filesz s)
        \<longrightarrow> m a = kernel_image d (unat (ph_off s) + (unat a - unat (ph_paddr s))))
   \<and> (\<forall>a. unat (ph_paddr s) + unat (ph_filesz s) \<le> unat a \<longrightarrow> unat a < unat (ph_paddr s) + unat (ph_memsz s) \<longrightarrow> m a = 0)"

lemma seg_loaded_cong:
  assumes "\<And>a. unat a \<in> seg_covers s \<Longrightarrow> m' a = m a"
  shows "seg_loaded d m' s = seg_loaded d m s"
proof -
  have "m' a = m a" if "unat (ph_paddr s) \<le> unat a" "unat a < unat (ph_paddr s) + unat (ph_filesz s)" for a
    using assms [of a] that by (simp add: seg_covers_def)
  moreover have "m' a = m a" if "unat (ph_paddr s) + unat (ph_filesz s) \<le> unat a" "unat a < unat (ph_paddr s) + unat (ph_memsz s)" for a
    using assms [of a] that by (simp add: seg_covers_def)
  ultimately show ?thesis unfolding seg_loaded_def by (intro arg_cong2 [of _ _ _ _ "(\<and>)"] all_cong1 imp_cong refl) simp_all
qed

text \<open>Headers only depend on their own bytes.\<close>

definition same_bytes :: "bytes \<Rightarrow> bytes \<Rightarrow> nat \<Rightarrow> nat \<Rightarrow> bool" where
  "same_bytes m m' b n \<longleftrightarrow> (\<forall>a. b \<le> unat a \<longrightarrow> unat a < b + n \<longrightarrow> m a = m' a)"

lemma same_bytes_at:
  assumes "same_bytes m m' (unat b) n" and "unat b + n \<le> 4294967296" and "unat i < n"
  shows "m (b + i) = m' (b + i)"
proof -
  have "unat (b + i) = unat b + unat i" using assms(2,3) by (simp add: unat_word_ariths)
  then show ?thesis using assms(1,3) by (simp add: same_bytes_def)
qed

lemma prog_at_same: "same_bytes m m' (unat b) 32 \<Longrightarrow> unat b + 32 \<le> 4294967296 \<Longrightarrow> prog_at m b = prog_at m' b"
proof -
  assume "same_bytes m m' (unat b) 32" "unat b + 32 \<le> 4294967296"
  note eq = same_bytes_at [OF this]
  show ?thesis using eq [of 0] by (simp add: prog_at_def rd32_def add.assoc eq)
qed

lemma elf_at_same: "same_bytes m m' (unat b) 52 \<Longrightarrow> unat b + 52 \<le> 4294967296 \<Longrightarrow> elf_at m b = elf_at m' b"
proof -
  assume "same_bytes m m' (unat b) 52" "unat b + 52 \<le> 4294967296"
  note eq = same_bytes_at [OF this]
  show ?thesis using eq [of 0] by (simp add: elf_at_def rd32_def rd16_def add.assoc eq)
qed

lemma load_segment_loads:
  assumes s: "prog_at m ph = s" and ok: "seg_loadable s" and rd: "seg_cost s \<le> ready_count p"
    and hd: "unat ph + 32 \<le> 4294967296" "{unat ph ..< unat ph + 32} \<inter> seg_changes s = {}"
  shows "\<exists>p' m'. load_segment d ph p m = Some (p', m') \<and> ready_count p' = ready_count p - seg_cost s
    \<and> seg_loaded d m' s \<and> (\<forall>a. unat a \<notin> seg_changes s \<longrightarrow> m' a = m a)"
proof -
  let ?P = "unat (ph_paddr s)" and ?F = "unat (ph_filesz s)" and ?M = "unat (ph_memsz s)"
  have so: "seg_ok ?P ?F (unat (ph_off s))" and PM: "?P + ?M \<le> 4294967296" using ok by (simp_all add: seg_loadable_def)
  from readseg_reads [OF so, of p d m] rd obtain p' m1 where r: "readseg d (ph_paddr s) (ph_filesz s) (ph_off s) p m = Some (p', m1)"
      "ready_count p' = ready_count p - seg_cost s"
      "\<And>a. ?P \<le> unat a \<Longrightarrow> unat a < ?P + ?F \<Longrightarrow> m1 a = kernel_image d (unat (ph_off s) + (unat a - ?P))"
      "\<And>a. unat a \<notin> seg_touched ?P ?F (unat (ph_off s)) \<Longrightarrow> m1 a = m a"
    unfolding seg_cost_def by blast
  have "same_bytes m1 m (unat ph) 32"
    unfolding same_bytes_def
  proof (intro allI impI)
    fix a :: u32 assume "unat ph \<le> unat a" "unat a < unat ph + 32"
    then have "unat a \<notin> seg_changes s" using hd(2) by auto
    then show "m1 a = m a" by (intro r(4)) (simp add: seg_changes_def)
  qed
  then have h1: "prog_at m1 ph = s" using prog_at_same hd(1) s by metis
  define m' where "m' = (if ph_filesz s < ph_memsz s then stosb (ph_paddr s + ph_filesz s) 0 (ph_memsz s - ph_filesz s) m1 else m1)"
  have m': "m' a = (if ?P + ?F \<le> unat a \<and> unat a < ?P + ?M then 0 else m1 a)" for a
  proof (cases "ph_filesz s < ph_memsz s")
    case True
    then have FM: "?F < ?M" by (simp add: word_less_nat_alt)
    have "unat (ph_paddr s + ph_filesz s) = ?P + ?F" using FM PM by (simp add: unat_word_ariths)
    moreover have "unat (ph_memsz s - ph_filesz s) = ?M - ?F" using True by (simp add: unat_sub order.strict_implies_order)
    ultimately show ?thesis
      using True FM PM word_range [of "ph_paddr s + ph_filesz s" "ph_memsz s - ph_filesz s" a] by (simp add: m'_def stosb_def)
  next
    case False
    then show ?thesis by (auto simp: m'_def word_less_nat_alt)
  qed
  have "load_segment d ph p m = Some (p', m')"
    using r(1) h1 s by (simp add: load_segment_def Let_def m'_def)
  moreover have "seg_loaded d m' s" by (auto simp: seg_loaded_def m' r(3))
  moreover have "m' a = m a" if "unat a \<notin> seg_changes s" for a
    using that r(4) [of a] by (auto simp: m' seg_changes_def seg_covers_def)
  ultimately show ?thesis using r(2) by blast
qed

lemma load_segments_loads:
  assumes "\<forall>j < length segs. prog_at m (ph + 32 * of_nat j) = segs ! j" and "\<forall>s \<in> set segs. seg_loadable s"
    and "sum_list (map seg_cost segs) \<le> ready_count p" and "unat ph + 32 * length segs < 4294967296"
    and "\<forall>s \<in> set segs. {unat ph ..< unat ph + 32 * length segs} \<inter> seg_changes s = {}"
    and "sorted_wrt (\<lambda>s t. seg_covers s \<inter> seg_changes t = {}) segs"
  shows "\<exists>p' m'. load_segments d ph (ph + 32 * of_nat (length segs)) p m = Some (p', m') \<and> (\<forall>s \<in> set segs. seg_loaded d m' s)
    \<and> (\<forall>a. (\<forall>s \<in> set segs. unat a \<notin> seg_changes s) \<longrightarrow> m' a = m a)"
  using assms
proof (induction segs arbitrary: ph p m)
  case Nil
  then show ?case by (subst load_segments.simps) simp
next
  case (Cons s segs)
  let ?n = "length segs"
  have len: "unat ph + 32 * Suc ?n < 4294967296" using Cons.prems(4) by simp
  have u1: "unat (ph + 32) = unat ph + 32" using len by (simp add: unat_word_ariths)
  have un: "unat (ph + 32 + 32 * of_nat j) = unat ph + 32 + 32 * j" if "j \<le> ?n" for j
    using len that u1 by (simp add: unat_word_ariths unat_of_nat)
  have eph: "ph + 32 * of_nat (length (s # segs)) = ph + 32 + 32 * of_nat ?n" by (simp add: algebra_simps)
  have lt: "ph < ph + 32 + 32 * of_nat ?n" unfolding word_less_nat_alt using un [of ?n] by simp
  have s: "prog_at m ph = s" using Cons.prems(1) [rule_format, of 0] by simp
  have d1: "{unat ph ..< unat ph + 32} \<inter> seg_changes s = {}" and d2: "{unat ph + 32 ..< unat ph + 32 + 32 * ?n} \<inter> seg_changes s = {}"
    using Cons.prems(5) by (auto simp: disjoint_iff)
  obtain p1 m1 where l: "load_segment d ph p m = Some (p1, m1)" "ready_count p1 = ready_count p - seg_cost s" "seg_loaded d m1 s"
      "\<And>a. unat a \<notin> seg_changes s \<Longrightarrow> m1 a = m a"
    using load_segment_loads [OF s _ _ _ d1, of p d] Cons.prems(2,3) len by auto
  have "prog_at m1 (ph + 32 + 32 * of_nat j) = segs ! j" if j: "j < ?n" for j
  proof -
    have b: "unat (ph + 32 + 32 * of_nat j) = unat ph + 32 + 32 * j" using un j by simp
    have "same_bytes m1 m (unat (ph + 32 + 32 * of_nat j)) 32"
      unfolding same_bytes_def b
    proof (intro allI impI l(4))
      fix a :: u32 assume "unat ph + 32 + 32 * j \<le> unat a" "unat a < unat ph + 32 + 32 * j + 32"
      then have "unat a \<in> {unat ph + 32 ..< unat ph + 32 + 32 * ?n}" using j by auto
      then show "unat a \<notin> seg_changes s" using d2 by blast
    qed
    then have "prog_at m1 (ph + 32 + 32 * of_nat j) = prog_at m (ph + 32 + 32 * of_nat j)"
      using b j len by (intro prog_at_same) auto
    also have "\<dots> = segs ! j" using Cons.prems(1) [rule_format, of "Suc j"] j by (simp add: algebra_simps)
    finally show ?thesis .
  qed
  moreover have "sum_list (map seg_cost segs) \<le> ready_count p1" using Cons.prems(3) l(2) by simp
  moreover have "\<forall>t \<in> set segs. {unat (ph + 32) ..< unat (ph + 32) + 32 * ?n} \<inter> seg_changes t = {}"
    using Cons.prems(5) u1 by (auto simp: disjoint_iff)
  ultimately obtain p' m' where r: "load_segments d (ph + 32) (ph + 32 + 32 * of_nat ?n) p1 m1 = Some (p', m')"
      "\<forall>t \<in> set segs. seg_loaded d m' t" "\<And>a. (\<forall>t \<in> set segs. unat a \<notin> seg_changes t) \<Longrightarrow> m' a = m1 a"
    using Cons.IH [of m1 "ph + 32" p1] Cons.prems(2,6) u1 len by auto
  have "seg_loaded d m' s = seg_loaded d m1 s"
    using Cons.prems(6) by (intro seg_loaded_cong r(3)) auto
  moreover have "load_segments d ph (ph + 32 * of_nat (length (s # segs))) p m = Some (p', m')"
    unfolding eph using lt l(1) r(1) by (subst load_segments.simps) simp
  moreover have "m' a = m a" if "\<forall>t \<in> set (s # segs). unat a \<notin> seg_changes t" for a
    using that r(3) [of a] l(4) [of a] by simp
  ultimately show ?case using r(2) l(3) by auto
qed

section \<open>Properties\<close>

text \<open>
  \<open>readseg\<close> loads a part of the kernel image: if the disk gets ready often enough it ends, the \<open>cnt\<close> bytes from \<open>pa\<close> on are those of the image from \<open>off\<close> on,
  and nothing outside of whole sectors around them changes. \<open>seg_ok\<close> says that neither the rounded down address nor the end leaves the
  address space and that the sector numbers fit into 28 bits.
\<close>

theorem readseg_loads:
  assumes "seg_ok (unat pa) (unat cnt) (unat off)" and "2 * seg_sectors (unat pa) (unat cnt) (unat off) \<le> ready_count p"
  shows "\<exists>p' m'. readseg d pa cnt off p m = Some (p', m')
    \<and> (\<forall>a. unat pa \<le> unat a \<longrightarrow> unat a < unat pa + unat cnt \<longrightarrow> m' a = kernel_image d (unat off + (unat a - unat pa)))
    \<and> (\<forall>a. unat a \<notin> seg_touched (unat pa) (unat cnt) (unat off) \<longrightarrow> m' a = m a)"
  using readseg_reads [OF assms, of d m] by blast

text \<open>The image as \<open>bootmain\<close> sees its beginning, in the scratch space at 0x10000.\<close>

definition header_view :: "disks \<Rightarrow> bytes" where
  "header_view d = (\<lambda>a. kernel_image d (unat a - 0x10000))"

text \<open>
  C15. \<open>bootmain\<close> starts the kernel of a well-formed image: if the magic number is right, the program headers \<open>segs\<close> lie in the 20 pages read first, loading a segment touches neither these
  pages nor a segment loaded before, and the disk gets ready often enough, then the loader jumps to the entry point of the header with every segment in memory, its file bytes at its
  physical address and zeros behind them.
\<close>

theorem bootmain_loads:
  assumes elf: "elf = elf_at (header_view d) 0x10000" "e_magic elf = ELF_MAGIC" "unat (e_phnum elf) = length segs"
    and ph: "\<forall>j < length segs. prog_at (header_view d) (0x10000 + e_phoff elf + 32 * of_nat j) = segs ! j"
      "unat (e_phoff elf) + 32 * length segs \<le> 81920"
    and ok: "\<forall>s \<in> set segs. seg_loadable s" "\<forall>s \<in> set segs. {0x10000 ..< 0x24000} \<inter> seg_changes s = {}"
      "sorted_wrt (\<lambda>s t. seg_covers s \<inter> seg_changes t = {}) segs"
    and rd: "320 + sum_list (map seg_cost segs) \<le> ready_count p"
  shows "\<exists>m'. bootmain d p m = Some (Inr (e_entry elf, m')) \<and> (\<forall>s \<in> set segs. seg_loaded d m' s)"
proof -
  have so: "seg_ok (unat (0x10000 :: u32)) (unat (4096 * 20 :: u32)) (unat (0 :: u32))" by (simp add: seg_ok_def)
  have sec: "seg_sectors (unat (0x10000 :: u32)) (unat (4096 * 20 :: u32)) (unat (0 :: u32)) = 160" by (simp add: seg_sectors_def sectors_def)
  obtain p1 m1 where r: "readseg d 0x10000 (4096 * 20) 0 p m = Some (p1, m1)" "ready_count p1 = ready_count p - 320"
      "\<And>a. 0x10000 \<le> unat a \<Longrightarrow> unat a < 0x24000 \<Longrightarrow> m1 a = header_view d a"
    using readseg_reads [OF so, of p d m] rd unfolding sec by (auto simp: header_view_def)
  have sb: "same_bytes m' (header_view d) (unat b) n"
    if "unat b + n \<le> 0x24000" "0x10000 \<le> unat b" "\<And>a. 0x10000 \<le> unat a \<Longrightarrow> unat a < 0x24000 \<Longrightarrow> m' a = header_view d a" for m' b n
    using that unfolding same_bytes_def by simp
  have el: "elf_at m' 0x10000 = elf" if "\<And>a. 0x10000 \<le> unat a \<Longrightarrow> unat a < 0x24000 \<Longrightarrow> m' a = header_view d a" for m'
    unfolding elf(1) by (rule elf_at_same [OF sb [OF _ _ that]]) simp_all
  have rd1: "sum_list (map seg_cost segs) \<le> ready_count p1" using rd r(2) by linarith
  define ph0 where "ph0 = 0x10000 + e_phoff elf"
  have u0: "unat ph0 = 0x10000 + unat (e_phoff elf)" using ph(2) by (simp add: ph0_def unat_word_ariths)
  have "prog_at m1 (ph0 + 32 * of_nat j) = segs ! j" if j: "j < length segs" for j
  proof -
    have b: "unat (ph0 + 32 * of_nat j) = unat ph0 + 32 * j" using ph(2) j u0 by (simp add: unat_word_ariths unat_of_nat)
    have "prog_at m1 (ph0 + 32 * of_nat j) = prog_at (header_view d) (ph0 + 32 * of_nat j)"
      using b u0 ph(2) j r(3) by (intro prog_at_same sb) auto
    then show ?thesis using ph(1) j by (simp add: ph0_def)
  qed
  moreover have "{unat ph0 ..< unat ph0 + 32 * length segs} \<inter> seg_changes s = {}" if "s \<in> set segs" for s
  proof -
    have "{unat ph0 ..< unat ph0 + 32 * length segs} \<subseteq> {0x10000 ..< 0x24000}" using u0 ph(2) by auto
    then show ?thesis using ok(2) that by blast
  qed
  ultimately obtain p' m' where l: "load_segments d ph0 (ph0 + 32 * of_nat (length segs)) p1 m1 = Some (p', m')" "\<forall>s \<in> set segs. seg_loaded d m' s"
      "\<And>a. (\<forall>s \<in> set segs. unat a \<notin> seg_changes s) \<Longrightarrow> m' a = m1 a"
    using load_segments_loads [of segs m1 ph0 p1 d] ok(1,3) rd1 u0 ph(2) by auto
  have "m' a = header_view d a" if "0x10000 \<le> unat a" "unat a < 0x24000" for a
  proof -
    have "unat a \<in> {0x10000 ..< 0x24000}" using that by simp
    then show ?thesis using l(3) [of a] r(3) [OF that] ok(2) by (metis IntI empty_iff)
  qed
  then have e': "elf_at m' 0x10000 = elf" by (rule el)
  have e1: "elf_at m1 0x10000 = elf" by (rule el [OF r(3)])
  have n: "ucast (e_phnum elf) = (of_nat (length segs) :: u32)"
    unfolding elf(3) [symmetric] by (simp add: word_unat_eq_iff unsigned_ucast_eq unat_of_nat take_bit_eq_mod)
  show ?thesis
    using r(1) l(1,2) e1 e' elf(2) n by (simp add: bootmain_def Let_def ph0_def)
qed

section \<open>Example\<close>

text \<open>An image with one segment of 3 bytes in the file and 5 in memory.\<close>

definition boot_bytes :: "nat \<Rightarrow> u8" where
  "boot_bytes = (\<lambda>_. 0)(0 := 0x7F, 1 := 0x45, 2 := 0x4C, 3 := 0x46, 26 := 0x10, 28 := 52, 44 := 1,
     57 := 0x10, 66 := 0x10, 68 := 3, 72 := 5, 0x1000 := 0xAA, 0x1001 := 0xBB, 0x1002 := 0xCC)"

definition boot_disks :: disks where
  "boot_disks = (\<lambda>_ lba j. boot_bytes ((unat lba - 1) * 512 + j))"

definition boot_seg :: prog_t where
  "boot_seg = \<lparr>ph_type = 0, ph_off = 0x1000, ph_vaddr = 0, ph_paddr = 0x100000, ph_filesz = 3, ph_memsz = 5, ph_flags = 0, ph_align = 0\<rparr>"

lemma boot_image: "i < 4096000 \<Longrightarrow> kernel_image boot_disks i = boot_bytes i"
proof -
  assume "i < 4096000"
  then have "i div 512 < 8000" by (simp add: less_mult_imp_div_less)
  then have "unat (1 + of_nat (i div 512) :: u32) = 1 + i div 512" by (simp add: unat_word_ariths unat_of_nat)
  then show ?thesis by (simp add: kernel_image_def boot_disks_def)
qed

lemma boot_header:
  "elf_at (header_view boot_disks) 0x10000 = \<lparr>e_magic = ELF_MAGIC, e_type = 0, e_machine = 0, e_version = 0, e_entry = 0x100000,
     e_phoff = 52, e_shoff = 0, e_flags = 0, e_ehsize = 0, e_phentsize = 0, e_phnum = 1, e_shentsize = 0, e_shnum = 0, e_shstrndx = 0\<rparr>"
  "prog_at (header_view boot_disks) 0x10034 = boot_seg"
  by (simp_all add: elf_at_def prog_at_def rd32_def rd16_def header_view_def boot_image boot_seg_def) (simp_all add: boot_bytes_def push_bit_eq_mult)

lemma boot_seg_sets:
  "seg_covers boot_seg = {0x100000 ..< 0x100003} \<union> {0x100003 ..< 0x100005}"
  "seg_changes boot_seg = {0x100000 ..< 0x100200} \<union> ({0x100000 ..< 0x100003} \<union> {0x100003 ..< 0x100005})"
  "seg_cost boot_seg = 2" "seg_loadable boot_seg"
  by (simp_all add: seg_covers_def seg_changes_def seg_touched_def seg_cost_def seg_sectors_def sectors_def seg_loadable_def seg_ok_def boot_seg_def)

theorem bootmain_loads_witness:
  "\<exists>m'. bootmain boot_disks (replicate 400 0x40) (\<lambda>_. 0xFF) = Some (Inr (0x100000, m')) \<and> m' 0x100001 = 0xBB \<and> m' 0x100004 = 0"
proof -
  have "ready_count (replicate 400 0x40) = 400" by (simp add: filter_replicate)
  moreover have "{0x10000 ..< 0x24000} \<inter> ({0x100000 ..< 0x100200} \<union> ({0x100000 ..< 0x100003} \<union> {0x100003 ..< 0x100005})) = ({} :: nat set)"
    by (auto simp: disjoint_iff)
  ultimately have "\<exists>m'. bootmain boot_disks (replicate 400 0x40) (\<lambda>_. 0xFF) = Some (Inr (0x100000, m')) \<and> seg_loaded boot_disks m' boot_seg"
    using bootmain_loads [OF refl, of boot_disks "[boot_seg]" "replicate 400 0x40" "\<lambda>_. 0xFF"]
    by (auto simp: boot_header boot_seg_sets)
  then obtain m' where m': "bootmain boot_disks (replicate 400 0x40) (\<lambda>_. 0xFF) = Some (Inr (0x100000, m'))" "seg_loaded boot_disks m' boot_seg" by blast
  have "m' 0x100001 = boot_bytes 0x1001" "m' 0x100004 = 0"
    using m'(2) unfolding seg_loaded_def by (simp_all add: boot_seg_def boot_image)
  then show ?thesis using m'(1) by (simp add: boot_bytes_def)
qed

theorem readseg_loads_witness:
  "\<exists>p' m'. readseg boot_disks 0x200010 3 0x1000 [0x40, 0x80, 0x40] (\<lambda>_. 0) = Some (p', m') \<and> m' 0x200012 = 0xCC"
  using readseg_loads [of "0x200010" 3 "0x1000" "[0x40, 0x80, 0x40]" boot_disks "\<lambda>_. 0"]
  by (auto simp: seg_ok_def seg_sectors_def sectors_def boot_image boot_bytes_def)

end
