(* ===== verification/Debug.thy ===== *)
theory Debug
  imports Boot
begin

text \<open>
  Symbol tables and backtraces: \<open>debug_/debug.c\<close> on a flat memory of bytes. The image of the kernel lies at 0xC0010000, where \<open>bootmain\<close> read its first 20 pages.
  The arrays of variable length in \<open>init_elf_tables\<close> are at addresses the compiler chooses; the record \<open>arrays\<close> names them, and the two literals.
  What the functions print is the list of the printed values, or left out when it has no meaning for the tables.
\<close>

section \<open>Headers\<close>

record sec_t =
  sh_name :: u32
  sh_type :: u32
  sh_flag :: u32
  sh_addr :: u32
  sh_offset :: u32
  sh_size :: u32
  sh_link :: u32
  sh_info :: u32
  sh_addralign :: u32
  sh_entsize :: u32

abbreviation sizeof_sec_t :: u32 where "sizeof_sec_t \<equiv> 40"

definition sec_at :: "bytes \<Rightarrow> u32 \<Rightarrow> sec_t" where
  "sec_at m a =
     \<lparr>sh_name = rd32 m a, sh_type = rd32 m (a + 4), sh_flag = rd32 m (a + 8), sh_addr = rd32 m (a + 12), sh_offset = rd32 m (a + 16),
      sh_size = rd32 m (a + 20), sh_link = rd32 m (a + 24), sh_info = rd32 m (a + 28), sh_addralign = rd32 m (a + 32), sh_entsize = rd32 m (a + 36)\<rparr>"

record symtable_t =
  st_name :: u32
  st_value :: u32
  st_size :: u32
  st_info :: u8
  st_other :: u8
  st_shndx :: u16

abbreviation sizeof_symtable_t :: u32 where "sizeof_symtable_t \<equiv> 16"

definition sym_at :: "bytes \<Rightarrow> u32 \<Rightarrow> symtable_t" where
  "sym_at m a =
     \<lparr>st_name = rd32 m a, st_value = rd32 m (a + 4), st_size = rd32 m (a + 8), st_info = m (a + 12), st_other = m (a + 13), st_shndx = rd16 m (a + 14)\<rparr>"

section \<open>The code\<close>

record debug =
  dmem :: bytes
  elf_hdr :: u32
  sec_ptr :: u32
  sec_num :: i32
  prog_ptr :: u32
  prog_num :: i32
  symtable_ptr :: u32
  symtable_num :: i32
  strtab_ptr :: u32
  symtab_offset :: u32
  strtab_offset :: u32
  symtab_size :: u32
  strtab_size :: u32

record arrays =
  sec_hdr :: u32
  prog_hdr :: u32
  symtab_hdr :: u32
  strtab :: u32
  lit_symtab :: u32
  lit_strtab :: u32

fun small_fgets_loop :: "nat \<Rightarrow> u32 \<Rightarrow> u32 \<Rightarrow> bytes \<Rightarrow> bytes" where
  "small_fgets_loop 0 dest bgn m = m"
| "small_fgets_loop (Suc n) dest bgn m = small_fgets_loop n (dest + 1) (bgn + 1) (m(dest := m bgn))"

definition small_fgets :: "u32 \<Rightarrow> i32 \<Rightarrow> i32 \<Rightarrow> u32 \<Rightarrow> bytes \<Rightarrow> bytes" where
  "small_fgets dest offset sz src m = small_fgets_loop (nat (sint sz)) dest (src + offset) m"

text \<open>The address \<open>0x10000 + VERTUAL_MEM\<close>.\<close>

abbreviation page_buf :: u32 where "page_buf \<equiv> 0xC0010000"

text \<open>
  The loops over the section headers and the program headers: \<open>num\<close> and \<open>ent\<close> are \<open>e_shnum\<close> and \<open>e_shentsize\<close>, or \<open>e_phnum\<close> and \<open>e_phentsize\<close>, and
  \<open>sz\<close> the size of an element of the array at \<open>arr\<close>.
\<close>

function copy_headers :: "(elf_t \<Rightarrow> u16) \<Rightarrow> (elf_t \<Rightarrow> u16) \<Rightarrow> u32 \<Rightarrow> u32 \<Rightarrow> nat \<Rightarrow> i32 \<Rightarrow> bytes \<Rightarrow> bytes" where
  "copy_headers num ent arr sz i offset m =
     (if i < unat (num (elf_at m page_buf)) then
        let m = small_fgets (arr + sz * of_nat i) offset (ucast (ent (elf_at m page_buf))) page_buf m;
            offset = offset + ucast (ent (elf_at m page_buf))
        in copy_headers num ent arr sz (i + 1) offset m
      else m)"
  by pat_completeness auto
termination
proof (relation "measure (\<lambda>(num, ent, arr, sz, i, offset, m). 65536 - i)")
  fix num :: "elf_t \<Rightarrow> u16" and ent arr sz and i :: nat and offset m x xa
  assume "i < unat (num (elf_at m page_buf))"
  moreover have "unat (num (elf_at m page_buf)) < 65536" using unsigned_less [of "num (elf_at m page_buf)"] by simp
  ultimately show "((num, ent, arr, sz, i + 1, xa, x), num, ent, arr, sz, i, offset, m) \<in> measure (\<lambda>(num, ent, arr, sz, i, offset, m). 65536 - i)"
    by simp
qed simp

declare copy_headers.simps [simp del]

definition find_table :: "arrays \<Rightarrow> u32 \<Rightarrow> nat \<Rightarrow> debug \<Rightarrow> debug option" where
  "find_table arr shstrtab_offset i s =
     do {
       let sec = sec_at (dmem s) (sec_hdr arr + sizeof_sec_t * of_nat i);
       c \<leftarrow> strcmp (dmem s) (lit_symtab arr) (page_buf + shstrtab_offset + sh_name sec);
       let s = (if c = 0 then s\<lparr>symtab_offset := sh_offset sec, symtab_size := sh_size sec\<rparr> else s);
       c \<leftarrow> strcmp (dmem s) (lit_strtab arr) (page_buf + shstrtab_offset + sh_name sec);
       Some (if c = 0 then s\<lparr>strtab_offset := sh_offset sec, strtab_size := sh_size sec\<rparr> else s)
     }"

fun find_tables :: "arrays \<Rightarrow> u32 \<Rightarrow> nat \<Rightarrow> nat \<Rightarrow> debug \<Rightarrow> debug option" where
  "find_tables arr shstrtab_offset i 0 s = Some s"
| "find_tables arr shstrtab_offset i (Suc n) s =
     do {
       s \<leftarrow> find_table arr shstrtab_offset i s;
       find_tables arr shstrtab_offset (i + 1) n s
     }"

text \<open>The first part of \<open>init_elf_tables\<close>: the header, the sections and the program headers.\<close>

definition load_headers :: "arrays \<Rightarrow> debug \<Rightarrow> debug" where
  "load_headers arr s =
     (let s = s\<lparr>elf_hdr := 0x10000 + VERTUAL_MEM\<rparr>;
          s = s\<lparr>sec_ptr := sec_hdr arr, sec_num := ucast (e_shnum (elf_at (dmem s) (elf_hdr s)))\<rparr>;
          s = s\<lparr>dmem := copy_headers e_shnum e_shentsize (sec_hdr arr) sizeof_sec_t 0 (e_shoff (elf_at (dmem s) (elf_hdr s))) (dmem s)\<rparr>;
          s = s\<lparr>prog_ptr := prog_hdr arr, prog_num := ucast (e_phnum (elf_at (dmem s) (elf_hdr s)))\<rparr>
      in if e_phoff (elf_at (dmem s) (elf_hdr s)) \<noteq> 0
         then s\<lparr>dmem := copy_headers e_phnum e_phentsize (prog_hdr arr) sizeof_prog_t 0 (e_phoff (elf_at (dmem s) (elf_hdr s))) (dmem s)\<rparr>
         else s)"

definition init_elf_tables :: "arrays \<Rightarrow> debug \<Rightarrow> debug option" where
  "init_elf_tables arr s =
     (let s = load_headers arr s;
          hdr = elf_at (dmem s) (elf_hdr s);
          shstrtab_offset = sh_offset (sec_at (dmem s) (sec_hdr arr + sizeof_sec_t * ucast (e_shstrndx hdr)))
      in do {
        s \<leftarrow> find_tables arr shstrtab_offset 1 (unat (e_shnum hdr) - 1) s;
        let s = s\<lparr>symtable_num := symtab_size s div sizeof_symtable_t, symtable_ptr := symtab_hdr arr\<rparr>;
            s = s\<lparr>dmem := small_fgets (symtab_hdr arr) (symtab_offset s) (symtab_size s) page_buf (dmem s)\<rparr>;
            s = s\<lparr>strtab_ptr := strtab arr\<rparr>
        in Some (s\<lparr>dmem := small_fgets (strtab arr) (strtab_offset s) (strtab_size s) page_buf (dmem s)\<rparr>)
      })"

fun get_func_name_loop :: "nat \<Rightarrow> nat \<Rightarrow> u32 \<Rightarrow> debug \<Rightarrow> u32" where
  "get_func_name_loop 0 i addr s = NULL"
| "get_func_name_loop (Suc n) i addr s =
     (let y = sym_at (dmem s) (symtable_ptr s + sizeof_symtable_t * of_nat i)
      in if st_value y \<le> addr \<and> addr < st_value y + st_size y then strtab_ptr s + st_name y
         else get_func_name_loop n (i + 1) addr s)"

definition get_func_name :: "u32 \<Rightarrow> debug \<Rightarrow> u32" where
  "get_func_name addr s = get_func_name_loop (nat (sint (symtable_num s))) 0 addr s"

text \<open>The printed lines, each a return address and the name of its function.\<close>

partial_function (option) backtrace_loop :: "debug \<Rightarrow> u32 \<Rightarrow> (u32 \<times> u32) list option" where
  "backtrace_loop s ebp =
     (if ebp \<noteq> 0 then
        let return_addr = rd32 (dmem s) (ebp + 4);
            func_name = get_func_name return_addr s;
            line = (if func_name \<noteq> NULL \<and> VERTUAL_MEM \<le> return_addr then [(return_addr, func_name)] else [])
        in do {
          rest \<leftarrow> backtrace_loop s (rd32 (dmem s) ebp);
          Some (line @ rest)
        }
      else Some [])"

definition print_backtrace :: "u32 \<Rightarrow> debug \<Rightarrow> (u32 \<times> u32) list option" where
  "print_backtrace ebp s = backtrace_loop s ebp"

section \<open>Looking up a function\<close>

definition symbols :: "debug \<Rightarrow> symtable_t list" where
  "symbols s = map (\<lambda>i. sym_at (dmem s) (symtable_ptr s + sizeof_symtable_t * of_nat i)) [0 ..< nat (sint (symtable_num s))]"

definition covers :: "u32 \<Rightarrow> symtable_t \<Rightarrow> bool" where
  "covers addr y \<longleftrightarrow> st_value y \<le> addr \<and> addr < st_value y + st_size y"

lemma get_func_name_loop_find:
  "get_func_name_loop n i addr s =
     (case find (covers addr) (map (\<lambda>i. sym_at (dmem s) (symtable_ptr s + sizeof_symtable_t * of_nat i)) [i ..< i + n]) of
        None \<Rightarrow> NULL | Some y \<Rightarrow> strtab_ptr s + st_name y)"
proof (induction n arbitrary: i)
  case (Suc n)
  have "[i ..< i + Suc n] = i # [i + 1 ..< i + 1 + n]" by (simp add: upt_rec)
  then show ?case using Suc.IH [of "i + 1"] by (simp add: Let_def covers_def)
qed simp

lemma get_func_name_find:
  "get_func_name addr s = (case find (covers addr) (symbols s) of None \<Rightarrow> NULL | Some y \<Rightarrow> strtab_ptr s + st_name y)"
  using get_func_name_loop_find [of "nat (sint (symtable_num s))" 0 addr s] by (simp add: get_func_name_def symbols_def)

text \<open>The chain of stack frames: each holds the frame pointer of its caller and, above it, the return address.\<close>

fun stack_chain :: "bytes \<Rightarrow> u32 \<Rightarrow> u32 list \<Rightarrow> bool" where
  "stack_chain m ebp [] \<longleftrightarrow> ebp = 0"
| "stack_chain m ebp (r # rs) \<longleftrightarrow> ebp \<noteq> 0 \<and> rd32 m (ebp + 4) = r \<and> stack_chain m (rd32 m ebp) rs"

lemma backtrace_loop_chain:
  "stack_chain (dmem s) ebp rs \<Longrightarrow> backtrace_loop s ebp =
     Some (map (\<lambda>r. (r, get_func_name r s)) (filter (\<lambda>r. get_func_name r s \<noteq> NULL \<and> VERTUAL_MEM \<le> r) rs))"
  by (induction rs arbitrary: ebp) (subst backtrace_loop.simps, simp add: Let_def)+

section \<open>Copying parts of the image\<close>

lemma small_fgets_loop_memcpy: "small_fgets_loop n dest bgn m = memcpy_loop n dest bgn m"
  by (induction n arbitrary: dest bgn m) simp_all

definition apart :: "nat \<times> nat \<Rightarrow> nat \<times> nat \<Rightarrow> bool" where
  "apart r q \<longleftrightarrow> fst r + snd r \<le> fst q \<or> fst q + snd q \<le> fst r"

lemma apart_distance:
  fixes dst src :: u32
  assumes "apart (unat dst, n) (unat src, n)" and "unat dst + n \<le> 4294967296" and "unat src + n \<le> 4294967296"
  shows "dst = src \<or> n \<le> unat (dst - src)"
proof (cases "src \<le> dst")
  case True
  then have "unat (dst - src) = unat dst - unat src" by (simp add: unat_sub)
  then show ?thesis using assms True by (auto simp: apart_def word_le_nat_alt)
next
  case False
  then have "unat (dst - src) = unat dst + 4294967296 - unat src" by (simp add: unat_sub_if_size word_le_nat_alt word_size)
  then show ?thesis using assms False by (auto simp: apart_def word_le_nat_alt)
qed

lemma small_fgets_copies:
  assumes "apart (unat dest, unat sz) (unat (src + offset), unat sz)" and "unat dest + unat sz \<le> 4294967296" and "unat (src + offset) + unat sz \<le> 4294967296"
    and "unat sz < 2147483648"
  shows "small_fgets dest offset sz src m a =
    (if unat dest \<le> unat a \<and> unat a < unat dest + unat sz then m (src + offset + (a - dest)) else m a)"
  using memcpy_loop_copies [of "unat sz" dest "src + offset" m a] apart_distance [OF assms(1-3)] assms(4) word_range [OF assms(2), of a]
  by (simp add: small_fgets_def small_fgets_loop_memcpy nat_sint_small)

lemma unat_image: "unat off + n \<le> 0x14000 \<Longrightarrow> unat k < n \<Longrightarrow> unat (page_buf + off + k) = 0xC0010000 + unat off + unat k"
  by (simp add: unat_word_ariths)

lemma unat_image0: "unat off \<le> 0x14000 \<Longrightarrow> unat (page_buf + off) = 0xC0010000 + unat off"
  by (simp add: unat_word_ariths)

lemma copy_headers_copies:
  assumes "unat (num (elf_at m page_buf)) = N" and "ucast (ent (elf_at m page_buf)) = sz" and "unat sz = z" and "0 < z" and "i \<le> N"
    and "unat off + z * (N - i) \<le> 0x14000" and "apart (unat arr, z * N) (0xC0010000, 0x14000)" and "unat arr + z * N \<le> 4294967296"
  shows "copy_headers num ent arr sz i off m a =
    (if unat arr + z * i \<le> unat a \<and> unat a < unat arr + z * N then m (page_buf + off + (a - (arr + sz * of_nat i))) else m a)"
  using assms
proof (induction "N - i" arbitrary: i off m)
  case 0
  then show ?case by (subst copy_headers.simps) auto
next
  case (Suc d)
  then have i: "i < N" by simp
  define dst where "dst = arr + sz * of_nat i"
  define m1 where "m1 = small_fgets dst off sz page_buf m"
  obtain k where k: "N = Suc (i + k)" using i less_imp_Suc_add by blast
  have ar: "z * i + z + z * k = z * N" "z + z * k = z * (N - i)" by (simp_all add: k algebra_simps)
  have lt: "unat arr + z * i < 4294967296" using Suc.prems(8,4) ar by linarith
  have "i \<le> z * i" using Suc.prems(4) by simp
  then have "i < 4294967296" using lt by linarith
  then have u: "unat dst = unat arr + z * i" using lt Suc.prems(3) by (simp add: dst_def unat_word_ariths unat_of_nat)
  have ui: "unat (page_buf + off) = 0xC0010000 + unat off" using Suc.prems(6) by (intro unat_image0) simp
  have m1: "m1 a = (if unat dst \<le> unat a \<and> unat a < unat dst + z then m (page_buf + off + (a - dst)) else m a)" for a
    unfolding m1_def Suc.prems(3) [symmetric]
    by (rule small_fgets_copies) (use Suc.prems ar u ui in \<open>auto simp: apart_def\<close>)
  have im: "m1 x = m x" if "0xC0010000 \<le> unat x" "unat x < 0xC0010000 + 0x14000" for x
    using m1 [of x] that Suc.prems(7) ar u by (auto simp: apart_def)
  have el: "elf_at m1 page_buf = elf_at m page_buf"
    by (rule elf_at_same) (auto simp: same_bytes_def im)
  have uo: "unat (off + sz) = unat off + z" using Suc.prems(3,6) ar by (simp add: unat_word_ariths)
  have IH: "copy_headers num ent arr sz (i + 1) (off + sz) m1 a =
      (if unat arr + z * (i + 1) \<le> unat a \<and> unat a < unat arr + z * N then m1 (page_buf + (off + sz) + (a - (arr + sz * of_nat (i + 1)))) else m1 a)"
  proof (rule Suc.hyps(1))
    show "d = N - (i + 1)" "i + 1 \<le> N" using Suc.hyps(2) i by linarith+
    show "unat (num (elf_at m1 page_buf)) = N" "ucast (ent (elf_at m1 page_buf)) = sz" unfolding el by (fact Suc.prems)+
    have "z * (N - (i + 1)) = z * k" by (simp add: k)
    then show "unat (off + sz) + z * (N - (i + 1)) \<le> 0x14000" using Suc.prems(6) uo ar by linarith
  qed (fact Suc.prems)+
  have st: "copy_headers num ent arr sz i off m a = copy_headers num ent arr sz (i + 1) (off + sz) m1 a"
    using i Suc.prems(1,2) by (subst copy_headers.simps) (simp add: Let_def m1_def dst_def el [unfolded m1_def dst_def])
  have sh: "page_buf + (off + sz) + (a - (arr + sz * of_nat (i + 1))) = page_buf + off + (a - dst)"
    by (simp add: dst_def algebra_simps)
  have nx: "m1 (page_buf + off + (a - dst)) = m (page_buf + off + (a - dst))"
    if "unat dst \<le> unat a" "unat a < unat dst + (z + z * k)"
  proof -
    have "unat (a - dst) = unat a - unat dst" using that by (simp add: unat_sub word_le_nat_alt)
    then have "unat (page_buf + off + (a - dst)) = 0xC0010000 + unat off + (unat a - unat dst)"
      using that ar Suc.prems(6) by (subst unat_image [where n = "z + z * k"]) auto
    then show ?thesis using that ar Suc.prems(6) by (intro im) auto
  qed
  show ?case
  proof (cases "unat arr + z * i \<le> unat a \<and> unat a < unat arr + z * N")
    case True
    have zi: "z * (i + 1) = z * i + z" by simp
    from True have "unat dst \<le> unat a" "unat a < unat dst + (z + z * k)" using u ar by linarith+
    from nx [OF this] True show ?thesis unfolding st IH sh dst_def [symmetric] m1 [of a] zi using u by auto
  next
    case False
    have zi: "z * (i + 1) = z * i + z" by simp
    from False have "\<not> (unat dst \<le> unat a \<and> unat a < unat dst + z)" "\<not> (unat arr + z * (i + 1) \<le> unat a \<and> unat a < unat arr + z * N)"
      unfolding zi using u ar by linarith+
    then show ?thesis unfolding st IH sh m1 [of a] using False by (simp only: if_False)
  qed
qed

section \<open>Blocks of memory\<close>

text \<open>
  \<open>copied m' a m b n\<close>: the \<open>n\<close> bytes at \<open>a\<close> of \<open>m'\<close> are those at \<open>b\<close> of \<open>m\<close>. \<open>changed_at r m m'\<close>: the memories agree outside the region \<open>r\<close>, a start and a length.
\<close>

definition copied :: "bytes \<Rightarrow> u32 \<Rightarrow> bytes \<Rightarrow> u32 \<Rightarrow> nat \<Rightarrow> bool" where
  "copied m' a m b n \<longleftrightarrow> (\<forall>k. unat k < n \<longrightarrow> m' (a + k) = m (b + k))"

definition changed_at :: "nat \<times> nat \<Rightarrow> bytes \<Rightarrow> bytes \<Rightarrow> bool" where
  "changed_at r m m' \<longleftrightarrow> (\<forall>x. \<not> (fst r \<le> unat x \<and> unat x < fst r + snd r) \<longrightarrow> m' x = m x)"

lemma copied_part: "copied m' a m b n \<Longrightarrow> unat off + k \<le> n \<Longrightarrow> n \<le> 4294967296 \<Longrightarrow> copied m' (a + off) m (b + off) k"
  unfolding copied_def
proof (intro allI impI)
  fix i :: u32 assume *: "\<forall>k. unat k < n \<longrightarrow> m' (a + k) = m (b + k)" "unat off + k \<le> n" "n \<le> 4294967296" "unat i < k"
  then have "unat (off + i) < n" by (simp add: unat_word_ariths)
  with * show "m' (a + off + i) = m (b + off + i)" by (simp add: add.assoc)
qed

lemma copied_trans: "copied m'' a m' b n \<Longrightarrow> copied m' b m c n \<Longrightarrow> copied m'' a m c n"
  by (simp add: copied_def)

lemma changed_copied:
  assumes "changed_at r m m'" and "apart (unat a, n) r" and "unat a + n \<le> 4294967296"
  shows "copied m' a m a n"
  unfolding copied_def
proof (intro allI impI)
  fix k :: u32 assume "unat k < n"
  then have "unat (a + k) = unat a + unat k" using assms(3) by (simp add: unat_word_ariths)
  then show "m' (a + k) = m (a + k)" using assms(1,2) \<open>unat k < n\<close> by (auto simp: changed_at_def apart_def)
qed

lemma copied_apply: "copied m' a m b n \<Longrightarrow> unat k < n \<Longrightarrow> m' (a + k) = m (b + k)"
  by (simp add: copied_def)

lemma copied_headers:
  "copied m' a m b 40 \<Longrightarrow> sec_at m' a = sec_at m b"
  "copied m' a m b 16 \<Longrightarrow> sym_at m' a = sym_at m b"
  "copied m' a m b 52 \<Longrightarrow> elf_at m' a = elf_at m b"
proof -
  assume "copied m' a m b 40"
  note eq = copied_apply [OF this]
  show "sec_at m' a = sec_at m b" using eq [of 0] by (simp add: sec_at_def rd32_def add.assoc eq)
next
  assume "copied m' a m b 16"
  note eq = copied_apply [OF this]
  show "sym_at m' a = sym_at m b" using eq [of 0] by (simp add: sym_at_def rd32_def rd16_def add.assoc eq)
next
  assume "copied m' a m b 52"
  note eq = copied_apply [OF this]
  show "elf_at m' a = elf_at m b" using eq [of 0] by (simp add: elf_at_def rd32_def rd16_def add.assoc eq)
qed

lemma copied_cstring: "copied m' a m b (length xs + 1) \<Longrightarrow> length xs < 4294967296 \<Longrightarrow> cstring m' a xs = cstring m b xs"
proof (induction xs arbitrary: a b)
  case Nil
  then show ?case using copied_apply [of m' a m b 1 0] by simp
next
  case (Cons x xs)
  have "copied m' (a + 1) m (b + 1) (length xs + 1)" using Cons.prems by (intro copied_part [where n = "length (x # xs) + 1"]) simp_all
  moreover have "m' a = m b" using copied_apply [OF Cons.prems(1), of 0] by simp
  ultimately show ?case using Cons.IH Cons.prems(2) by simp
qed

lemma small_fgets_copied:
  assumes "apart (unat dest, unat sz) (unat (src + offset), unat sz)" and "unat dest + unat sz \<le> 4294967296" and "unat (src + offset) + unat sz \<le> 4294967296"
    and "unat sz < 2147483648"
  shows "copied (small_fgets dest offset sz src m) dest m (src + offset) (unat sz)"
    and "changed_at (unat dest, unat sz) m (small_fgets dest offset sz src m)"
proof -
  show "changed_at (unat dest, unat sz) m (small_fgets dest offset sz src m)"
    by (auto simp: changed_at_def small_fgets_copies [OF assms])
  show "copied (small_fgets dest offset sz src m) dest m (src + offset) (unat sz)"
    unfolding copied_def
  proof (intro allI impI)
    fix k :: u32 assume "unat k < unat sz"
    then have "unat (dest + k) = unat dest + unat k" using assms(2) by (simp add: unat_word_ariths)
    then show "small_fgets dest offset sz src m (dest + k) = m (src + offset + k)"
      using \<open>unat k < unat sz\<close> by (simp add: small_fgets_copies [OF assms])
  qed
qed

lemma copy_headers_copied:
  assumes "unat (num (elf_at m page_buf)) = N" and "ucast (ent (elf_at m page_buf)) = sz" and "unat sz = z" and "0 < z"
    and "unat off + z * N \<le> 0x14000" and "apart (unat arr, z * N) (0xC0010000, 0x14000)" and "unat arr + z * N \<le> 4294967296"
  shows "copied (copy_headers num ent arr sz 0 off m) arr m (page_buf + off) (z * N)"
    and "changed_at (unat arr, z * N) m (copy_headers num ent arr sz 0 off m)"
proof -
  have c: "copy_headers num ent arr sz 0 off m a = (if unat arr \<le> unat a \<and> unat a < unat arr + z * N then m (page_buf + off + (a - arr)) else m a)" for a
    using copy_headers_copies [where num = num and ent = ent and m = m and N = N and sz = sz and z = z and i = 0 and off = off and arr = arr and a = a] assms by simp
  show "changed_at (unat arr, z * N) m (copy_headers num ent arr sz 0 off m)"
    by (auto simp: changed_at_def c)
  show "copied (copy_headers num ent arr sz 0 off m) arr m (page_buf + off) (z * N)"
    unfolding copied_def
  proof (intro allI impI)
    fix k :: u32 assume "unat k < z * N"
    then have "unat (arr + k) = unat arr + unat k" using assms(7) by (simp add: unat_word_ariths)
    then show "copy_headers num ent arr sz 0 off m (arr + k) = m (page_buf + off + k)"
      using \<open>unat k < z * N\<close> by (simp add: c)
  qed
qed

section \<open>The image\<close>

definition SYMTAB :: "u8 list" where "SYMTAB = [46, 115, 121, 109, 116, 97, 98]"

definition STRTAB :: "u8 list" where "STRTAB = [46, 115, 116, 114, 116, 97, 98]"

lemma length_tabs: "length SYMTAB + 1 = 8" "length STRTAB + 1 = 8"
  by (simp_all add: SYMTAB_def STRTAB_def)

definition image_sec :: "bytes \<Rightarrow> nat \<Rightarrow> sec_t" where
  "image_sec m i = sec_at m (page_buf + e_shoff (elf_at m page_buf) + 40 * of_nat i)"

definition image_strings :: "bytes \<Rightarrow> u32" where
  "image_strings m = sh_offset (image_sec m (unat (e_shstrndx (elf_at m page_buf))))"

definition sections_named :: "bytes \<Rightarrow> (nat \<Rightarrow> u8 list) \<Rightarrow> bool" where
  "sections_named m names \<longleftrightarrow> (\<forall>i < unat (e_shnum (elf_at m page_buf)).
     cstring m (page_buf + image_strings m + sh_name (image_sec m i)) (names i)
     \<and> unat (image_strings m) + unat (sh_name (image_sec m i)) + length (names i) < 0x14000)"

definition only_section :: "nat \<Rightarrow> u8 list \<Rightarrow> (nat \<Rightarrow> u8 list) \<Rightarrow> nat \<Rightarrow> bool" where
  "only_section n lit names a \<longleftrightarrow> 0 < a \<and> a < n \<and> (\<forall>i \<in> {1 ..< n}. strcmp_spec lit (names i) = 0 \<longleftrightarrow> i = a)"

definition section_inside :: "bytes \<Rightarrow> nat \<Rightarrow> bool" where
  "section_inside m i \<longleftrightarrow> unat (sh_offset (image_sec m i)) + unat (sh_size (image_sec m i)) \<le> 0x14000"

definition elf_ok :: "bytes \<Rightarrow> (nat \<Rightarrow> u8 list) \<Rightarrow> nat \<Rightarrow> nat \<Rightarrow> bool" where
  "elf_ok m names a b \<longleftrightarrow>
     (let h = elf_at m page_buf; n = unat (e_shnum h)
      in e_shentsize h = 40 \<and> e_phentsize h = 32 \<and> unat (e_shoff h) + 40 * n \<le> 0x14000 \<and> unat (e_phoff h) + 32 * unat (e_phnum h) \<le> 0x14000
       \<and> unat (e_shstrndx h) < n \<and> sections_named m names \<and> only_section n SYMTAB names a \<and> only_section n STRTAB names b
       \<and> section_inside m a \<and> section_inside m b)"

text \<open>The arrays, the two literals and the image are apart.\<close>

definition array_regions :: "arrays \<Rightarrow> bytes \<Rightarrow> nat \<Rightarrow> nat \<Rightarrow> (nat \<times> nat) list" where
  "array_regions arr m a b =
     [(0xC0010000, 0x14000), (unat (sec_hdr arr), 40 * unat (e_shnum (elf_at m page_buf))), (unat (prog_hdr arr), 32 * unat (e_phnum (elf_at m page_buf))),
      (unat (symtab_hdr arr), unat (sh_size (image_sec m a))), (unat (strtab arr), unat (sh_size (image_sec m b))),
      (unat (lit_symtab arr), 8), (unat (lit_strtab arr), 8)]"

definition arrays_ok :: "arrays \<Rightarrow> bytes \<Rightarrow> nat \<Rightarrow> nat \<Rightarrow> bool" where
  "arrays_ok arr m a b \<longleftrightarrow>
     sorted_wrt apart (array_regions arr m a b) \<and> (\<forall>r \<in> set (array_regions arr m a b). fst r + snd r \<le> 4294967296)
     \<and> lit_symtab arr \<noteq> NULL \<and> lit_strtab arr \<noteq> NULL \<and> cstring m (lit_symtab arr) SYMTAB \<and> cstring m (lit_strtab arr) STRTAB"

lemma find_tables_finds:
  assumes "only_section N SYMTAB names a" and "only_section N STRTAB names b" and "0 < i" and "i + n \<le> N"
    and "lit_symtab arr \<noteq> NULL" and "lit_strtab arr \<noteq> NULL" and "cstring m (lit_symtab arr) SYMTAB" and "cstring m (lit_strtab arr) STRTAB"
    and "\<And>j. j < N \<Longrightarrow> sec_at m (sec_hdr arr + sizeof_sec_t * of_nat j) = secs j"
    and "\<And>j. j < N \<Longrightarrow> cstring m (page_buf + off + sh_name (secs j)) (names j) \<and> page_buf + off + sh_name (secs j) \<noteq> NULL"
    and "dmem s = m"
  shows "find_tables arr off i n s = Some
    (s\<lparr>symtab_offset := if i \<le> a \<and> a < i + n then sh_offset (secs a) else symtab_offset s,
       symtab_size := if i \<le> a \<and> a < i + n then sh_size (secs a) else symtab_size s,
       strtab_offset := if i \<le> b \<and> b < i + n then sh_offset (secs b) else strtab_offset s,
       strtab_size := if i \<le> b \<and> b < i + n then sh_size (secs b) else strtab_size s\<rparr>)"
  using assms(3,4,11)
proof (induction n arbitrary: i s)
  case 0
  have "\<not> (i \<le> x \<and> x < i + 0)" for x by linarith
  then show ?case by (simp only: find_tables.simps if_False) simp
next
  case (Suc n)
  define s1 where "s1 = (if i = a then s\<lparr>symtab_offset := sh_offset (secs i), symtab_size := sh_size (secs i)\<rparr> else s)"
  define s2 where "s2 = (if i = b then s1\<lparr>strtab_offset := sh_offset (secs i), strtab_size := sh_size (secs i)\<rparr> else s1)"
  have i: "i < N" "i \<in> {1 ..< N}" using Suc.prems by auto
  have c: "strcmp m (lit_symtab arr) (page_buf + off + sh_name (secs i)) = Some (strcmp_spec SYMTAB (names i))"
    "strcmp m (lit_strtab arr) (page_buf + off + sh_name (secs i)) = Some (strcmp_spec STRTAB (names i))"
    using strcmp_loop_spec assms(5-8) assms(10) [OF i(1)] by (auto simp: strcmp_def)
  have z: "strcmp_spec SYMTAB (names i) = 0 \<longleftrightarrow> i = a" "strcmp_spec STRTAB (names i) = 0 \<longleftrightarrow> i = b"
    using assms(1,2) i(2) by (auto simp: only_section_def)
  have d: "dmem s1 = m" "dmem s2 = m" using Suc.prems(3) by (simp_all add: s1_def s2_def)
  have "find_table arr off i s = Some s2"
    using Suc.prems(3) c z assms(9) [OF i(1)] by (cases "i = a"; cases "i = b") (simp_all add: find_table_def Let_def s1_def s2_def)
  moreover have "find_tables arr off (i + 1) n s2 = Some
    (s2\<lparr>symtab_offset := if i + 1 \<le> a \<and> a < i + 1 + n then sh_offset (secs a) else symtab_offset s2,
       symtab_size := if i + 1 \<le> a \<and> a < i + 1 + n then sh_size (secs a) else symtab_size s2,
       strtab_offset := if i + 1 \<le> b \<and> b < i + 1 + n then sh_offset (secs b) else strtab_offset s2,
       strtab_size := if i + 1 \<le> b \<and> b < i + 1 + n then sh_size (secs b) else strtab_size s2\<rparr>)"
    using Suc.prems d(2) by (intro Suc.IH) simp_all
  moreover have "i \<le> x \<and> x < i + Suc n \<longleftrightarrow> i = x \<or> i + 1 \<le> x \<and> x < i + 1 + n" for x by linarith
  ultimately show ?case by (cases "i = a"; cases "i = b") (simp_all only: s1_def s2_def find_tables.simps if_True if_False Option.bind.bind_lunit simp_thms, simp_all)
qed


lemma arrays_okD:
  assumes "arrays_ok arr m a b"
  defines "n \<equiv> unat (e_shnum (elf_at m page_buf))" and "p \<equiv> unat (e_phnum (elf_at m page_buf))"
    and "y \<equiv> unat (sh_size (image_sec m a))" and "z \<equiv> unat (sh_size (image_sec m b))"
  shows "apart (0xC0010000, 0x14000) (unat (sec_hdr arr), 40 * n)" "apart (0xC0010000, 0x14000) (unat (prog_hdr arr), 32 * p)"
    "apart (0xC0010000, 0x14000) (unat (symtab_hdr arr), y)" "apart (0xC0010000, 0x14000) (unat (strtab arr), z)"
    "apart (unat (sec_hdr arr), 40 * n) (unat (prog_hdr arr), 32 * p)" "apart (unat (symtab_hdr arr), y) (unat (strtab arr), z)"
    "apart (unat (sec_hdr arr), 40 * n) (unat (lit_symtab arr), 8)" "apart (unat (sec_hdr arr), 40 * n) (unat (lit_strtab arr), 8)"
    "apart (unat (prog_hdr arr), 32 * p) (unat (lit_symtab arr), 8)" "apart (unat (prog_hdr arr), 32 * p) (unat (lit_strtab arr), 8)"
    "unat (sec_hdr arr) + 40 * n \<le> 4294967296" "unat (prog_hdr arr) + 32 * p \<le> 4294967296" "unat (symtab_hdr arr) + y \<le> 4294967296"
    "unat (strtab arr) + z \<le> 4294967296" "unat (lit_symtab arr) + 8 \<le> 4294967296" "unat (lit_strtab arr) + 8 \<le> 4294967296"
  using assms by (simp_all add: arrays_ok_def array_regions_def)

lemma apart_sym: "apart r q \<Longrightarrow> apart q r"
  by (auto simp: apart_def)

lemma apart_mono: "apart r q \<Longrightarrow> fst q \<le> a \<Longrightarrow> a + n \<le> fst q + snd q \<Longrightarrow> apart r (a, n)"
  by (auto simp: apart_def)

text \<open>After the headers have been copied: the section array holds the headers of the image, the image and the literals are as before.\<close>

lemma headers_loaded:
  assumes ok: "elf_ok m names a b" "arrays_ok arr m a b"
  defines "h \<equiv> elf_at m page_buf"
  defines "m1 \<equiv> copy_headers e_shnum e_shentsize (sec_hdr arr) sizeof_sec_t 0 (e_shoff h) m"
  defines "m2 \<equiv> (if e_phoff h \<noteq> 0 then copy_headers e_phnum e_phentsize (prog_hdr arr) sizeof_prog_t 0 (e_phoff h) m1 else m1)"
  shows "elf_at m1 page_buf = h" and "copied m2 page_buf m page_buf 0x14000"
    and "\<And>i. i < unat (e_shnum h) \<Longrightarrow> sec_at m2 (sec_hdr arr + sizeof_sec_t * of_nat i) = image_sec m i"
    and "cstring m2 (lit_symtab arr) SYMTAB" and "cstring m2 (lit_strtab arr) STRTAB"
    and "changed_at (unat (prog_hdr arr), 32 * unat (e_phnum h)) m1 m2" and "changed_at (unat (sec_hdr arr), 40 * unat (e_shnum h)) m m1"
proof -
  note d = arrays_okD [OF ok(2), folded h_def]
  let ?n = "unat (e_shnum h)" and ?p = "unat (e_phnum h)"
  have e: "e_shentsize h = 40" "e_phentsize h = 32" "unat (e_shoff h) + 40 * ?n \<le> 0x14000" "unat (e_phoff h) + 32 * ?p \<le> 0x14000"
    using ok(1) by (simp_all add: elf_ok_def Let_def h_def)
  have m1: "copied m1 (sec_hdr arr) m (page_buf + e_shoff h) (40 * ?n)" "changed_at (unat (sec_hdr arr), 40 * ?n) m m1"
    unfolding m1_def by (rule copy_headers_copied; use e d(1,11) in \<open>simp add: h_def [symmetric] apart_sym\<close>)+
  have im1: "copied m1 page_buf m page_buf 0x14000"
    using changed_copied [OF m1(2), of page_buf "0x14000"] d(1) by simp
  have "copied m1 page_buf m page_buf 52" using copied_part [OF im1, of 0 52] by simp
  then show h1: "elf_at m1 page_buf = h" unfolding h_def by (rule copied_headers(3))
  have ch2: "changed_at (unat (prog_hdr arr), 32 * ?p) m1 m2"
  proof (cases "e_phoff h = 0")
    case True
    then show ?thesis by (simp add: m2_def changed_at_def)
  next
    case False
    have "changed_at (unat (prog_hdr arr), 32 * ?p) m1 (copy_headers e_phnum e_phentsize (prog_hdr arr) sizeof_prog_t 0 (e_phoff h) m1)"
      by (rule copy_headers_copied; use e d(2,12) in \<open>simp add: h1 apart_sym\<close>)
    with False show ?thesis by (simp add: m2_def)
  qed
  show im2: "copied m2 page_buf m page_buf 0x14000"
    using copied_trans [OF changed_copied [OF ch2, of page_buf "0x14000"] im1] d(2) by simp
  have ar: "copied m2 (sec_hdr arr) m (page_buf + e_shoff h) (40 * ?n)"
    using copied_trans [OF changed_copied [OF ch2, of "sec_hdr arr" "40 * ?n"] m1(1)] d(5,11) by simp
  show "sec_at m2 (sec_hdr arr + sizeof_sec_t * of_nat i) = image_sec m i" if "i < ?n" for i
  proof -
    have "unat (40 * of_nat i :: u32) = 40 * i" using that e(3) by (simp add: unat_word_ariths unat_of_nat)
    then have "copied m2 (sec_hdr arr + 40 * of_nat i) m (page_buf + e_shoff h + 40 * of_nat i) 40"
      using that e(3) by (intro copied_part [OF ar]) linarith+
    then show ?thesis unfolding image_sec_def h_def [symmetric] by (rule copied_headers(1))
  qed
  show "changed_at (unat (prog_hdr arr), 32 * ?p) m1 m2" "changed_at (unat (sec_hdr arr), 40 * ?n) m m1" by (fact ch2 m1(2))+
  have lit: "copied m2 x m x 8" if "apart (unat (sec_hdr arr), 40 * ?n) (unat x, 8)" "apart (unat (prog_hdr arr), 32 * ?p) (unat x, 8)" "unat x + 8 \<le> 4294967296" for x
    using copied_trans [OF changed_copied [OF ch2] changed_copied [OF m1(2)], of x 8] that by (simp add: apart_sym)
  have "copied m2 (lit_symtab arr) m (lit_symtab arr) (length SYMTAB + 1)" "copied m2 (lit_strtab arr) m (lit_strtab arr) (length STRTAB + 1)"
    using lit [of "lit_symtab arr"] lit [of "lit_strtab arr"] d by (simp_all only: length_tabs)
  then show "cstring m2 (lit_symtab arr) SYMTAB" "cstring m2 (lit_strtab arr) STRTAB"
    using copied_cstring [of m2 _ m _ SYMTAB] copied_cstring [of m2 _ m _ STRTAB] length_tabs ok(2) by (auto simp: arrays_ok_def)
qed

lemma section_copied:
  assumes "copied m' page_buf m page_buf 0x14000" and "unat off + unat sz \<le> 0x14000" and "apart (0xC0010000, 0x14000) (unat dest, unat sz)" and "unat dest + unat sz \<le> 4294967296"
  shows "copied (small_fgets dest off sz page_buf m') dest m (page_buf + off) (unat sz)"
    and "changed_at (unat dest, unat sz) m' (small_fgets dest off sz page_buf m')"
proof -
  have u: "unat (page_buf + off) = 0xC0010000 + unat off" using assms(2) by (intro unat_image0) simp
  have c: "copied m' (page_buf + off) m (page_buf + off) (unat sz)" using assms(1,2) by (rule copied_part) simp
  have ap: "apart (unat dest, unat sz) (unat (page_buf + off), unat sz)"
    using assms(2) u by (intro apart_mono [OF apart_sym [OF assms(3)]]) simp_all
  have b: "unat (page_buf + off) + unat sz \<le> 4294967296" "unat sz < 2147483648" using u assms(2) by simp_all
  show "copied (small_fgets dest off sz page_buf m') dest m (page_buf + off) (unat sz)"
    by (rule copied_trans [OF small_fgets_copied(1) [OF ap assms(4) b] c])
  show "changed_at (unat dest, unat sz) m' (small_fgets dest off sz page_buf m')"
    by (rule small_fgets_copied(2) [OF ap assms(4) b])
qed

lemma symbols_copied:
  assumes "copied m' base m b n" and "n \<le> 0x14000" and "i < n div 16"
  shows "sym_at m' (base + 16 * of_nat i) = sym_at m (b + 16 * of_nat i)"
proof (rule copied_headers(2))
  have "i < 0x1400" using assms(2,3) by simp
  then have "unat (16 * of_nat i :: u32) = 16 * i" by (simp add: unat_word_ariths unat_of_nat)
  moreover have "16 * i + 16 \<le> n" using assms(3) by simp
  ultimately show "copied m' (base + 16 * of_nat i) m (b + 16 * of_nat i) 16"
    using assms(2) by (intro copied_part [OF assms(1)]) simp_all
qed

lemma init_elf_tables_loads:
  assumes ok: "elf_ok (dmem s) names a b" "arrays_ok arr (dmem s) a b"
  shows "\<exists>s'. init_elf_tables arr s = Some s' \<and> strtab_ptr s' = strtab arr
    \<and> symbols s' = map (\<lambda>i. sym_at (dmem s) (page_buf + sh_offset (image_sec (dmem s) a) + 16 * of_nat i)) [0 ..< unat (sh_size (image_sec (dmem s) a)) div 16]
    \<and> copied (dmem s') (strtab arr) (dmem s) (page_buf + sh_offset (image_sec (dmem s) b)) (unat (sh_size (image_sec (dmem s) b)))
    \<and> (\<forall>x. (\<forall>r \<in> set (tl (array_regions arr (dmem s) a b)). \<not> (fst r \<le> unat x \<and> unat x < fst r + snd r)) \<longrightarrow> dmem s' x = dmem s x)"
proof -
  let ?m = "dmem s" and ?h = "elf_at (dmem s) page_buf"
  let ?A = "image_sec ?m a" and ?B = "image_sec ?m b"
  let ?m1 = "copy_headers e_shnum e_shentsize (sec_hdr arr) sizeof_sec_t 0 (e_shoff ?h) ?m"
  define m2 where "m2 = (if e_phoff ?h \<noteq> 0 then copy_headers e_phnum e_phentsize (prog_hdr arr) sizeof_prog_t 0 (e_phoff ?h) ?m1 else ?m1)"
  define m3 where "m3 = small_fgets (symtab_hdr arr) (sh_offset ?A) (sh_size ?A) page_buf m2"
  define m4 where "m4 = small_fgets (strtab arr) (sh_offset ?B) (sh_size ?B) page_buf m3"
  note hl = headers_loaded [OF ok, folded m2_def] and d = arrays_okD [OF ok(2)]
  have e: "sections_named ?m names" "only_section (unat (e_shnum ?h)) SYMTAB names a" "only_section (unat (e_shnum ?h)) STRTAB names b"
    "unat (e_shstrndx ?h) < unat (e_shnum ?h)" "unat (sh_offset ?A) + unat (sh_size ?A) \<le> 0x14000" "unat (sh_offset ?B) + unat (sh_size ?B) \<le> 0x14000"
    using ok(1) by (simp_all add: elf_ok_def Let_def section_inside_def)
  have h2: "elf_at m2 page_buf = ?h" using copied_part [OF hl(2), of 0 52] by (intro copied_headers(3)) simp
  have nm: "cstring m2 (page_buf + image_strings ?m + sh_name (image_sec ?m j)) (names j) \<and> page_buf + image_strings ?m + sh_name (image_sec ?m j) \<noteq> NULL"
    if "j < unat (e_shnum ?h)" for j
  proof
    let ?o = "image_strings ?m + sh_name (image_sec ?m j)"
    have n: "cstring ?m (page_buf + ?o) (names j)" "unat (image_strings ?m) + unat (sh_name (image_sec ?m j)) + length (names j) < 0x14000"
      using e(1) that by (auto simp: sections_named_def add.assoc)
    then have u: "unat ?o = unat (image_strings ?m) + unat (sh_name (image_sec ?m j))" by (simp add: unat_word_ariths)
    have "copied m2 (page_buf + ?o) ?m (page_buf + ?o) (length (names j) + 1)" using n(2) u by (intro copied_part [OF hl(2)]) simp_all
    then show "cstring m2 (page_buf + image_strings ?m + sh_name (image_sec ?m j)) (names j)" using copied_cstring n by (simp add: add.assoc)
    have "unat (page_buf + ?o) \<noteq> 0" using n(2) u by (subst unat_image0) simp_all
    then show "page_buf + image_strings ?m + sh_name (image_sec ?m j) \<noteq> NULL" by (auto simp: add.assoc)
  qed
  have m3: "copied m3 (symtab_hdr arr) ?m (page_buf + sh_offset ?A) (unat (sh_size ?A))" "changed_at (unat (symtab_hdr arr), unat (sh_size ?A)) m2 m3"
    unfolding m3_def by (rule section_copied [OF hl(2) e(5) d(3,13)])+
  have im3: "copied m3 page_buf ?m page_buf 0x14000" using copied_trans [OF changed_copied [OF m3(2), of page_buf] hl(2)] d(3) by simp
  have m4: "copied m4 (strtab arr) ?m (page_buf + sh_offset ?B) (unat (sh_size ?B))" "changed_at (unat (strtab arr), unat (sh_size ?B)) m3 m4"
    unfolding m4_def by (rule section_copied [OF im3 e(6) d(4,14)])+
  have sy: "copied m4 (symtab_hdr arr) ?m (page_buf + sh_offset ?A) (unat (sh_size ?A))"
    using copied_trans [OF changed_copied [OF m4(2) d(6,13)] m3(1)] .
  define s2 where "s2 = s\<lparr>elf_hdr := page_buf, sec_ptr := sec_hdr arr, sec_num := ucast (e_shnum ?h), dmem := m2, prog_ptr := prog_hdr arr, prog_num := ucast (e_phnum ?h)\<rparr>"
  have lh: "load_headers arr s = s2" by (cases "e_phoff ?h = 0") (simp_all add: load_headers_def s2_def m2_def hl(1))
  have st: "sh_offset (sec_at m2 (sec_hdr arr + 40 * ucast (e_shstrndx ?h))) = image_strings ?m"
  proof -
    have "(ucast (e_shstrndx ?h) :: u32) = of_nat (unat (e_shstrndx ?h))" by simp
    then show ?thesis using hl(3) [OF e(4)] by (simp only: image_strings_def)
  qed
  have f: "find_tables arr (image_strings ?m) 1 (unat (e_shnum ?h) - 1) s2 =
      Some (s2\<lparr>symtab_offset := sh_offset ?A, symtab_size := sh_size ?A, strtab_offset := sh_offset ?B, strtab_size := sh_size ?B\<rparr>)"
    using find_tables_finds [of "unat (e_shnum ?h)" names a b 1 "unat (e_shnum ?h) - 1" arr m2 "image_sec ?m" "image_strings ?m" s2]
      e(2,3) ok(2) hl(3-5) nm by (simp add: only_section_def arrays_ok_def s2_def)
  have num: "nat (sint (sh_size ?A div 16)) = unat (sh_size ?A) div 16"
  proof -
    have "unat (sh_size ?A div 16) = unat (sh_size ?A) div 16" by (simp add: unat_div)
    moreover have "unat (sh_size ?A) div 16 < 2147483648" using e(5) by linarith
    ultimately show ?thesis by (simp add: nat_sint_small)
  qed
  define s' where "s' = s2\<lparr>symtab_offset := sh_offset ?A, symtab_size := sh_size ?A, strtab_offset := sh_offset ?B, strtab_size := sh_size ?B,
    symtable_num := sh_size ?A div 16, symtable_ptr := symtab_hdr arr, strtab_ptr := strtab arr, dmem := m4\<rparr>"
  have "init_elf_tables arr s = Some s'"
    using f lh by (simp add: init_elf_tables_def Let_def s2_def h2 st s'_def m3_def m4_def)
  moreover have "symbols s' = map (\<lambda>i. sym_at ?m (page_buf + sh_offset ?A + 16 * of_nat i)) [0 ..< unat (sh_size ?A) div 16]"
    using symbols_copied [OF sy] e(5) by (simp add: symbols_def s'_def num)
  moreover have "dmem s' x = ?m x" if "\<forall>r \<in> set (tl (array_regions arr ?m a b)). \<not> (fst r \<le> unat x \<and> unat x < fst r + snd r)" for x
    using that hl(6,7) m3(2) m4(2) by (simp add: changed_at_def array_regions_def s'_def)
  ultimately show ?thesis using m4(1) by (intro exI [of _ s']) (simp add: s'_def)
qed

section \<open>Properties\<close>

definition image_symbols :: "bytes \<Rightarrow> nat \<Rightarrow> symtable_t list" where
  "image_symbols m a = map (\<lambda>i. sym_at m (page_buf + sh_offset (image_sec m a) + 16 * of_nat i)) [0 ..< unat (sh_size (image_sec m a)) div 16]"

lemma find_as_filter: "find P xs = (case filter P xs of [] \<Rightarrow> None | x # _ \<Rightarrow> Some x)"
  by (induction xs) auto

text \<open>
  C14. From the boot image to a backtrace: if the image that the boot loader left in memory is well formed, \<open>init_elf_tables\<close> returns, and a walk over any chain of stack frames that ends with a
  null frame pointer ends and prints exactly the return addresses in the kernel that some symbol covers, innermost first, each with the name of the first such symbol. The name is
  in a copy of the string table of the image, and memory outside the tables has not changed.
\<close>

theorem backtrace_names:
  assumes ok: "elf_ok (dmem s) names a b" "arrays_ok arr (dmem s) a b" "strtab arr \<noteq> NULL"
    and nm: "\<forall>y \<in> set (image_symbols (dmem s) a). st_name y < sh_size (image_sec (dmem s) b)"
  shows "\<exists>s'. init_elf_tables arr s = Some s'
    \<and> (\<forall>ebp rs. stack_chain (dmem s') ebp rs \<longrightarrow> print_backtrace ebp s' =
        Some [(r, strtab arr + st_name y). r \<leftarrow> rs, VERTUAL_MEM \<le> r, y \<leftarrow> take 1 (filter (covers r) (image_symbols (dmem s) a))])
    \<and> copied (dmem s') (strtab arr) (dmem s) (page_buf + sh_offset (image_sec (dmem s) b)) (unat (sh_size (image_sec (dmem s) b)))
    \<and> (\<forall>x. (\<forall>r \<in> set (tl (array_regions arr (dmem s) a b)). \<not> (fst r \<le> unat x \<and> unat x < fst r + snd r)) \<longrightarrow> dmem s' x = dmem s x)"
proof -
  obtain s' where s': "init_elf_tables arr s = Some s'" "strtab_ptr s' = strtab arr" "symbols s' = image_symbols (dmem s) a"
      "copied (dmem s') (strtab arr) (dmem s) (page_buf + sh_offset (image_sec (dmem s) b)) (unat (sh_size (image_sec (dmem s) b)))"
      "\<forall>x. (\<forall>r \<in> set (tl (array_regions arr (dmem s) a b)). \<not> (fst r \<le> unat x \<and> unat x < fst r + snd r)) \<longrightarrow> dmem s' x = dmem s x"
    using init_elf_tables_loads [OF ok(1,2)] unfolding image_symbols_def by blast
  have nn: "strtab arr + st_name y \<noteq> NULL" if "y \<in> set (image_symbols (dmem s) a)" for y
  proof
    assume "strtab arr + st_name y = NULL"
    moreover have "unat (strtab arr) + unat (st_name y) < 4294967296"
      using arrays_okD(14) [OF ok(2)] nm that by (force simp: word_less_nat_alt)
    then have "unat (strtab arr + st_name y) = unat (strtab arr) + unat (st_name y)" by (simp add: unat_word_ariths)
    ultimately show False using ok(3) by (simp add: unat_eq_zero)
  qed
  have line: "(if get_func_name r s' \<noteq> NULL \<and> VERTUAL_MEM \<le> r then [(r, get_func_name r s')] else []) =
      [(r, strtab arr + st_name y). VERTUAL_MEM \<le> r, y \<leftarrow> take 1 (filter (covers r) (image_symbols (dmem s) a))]" for r
  proof (cases "filter (covers r) (image_symbols (dmem s) a)")
    case Nil
    then show ?thesis by (simp add: get_func_name_find s'(3) find_as_filter)
  next
    case (Cons y ys)
    then have "y \<in> set (image_symbols (dmem s) a)" using filter_is_subset [of "covers r" "image_symbols (dmem s) a"] by auto
    then show ?thesis using Cons nn [of y] by (auto simp: get_func_name_find s'(2,3) find_as_filter)
  qed
  have "print_backtrace ebp s' =
      Some [(r, strtab arr + st_name y). r \<leftarrow> rs, VERTUAL_MEM \<le> r, y \<leftarrow> take 1 (filter (covers r) (image_symbols (dmem s) a))]"
    if "stack_chain (dmem s') ebp rs" for ebp rs
    unfolding print_backtrace_def backtrace_loop_chain [OF that] line [symmetric] by (induction rs) auto
  with s' show ?thesis by blast
qed

section \<open>Example\<close>

text \<open>An image with two sections behind the null section, the symbol table with the symbol \<open>main\<close> and the string table, and a stack of one frame at 0x6000.\<close>

fun place :: "u32 \<Rightarrow> u8 list \<Rightarrow> bytes \<Rightarrow> bytes" where
  "place a [] m = m"
| "place a (x # xs) m = place (a + 1) xs (m(a := x))"

lemma place_at: "length xs < 4294967296 \<Longrightarrow> place a xs m x = (if unat (x - a) < length xs then xs ! unat (x - a) else m x)"
proof (induction xs arbitrary: a m)
  case (Cons y ys)
  have IH: "place (a + 1) ys (m(a := y)) x = (if unat (x - (a + 1)) < length ys then ys ! unat (x - (a + 1)) else (m(a := y)) x)"
    using Cons.prems by (intro Cons.IH) simp
  show ?case
  proof (cases "x = a")
    case True
    then show ?thesis using Cons.prems IH by simp
  next
    case False
    then have "x - a \<noteq> 0" by simp
    then have "unat (x - a) = Suc (unat (x - a - 1))" using unat_minus_one [of "x - a"] by (simp add: unat_gt_0)
    then show ?thesis using False IH by (simp add: algebra_simps)
  qed
qed simp

definition debug_bytes :: bytes where
  "debug_bytes =
     place 0xC001001C [0, 0, 0, 0, 0x40] (place 0xC001002A [32, 0, 0, 0, 40, 0, 3, 0, 2]
      (place 0xC0010068 [1] (place 0xC0010078 [0, 1, 0, 0, 16] (place 0xC0010090 [9] (place 0xC00100A0 [0, 2, 0, 0, 22]
      (place 0xC0010100 [17, 0, 0, 0, 0, 0, 0x10, 0xC0, 0x20] (place 0xC0010201 (SYMTAB @ [0] @ STRTAB @ [0, 109, 97, 105, 110])
      (place 0x5000 SYMTAB (place 0x5100 STRTAB (place 0x6004 [0x10, 0, 0x10, 0xC0] (\<lambda>_. 0)))))))))))"

definition debug_example :: debug where
  "debug_example = \<lparr>dmem = debug_bytes, elf_hdr = 0, sec_ptr = 0, sec_num = 0, prog_ptr = 0, prog_num = 0, symtable_ptr = 0, symtable_num = 0,
     strtab_ptr = 0, symtab_offset = 0, strtab_offset = 0, symtab_size = 0, strtab_size = 0\<rparr>"

definition debug_arrays :: arrays where
  "debug_arrays = \<lparr>sec_hdr = 0x1000, prog_hdr = 0x2000, symtab_hdr = 0x3000, strtab = 0x4000, lit_symtab = 0x5000, lit_strtab = 0x5100\<rparr>"

definition debug_names :: "nat \<Rightarrow> u8 list" where
  "debug_names = (\<lambda>_. [])(Suc 0 := SYMTAB, 2 := STRTAB)"

lemma debug_elf: "elf_at debug_bytes page_buf = \<lparr>e_magic = 0, e_type = 0, e_machine = 0, e_version = 0, e_entry = 0, e_phoff = 0, e_shoff = 0x40,
   e_flags = 0, e_ehsize = 0, e_phentsize = 32, e_phnum = 0, e_shentsize = 40, e_shnum = 3, e_shstrndx = 2\<rparr>"
  by (simp add: elf_at_def rd32_def rd16_def debug_bytes_def SYMTAB_def STRTAB_def place_at del: place.simps)

lemma debug_sections:
  "sh_name (image_sec debug_bytes 0) = 0"
  "sh_name (image_sec debug_bytes (Suc 0)) = 1" "sh_offset (image_sec debug_bytes (Suc 0)) = 0x100" "sh_size (image_sec debug_bytes (Suc 0)) = 16"
  "sh_name (image_sec debug_bytes 2) = 9" "sh_offset (image_sec debug_bytes 2) = 0x200" "sh_size (image_sec debug_bytes 2) = 22"
  by (simp_all add: image_sec_def debug_elf sec_at_def rd32_def) (simp_all add: debug_bytes_def SYMTAB_def STRTAB_def place_at del: place.simps)

lemmas debug_read = debug_bytes_def SYMTAB_def STRTAB_def place_at

lemma debug_symbols: "image_symbols debug_bytes (Suc 0) = [\<lparr>st_name = 17, st_value = 0xC0100000, st_size = 0x20, st_info = 0, st_other = 0, st_shndx = 0\<rparr>]"
  by (simp add: image_symbols_def debug_sections sym_at_def rd32_def rd16_def) (simp add: debug_read del: place.simps)

lemma debug_elf_ok: "elf_ok debug_bytes debug_names (Suc 0) 2"
proof -
  have s2: "{Suc 0 ..< 3} = {Suc 0, 2}" by auto
  have tabs: "debug_bytes 0xC0010200 = 0" "cstring debug_bytes 0xC0010201 SYMTAB" "cstring debug_bytes 0xC0010209 STRTAB" "length SYMTAB = 7" "length STRTAB = 7"
    by (simp_all add: debug_read del: place.simps)
  have "sections_named debug_bytes debug_names"
    unfolding sections_named_def
  proof (intro allI impI)
    fix i assume "i < unat (e_shnum (elf_at debug_bytes page_buf))"
    then have "i < 3" by (simp add: debug_elf)
    then consider "i = 0" | "i = Suc 0" | "i = 2" by linarith
    then show "cstring debug_bytes (page_buf + image_strings debug_bytes + sh_name (image_sec debug_bytes i)) (debug_names i)
        \<and> unat (image_strings debug_bytes) + unat (sh_name (image_sec debug_bytes i)) + length (debug_names i) < 0x14000"
      by cases (simp_all add: image_strings_def debug_elf debug_sections debug_names_def tabs)
  qed
  moreover have "only_section 3 SYMTAB debug_names (Suc 0)" "only_section 3 STRTAB debug_names 2"
    by (simp_all add: only_section_def s2 debug_names_def SYMTAB_def STRTAB_def char_minus_def)
  ultimately show ?thesis by (simp add: elf_ok_def debug_elf section_inside_def debug_sections)
qed

lemma debug_arrays_ok: "arrays_ok debug_arrays debug_bytes (Suc 0) 2"
  by (simp add: arrays_ok_def array_regions_def debug_elf debug_sections debug_arrays_def apart_def) (simp add: debug_read del: place.simps)

theorem backtrace_names_witness:
  "\<exists>s'. init_elf_tables debug_arrays debug_example = Some s' \<and> print_backtrace 0x6000 s' = Some [(0xC0100010, 0x4011)]
    \<and> cstring (dmem s') 0x4011 [109, 97, 105, 110]"
proof -
  have de: "dmem debug_example = debug_bytes" and [simp]: "strtab debug_arrays = 0x4000" by (simp_all add: debug_example_def debug_arrays_def)
  obtain s' where s': "init_elf_tables debug_arrays debug_example = Some s'"
      "\<forall>ebp rs. stack_chain (dmem s') ebp rs \<longrightarrow> print_backtrace ebp s' =
        Some [(r, strtab debug_arrays + st_name y). r \<leftarrow> rs, VERTUAL_MEM \<le> r, y \<leftarrow> take 1 (filter (covers r) (image_symbols debug_bytes (Suc 0)))]"
      "copied (dmem s') 0x4000 debug_bytes (page_buf + 0x200) 22"
      "\<forall>x. (\<forall>r \<in> set (tl (array_regions debug_arrays debug_bytes (Suc 0) 2)). \<not> (fst r \<le> unat x \<and> unat x < fst r + snd r)) \<longrightarrow> dmem s' x = debug_bytes x"
    using backtrace_names [of debug_example debug_names "Suc 0" 2 debug_arrays, unfolded de] debug_elf_ok debug_arrays_ok
    by (auto simp: debug_symbols debug_sections)
  have "dmem s' (0x6000 + k) = debug_bytes (0x6000 + k)" if "k < 8" for k
  proof -
    have "unat (0x6000 + k) = 0x6000 + unat k" "unat k < 8" using that by (simp_all add: unat_word_ariths word_less_nat_alt)
    then show ?thesis using s'(4) by (simp add: array_regions_def debug_elf debug_sections debug_arrays_def)
  qed
  from this [of 0] this [of 1] this [of 2] this [of 3] this [of 4] this [of 5] this [of 6] this [of 7]
  have "rd32 (dmem s') 0x6000 = 0" "rd32 (dmem s') 0x6004 = 0xC0100010"
    by (simp_all add: rd32_def) (simp_all add: debug_read del: place.simps)
  then have "stack_chain (dmem s') 0x6000 [0xC0100010]" by simp
  from s'(2) [rule_format, OF this] have "print_backtrace 0x6000 s' = Some [(0xC0100010, 0x4011)]"
    by (simp add: debug_symbols covers_def)
  moreover have "cstring (dmem s') 0x4011 [109, 97, 105, 110]"
    using copied_apply [OF s'(3), of 17] copied_apply [OF s'(3), of 18] copied_apply [OF s'(3), of 19] copied_apply [OF s'(3), of 20] copied_apply [OF s'(3), of 21]
    by simp (simp add: debug_read del: place.simps)
  ultimately show ?thesis using s'(1) by blast
qed

end
