(* ===== verification/PageInit.thy ===== *)
theory PageInit
  imports PageTable
begin

text \<open>
  The composition of \<open>kern_init\<close> (\<open>entry/entry.c\<close>) and \<open>page_init\<close> (\<open>mm/pmm.c\<close>): the loop that enters every page frame into the page directory, with the page tables it allocates on the way,
  and what the processor translates when it is done. The operations are defined in the theory \<open>PageTable\<close>; the invariant of the loop is \<open>booting\<close>.
\<close>

section \<open>Pages and windows\<close>

lemma page_of_kpa: "drop_bit 12 (kpa la) = (if VERTUAL_MEM \<le> la then drop_bit 12 la - 0xC0000 else drop_bit 12 la)"
proof (cases "VERTUAL_MEM \<le> la")
  case True
  then have u: "unat (kpa la) = unat la - 0xC0000000" "0xC0000000 \<le> unat la" by (simp_all add: kpa_def unat_sub word_le_nat_alt)
  have "unat la = unat (kpa la) + 0xC0000 * 4096" using u by simp
  then have "unat la div 4096 = unat (kpa la) div 4096 + 0xC0000" using div_mult_self1 [of 4096 "unat (kpa la)" "0xC0000"] by simp
  moreover from this have "0xC0000 \<le> drop_bit 12 la" by (simp add: word_le_nat_alt drop_bit_eq_div unat_div)
  ultimately have "unat (drop_bit 12 (kpa la)) = unat (drop_bit 12 la - 0xC0000)"
    by (simp add: drop_bit_eq_div unat_div unat_sub)
  then show ?thesis using True by (simp add: word_unat_eq_iff)
qed simp

lemma same_page_kpa:
  assumes "drop_bit 12 la = (drop_bit 12 la' :: u32)"
  shows "drop_bit 12 (kpa la) = drop_bit 12 (kpa la')"
proof -
  have "VERTUAL_MEM \<le> x \<longleftrightarrow> 0xC0000 \<le> (drop_bit 12 x :: u32)" for x :: u32
  proof -
    have "0xC0000 \<le> unat x div 4096 \<longleftrightarrow> 0xC0000 * 4096 \<le> unat x" by (rule less_eq_div_iff_mult_less_eq) simp
    then show ?thesis by (simp add: word_le_nat_alt drop_bit_eq_div unat_div)
  qed
  then show ?thesis unfolding page_of_kpa using assms by simp
qed

lemma page_join: "push_bit 12 (drop_bit 12 x) OR (x AND 0xFFF) = (x :: u32)"
proof -
  have m: "(0xFFF :: u32) = mask 12" by (simp add: mask_eq_exp_minus_1)
  show ?thesis unfolding m by (rule bit_word_eqI) (auto simp: bit_simps)
qed

lemma kpa_offset: "kpa la AND 0xFFF = la AND 0xFFF"
proof (cases "VERTUAL_MEM \<le> la")
  case True
  then have u: "unat (kpa la) = unat la - 0xC0000000" "0xC0000000 \<le> unat la" by (simp_all add: kpa_def unat_sub word_le_nat_alt)
  have "unat la = unat (kpa la) + 0xC0000 * 4096" using u by simp
  then have "unat la mod 4096 = unat (kpa la) mod 4096" using mod_mult_self1 [of "unat (kpa la)" "0xC0000" 4096] by simp
  moreover have "unat (x AND 0xFFF) = unat x mod 4096" for x :: u32
  proof -
    have "x AND 0xFFF = take_bit 12 x" by (simp add: take_bit_eq_mask mask_eq_exp_minus_1)
    then show ?thesis by (simp add: take_bit_eq_mod unat_mod)
  qed
  ultimately show ?thesis by (simp only: word_unat_eq_iff)
qed simp

lemma in_page:
  assumes "i \<le> la" and "la < i + PAGE_SIZE" and "unat i mod 4096 = 0" and "unat i + 4096 \<le> 4294967296"
  shows "drop_bit 12 la = (drop_bit 12 i :: u32)"
proof -
  have b: "unat i \<le> unat la" "unat la < unat i + 4096"
    using assms by (auto simp: word_le_nat_alt word_less_nat_alt unat_word_ariths)
  define q where "q = unat i div 4096"
  have "unat i = 4096 * q" using assms(3) mult_div_mod_eq [of 4096 "unat i"] by (simp add: q_def)
  then have "unat la div 4096 = q" using b by (intro div_nat_eqI) simp_all
  then show ?thesis by (simp add: word_unat_eq_iff drop_bit_eq_div unat_div q_def)
qed

section \<open>The loop over the page frames\<close>

text \<open>
  \<open>booting s i j k\<close>: the directory is at 0, the first \<open>j\<close> pages of the page allocator are taken and the remaining \<open>k\<close> are one block, the page tables
  lie behind the directory and in front of the free frames, and no two addresses with different physical pages share a table entry.
  Low addresses, the first 4 MB of the kernel window, and the kernel window up to \<open>i\<close> are mapped the way the kernel reads its pointers.
\<close>

definition booting :: "'a machine_scheme \<Rightarrow> u32 \<Rightarrow> nat \<Rightarrow> nat \<Rightarrow> bool" where
  "booting s i j k \<longleftrightarrow> pd s = 0 \<and> is_vmm_inited s \<noteq> 1 \<and> block_list s [(page_plus (pages s) (of_nat j), k)] \<and>
     (\<forall>la a. walk_slot s 0 la = Some a \<longrightarrow> 4096 \<le> unat a \<and> unat a < unat (pt_begin s) + 4096 * j) \<and>
     (\<forall>la la' a. walk_slot s 0 la = Some a \<longrightarrow> walk_slot s 0 la' = Some a \<longrightarrow> drop_bit 12 (kpa la) = drop_bit 12 (kpa la')) \<and>
     (\<forall>la. la < 0x400000 \<or> VERTUAL_MEM \<le> la \<and> (la < 0xC0400000 \<or> la < i) \<longrightarrow> mmu s 0 la = Some (kpa la))"

text \<open>What the loop does not touch.\<close>

definition same_setup :: "'a machine_scheme \<Rightarrow> 'a machine_scheme \<Rightarrow> bool" where
  "same_setup s s' \<longleftrightarrow> pages s' = pages s \<and> pt_begin s' = pt_begin s \<and> free_pages_head s' = free_pages_head s \<and> chunk_head s' = chunk_head s
     \<and> machine.more s' = machine.more s"

lemma same_setup_trans: "same_setup s s' \<Longrightarrow> same_setup s' s'' \<Longrightarrow> same_setup s s''"
  by (simp add: same_setup_def)

lemma kpa_pde_slot: "kpa (pde_slot 0 la) = 4 * drop_bit 22 la" "unat (4 * drop_bit 22 la :: u32) < 4096"
  using kpa_small_index [OF page_index_lt(1), of 0 la] unat_times4 [OF page_index_lt(1) [of la]] page_index_lt(1) [of la]
  by (simp_all add: pde_slot_def word_less_nat_alt)

lemma dir_ok_0: "dir_ok 0"
  using kpa_small_index [of _ 0] by (simp add: dir_ok_def)

lemma outside_dir_0: "4096 \<le> unat a \<Longrightarrow> outside_dir 0 a"
proof -
  assume "4096 \<le> unat a"
  moreover have "unat (kpa (0 + 4 * i)) < 4096" if "i < 1024" for i
    using kpa_small_index [OF that, of 0] unat_times4 [OF that] that by (simp add: word_less_nat_alt)
  ultimately show ?thesis unfolding outside_dir_def by (metis leD)
qed

lemma bootingD:
  assumes "booting s i j k"
  shows "pd s = 0" "is_vmm_inited s \<noteq> 1" "block_list s [(page_plus (pages s) (of_nat j), k)]"
    "\<And>la a. walk_slot s 0 la = Some a \<Longrightarrow> 4096 \<le> unat a \<and> unat a < unat (pt_begin s) + 4096 * j"
    "\<And>la la' a. walk_slot s 0 la = Some a \<Longrightarrow> walk_slot s 0 la' = Some a \<Longrightarrow> drop_bit 12 (kpa la) = drop_bit 12 (kpa la')"
    "\<And>la. la < 0x400000 \<or> VERTUAL_MEM \<le> la \<and> (la < 0xC0400000 \<or> la < i) \<Longrightarrow> mmu s 0 la = Some (kpa la)"
  using assms unfolding booting_def by blast+

lemma frame_geometry:
  assumes frame: "frame = of_nat j * PAGE_SIZE + b" and al: "unat b mod 4096 = 0" "4096 \<le> unat b" and room: "unat b + 4096 * (j + 1) \<le> 0x40000000"
  shows "unat frame = unat b + 4096 * j" and "frame = push_bit 12 (drop_bit 12 frame)" and "drop_bit 12 frame < 0x40000"
    and "unat a < unat frame \<Longrightarrow> PAGE_SIZE \<le> a - frame" and "PAGE_SIZE \<le> kpa (pde_slot 0 la) - frame"
    and "unat (frame + 4 * (drop_bit 12 la AND 0x3FF)) = unat frame + unat (4 * (drop_bit 12 la AND 0x3FF) :: u32)"
    and "unat (4 * (drop_bit 12 la AND 0x3FF) :: u32) < 4096"
proof -
  have "unat (of_nat j :: u32) = j" using room by (intro unat_of_nat_small) simp
  then show uf: "unat frame = unat b + 4096 * j" using room by (simp add: frame unat_word_ariths)
  have "unat frame mod 4096 = 0" using al(1) uf by simp
  then show "frame = push_bit 12 (drop_bit 12 frame)"
    using mult_div_mod_eq [of 4096 "unat frame"] room uf
    by (simp add: word_unat_eq_iff push_bit_eq_mult unat_word_ariths drop_bit_eq_div unat_div)
  show "drop_bit 12 frame < 0x40000" using room uf by (simp add: word_less_nat_alt drop_bit_eq_div unat_div)
  have far: "PAGE_SIZE \<le> a - frame" if "unat a < unat frame" for a
  proof -
    have "unat (a - frame) = unat a + 4294967296 - unat frame" using that by (simp add: unat_sub_if_size word_le_nat_alt word_size)
    then show ?thesis using that room uf by (simp add: word_le_nat_alt)
  qed
  then show "unat a < unat frame \<Longrightarrow> PAGE_SIZE \<le> a - frame" .
  show "PAGE_SIZE \<le> kpa (pde_slot 0 la) - frame" using kpa_pde_slot [of la] uf al(2) by (intro far) simp
  show "unat (frame + 4 * (drop_bit 12 la AND 0x3FF)) = unat frame + unat (4 * (drop_bit 12 la AND 0x3FF) :: u32)"
    "unat (4 * (drop_bit 12 la AND 0x3FF) :: u32) < 4096"
    using table_offset [of la] room uf by (simp_all add: word_less_nat_alt unat_word_ariths)
qed

text \<open>A fresh table keeps different pages in different entries.\<close>

lemma new_table_slots:
  assumes w: "\<And>la. walk_slot s' 0 la = (if drop_bit 22 la = drop_bit 22 i then Some (frame + 4 * (drop_bit 12 la AND 0x3FF)) else walk_slot s 0 la)"
    and old: "\<And>la a. walk_slot s 0 la = Some a \<Longrightarrow> unat a < unat frame"
    and new: "\<And>la. unat frame \<le> unat (frame + 4 * (drop_bit 12 la AND 0x3FF))"
    and inj: "\<And>la la' a. walk_slot s 0 la = Some a \<Longrightarrow> walk_slot s 0 la' = Some a \<Longrightarrow> drop_bit 12 (kpa la) = drop_bit 12 (kpa la')"
    and a: "walk_slot s' 0 la = Some a" "walk_slot s' 0 la' = Some a"
  shows "drop_bit 12 (kpa la) = drop_bit 12 (kpa la')"
proof (cases "drop_bit 22 la = drop_bit 22 i")
  case True
  have 2: "drop_bit 22 la' = drop_bit 22 i"
  proof (rule ccontr)
    assume "drop_bit 22 la' \<noteq> drop_bit 22 i"
    then have "unat a < unat frame" using old [of la' a] a(2) unfolding w by simp
    then show False using new [of la] True a(1) unfolding w by auto
  qed
  then have "frame + 4 * (drop_bit 12 la AND 0x3FF) = frame + 4 * (drop_bit 12 la' AND 0x3FF)" using a True unfolding w by simp
  then have "4 * (drop_bit 12 la AND 0x3FF) = 4 * (drop_bit 12 la' AND (0x3FF :: u32))" by (simp only: add_left_cancel)
  then have "drop_bit 12 la AND 0x3FF = drop_bit 12 la' AND (0x3FF :: u32)" by (simp only: times4_eq [OF page_index_lt(2) page_index_lt(2)])
  then show ?thesis using True 2 by (intro same_page_kpa same_slot_page) simp_all
next
  case False
  then have "unat a < unat frame" using old [of la a] a(1) unfolding w by simp
  then have "drop_bit 22 la' \<noteq> drop_bit 22 i" using new [of la'] a(2) unfolding w by auto
  then show ?thesis using a False inj [of la a la'] unfolding w by simp
qed

lemma booting_get_pte:
  assumes bt: "booting s i j k" and k: "walk_slot s 0 i = None \<Longrightarrow> 1 < k"
    and al: "unat (pt_begin s) mod 4096 = 0" "4096 \<le> unat (pt_begin s)"
    and room: "walk_slot s 0 i = None \<Longrightarrow> unat (pt_begin s) + 4096 * (j + 1) \<le> 0x40000000"
  shows "\<exists>pte s' j' k'. get_pte (pd s) i 1 s = Some (pte, s') \<and> booting s' i j' k' \<and> walk_slot s' 0 i = Some (kpa pte) \<and> same_setup s s'
    \<and> (if walk_slot s 0 i = None then j' = j + 1 \<and> k' = k - 1 else j' = j \<and> k' = k)"
proof (cases "walk_slot s 0 i")
  case (Some a)
  then show ?thesis using get_pte_present [OF Some, of 1] bt by (auto simp: booting_def same_setup_def)
next
  case None
  define frame where "frame = of_nat j * PAGE_SIZE + pt_begin s"
  define pte where "pte = frame + VERTUAL_MEM + 4 * (drop_bit 12 i AND 0x3FF)"
  note B = bootingD [OF bt] and F = frame_geometry [OF frame_def al room [OF None]]
  have dirf: "\<forall>la. PAGE_SIZE \<le> kpa (pde_slot 0 la) - frame" using F(5) by blast
  have un: "frame_unused s 0 frame"
    unfolding frame_unused_def using dirf B(4) F(1,4) outside_dir_0 by auto
  have nv: "no_victim s 1 (block_pages [(page_plus (pages s) (of_nat j), k)])" using B(2) by (simp add: no_victim_def)
  obtain s' where s': "get_pte 0 i 1 s = Some (pte, s')"
      "block_list s' [(page_plus (page_plus (pages s) (of_nat j)) 1, k - 1)]"
      "pmem s' = (\<lambda>a. if a - frame < PAGE_SIZE then 0 else pmem s a)(kpa (pde_slot 0 i) := push_bit 12 (drop_bit 12 frame) OR 7)"
      "pages s' = pages s" "pt_begin s' = pt_begin s" "pd s' = pd s" "is_vmm_inited s' = is_vmm_inited s" "same_setup s s'"
    unfolding same_setup_def pte_def using get_pte_new_table [OF None B(3) k [OF None] refl nv frame_def F(2,3)] by blast
  note w = walk_new_table [OF dir_ok_0 dirf F(2,3) s'(3)] and mm = mmu_new_table [OF None dir_ok_0 un F(2,3) s'(3)]
  have bl: "page_plus (page_plus (pages s) (of_nat j)) 1 = page_plus (pages s') (of_nat (j + 1))"
    by (simp add: s'(4) page_plus_add add.commute)
  have rng: "4096 \<le> unat a \<and> unat a < unat (pt_begin s') + 4096 * (j + 1)" if "walk_slot s' 0 la = Some a" for la a
    using that B(4) [of la a] F(6,7) [of la] F(1) al(2) s'(5) unfolding w by (auto split: if_splits)
  have inj: "drop_bit 12 (kpa la) = drop_bit 12 (kpa la')" if "walk_slot s' 0 la = Some a" "walk_slot s' 0 la' = Some a" for la la' a
  proof (rule new_table_slots [OF w _ _ B(5) that])
    show "unat a < unat frame" if "walk_slot s 0 la = Some a" for la a using B(4) [OF that] unfolding F(1) by blast
    show "unat frame \<le> unat (frame + 4 * (drop_bit 12 la AND 0x3FF))" for la unfolding F(6) by simp
  qed
  have "booting s' i (j + 1) (k - 1)"
    unfolding booting_def
  proof (intro conjI allI impI)
    show "pd s' = 0" "is_vmm_inited s' \<noteq> 1" using B(1,2) s'(6,7) by simp_all
    show "block_list s' [(page_plus (pages s') (of_nat (j + 1)), k - 1)]" using s'(2) unfolding bl .
    show "mmu s' 0 la = Some (kpa la)" if "la < 0x400000 \<or> VERTUAL_MEM \<le> la \<and> (la < 0xC0400000 \<or> la < i)" for la
      unfolding mm by (rule B(6) [OF that])
  qed (rule rng [THEN conjunct1] rng [THEN conjunct2] inj; assumption)+
  moreover have "walk_slot s' 0 i = Some (kpa pte)"
  proof -
    have "unat (frame + 4 * (drop_bit 12 i AND 0x3FF)) < 0x40000000" using F(1) F(6,7) [of i] room [OF None] by simp
    then have "kpa (frame + 4 * (drop_bit 12 i AND 0x3FF) + VERTUAL_MEM) = frame + 4 * (drop_bit 12 i AND 0x3FF)"
      by (intro kpa_add_VERTUAL_MEM) (simp add: word_less_nat_alt)
    then show ?thesis by (simp add: w pte_def algebra_simps)
  qed
  ultimately show ?thesis
    using s'(1,8) B(1) None by (intro exI [of _ pte] exI [of _ s'] exI [of _ "j + 1"] exI [of _ "k - 1"]) auto
qed

lemma booting_write:
  assumes bt: "booting s i j k" and w: "walk_slot s 0 i = Some (kpa pte)" and i: "VERTUAL_MEM \<le> i" "unat i mod 4096 = 0" "unat i + 4096 \<le> 4294967296"
  defines "s' \<equiv> st pte (upd_addr (drop_bit 12 (i - VERTUAL_MEM)) (upd_sign 3 (ld s pte))) s"
  shows "booting s' (i + PAGE_SIZE) j k \<and> (\<forall>la. walk_slot s' 0 la = walk_slot s 0 la) \<and> same_setup s s'"
proof -
  let ?v = "mapped_entry (i - VERTUAL_MEM) 3 (pmem s (kpa pte))"
  have v: "upd_addr (drop_bit 12 (i - VERTUAL_MEM)) (upd_sign 3 (ld s pte)) = ?v" by (simp add: mapped_entry_def ld_def)
  have pm: "pmem s' = (pmem s)(kpa pte := ?v)" by (simp add: s'_def v st_def)
  have B: "pd s = 0" "is_vmm_inited s \<noteq> 1" "block_list s [(page_plus (pages s) (of_nat j), k)]"
    "\<And>la a. walk_slot s 0 la = Some a \<Longrightarrow> 4096 \<le> unat a \<and> unat a < unat (pt_begin s) + 4096 * j"
    "\<And>la la' a. walk_slot s 0 la = Some a \<Longrightarrow> walk_slot s 0 la' = Some a \<Longrightarrow> drop_bit 12 (kpa la) = drop_bit 12 (kpa la')"
    "\<And>la. la < 0x400000 \<or> VERTUAL_MEM \<le> la \<and> (la < 0xC0400000 \<or> la < i) \<Longrightarrow> mmu s 0 la = Some (kpa la)"
    using bt unfolding booting_def by blast+
  have od: "outside_dir 0 (kpa pte)" using B(4) [OF w] by (intro outside_dir_0) simp
  note ws = walk_slot_upd [OF od pm]
  have hit: "mmu s' 0 la = Some (kpa la)" if "walk_slot s 0 la = Some (kpa pte)" for la
  proof -
    have "drop_bit 12 (kpa la) = drop_bit 12 (kpa i)" by (rule B(5) [OF that w])
    also have "\<dots> = drop_bit 12 (i - VERTUAL_MEM)" using i(1) by (simp add: kpa_def)
    finally have "push_bit 12 (drop_bit 12 (i - VERTUAL_MEM)) OR (la AND 0xFFF) = kpa la"
      using page_join [of "kpa la"] by (simp add: kpa_offset)
    then show ?thesis using mmu_upd [OF od pm, of la] that mapped_entry_present [of 3] mapped_entry_addr [of "i - VERTUAL_MEM" 3] by simp
  qed
  have miss: "mmu s' 0 la = mmu s 0 la" if "walk_slot s 0 la \<noteq> Some (kpa pte)" for la
    using mmu_upd [OF od pm, of la] that by simp
  have here: "walk_slot s 0 la = Some (kpa pte)" if "i \<le> la" "la < i + PAGE_SIZE" for la
  proof -
    have p: "drop_bit 12 la = drop_bit 12 i" using in_page [OF that i(2,3)] .
    have "drop_bit 22 x = drop_bit 10 (drop_bit 12 x)" for x :: u32 by simp
    then have "pde_slot 0 la = pde_slot 0 i" "pte_slot e la = pte_slot e i" for e using p by (simp_all only: pde_slot_def pte_slot_def)
    then show ?thesis using w by (simp add: walk_slot_def Let_def split: if_splits)
  qed
  have "block_list s' [(page_plus (pages s) (of_nat j), k)]"
    using B(3) free_list_cong [of s' s] by (simp add: block_list_def free_pages_of_def s'_def st_def get_next_def get_prev_def fun_eq_iff)
  moreover have "mmu s' 0 la = Some (kpa la)" if "la < 0x400000 \<or> VERTUAL_MEM \<le> la \<and> (la < 0xC0400000 \<or> la < i + PAGE_SIZE)" for la
  proof (cases "walk_slot s 0 la = Some (kpa pte)")
    case True
    then show ?thesis by (rule hit)
  next
    case False
    then have "la < 0x400000 \<or> VERTUAL_MEM \<le> la \<and> (la < 0xC0400000 \<or> la < i)" using that False here [of la] by (cases "i \<le> la") (auto simp: not_le)
    then show ?thesis using B(6) miss [OF False] by simp
  qed
  moreover have f: "pd s' = 0" "is_vmm_inited s' \<noteq> 1" "pages s' = pages s" "pt_begin s' = pt_begin s" using B by (simp_all add: s'_def st_def)
  ultimately have "booting s' (i + PAGE_SIZE) j k" unfolding booting_def ws f(3,4) using B(4,5) by blast
  moreover have "same_setup s s'" by (simp add: same_setup_def s'_def st_def)
  ultimately show ?thesis using ws by blast
qed

definition windows :: "nat \<Rightarrow> nat \<Rightarrow> nat" where
  "windows i e = (e - 1) div 4194304 - i div 4194304 + 1"

lemma windows_step:
  assumes "i mod 4096 = 0" and "i + 4096 < e"
  shows "if (i + 4096) div 4194304 = i div 4194304 then windows (i + 4096) e = windows i e else windows (i + 4096) e = windows i e - 1 \<and> 1 < windows i e"
proof (cases "(i + 4096) div 4194304 = i div 4194304")
  case False
  have "i div 4194304 \<le> (i + 4096) div 4194304" by (rule div_le_mono) simp
  moreover have "(i + 4096) div 4194304 \<le> Suc (i div 4194304)"
  proof -
    have "(i + 4096) div 4194304 \<le> (i + 4194304) div 4194304" by (rule div_le_mono) simp
    then show ?thesis by simp
  qed
  ultimately have "(i + 4096) div 4194304 = Suc (i div 4194304)" using False by linarith
  moreover have "(i + 4096) div 4194304 \<le> (e - 1) div 4194304" using assms(2) by (intro div_le_mono) simp
  ultimately show ?thesis by (simp add: windows_def Suc_diff_Suc Suc_le_eq)
qed (simp add: windows_def)

lemma windows_same: "unat i div 4194304 = unat i' div 4194304 \<Longrightarrow> walk_slot s 0 i = None \<longleftrightarrow> walk_slot s 0 i' = None"
proof -
  assume "unat i div 4194304 = unat i' div 4194304"
  then have "drop_bit 22 i = drop_bit 22 i'" by (simp add: word_unat_eq_iff drop_bit_eq_div unat_div)
  then show ?thesis by (simp add: walk_slot_def pde_slot_def Let_def)
qed

lemma page_init_map_runs:
  assumes "booting s i j k" and "VERTUAL_MEM \<le> i" and "unat i mod 4096 = 0" and "unat bound = unat i + 4096 * n"
    and "0 < n \<Longrightarrow> windows (unat i) (unat bound) < k + (if walk_slot s 0 i = None then 0 else 1)"
    and "unat (pt_begin s) mod 4096 = 0" "4096 \<le> unat (pt_begin s)" 
    and "0 < n \<Longrightarrow> unat (pt_begin s) + 4096 * (j + windows (unat i) (unat bound)) \<le> 0x40000000 + (if walk_slot s 0 i = None then 0 else 4096)"
  shows "\<exists>s' j' k'. page_init_map i bound s = Some s' \<and> booting s' bound j' k' \<and> j' + k' = j + k \<and> same_setup s s'
    \<and> (0 < n \<longrightarrow> j' + (if walk_slot s 0 i = None then 0 else 1) \<le> j + windows (unat i) (unat bound))"
  using assms
proof (induction n arbitrary: i s j k)
  case 0
  then have "i = bound" by (simp add: word_unat_eq_iff)
  moreover have "page_init_map bound bound s = Some s" by (subst page_init_map.simps) simp
  ultimately show ?case using 0(1) by (auto simp: same_setup_def)
next
  case (Suc n)
  let ?W = "windows (unat i) (unat bound)"
  have ub: "unat bound < 4294967296" by (rule unat_lt_2_32)
  have lt: "i < bound" using Suc.prems(4) by (simp add: word_less_nat_alt)
  have W1: "1 \<le> ?W" by (simp add: windows_def)
  have k1: "1 < k" if "walk_slot s 0 i = None" using Suc.prems(5) that W1 by simp
  have w4: "4096 * (j + 1) \<le> 4096 * (j + ?W)" using W1 by (intro mult_le_mono2) simp
  have room: "unat (pt_begin s) + 4096 * (j + 1) \<le> 0x40000000" if "walk_slot s 0 i = None"
    using Suc.prems(8) that order_trans [OF add_left_mono [OF w4, of "unat (pt_begin s)"], of "0x40000000"] by simp
  from booting_get_pte [OF Suc.prems(1) k1 Suc.prems(6,7) room, simplified] obtain pte s1 j1 k1 where g: "get_pte (pd s) i 1 s = Some (pte, s1)" "booting s1 i j1 k1" "walk_slot s1 0 i = Some (kpa pte)"
      "same_setup s s1"
      and jk: "if walk_slot s 0 i = None then j1 = j + 1 \<and> k1 = k - 1 else j1 = j \<and> k1 = k"
    by (elim exE conjE) blast
  define s2 where "s2 = st pte (upd_addr (drop_bit 12 (i - VERTUAL_MEM)) (upd_sign 3 (ld s1 pte))) s1"
  have i4: "unat i + 4096 \<le> 4294967296" using Suc.prems(4) ub by simp
  note b2 = booting_write [OF g(2,3) Suc.prems(2,3) i4, folded s2_def]
  have step: "page_init_map i bound s = page_init_map (i + PAGE_SIZE) bound s2"
    using lt g(1) by (subst page_init_map.simps) (simp add: Let_def s2_def)
  have sum: "j1 + k1 = j + k" using jk k1 by (auto split: if_splits)
  show ?case
  proof (cases n)
    case 0
    have "i + PAGE_SIZE = bound" using Suc.prems(4) 0 ub by (simp add: word_unat_eq_iff unat_word_ariths)
    then have "page_init_map (i + PAGE_SIZE) bound s2 = Some s2" by (subst page_init_map.simps) simp
    moreover have "j1 + (if walk_slot s 0 i = None then 0 else 1) \<le> j + ?W" using jk W1 by auto
    ultimately show ?thesis using step b2 sum same_setup_trans [OF g(4)] \<open>i + PAGE_SIZE = bound\<close>
      by (intro exI [of _ s2] exI [of _ j1] exI [of _ k1]) simp
  next
    case n: (Suc n')
    have ui: "unat (i + PAGE_SIZE) = unat i + 4096" using Suc.prems(4) ub n by (simp add: unat_word_ariths)
    have ws: "if (unat i + 4096) div 4194304 = unat i div 4194304 then windows (unat i + 4096) (unat bound) = ?W
      else windows (unat i + 4096) (unat bound) = ?W - 1 \<and> 1 < ?W"
      using windows_step [OF Suc.prems(3), of "unat bound"] Suc.prems(4) n by simp
    have pres: "walk_slot s2 0 (i + PAGE_SIZE) \<noteq> None" if "(unat i + 4096) div 4194304 = unat i div 4194304"
      using windows_same [of "i + PAGE_SIZE" i s2] that ui g(3) b2 by simp
    have k5: "?W < k + (if walk_slot s 0 i = None then 0 else 1)" using Suc.prems(5) by simp
    have "\<exists>s' j' k'. page_init_map (i + PAGE_SIZE) bound s2 = Some s' \<and> booting s' bound j' k' \<and> j' + k' = j1 + k1 \<and> same_setup s2 s'
      \<and> (0 < n \<longrightarrow> j' + (if walk_slot s2 0 (i + PAGE_SIZE) = None then 0 else 1) \<le> j1 + windows (unat (i + PAGE_SIZE)) (unat bound))"
    proof (rule Suc.IH)
      show "booting s2 (i + PAGE_SIZE) j1 k1" using b2 by simp
      show "VERTUAL_MEM \<le> i + PAGE_SIZE" using Suc.prems(2) ui by (simp add: word_le_nat_alt)
      show "unat (i + PAGE_SIZE) mod 4096 = 0" using ui Suc.prems(3) by simp
      show "unat bound = unat (i + PAGE_SIZE) + 4096 * n" using ui Suc.prems(4) by simp
      show "windows (unat (i + PAGE_SIZE)) (unat bound) < k1 + (if walk_slot s2 0 (i + PAGE_SIZE) = None then 0 else 1)"
        using ws pres k5 jk W1 unfolding ui by (auto split: if_splits)
      show "unat (pt_begin s2) mod 4096 = 0" "4096 \<le> unat (pt_begin s2)" using Suc.prems(6,7) g(4) b2 by (simp_all add: same_setup_def)
      show "unat (pt_begin s2) + 4096 * (j1 + windows (unat (i + PAGE_SIZE)) (unat bound)) \<le> 0x40000000 + (if walk_slot s2 0 (i + PAGE_SIZE) = None then 0 else 4096)"
        using Suc.prems(8) g(4) b2 ws jk pres unfolding ui same_setup_def by (auto split: if_splits)
    qed
    then obtain s' j' k' where s': "page_init_map (i + PAGE_SIZE) bound s2 = Some s'" "booting s' bound j' k'" "j' + k' = j1 + k1" "same_setup s2 s'"
        "j' + (if walk_slot s2 0 (i + PAGE_SIZE) = None then 0 else 1) \<le> j1 + windows (unat i + 4096) (unat bound)"
      using n unfolding ui by auto
    have "j' + (if walk_slot s 0 i = None then 0 else 1) \<le> j + ?W" using s'(5) ws pres jk W1 by (auto split: if_splits)
    moreover have "same_setup s s'" using same_setup_trans [OF same_setup_trans [OF g(4)] s'(4)] b2 by blast
    ultimately show ?thesis using step sum s'(1-3) by (intro exI [of _ s'] exI [of _ j'] exI [of _ k']) simp
  qed
qed

section \<open>From kern\_init to the end of page\_init\<close>

lemma kern_init_walk:
  "walk_slot (kern_init_tables kern_start s) 0 la =
    (if drop_bit 22 la = 0 \<or> drop_bit 22 la = drop_bit 22 kern_start then Some (0x1000 + 4 * (drop_bit 12 la AND 0x3FF)) else None)"
proof -
  let ?i = "drop_bit 12 la AND 0x3FF"
  have a: "ent_addr 0x1007 = 1" "ent_sign 0x1007 AND 1 = 1" "ent_sign 0 AND 1 = 0"
    by (simp_all add: ent_addr_def ent_sign_def)
  have "0x1000 + 4 * ?i < 0x40000000"
    using page_index_lt(2) [of la] by (simp add: word_less_nat_alt unat_word_ariths)
  then have "kpa (0x1000 + VERTUAL_MEM + 4 * ?i) = 0x1000 + 4 * ?i"
    using kpa_add_VERTUAL_MEM [of "0x1000 + 4 * ?i"] by (simp add: algebra_simps)
  then have "kpa (pte_slot 0x1007 la) = 0x1000 + 4 * ?i" by (simp add: pte_slot_def a)
  then show ?thesis
    using kern_init_words(1) [OF page_index_lt(1) [of la] refl, of kern_start s] a
    by (auto simp: walk_slot_def pde_slot_def Let_def)
qed

lemma mmu_page:
  assumes "mmu s dir la = Some x" and "walk_slot s dir la = Some a"
  shows "drop_bit 12 x = drop_bit 12 (push_bit 12 (ent_addr (pmem s a)))"
proof -
  have x: "x = push_bit 12 (ent_addr (pmem s a)) OR (la AND 0xFFF)" using assms by (simp add: mmu_walk split: if_splits)
  have m: "(0xFFF :: u32) = mask 12" by (simp add: mask_eq_exp_minus_1)
  show ?thesis unfolding x m by (rule bit_word_eqI) (auto simp: bit_simps)
qed

lemma kern_init_booting:
  assumes "is_vmm_inited s \<noteq> 1" and "pmem s' = pmem (kern_init_tables 0xC0100000 s)" and "pd s' = 0" and "is_vmm_inited s' = is_vmm_inited s"
    and "block_list s' [(pages s', n)]" and "0x2000 \<le> unat (pt_begin s')" and "unat (pt_begin s') \<le> 0x400000"
  shows "booting s' (pt_begin s' + VERTUAL_MEM) 0 n"
proof -
  let ?t = "kern_init_tables 0xC0100000 s"
  have w: "walk_slot s' 0 la = walk_slot ?t 0 la" for la by (rule walk_slot_cong [OF assms(2)])
  have m: "mmu s' 0 la = (if la < 0x400000 \<or> VERTUAL_MEM \<le> la \<and> la < 0xC0400000 then Some (kpa la) else None)" for la
    unfolding mmu_walk w assms(2) using kern_init_translates [of s la] unfolding mmu_walk .
  have slot: "unat (0x1000 + 4 * (drop_bit 12 la AND 0x3FF) :: u32) = 0x1000 + unat (4 * (drop_bit 12 la AND 0x3FF) :: u32)"
    "unat (4 * (drop_bit 12 la AND 0x3FF) :: u32) < 4096" for la :: u32
    using table_offset [of la] by (simp_all add: word_less_nat_alt unat_word_ariths)
  have pr: "mmu s' 0 la = Some (kpa la)" if "walk_slot s' 0 la = Some a" for la a
  proof -
    have "mmu ?t 0 la \<noteq> None" using that unfolding w kern_init_walk kern_init_mmu by (simp split: if_splits)
    then have "mmu s' 0 la \<noteq> None" unfolding mmu_walk w assms(2) .
    then show ?thesis using m [of la] by (simp split: if_splits)
  qed
  have "drop_bit 12 (kpa la) = drop_bit 12 (kpa la')" if "walk_slot s' 0 la = Some a" "walk_slot s' 0 la' = Some a" for la la' a
    using mmu_page [OF pr [OF that(1)] that(1)] mmu_page [OF pr [OF that(2)] that(2)] by simp
  moreover have "4096 \<le> unat a \<and> unat a < unat (pt_begin s') + 4096 * 0" if "walk_slot s' 0 la = Some a" for la a
    using that slot [of la] assms(6) by (auto simp: w kern_init_walk split: if_splits)
  moreover have "mmu s' 0 la = Some (kpa la)" if "la < 0x400000 \<or> VERTUAL_MEM \<le> la \<and> (la < 0xC0400000 \<or> la < pt_begin s' + VERTUAL_MEM)" for la
  proof -
    have "unat (pt_begin s' + VERTUAL_MEM) = unat (pt_begin s') + 0xC0000000" using assms(7) by (simp add: unat_word_ariths)
    then have "la < 0x400000 \<or> VERTUAL_MEM \<le> la \<and> la < 0xC0400000" using that assms(7) by (auto simp: word_less_nat_alt)
    then show ?thesis by (simp add: m)
  qed
  moreover have "block_list s' [(page_plus (pages s') (of_nat 0), n)]" using assms(5) by simp
  moreover have "is_vmm_inited s' \<noteq> 1" using assms(1,4) by simp
  ultimately show ?thesis unfolding booting_def using assms(3) by blast
qed

lemma page_init_list_frame:
  "pmem (page_init_list b e s) = pmem s" "pd (page_init_list b e s) = pd s" "is_vmm_inited (page_init_list b e s) = is_vmm_inited s"
  "free_pages_head (page_init_list b e s) = free_pages_head s" "chunk_head (page_init_list b e s) = chunk_head s"
  "machine.more (page_init_list b e s) = machine.more s"
proof -
  let ?f = "\<lambda>(i :: nat) (s :: 'a machine_scheme). list_insert_before (free_pages_head s) (page_node (page_plus (pages s) (of_nat i))) s"
  have more: "machine.more (list_insert_before a b s) = machine.more s" for a b and s :: "'a machine_scheme"
    by (simp add: list_op_defs set_next_def set_prev_def Let_def)
  have "pmem (fold ?f is s) = pmem s" "pd (fold ?f is s) = pd s" "is_vmm_inited (fold ?f is s) = is_vmm_inited s"
    "free_pages_head (fold ?f is s) = free_pages_head s" "chunk_head (fold ?f is s) = chunk_head s" "machine.more (fold ?f is s) = machine.more s"
    for "is" and s :: "'a machine_scheme"
    by (induction "is" arbitrary: s) (simp_all add: more)
  then show "pmem (page_init_list b e s) = pmem s" "pd (page_init_list b e s) = pd s" "is_vmm_inited (page_init_list b e s) = is_vmm_inited s"
    "free_pages_head (page_init_list b e s) = free_pages_head s" "chunk_head (page_init_list b e s) = chunk_head s"
    "machine.more (page_init_list b e s) = machine.more s"
    by (simp_all add: page_init_list_def Let_def memset_structs_def set_free_pages_def) (simp add: list_op_defs set_next_def set_prev_def Let_def)
qed

lemma kern_init_tables_frame:
  "pd (kern_init_tables k s) = 0" "is_vmm_inited (kern_init_tables k s) = is_vmm_inited s" "free_pages_head (kern_init_tables k s) = free_pages_head s"
  "chunk_head (kern_init_tables k s) = chunk_head s" "machine.more (kern_init_tables k s) = machine.more s"
proof -
  have st: "pd (st p v s) = pd s" "is_vmm_inited (st p v s) = is_vmm_inited s" "free_pages_head (st p v s) = free_pages_head s"
    "chunk_head (st p v s) = chunk_head s" "machine.more (st p v s) = machine.more s" for p v and s :: "'a machine_scheme"
    by (simp_all add: st_def)
  have z: "pd (fold (\<lambda>i. st (a i) (v i)) is s) = pd s" "is_vmm_inited (fold (\<lambda>i. st (a i) (v i)) is s) = is_vmm_inited s"
    "free_pages_head (fold (\<lambda>i. st (a i) (v i)) is s) = free_pages_head s" "chunk_head (fold (\<lambda>i. st (a i) (v i)) is s) = chunk_head s"
    "machine.more (fold (\<lambda>i. st (a i) (v i)) is s) = machine.more s" for a v and "is" :: "nat list" and s :: "'a machine_scheme"
    by (induction "is" arbitrary: s) (simp_all add: st)
  show "pd (kern_init_tables k s) = 0" "is_vmm_inited (kern_init_tables k s) = is_vmm_inited s" "free_pages_head (kern_init_tables k s) = free_pages_head s"
    "chunk_head (kern_init_tables k s) = chunk_head s" "machine.more (kern_init_tables k s) = machine.more s"
    unfolding kern_init_tables_def Let_def kern_init_dir_st kern_init_fst_st [abs_def] z st by simp_all
qed

lemma page_init_loop_skip: "\<forall>x \<in> set xs. e820_type x \<noteq> 1 \<Longrightarrow> page_init_loop kern_end i (xs @ ys) s = page_init_loop kern_end (i + length xs) ys s"
  by (induction xs arbitrary: i) simp_all

lemma frame_count_mem:
  assumes "unat b \<le> 0x300000" and "0x800000 \<le> unat e"
  shows "1000 < unat (frame_count b e)" and "unat (ROUNDUP b) + 4096 * unat (frame_count b e) \<le> unat (ROUNDDOWN e)"
proof -
  let ?d = "ROUNDDOWN e - ROUNDUP b"
  have rb: "unat (ROUNDUP b) \<le> 0x301000" using ROUNDUP_gt(2) [of b] assms(1) by simp
  have re: "0x7FF000 < unat (ROUNDDOWN e)" using assms(2) mod_less_divisor [of 4096 "unat e"] unfolding unat_ROUNDDOWN by linarith
  have d: "unat ?d = unat (ROUNDDOWN e) - unat (ROUNDUP b)" using rb re by (simp add: unat_sub word_le_nat_alt)
  have n: "unat (?d div PAGE_SIZE) = unat ?d div 4096" by (simp add: unat_div)
  have big: "1000 < unat ?d div 4096"
  proof -
    have "1001 * 4096 \<le> unat ?d" using d rb re by simp
    then have "1001 \<le> unat ?d div 4096" by (simp add: less_eq_div_iff_mult_less_eq)
    then show ?thesis by simp
  qed
  have "unat (?d div PAGE_SIZE) < 2147483648" using unat_lt_2_32 [of ?d] unfolding n by linarith
  then have "MAX_PAGE_NUM <s ?d div PAGE_SIZE \<longleftrightarrow> 30000 < unat ?d div 4096" by (simp add: sless_small n)
  then have fc: "unat (frame_count b e) = min 30000 (unat ?d div 4096)" using n by (auto simp: frame_count_def Let_def min_def)
  then show "1000 < unat (frame_count b e)" using big by simp
  have "4096 * unat (frame_count b e) \<le> unat ?d" unfolding fc using mult_div_mod_eq [of 4096 "unat ?d"] by linarith
  then show "unat (ROUNDUP b) + 4096 * unat (frame_count b e) \<le> unat (ROUNDDOWN e)" using d rb re by linarith
qed

lemma page_init_returns:
  assumes b: "0x100000 \<le> kern_end - VERTUAL_MEM" "kern_end - VERTUAL_MEM \<le> 0x300000" "kpa (free_pages_head s) \<le> kern_end - VERTUAL_MEM" "is_vmm_inited s \<noteq> 1"
    and map: "memmap = m0 # xs @ x # ys" "\<forall>y \<in> set xs \<union> set ys. e820_type y \<noteq> 1" "e820_type x = 1"
    and e: "e = base_lo x + length_lo x" "0x800000 \<le> e" "e < 0x40000000"
  shows "\<exists>s' j k. page_init kern_end memmap (kern_init_tables 0xC0100000 s) = Some s'
    \<and> (\<forall>la. la < 0x400000 \<or> VERTUAL_MEM \<le> la \<and> la < ROUNDDOWN e + VERTUAL_MEM \<longrightarrow> mmu s' 0 la = Some (kpa la))
    \<and> block_list s' [(page_plus (pages s') (of_nat j), k)] \<and> j + k = unat (frame_count (kern_end - VERTUAL_MEM) e) \<and> 8 < k
    \<and> pages s' = ROUNDUP (kern_end - VERTUAL_MEM) \<and> pd s' = 0 \<and> is_vmm_inited s' \<noteq> 1
    \<and> unat (pages s') + 24 * (j + k) < unat (pt_begin s') \<and> unat (pt_begin s') \<le> 0x400000
    \<and> free_pages_head s' = free_pages_head s \<and> chunk_head s' = chunk_head s \<and> machine.more s' = machine.more s"
proof -
  let ?b = "kern_end - VERTUAL_MEM" and ?t = "kern_init_tables 0xC0100000 s"
  define n where "n = unat (frame_count ?b e)"
  define s1 where "s1 = page_init_list ?b e ?t"
  have ub: "0x100000 \<le> unat ?b" "unat ?b \<le> 0x300000" "0x800000 \<le> unat e" "unat e < 0x40000000"
    using b(1,2) e(2,3) by (simp_all add: word_le_nat_alt word_less_nat_alt)
  note fc = frame_count_mem [OF ub(2,3), folded n_def]
  have rb: "unat ?b < unat (ROUNDUP ?b)" "unat (ROUNDUP ?b) \<le> unat ?b + 4096" using ROUNDUP_gt [of ?b] ub by simp_all
  have n30: "n \<le> 30000" unfolding n_def by (rule frame_count_le)
  have lb: "?b < 0x3FF00000" using ub by (simp add: word_less_nat_alt)
  have bl: "block_list s1 [(pages s1, n)]" "pages s1 = ROUNDUP ?b" "unat (pt_begin s1) mod 4096 = 0" "unat (ROUNDUP ?b) + 24 * n < unat (pt_begin s1)"
    using page_init_list_block [OF lb _ n_def _ s1_def] b(3) fc(1) by (simp_all add: kern_init_tables_frame)
  have up: "unat (pt_begin s1) \<le> unat (ROUNDUP ?b) + 24 * n + 4096"
  proof -
    have "unat (ROUNDUP ?b + frame_count ?b e * sizeof_Page) = unat (ROUNDUP ?b) + 24 * n"
      using n30 rb ub by (simp add: n_def unat_word_ariths)
    then show ?thesis using ROUNDUP_gt(2) [of "ROUNDUP ?b + frame_count ?b e * sizeof_Page"] n30 rb ub
      by (simp add: s1_def page_init_list_pt_begin)
  qed
  have pb: "0x2000 \<le> unat (pt_begin s1)" "unat (pt_begin s1) \<le> 0x400000" "unat (pt_begin s1) \<le> unat (ROUNDDOWN e)"
    using bl(4) up rb ub n30 fc by linarith+
  let ?i = "pt_begin s1 + VERTUAL_MEM" and ?e = "ROUNDDOWN e + VERTUAL_MEM"
  have re: "unat (ROUNDDOWN e) \<le> unat e" unfolding unat_ROUNDDOWN by simp
  have ui: "unat ?i = unat (pt_begin s1) + 0xC0000000" "unat ?e = unat (ROUNDDOWN e) + 0xC0000000"
    using pb(2) re ub(4) by (simp_all add: unat_word_ariths)
  have bt: "booting s1 ?i 0 n"
    using bl(1) pb(1,2) b(4) by (intro kern_init_booting [of s]) (simp_all add: s1_def page_init_list_frame kern_init_tables_frame)
  have re4: "unat (ROUNDDOWN e) mod 4096 = 0" unfolding unat_ROUNDDOWN by (simp add: minus_mod_eq_mult_div)
  obtain N where N: "unat (ROUNDDOWN e) = unat (pt_begin s1) + 4096 * N"
  proof -
    have "4096 dvd unat (ROUNDDOWN e) - unat (pt_begin s1)" using re4 bl(3) by (intro dvd_diff_nat) (simp_all add: mod_eq_0_iff_dvd)
    then obtain N where "unat (ROUNDDOWN e) - unat (pt_begin s1) = 4096 * N" by (elim dvdE)
    then show ?thesis using pb(3) that [of N] by simp
  qed
  have W: "windows (unat ?i) (unat ?e) \<le> 256"
  proof -
    have "(unat ?e - 1) div 4194304 < 1024" using unat_lt_2_32 [of ?e] by (simp add: div_less_iff_less_mult)
    moreover have "768 \<le> unat ?i div 4194304" unfolding less_eq_div_iff_mult_less_eq [OF zero_less_numeral] using ui(1) by simp
    ultimately show ?thesis unfolding windows_def by linarith
  qed
  have "\<exists>s' j' k'. page_init_map ?i ?e s1 = Some s' \<and> booting s' ?e j' k' \<and> j' + k' = 0 + n \<and> same_setup s1 s'
    \<and> (0 < N \<longrightarrow> j' + (if walk_slot s1 0 ?i = None then 0 else 1) \<le> 0 + windows (unat ?i) (unat ?e))"
  proof (rule page_init_map_runs [OF bt, where n = N])
    show "VERTUAL_MEM \<le> ?i" using ui by (simp add: word_le_nat_alt)
    have "unat ?i = unat (pt_begin s1) + 0xC0000 * 4096" using ui by simp
    then show "unat ?i mod 4096 = 0" using bl(3) mod_mult_self1 [of "unat (pt_begin s1)" "0xC0000" 4096] by simp
    show "unat ?e = unat ?i + 4096 * N" using ui N by simp
  qed (use W fc(1) pb bl(3) in auto)
  then obtain s' j k where s': "page_init_map ?i ?e s1 = Some s'" "booting s' ?e j k" "j + k = n" "same_setup s1 s'"
      "0 < N \<longrightarrow> j + (if walk_slot s1 0 ?i = None then 0 else 1) \<le> windows (unat ?i) (unat ?e)" by auto
  have "0 < N" using N up fc rb n30 by (cases "N = 0") auto
  then have k: "8 < k" using s'(3,5) W fc(1) by (auto split: if_splits)
  have "page_init kern_end memmap ?t = Some s'"
    using s'(1) map e(1) page_init_loop_skip [of xs kern_end 1 "x # ys" ?t] page_init_loop_skip [of ys kern_end _ "[]"]
    by (simp add: page_init_def page_init_range_def Let_def s1_def)
  moreover have "unat (pages s') + 24 * (j + k) < unat (pt_begin s')" "unat (pt_begin s') \<le> 0x400000"
    using s'(3,4) bl(2,4) pb(2) by (simp_all add: same_setup_def)
  moreover have "pages s' = ROUNDUP ?b" "free_pages_head s' = free_pages_head s" "chunk_head s' = chunk_head s" "machine.more s' = machine.more s"
    using s'(4) bl(2) by (simp_all add: same_setup_def s1_def page_init_list_frame kern_init_tables_frame)
  ultimately show ?thesis using s'(2,3) k unfolding booting_def n_def by blast
qed

text \<open>
  C13. From \<open>kern_init\<close> to the end of \<open>page_init\<close>: on a machine with one usable range of memory behind the first entry of the BIOS map, which ends between 8 MB and 1 GB, and with a kernel that ends
  between 1 MB and 4 MB, \<open>page_init\<close> returns. Afterwards every address of the kernel window up to the end of the memory, and every address below 4 MB, translates to
  the physical address \<open>kpa\<close> that the kernel expects, and all page structs but those of the page tables made on the way are free, in one block.
\<close>

theorem page_init_maps_memory:
  assumes b: "0x100000 \<le> kern_end - VERTUAL_MEM" "kern_end - VERTUAL_MEM \<le> 0x300000" "kpa (free_pages_head s) \<le> kern_end - VERTUAL_MEM" "is_vmm_inited s \<noteq> 1"
    and map: "memmap = m0 # xs @ x # ys" "\<forall>y \<in> set xs \<union> set ys. e820_type y \<noteq> 1" "e820_type x = 1"
    and e: "e = base_lo x + length_lo x" "0x800000 \<le> e" "e < 0x40000000"
  shows "\<exists>s'. page_init kern_end memmap (kern_init_tables 0xC0100000 s) = Some s'
    \<and> (\<forall>la. la < 0x400000 \<or> VERTUAL_MEM \<le> la \<and> la < ROUNDDOWN e + VERTUAL_MEM \<longrightarrow> mmu s' 0 la = Some (kpa la))
    \<and> (\<exists>j k. block_list s' [(page_plus (pages s') (of_nat j), k)] \<and> j + k = unat (frame_count (kern_end - VERTUAL_MEM) e))"
  using page_init_returns [OF assms] by blast

section \<open>Example\<close>

definition bios_map :: "e820_entry list" where
  "bios_map = [\<lparr>base_lo = 0, length_lo = 0x9FC00, e820_type = 1\<rparr>, \<lparr>base_lo = 0xF0000, length_lo = 0x10000, e820_type = 2\<rparr>,
     \<lparr>base_lo = 0x100000, length_lo = 0x7EE0000, e820_type = 1\<rparr>, \<lparr>base_lo = 0x7FE0000, length_lo = 0x20000, e820_type = 2\<rparr>]"

theorem page_init_maps_memory_witness:
  "\<exists>s'. page_init 0xC0107400 bios_map (kern_init_tables 0xC0100000 machine0) = Some s' \<and> mmu s' 0 0xC7FDFFFF = Some 0x7FDFFFF \<and> mmu s' 0 0x105004 = Some 0x105004"
proof -
  have f: "kpa (free_pages_head machine0) = 0x105000" "is_vmm_inited machine0 = 0" by (simp_all add: machine0_def kpa_def)
  have map: "bios_map = hd bios_map # [bios_map ! 1] @ bios_map ! 2 # [bios_map ! 3]" by (simp add: bios_map_def)
  have ty: "\<forall>y \<in> set [bios_map ! 1] \<union> set [bios_map ! 3]. e820_type y \<noteq> 1" "e820_type (bios_map ! 2) = 1" "0x7FE0000 = base_lo (bios_map ! 2) + length_lo (bios_map ! 2)"
    by (simp_all add: bios_map_def)
  have "0x100000 \<le> (0xC0107400 :: u32) - VERTUAL_MEM" "(0xC0107400 :: u32) - VERTUAL_MEM \<le> 0x300000"
    "kpa (free_pages_head machine0) \<le> 0xC0107400 - VERTUAL_MEM" "is_vmm_inited machine0 \<noteq> 1" "(0x800000 :: u32) \<le> 0x7FE0000" "(0x7FE0000 :: u32) < 0x40000000"
    unfolding f by simp_all
  from page_init_maps_memory [OF this(1-4) map ty this(5,6)]
  have "\<exists>s'. page_init 0xC0107400 bios_map (kern_init_tables 0xC0100000 machine0) = Some s'
      \<and> (\<forall>la. la < 0x400000 \<or> VERTUAL_MEM \<le> la \<and> la < ROUNDDOWN 0x7FE0000 + VERTUAL_MEM \<longrightarrow> mmu s' 0 la = Some (kpa la))"
    by blast
  then obtain s' where s': "page_init 0xC0107400 bios_map (kern_init_tables 0xC0100000 machine0) = Some s'"
      "\<And>la. la < 0x400000 \<or> VERTUAL_MEM \<le> la \<and> la < ROUNDDOWN 0x7FE0000 + VERTUAL_MEM \<Longrightarrow> mmu s' 0 la = Some (kpa la)" by blast
  moreover have "mmu s' 0 0xC7FDFFFF = Some (kpa 0xC7FDFFFF)" "mmu s' 0 0x105004 = Some (kpa 0x105004)"
    by (rule s'(2), simp add: ROUNDDOWN_def)+
  ultimately show ?thesis by (simp add: kpa_def)
qed

end
