(* ===== verification/Fork.thy ===== *)
theory Fork
  imports Sched
begin

text \<open>
  The life of a process in \<open>schedule/process/proc.c\<close>: \<open>do_fork\<close> with the copies of address space and stack it makes, \<open>kernel_thread\<close>,
  \<open>do_exit\<close> with the release of the address space and the adoption of the children, and \<open>do_waitpid\<close>. Operations that may run into one of the code's
  endless loops have the value \<open>None\<close>, also \<open>do_exit\<close> when the \<open>schedule\<close> at its end returns and it panics. A call of \<open>schedule\<close> in the middle of \<open>do_waitpid\<close> ends the step: the result says with which
  child the loop goes on (\<open>do_waitpid_resume\<close>) when the process runs again.
\<close>

section \<open>Copying and deleting an address space\<close>

definition memcpy_page :: "u32 \<Rightarrow> u32 \<Rightarrow> 'a machine_scheme \<Rightarrow> 'a machine_scheme" where
  "memcpy_page dst src s = s\<lparr>pmem := (\<lambda>a. if a - kpa dst < PAGE_SIZE then pmem s (kpa src + (a - kpa dst)) else pmem s a)\<rparr>"

text \<open>\<open>memcpy(mm, old_mm, sizeof(struct mm_struct))\<close>.\<close>

definition memcpy_mm :: "u32 \<Rightarrow> u32 \<Rightarrow> 'a machine_scheme \<Rightarrow> 'a machine_scheme" where
  "memcpy_mm m old_mm s =
     (let s = s\<lparr>mm_pde := (mm_pde s)(kpa m := mm_pde s (kpa old_mm)), mm_cache := (mm_cache s)(kpa m := mm_cache s (kpa old_mm)),
                mm_num := (mm_num s)(kpa m := mm_num s (kpa old_mm))\<rparr>;
          s = set_next (mm_node m) (get_next s (mm_node old_mm)) (set_prev (mm_node m) (get_prev s (mm_node old_mm)) s)
      in set_next (mm_vm_fifo m) (get_next s (mm_vm_fifo old_mm)) (set_prev (mm_vm_fifo m) (get_prev s (mm_vm_fifo old_mm)) s))"

definition copy_mm_page :: "u32 \<Rightarrow> u32 \<Rightarrow> u32 \<Rightarrow> u32 \<Rightarrow> 'a machine_scheme \<Rightarrow> 'a machine_scheme option" where
  "copy_mm_page m old_mm old_pte start s =
     do {
       (pte, s) \<leftarrow> get_pte (mm_pde s (kpa m)) start 1 s;
       s \<leftarrow> (if pte = old_pte then
               let slot = pde_slot (mm_pde s (kpa m)) start;
                   s = st slot (upd_sign (0x4 OR 0x2) (ld s slot)) s
               in do {
                 (pte, s) \<leftarrow> get_pte (mm_pde s (kpa m)) start 1 s;
                 Some (memcpy_page (push_bit 12 (ent_addr (ld s slot)) + VERTUAL_MEM)
                   (push_bit 12 (ent_addr (ld s (pde_slot (mm_pde s (kpa old_mm)) start))) + VERTUAL_MEM) s)
               }
             else Some s);
       let old_page_addr_la = get_pg_addr_la s old_pte
       in do {
         (page, s) \<leftarrow> alloc_page 1 s;
         let page_addr_pa = pg_to_addr_pa s page;
             bitsign = (ent_sign (ld s old_pte) AND 0x3) OR 0x4
         in do {
           s \<leftarrow> pg_map (mm_pde s (kpa m)) start page_addr_pa (ucast bitsign) s;
           Some (memcpy_page (pg_to_addr_la s page) old_page_addr_la s)
         }
       }
     }"

partial_function (option) copy_mm_pages :: "u32 \<Rightarrow> u32 \<Rightarrow> u32 \<Rightarrow> u32 \<Rightarrow> 'a machine_scheme \<Rightarrow> 'a machine_scheme option" where
  "copy_mm_pages m old_mm vmm_end start s =
     (if start < vmm_end then
        do {
          (old_pte, s) \<leftarrow> get_pte (mm_pde s (kpa old_mm)) start 0 s;
          if old_pte = NULL then copy_mm_pages m old_mm vmm_end (start + 1024 * PAGE_SIZE) s
          else do {
            s \<leftarrow> (if ent_sign (ld s old_pte) AND 0x1 \<noteq> 0 then copy_mm_page m old_mm old_pte start s else Some s);
            copy_mm_pages m old_mm vmm_end (start + PAGE_SIZE) s
          }
        }
      else Some s)"

partial_function (option) copy_mm_vmas :: "u32 \<Rightarrow> u32 \<Rightarrow> u32 \<Rightarrow> 'a machine_scheme \<Rightarrow> 'a machine_scheme option" where
  "copy_mm_vmas m old_mm beg s =
     (if beg = mm_node old_mm then Some s
      else let old_vma = node_vma beg
           in do {
             (vma, s) \<leftarrow> create_vma m (vma_start s (kpa old_vma)) (vma_end s (kpa old_vma)) (vma_flags s (kpa old_vma)) s;
             s \<leftarrow> copy_mm_pages m old_mm (vma_end s (kpa old_vma)) (vma_start s (kpa old_vma)) s;
             copy_mm_vmas m old_mm (get_next s beg) s
           })"

definition copy_mm :: "u32 \<Rightarrow> u32 \<Rightarrow> u32 \<Rightarrow> 'a kernel_scheme \<Rightarrow> 'a kernel_scheme option" where
  "copy_mm pcb is_share old_mm s =
     (if old_mm = NULL then Some s
      else if is_share \<noteq> 0 then
        let s = s\<lparr>pcb_mm := (pcb_mm s)(kpa pcb := old_mm)\<rparr>;
            s = s\<lparr>mm_num := (mm_num s)(kpa old_mm := mm_num s (kpa old_mm) + 1)\<rparr>
        in Some (s\<lparr>pcb_backup_pde := (pcb_backup_pde s)(kpa pcb := mm_pde s (kpa old_mm))\<rparr>)
      else do {
        (m, s) \<leftarrow> malloc sizeof_mm_struct s;
        let s = memcpy_mm m old_mm s;
            s = list_init (mm_node m) s;
            s = s\<lparr>pcb_mm := (pcb_mm s)(kpa pcb := m)\<rparr>
        in do {
          (new_pde, s) \<leftarrow> alloc_page 1 s;
          let s = s\<lparr>mm_pde := (mm_pde s)(kpa m := pg_to_addr_pa s new_pde)\<rparr>;
              s = memcpy_page (mm_pde s (kpa m)) (mm_pde s (kpa old_mm)) s;
              s = s\<lparr>pcb_backup_pde := (pcb_backup_pde s)(kpa pcb := mm_pde s (kpa m))\<rparr>
          in copy_mm_vmas m old_mm (get_next s (mm_node old_mm)) s
        }
      })"

text \<open>\<open>delete_mm\<close>: unmap the pages of an area, free its page tables, then the page directory, the areas and the struct.\<close>

partial_function (option) delete_mm_pages :: "u32 \<Rightarrow> u32 \<Rightarrow> u32 \<Rightarrow> 'a machine_scheme \<Rightarrow> 'a machine_scheme option" where
  "delete_mm_pages pde vmm_end start s =
     (if start < vmm_end then
        do {
          (pte, s) \<leftarrow> get_pte pde start 0 s;
          if pte = NULL then delete_mm_pages pde vmm_end (start + 1024 * PAGE_SIZE) s
          else if ent_addr (ld s pte) \<noteq> 0 then
            do { s \<leftarrow> pg_unmap pde start s; delete_mm_pages pde vmm_end (start + PAGE_SIZE) s }
          else delete_mm_pages pde vmm_end (start + PAGE_SIZE) s
        }
      else Some s)"

partial_function (option) delete_mm_tables :: "u32 \<Rightarrow> u32 \<Rightarrow> u32 \<Rightarrow> 'a machine_scheme \<Rightarrow> 'a machine_scheme option" where
  "delete_mm_tables pde vmm_end start s =
     (if start < vmm_end then
        let slot = pde_slot pde start
        in if ent_sign (ld s slot) AND 0x1 \<noteq> 0 then
             do {
               s \<leftarrow> free_page (page_plus (pages s) (ent_addr (ld s slot))) 1 s;
               let s = st slot (upd_addr 0 (ld s slot)) s
               in delete_mm_tables pde vmm_end (start + PAGE_SIZE) s
             }
           else delete_mm_tables pde vmm_end (start + PAGE_SIZE) s
      else Some s)"

partial_function (option) delete_mm_vmas :: "u32 \<Rightarrow> u32 \<Rightarrow> 'a machine_scheme \<Rightarrow> 'a machine_scheme option" where
  "delete_mm_vmas m beg s =
     (if beg = mm_node m then Some s
      else let vma = node_vma beg;
               from = vma_start s (kpa vma)
           in do {
             s \<leftarrow> delete_mm_pages (mm_pde s (kpa m)) (vma_end s (kpa vma)) from s;
             s \<leftarrow> delete_mm_tables (mm_pde s (kpa m)) (vma_end s (kpa vma)) (from - from mod (1024 * PAGE_SIZE)) s;
             delete_mm_vmas m (get_next s beg) s
           })"

partial_function (option) delete_mm_free :: "u32 \<Rightarrow> u32 \<Rightarrow> 'a machine_scheme \<Rightarrow> 'a machine_scheme option" where
  "delete_mm_free m beg s =
     (if beg = mm_node m then Some s
      else let nxt = get_next s beg;
               s = list_delete beg s;
               s = free (node_vma beg) s
           in delete_mm_free m nxt s)"

definition delete_mm :: "u32 \<Rightarrow> 'a kernel_scheme \<Rightarrow> 'a kernel_scheme option" where
  "delete_mm m s =
     (if m = NULL then Some s
      else
        let s = s\<lparr>mm_num := (mm_num s)(kpa m := mm_num s (kpa m) - 1)\<rparr>;
            s = on_cpu (\<lambda>c. c\<lparr>cr3 := pd s\<rparr>) s
        in if mm_num s (kpa m) = 0 then
             do {
               s \<leftarrow> delete_mm_vmas m (get_next s (mm_node m)) s;
               s \<leftarrow> free_page (la_addr_to_pg s (mm_pde s (kpa m))) 1 s;
               s \<leftarrow> delete_mm_free m (get_next s (mm_node m)) s;
               Some (free m s)
             }
           else Some s)"

section \<open>Creating a process\<close>

definition copy_thread :: "u32 \<Rightarrow> u32 \<Rightarrow> idtframe \<Rightarrow> 'a kernel_scheme \<Rightarrow> 'a kernel_scheme option" where
  "copy_thread pcb offset frame s =
     do {
       s \<leftarrow> (if offset \<noteq> 0 then
               do {
                 (pte, s) \<leftarrow> get_pte (mm_pde s (kpa (pcb_mm s (kpa pcb)))) (pcb_start_stack s (kpa pcb) + 4 - PAGE_SIZE) 0 s;
                 let s = st pte (upd_sign (ent_sign (ld s pte) OR 0x4) (ld s pte)) s
                 in do {
                   (pte, s) \<leftarrow> get_pte (mm_pde s (kpa (pcb_mm s (kpa pcb)))) (pcb_start_stack s (kpa pcb) + 4 - PAGE_SIZE * 2) 0 s;
                   Some (st pte (upd_sign (ent_sign (ld s pte) OR 0x4) (ld s pte)) s)
                 }
               }
             else Some s);
       let fp = pcb_start_stack s (kpa pcb) - sizeof_idtframe;
           frame = frame\<lparr>fr_esp := (if offset \<noteq> 0 then pcb_start_stack s (kpa pcb) + 4 - (ROUNDUP offset - offset) else 0)\<rparr>;
           frame = frame\<lparr>fr_eflags := fr_eflags frame OR 0x200\<rparr>;
           s = s\<lparr>pcb_frame := (pcb_frame s)(kpa pcb := fp)\<rparr>;
           s = s\<lparr>frames := (frames s)(kpa fp := frame)\<rparr>
       in Some (s\<lparr>pcb_context := (pcb_context s)(kpa pcb :=
            (pcb_context s (kpa pcb))\<lparr>cx_esp := fp, cx_eip := context_to_intr s\<rparr>)\<rparr>)
     }"

text \<open>The three assignments that make a new process the youngest child of its parent.\<close>

definition link_child :: "u32 \<Rightarrow> 'a kernel_scheme \<Rightarrow> 'a kernel_scheme" where
  "link_child pcb s =
     (let s = s\<lparr>pcb_optr := (pcb_optr s)(kpa pcb := get_cptr s (pcb_parent s (kpa pcb)))\<rparr>;
          s = set_cptr (pcb_parent s (kpa pcb)) pcb s
      in set_yptr (pcb_optr s (kpa pcb)) pcb s)"

text \<open>The part of \<open>do_fork\<close> after the new process has got its stack and its pid.\<close>

definition fork_finish :: "u32 \<Rightarrow> u32 \<Rightarrow> u32 \<Rightarrow> idtframe \<Rightarrow> 'a kernel_scheme \<Rightarrow> (i32 \<times> 'a kernel_scheme) option" where
  "fork_finish pcb flags stack_offset frame s =
     (let s = s\<lparr>pcb_parent := (pcb_parent s)(kpa pcb := current s)\<rparr>;
          s = list_insert_after (proc_list s) (pcb_node pcb) s;
          s = s\<lparr>proc_num := proc_num s + 1\<rparr>
      in do {
        s \<leftarrow> copy_mm pcb flags (pcb_mm s (kpa (current s))) s;
        s \<leftarrow> copy_thread pcb stack_offset frame s;
        let s = link_child pcb s;
            s = wakeup_process pcb s
        in Some (pcb_pid s (kpa pcb), s)
      })"

definition do_fork :: "u32 \<Rightarrow> u32 \<Rightarrow> idtframe \<Rightarrow> 'a kernel_scheme \<Rightarrow> (i32 \<times> 'a kernel_scheme) option" where
  "do_fork flags stack_offset frame s =
     (if MAX_PROCESS <s proc_num s then Some (- 1, s)
      else do {
        (pcb, s) \<leftarrow> create_pcb s;
        if pcb = NULL then Some (- 1, s)
        else do {
          (r, s) \<leftarrow> set_kthread_stack pcb stack_offset s;
          if r = - 1 then Some (- 1, free pcb s)
          else
            let (pid, s) = get_pid s;
                s = s\<lparr>pcb_pid := (pcb_pid s)(kpa pcb := pid)\<rparr>
            in if pid = - 1 then
                 let s = free pcb s
                 in do {
                   s \<leftarrow> free_page (la_addr_to_pg s (pcb_start_stack s (kpa pcb))) KTHREAD_STACK_PAGE s;
                   Some (- 1, s)
                 }
               else fork_finish pcb flags stack_offset frame s
        }
      })"

definition kernel_frame :: "u32 \<Rightarrow> u32 \<Rightarrow> u32 \<Rightarrow> idtframe" where
  "kernel_frame entry fn arg =
     \<lparr>fr_my_eax = 0x10, fr_edi = 0, fr_esi = 0, fr_ebp = 0, fr_no_use_esp = 0, fr_ebx = fn, fr_edx = arg, fr_ecx = 0,
      fr_eax = 0, fr_intr_No = 0, fr_errorCode = 0, fr_eip = entry, fr_cs = 0x08, fr_eflags = 0, fr_esp = 0, fr_ss = 0x10\<rparr>"

definition kernel_thread :: "u32 \<Rightarrow> u32 \<Rightarrow> u32 \<Rightarrow> 'a kernel_scheme \<Rightarrow> (i32 \<times> 'a kernel_scheme) option" where
  "kernel_thread fn arg flags s =
     do_fork flags 0 (kernel_frame (kernel_thread_entry s) fn arg) s"

section \<open>Ending a process\<close>

definition send_one_chld :: "'a kernel_scheme \<Rightarrow> 'a kernel_scheme" where
  "send_one_chld s =
     (let child = get_cptr s (current s);
          s = set_cptr (current s) (pcb_optr s (kpa child)) s;
          s = set_yptr child NULL s;
          s = set_yptr (pcb_optr s (kpa child)) NULL s;
          s = s\<lparr>pcb_optr := (pcb_optr s)(kpa child := get_cptr s (init_proc s))\<rparr>;
          s = (if get_cptr s (init_proc s) \<noteq> NULL then set_yptr (get_cptr s (init_proc s)) child s else s);
          s = set_cptr (init_proc s) child s;
          s = s\<lparr>pcb_parent := (pcb_parent s)(kpa child := init_proc s)\<rparr>
      in if pcb_state s (kpa child) = TASK_ZOMBIE \<and> waits_child s (init_proc s) then wakeup_process (init_proc s) s else s)"

partial_function (option) send_chld_loop :: "'a kernel_scheme \<Rightarrow> 'a kernel_scheme option" where
  "send_chld_loop s = (if get_cptr s (current s) = NULL then Some s else send_chld_loop (send_one_chld s))"

definition send_chld_to_init :: "'a kernel_scheme \<Rightarrow> 'a kernel_scheme option" where
  "send_chld_to_init s =
     (let parent = pcb_parent s (kpa (current s));
          s = (if waits_child s parent then wakeup_process parent s else s)
      in send_chld_loop s)"

definition do_exit :: "i32 \<Rightarrow> 'a kernel_scheme \<Rightarrow> 'a kernel_scheme option" where
  "do_exit errorCode s =
     (let (flag, c) = atom_disable_intr (cpu s);
          s = s\<lparr>cpu := c\<rparr>
      in do {
        s \<leftarrow> delete_mm (pcb_mm s (kpa (current s))) s;
        let s = set_state (current s) TASK_ZOMBIE s
        in do {
          s \<leftarrow> send_chld_to_init s;
          s' \<leftarrow> schedule (on_cpu (atom_enable_intr flag) s);
          if current s' = current s then None else Some s'
        }
      })"

section \<open>Waiting for a child\<close>

definition unlink_child :: "u32 \<Rightarrow> 'a kernel_scheme \<Rightarrow> 'a kernel_scheme" where
  "unlink_child child s =
     (let s = (if pcb_yptr s (kpa child) \<noteq> NULL
               then s\<lparr>pcb_optr := (pcb_optr s)(kpa (pcb_yptr s (kpa child)) := pcb_optr s (kpa child))\<rparr>
               else set_cptr (pcb_parent s (kpa child)) (pcb_optr s (kpa child)) s)
      in if pcb_optr s (kpa child) \<noteq> NULL then set_yptr (pcb_optr s (kpa child)) (pcb_yptr s (kpa child)) s else s)"

definition recycle_child :: "u32 \<Rightarrow> 'a kernel_scheme \<Rightarrow> (i32 \<times> 'a kernel_scheme) option" where
  "recycle_child child s =
     (let s = unlink_child child s
      in do {
        s \<leftarrow> free_page (la_addr_to_pg s (pcb_start_stack s (kpa child) - PAGE_SIZE * KTHREAD_STACK_PAGE)) KTHREAD_STACK_PAGE s;
        let s = list_delete (pcb_node child) s;
            s = free child s
        in Some (0, s)
      })"

datatype wait_result = Returned i32 | Rescheduled u32

partial_function (option) wait_scan :: "u32 \<Rightarrow> bool \<Rightarrow> u32 \<Rightarrow> 'a kernel_scheme \<Rightarrow> (bool \<times> u32 + u32) option" where
  "wait_scan beg has_child chd s =
     (if beg = proc_list s then Some (Inl (has_child, chd))
      else
        let chd = node_pcb beg
        in if pcb_parent s (kpa chd) = current s then
             if pcb_state s (kpa chd) = TASK_ZOMBIE then Some (Inr chd)
             else wait_scan (get_next s beg) True chd s
           else wait_scan (get_next s beg) has_child chd s)"

definition wait_recycle :: "u32 \<Rightarrow> 'a kernel_scheme \<Rightarrow> (wait_result \<times> 'a kernel_scheme) option" where
  "wait_recycle chd s = do { (r, s) \<leftarrow> recycle_child chd s; Some (Returned r, s) }"

definition wait_any :: "bool \<Rightarrow> u32 \<Rightarrow> 'a kernel_scheme \<Rightarrow> (wait_result \<times> 'a kernel_scheme) option" where
  "wait_any has_child chd s =
     do {
       r \<leftarrow> wait_scan (get_next s (proc_list s)) has_child chd s;
       case r of
         Inr chd \<Rightarrow> wait_recycle chd s
       | Inl (has_child, chd) \<Rightarrow>
           if \<not> has_child then Some (Returned (- 1), s)
           else do { s \<leftarrow> schedule s; Some (Rescheduled chd, s) }
     }"

partial_function (option) wait_find :: "i32 \<Rightarrow> u32 \<Rightarrow> 'a kernel_scheme \<Rightarrow> u32 option option" where
  "wait_find pid beg s =
     (if beg = proc_list s then Some None
      else if pcb_pid s (kpa (node_pcb beg)) = pid then Some (Some (node_pcb beg))
      else wait_find pid (get_next s beg) s)"

definition wait_one :: "u32 \<Rightarrow> 'a kernel_scheme \<Rightarrow> (wait_result \<times> 'a kernel_scheme) option" where
  "wait_one chd s =
     (if pcb_state s (kpa chd) = TASK_ZOMBIE then wait_recycle chd s
      else do { s \<leftarrow> schedule s; Some (Rescheduled chd, s) })"

definition do_waitpid :: "i32 \<Rightarrow> 'a kernel_scheme \<Rightarrow> (wait_result \<times> 'a kernel_scheme) option" where
  "do_waitpid pid s =
     (if pid = 0 then wait_any False NULL s
      else do {
        r \<leftarrow> wait_find pid (get_next s (proc_list s)) s;
        case r of
          None \<Rightarrow> Some (Returned 0, s)
        | Some chd \<Rightarrow> if pcb_parent s (kpa chd) = current s then wait_one chd s else Some (Returned (- 1), s)
      })"

text \<open>After the \<open>schedule\<close>: the loop over one child, or the jump to \<open>inner_loop\<close>, which looks at \<open>chd\<close> first.\<close>

definition do_waitpid_resume :: "i32 \<Rightarrow> u32 \<Rightarrow> 'a kernel_scheme \<Rightarrow> (wait_result \<times> 'a kernel_scheme) option" where
  "do_waitpid_resume pid chd s =
     (if pid = 0 then
        if pcb_state s (kpa chd) = TASK_ZOMBIE then wait_recycle chd s else wait_any True chd s
      else wait_one chd s)"

section \<open>Families\<close>

text \<open>
  \<open>siblings s y cs\<close>: the children \<open>cs\<close>, youngest first, are chained by \<open>optr\<close> and back by \<open>yptr\<close>, \<open>y\<close> being younger than the first;
  \<open>z\<close> follows the last one.
\<close>

fun siblings :: "'a kernel_scheme \<Rightarrow> u32 \<Rightarrow> u32 list \<Rightarrow> u32 \<Rightarrow> bool" where
  "siblings s y [] z \<longleftrightarrow> True"
| "siblings s y (c # cs) z \<longleftrightarrow> pcb_yptr s (kpa c) = y \<and> pcb_optr s (kpa c) = first_or z cs \<and> siblings s c cs z"

definition children :: "'a kernel_scheme \<Rightarrow> u32 \<Rightarrow> u32 list \<Rightarrow> bool" where
  "children s p cs \<longleftrightarrow> p \<noteq> NULL \<and> pcb_cptr s (kpa p) = first_or NULL cs \<and> siblings s NULL cs NULL
     \<and> distinct (map kpa cs) \<and> NULL \<notin> set cs \<and> (\<forall>c \<in> set cs. pcb_parent s (kpa c) = p)"

lemma siblings_append: "siblings s y (as @ bs) z \<longleftrightarrow> siblings s y as (first_or z bs) \<and> siblings s (last (y # as)) bs z"
proof (induction as arbitrary: y)
  case (Cons a as)
  have "first_or z (as @ bs) = first_or (first_or z bs) as" by (cases as) auto
  then show ?case using Cons by auto
qed simp

lemma siblings_cong:
  assumes "\<And>c. c \<in> set cs \<Longrightarrow> pcb_yptr s' (kpa c) = pcb_yptr s (kpa c)"
    and "\<And>c. c \<in> set cs \<Longrightarrow> pcb_optr s' (kpa c) = pcb_optr s (kpa c)"
  shows "siblings s' y cs z = siblings s y cs z"
  using assms by (induction cs arbitrary: y) auto

text \<open>Changing the two ends of a chain.\<close>

lemma siblings_first:
  assumes "siblings s y cs z" and "distinct (map kpa cs)"
    and "\<And>c. pcb_yptr s' (kpa c) = (if cs \<noteq> [] \<and> kpa c = kpa (first_or 0 cs) then y' else pcb_yptr s (kpa c))"
    and "\<And>c. c \<in> set cs \<Longrightarrow> pcb_optr s' (kpa c) = pcb_optr s (kpa c)"
  shows "siblings s' y' cs z"
proof (cases cs)
  case (Cons c ds)
  have "kpa d \<noteq> kpa c" if "d \<in> set ds" for d using kpa_neqI [of c "set ds" d] assms(2) that Cons by auto
  then have "siblings s' c ds z = siblings s c ds z" using assms(3,4) Cons by (intro siblings_cong) auto
  then show ?thesis using assms Cons by auto
qed simp

lemma siblings_last:
  assumes "siblings s y (cs @ [d]) z" and "distinct (map kpa (cs @ [d]))"
    and "\<And>c. c \<in> set (cs @ [d]) \<Longrightarrow> pcb_optr s' (kpa c) = (if kpa c = kpa d then z' else pcb_optr s (kpa c))"
    and "\<And>c. c \<in> set (cs @ [d]) \<Longrightarrow> pcb_yptr s' (kpa c) = pcb_yptr s (kpa c)"
  shows "siblings s' y (cs @ [d]) z'"
proof -
  have n: "kpa c \<noteq> kpa d" if "c \<in> set cs" for c using kpa_neqI [of d "set cs" c] assms(2) that by auto
  then have "siblings s' y cs d = siblings s y cs d" using assms(3,4) by (intro siblings_cong) auto
  then show ?thesis using assms by (simp add: siblings_append)
qed

lemma link_child_fields:
  assumes "children s p cs" and "pcb_parent s (kpa pcb) = p"
  shows "pcb_optr (link_child pcb s) = (pcb_optr s)(kpa pcb := first_or NULL cs)"
    and "pcb_cptr (link_child pcb s) = (pcb_cptr s)(kpa p := pcb)"
    and "pcb_yptr (link_child pcb s) = (if cs = [] then pcb_yptr s else (pcb_yptr s)(kpa (first_or NULL cs) := pcb))"
    and "pcb_parent (link_child pcb s) = pcb_parent s"
    and "pmem (link_child pcb s) = (if cs = [] then (pmem s)(68 := pcb) else pmem s)"
proof -
  have "first_or NULL cs = NULL \<longleftrightarrow> cs = []" using assms(1) by (cases cs) (auto simp: children_def)
  moreover have "kpa (68 :: u32) = 68" by simp
  ultimately show "pcb_optr (link_child pcb s) = (pcb_optr s)(kpa pcb := first_or NULL cs)"
    "pcb_cptr (link_child pcb s) = (pcb_cptr s)(kpa p := pcb)"
    "pcb_yptr (link_child pcb s) = (if cs = [] then pcb_yptr s else (pcb_yptr s)(kpa (first_or NULL cs) := pcb))"
    "pcb_parent (link_child pcb s) = pcb_parent s"
    "pmem (link_child pcb s) = (if cs = [] then (pmem s)(68 := pcb) else pmem s)"
    using assms
    by (auto simp: link_child_def Let_def get_cptr_def set_cptr_def set_yptr_def children_def st_def)
qed

lemma link_child_children:
  assumes "children s p cs" and "pcb_parent s (kpa pcb) = p" and "pcb \<noteq> NULL" and "kpa pcb \<notin> kpa ` set cs" and "pcb_yptr s (kpa pcb) = NULL"
  shows "children (link_child pcb s) p (pcb # cs)"
proof -
  note f = link_child_fields [OF assms(1,2)]
  have sib: "siblings s NULL cs NULL" "distinct (map kpa cs)" using assms(1) by (simp_all add: children_def)
  have nc: "kpa c \<noteq> kpa pcb" if "c \<in> set cs" for c using kpa_neqI [OF assms(4) that] by simp
  have ne: "kpa (first_or NULL cs) \<noteq> kpa pcb" if "cs \<noteq> []" using assms(4) that by (cases cs) auto
  have "siblings (link_child pcb s) pcb cs NULL"
    using nc ne by (intro siblings_first [OF sib]) (auto simp: f)
  moreover have "pcb_yptr (link_child pcb s) (kpa pcb) = NULL" using ne assms(5) by (auto simp: f)
  ultimately show ?thesis
    using assms sib by (auto simp: children_def f)
qed

lemma unlink_child_fields:
  assumes "children s p (as @ c # bs)"
  shows "pcb_optr (unlink_child c s) = (if as = [] then pcb_optr s else (pcb_optr s)(kpa (last as) := first_or NULL bs))"
    and "pcb_cptr (unlink_child c s) = (if as = [] then (pcb_cptr s)(kpa p := first_or NULL bs) else pcb_cptr s)"
    and "pcb_yptr (unlink_child c s) = (if bs = [] then pcb_yptr s else (pcb_yptr s)(kpa (first_or NULL bs) := last (NULL # as)))"
    and "pcb_parent (unlink_child c s) = pcb_parent s"
proof -
  have sib: "siblings s NULL as c" "pcb_yptr s (kpa c) = last (NULL # as)" "pcb_optr s (kpa c) = first_or NULL bs"
    and d: "distinct (map kpa (as @ c # bs))" and p: "p \<noteq> NULL" "pcb_parent s (kpa c) = p" and n: "NULL \<notin> set (as @ c # bs)"
    using assms by (auto simp: children_def siblings_append)
  have a: "last (NULL # as) = NULL \<longleftrightarrow> as = []" using n by (cases as rule: rev_cases) auto
  have b: "first_or NULL bs = NULL \<longleftrightarrow> bs = []" using n by (cases bs) auto
  have la: "kpa (last as) \<noteq> kpa c" if "as \<noteq> []" using d that kpa_neqI [of c "set as" "last as"] by auto
  have lst: "last (NULL # as) = last as" if "as \<noteq> []" using that by simp
  show "pcb_optr (unlink_child c s) = (if as = [] then pcb_optr s else (pcb_optr s)(kpa (last as) := first_or NULL bs))"
    "pcb_cptr (unlink_child c s) = (if as = [] then (pcb_cptr s)(kpa p := first_or NULL bs) else pcb_cptr s)"
    "pcb_yptr (unlink_child c s) = (if bs = [] then pcb_yptr s else (pcb_yptr s)(kpa (first_or NULL bs) := last (NULL # as)))"
    "pcb_parent (unlink_child c s) = pcb_parent s"
    using sib p a b la lst
    by (cases "as = []"; cases "bs = []"; simp add: unlink_child_def Let_def set_cptr_def set_yptr_def)+
qed

lemma unlink_child_children:
  assumes ch: "children s p (as @ c # bs)"
  shows "children (unlink_child c s) p (as @ bs)"
proof -
  note f = unlink_child_fields [OF ch]
  have sa: "siblings s NULL as c" and sb: "siblings s c bs NULL" and cp: "pcb_cptr s (kpa p) = first_or NULL (as @ c # bs)"
    and d: "distinct (map kpa (as @ c # bs))"
    using ch by (auto simp: children_def siblings_append)
  have ab: "kpa x \<noteq> kpa y" if "x \<in> set as" "y \<in> set bs" for x y
    using d that by (auto simp: image_iff disjoint_iff)
  have fb: "first_or NULL bs \<in> set bs" if "bs \<noteq> []" using that by (cases bs) auto
  have "siblings (unlink_child c s) (last (NULL # as)) bs NULL"
  proof (rule siblings_first [OF sb])
    show "distinct (map kpa bs)" using d by simp
    show "pcb_optr (unlink_child c s) (kpa x) = pcb_optr s (kpa x)" if "x \<in> set bs" for x
      using ab [of "last as" x] that by (cases "as = []") (auto simp: f)
  qed (auto simp: f)
  moreover have "siblings (unlink_child c s) NULL as (first_or NULL bs)"
  proof (cases as rule: rev_cases)
    case (snoc as' a)
    have y: "pcb_yptr (unlink_child c s) (kpa x) = pcb_yptr s (kpa x)" if "x \<in> set (as' @ [a])" for x
      using ab [of x "first_or NULL bs"] fb that snoc by (auto simp: f)
    show ?thesis unfolding snoc
      using d snoc by (intro siblings_last [OF sa [unfolded snoc]] y) (auto simp: f)
  qed simp
  moreover have "pcb_cptr (unlink_child c s) (kpa p) = first_or NULL (as @ bs)"
    using cp by (cases as) (auto simp: f)
  ultimately show ?thesis
    using ch by (auto simp: children_def siblings_append f)
qed

lemma first_or_NULL: "children s p cs \<Longrightarrow> first_or NULL cs = NULL \<longleftrightarrow> cs = []"
  by (cases cs) (auto simp: children_def)

lemma ptr_fields [simp]:
  "pcb_optr (set_cptr p v s) = pcb_optr s" "pcb_yptr (set_cptr p v s) = pcb_yptr s" "pcb_parent (set_cptr p v s) = pcb_parent s"
  "current (set_cptr p v s) = current s" "init_proc (set_cptr p v s) = init_proc s"
  "pcb_optr (set_yptr p v s) = pcb_optr s" "pcb_cptr (set_yptr p v s) = pcb_cptr s" "pcb_parent (set_yptr p v s) = pcb_parent s"
  "current (set_yptr p v s) = current s" "init_proc (set_yptr p v s) = init_proc s"
  "pcb_yptr (set_yptr p v s) = (if p = NULL then pcb_yptr s else (pcb_yptr s)(kpa p := v))"
  "p \<noteq> NULL \<Longrightarrow> pcb_cptr (set_cptr p v s) = (pcb_cptr s)(kpa p := v)"
  by (simp_all add: set_cptr_def set_yptr_def st_def)

lemma wake_fields [simp]:
  "pcb_optr (if b then wakeup_process p s else s) = pcb_optr s" "pcb_cptr (if b then wakeup_process p s else s) = pcb_cptr s"
  "pcb_yptr (if b then wakeup_process p s else s) = pcb_yptr s" "pcb_parent (if b then wakeup_process p s else s) = pcb_parent s"
  "current (if b then wakeup_process p s else s) = current s" "init_proc (if b then wakeup_process p s else s) = init_proc s"
  by (simp_all add: wakeup_process_def set_state_def st_def)

lemma get_cptr_nonnull [simp]: "p \<noteq> NULL \<Longrightarrow> get_cptr s p = pcb_cptr s (kpa p)"
  by (simp add: get_cptr_def)

lemma send_one_fields:
  assumes ch: "children s (current s) (c # cs)" and ini: "children s (init_proc s) ds" and ne: "kpa (init_proc s) \<noteq> kpa (current s)"
  shows "pcb_cptr (send_one_chld s) = (pcb_cptr s)(kpa (current s) := first_or NULL cs, kpa (init_proc s) := c)"
    and "pcb_optr (send_one_chld s) = (pcb_optr s)(kpa c := first_or NULL ds)"
    and "pcb_yptr (send_one_chld s) = (\<lambda>a. if ds \<noteq> [] \<and> a = kpa (first_or NULL ds) then c
           else if a = kpa c \<or> cs \<noteq> [] \<and> a = kpa (first_or NULL cs) then NULL else pcb_yptr s a)"
    and "pcb_parent (send_one_chld s) = (pcb_parent s)(kpa c := init_proc s)"
    and "current (send_one_chld s) = current s" and "init_proc (send_one_chld s) = init_proc s"
proof -
  have n: "current s \<noteq> NULL" "init_proc s \<noteq> NULL" "c \<noteq> NULL" using ch ini by (auto simp: children_def)
  have cc: "pcb_cptr s (kpa (current s)) = c" "pcb_optr s (kpa c) = first_or NULL cs" "pcb_cptr s (kpa (init_proc s)) = first_or NULL ds"
    using ch ini by (auto simp: children_def)
  have e: "first_or NULL cs = NULL \<longleftrightarrow> cs = []" "first_or NULL ds = NULL \<longleftrightarrow> ds = []"
    using ch first_or_NULL [OF ini] by (cases cs; auto simp: children_def)+
  note d = send_one_chld_def Let_def
  show "pcb_cptr (send_one_chld s) = (pcb_cptr s)(kpa (current s) := first_or NULL cs, kpa (init_proc s) := c)"
    using n cc ne e by (cases "ds = []") (simp_all add: d)
  show "pcb_optr (send_one_chld s) = (pcb_optr s)(kpa c := first_or NULL ds)"
    using n cc ne e by (cases "ds = []") (simp_all add: d)
  show "pcb_yptr (send_one_chld s) = (\<lambda>a. if ds \<noteq> [] \<and> a = kpa (first_or NULL ds) then c
           else if a = kpa c \<or> cs \<noteq> [] \<and> a = kpa (first_or NULL cs) then NULL else pcb_yptr s a)"
    using n cc ne e by (cases "ds = []"; cases "cs = []") (auto simp: d fun_eq_iff)
  show "pcb_parent (send_one_chld s) = (pcb_parent s)(kpa c := init_proc s)"
    using n cc ne e by (cases "ds = []") (simp_all add: d)
  show "current (send_one_chld s) = current s" "init_proc (send_one_chld s) = init_proc s"
    using n cc ne e by (cases "ds = []"; simp add: d)+
qed

lemma send_one_children:
  assumes ch: "children s (current s) (c # cs)" and ini: "children s (init_proc s) ds" and ne: "kpa (init_proc s) \<noteq> kpa (current s)"
    and dj: "kpa ` set (c # cs) \<inter> kpa ` set ds = {}"
  shows "children (send_one_chld s) (current s) cs" and "children (send_one_chld s) (init_proc s) (c # ds)"
proof -
  note f = send_one_fields [OF ch ini ne]
  have sc: "siblings s c cs NULL" "distinct (map kpa (c # cs))" and sd: "siblings s NULL ds NULL" "distinct (map kpa ds)"
    using ch ini by (auto simp: children_def)
  have nc: "kpa x \<noteq> kpa c" if "x \<in> set cs \<or> x \<in> set ds" for x
    using sc(2) dj kpa_neqI [of c "set cs \<union> set ds" x] that by (auto simp: image_Un)
  have nd: "kpa x \<noteq> kpa (first_or NULL ds)" if "x \<in> set (c # cs)" "ds \<noteq> []" for x
    using dj that by (cases ds) (auto simp: disjoint_iff image_iff)
  have nx: "kpa x \<noteq> kpa (first_or NULL cs)" if "x \<in> set ds" "cs \<noteq> []" for x
  proof
    assume "kpa x = kpa (first_or NULL cs)"
    moreover have "first_or NULL cs \<in> set (c # cs)" using that(2) by (cases cs) auto
    ultimately show False using dj that(1) by (metis imageI IntI empty_iff)
  qed
  have "siblings (send_one_chld s) NULL cs NULL"
  proof (cases cs)
    case (Cons a as)
    have "kpa x \<noteq> kpa a" if "x \<in> set as" for x using sc(2) Cons kpa_neqI [of a "set as" x] that by auto
    then have "siblings (send_one_chld s) a as NULL = siblings s a as NULL"
      using nc nd Cons by (intro siblings_cong) (auto simp: f)
    then show ?thesis using sc nc nd Cons by (auto simp: f)
  qed simp
  then show "children (send_one_chld s) (current s) cs"
    using ch nc ne by (auto simp: children_def f)
  have "siblings (send_one_chld s) c ds NULL"
  proof (cases ds)
    case (Cons a as)
    have "kpa x \<noteq> kpa a" if "x \<in> set as" for x using sd(2) Cons kpa_neqI [of a "set as" x] that by auto
    then have "siblings (send_one_chld s) a as NULL = siblings s a as NULL"
      using nc nx Cons by (intro siblings_cong) (auto simp: f)
    then show ?thesis using sd nc Cons by (auto simp: f)
  qed simp
  then show "children (send_one_chld s) (init_proc s) (c # ds)"
    using ini ch nc nd [of c] dj by (auto simp: children_def f)
qed

lemma send_chld_loop_all:
  assumes "children s (current s) cs" and "children s (init_proc s) ds" and "kpa (init_proc s) \<noteq> kpa (current s)"
    and "kpa ` set cs \<inter> kpa ` set ds = {}"
  shows "\<exists>s'. send_chld_loop s = Some s' \<and> children s' (current s) [] \<and> children s' (init_proc s) (rev cs @ ds)
    \<and> current s' = current s \<and> init_proc s' = init_proc s"
  using assms
proof (induction cs arbitrary: s ds)
  case Nil
  then have "get_cptr s (current s) = NULL" by (auto simp: children_def)
  then show ?case using Nil by (subst send_chld_loop.simps) simp
next
  case (Cons c cs)
  have n: "current s \<noteq> NULL" "c \<noteq> NULL" "get_cptr s (current s) = c" using Cons.prems(1) by (auto simp: children_def)
  note f = send_one_fields(5,6) [OF Cons.prems(1-3)]
  have "kpa ` set cs \<inter> kpa ` set (c # ds) = {}"
    using Cons.prems(1,4) by (auto simp: children_def)
  then obtain s' where s': "send_chld_loop (send_one_chld s) = Some s'" "children s' (current s) []"
      "children s' (init_proc s) (rev cs @ c # ds)" "current s' = current s" "init_proc s' = init_proc s"
    using Cons.IH [of "send_one_chld s" "c # ds"] send_one_children [OF Cons.prems] Cons.prems(3) by (auto simp: f)
  then show ?case using n by (subst send_chld_loop.simps) simp
qed

section \<open>Properties\<close>

text \<open>
  C23. A new process becomes the youngest child of its parent, and recycling any child takes exactly that one out of the family: the
  list of children, youngest first, with its links in both directions, goes from \<open>cs\<close> to \<open>pcb # cs\<close> and from \<open>as @ c # bs\<close> to \<open>as @ bs\<close>.
\<close>

theorem family_links:
  assumes "children s p cs" and "pcb_parent s (kpa pcb) = p" and "pcb \<noteq> NULL" and "kpa pcb \<notin> kpa ` set cs" and "pcb_yptr s (kpa pcb) = NULL"
  shows "children (link_child pcb s) p (pcb # cs)
    \<and> (\<forall>as c bs. pcb # cs = as @ c # bs \<longrightarrow> children (unlink_child c (link_child pcb s)) p (as @ bs))"
  using link_child_children [OF assms] by (auto intro: unlink_child_children)

text \<open>
  C39. The first child of a process has no elder brother, and \<open>do_fork\<close> stores the pointer to the new process in the \<open>yptr\<close> of
  the \<open>NULL\<close> process: in a kernel whose page directory is at physical address 0, where \<open>kern_init\<close> put it, this overwrites the directory entry of the 4 MB at
  0x04400000.
\<close>

theorem first_child_hits_directory:
  assumes "children s p []" and "pcb_parent s (kpa pcb) = p" and "kpa (pd s) = 0"
  shows "pmem (link_child pcb s) = (pmem s)(68 := pcb) \<and> ld (link_child pcb s) (pde_slot (pd s) 0x04400000) = pcb"
proof -
  have "pd s = 0 \<or> pd s = VERTUAL_MEM" using assms(3) by (auto simp: kpa_def split: if_splits)
  then have "kpa (pde_slot (pd s) 0x04400000) = 68" by (auto simp: pde_slot_def kpa_def)
  then show ?thesis using link_child_fields(5) [OF assms(1,2)] by (simp add: ld_def)
qed

text \<open>
  C16. The orphans of an exiting process are adopted: the loop of \<open>send_chld_to_init\<close> ends, afterwards the process has no children, and
  the init process has all of them besides its own, in reversed order, with all links and parent pointers set.
\<close>

theorem orphans_adopted:
  assumes "children s (current s) cs" and "children s (init_proc s) ds" and "kpa (init_proc s) \<noteq> kpa (current s)"
    and "kpa ` set cs \<inter> kpa ` set ds = {}" and "pcb_parent s (kpa (current s)) \<noteq> NULL"
  shows "\<exists>s'. send_chld_to_init s = Some s' \<and> children s' (current s) [] \<and> children s' (init_proc s) (rev cs @ ds)"
proof -
  define s1 where "s1 = (if waits_child s (pcb_parent s (kpa (current s))) then wakeup_process (pcb_parent s (kpa (current s))) s else s)"
  have f: "current s1 = current s" "init_proc s1 = init_proc s" by (simp_all add: s1_def)
  have sib: "siblings s1 y xs z = siblings s y xs z" for y xs z by (rule siblings_cong) (simp_all add: s1_def)
  have "children s1 p xs = children s p xs" for p xs by (simp add: children_def sib) (simp add: s1_def)
  then show ?thesis
    using send_chld_loop_all [of s1 cs ds] assms by (auto simp: f send_chld_to_init_def Let_def s1_def [symmetric])
qed

lemma wakeup_children: "children (wakeup_process p s) q cs = children s q cs"
proof -
  have "siblings (wakeup_process p s) y xs z = siblings s y xs z" for y xs z
    by (rule siblings_cong) (simp_all add: wakeup_process_def set_state_def st_def)
  then show ?thesis by (simp add: children_def) (simp add: wakeup_process_def set_state_def st_def)
qed

text \<open>The states of \<open>do_fork\<close> for a kernel thread: the new process is linked in, then its frame and context are made.\<close>

definition thread_linked :: "u32 \<Rightarrow> 'a kernel_scheme \<Rightarrow> 'a kernel_scheme" where
  "thread_linked pcb s = (list_insert_after (proc_list s) (pcb_node pcb) (s\<lparr>pcb_parent := (pcb_parent s)(kpa pcb := current s)\<rparr>))\<lparr>proc_num := proc_num s + 1\<rparr>"

definition thread_framed :: "u32 \<Rightarrow> idtframe \<Rightarrow> 'a kernel_scheme \<Rightarrow> 'a kernel_scheme" where
  "thread_framed pcb f s =
     (let fp = pcb_start_stack s (kpa pcb) - sizeof_idtframe
      in s\<lparr>pcb_frame := (pcb_frame s)(kpa pcb := fp), frames := (frames s)(kpa fp := f\<lparr>fr_esp := 0, fr_eflags := 0x200\<rparr>),
        pcb_context := (pcb_context s)(kpa pcb := (pcb_context s (kpa pcb))\<lparr>cx_esp := fp, cx_eip := context_to_intr s\<rparr>)\<rparr>)"

lemma thread_linked_fields [simp]:
  "pcb_mm (thread_linked pcb s) = pcb_mm s" "current (thread_linked pcb s) = current s" "pcb_start_stack (thread_linked pcb s) = pcb_start_stack s"
  "context_to_intr (thread_linked pcb s) = context_to_intr s" "pcb_parent (thread_linked pcb s) = (pcb_parent s)(kpa pcb := current s)"
  "pcb_pid (thread_linked pcb s) = pcb_pid s" "pcb_cptr (thread_linked pcb s) = pcb_cptr s" "pcb_yptr (thread_linked pcb s) = pcb_yptr s"
  "pcb_optr (thread_linked pcb s) = pcb_optr s" "proc_num (thread_linked pcb s) = proc_num s + 1" "proc_list (thread_linked pcb s) = proc_list s"
  by (simp_all add: thread_linked_def list_op_defs set_next_def set_prev_def Let_def)

lemma fork_finish_thread:
  assumes mm: "pcb_mm s (kpa (current s)) = NULL"
  shows "fork_finish pcb flags 0 (kernel_frame entry fn arg) s =
    Some (pcb_pid s (kpa pcb), wakeup_process pcb (link_child pcb (thread_framed pcb (kernel_frame entry fn arg) (thread_linked pcb s))))"
proof -
  let ?s1 = "thread_linked pcb s" and ?s2 = "thread_framed pcb (kernel_frame entry fn arg) (thread_linked pcb s)"
  have pn: "proc_num (list_insert_after (proc_list s) (pcb_node pcb) (s\<lparr>pcb_parent := (pcb_parent s)(kpa pcb := current s)\<rparr>)) = proc_num s"
    "proc_list (s\<lparr>pcb_parent := (pcb_parent s)(kpa pcb := current s)\<rparr>) = proc_list s"
    by (simp_all add: list_op_defs set_next_def set_prev_def Let_def)
  have "copy_thread pcb 0 (kernel_frame entry fn arg) ?s1 = Some ?s2"
    by (simp add: copy_thread_def Let_def thread_framed_def kernel_frame_def)
  moreover have "copy_mm pcb flags (pcb_mm ?s1 (kpa (current ?s1))) ?s1 = Some ?s1" using mm by (simp add: copy_mm_def)
  moreover have "pcb_pid (wakeup_process pcb (link_child pcb ?s2)) = pcb_pid s"
    by (simp add: wakeup_process_def set_state_def link_child_def Let_def set_cptr_def set_yptr_def st_def thread_framed_def)
  ultimately show ?thesis unfolding fork_finish_def Let_def pn thread_linked_def [symmetric] by simp
qed

text \<open>A new control block from a chunk that fits.\<close>

lemma create_pcb_fit:
  assumes h: "heap s hs" and fit: "malloc_fit 92 hs = Some (pcb, hs')"
  shows "\<exists>s1 a b c d. create_pcb s = Some (pcb, s1) \<and> pcb \<noteq> NULL \<and> other_rings s s1 (chunk_head s # heap_nodes hs') \<and>
    s1 = s\<lparr>ln_prev := a, ln_next := b, ck_allocated := c, ck_size := d,
      pcb_state := (pcb_state s)(kpa pcb := TASK_READY), pcb_pid := (pcb_pid s)(kpa pcb := - 1), pcb_start_stack := (pcb_start_stack s)(kpa pcb := 0),
      pcb_mm := (pcb_mm s)(kpa pcb := NULL),
      pcb_context := (pcb_context s)(kpa pcb := \<lparr>cx_eip = 0, cx_ebx = 0, cx_ecx = 0, cx_edx = 0, cx_esi = 0, cx_edi = 0, cx_ebp = 0, cx_esp = 0\<rparr>),
      pcb_backup_pde := (pcb_backup_pde s)(kpa pcb := pd s), pcb_parent := (pcb_parent s)(kpa pcb := NULL), pcb_waitstate := (pcb_waitstate s)(kpa pcb := NOT_WT),
      pcb_optr := (pcb_optr s)(kpa pcb := NULL), pcb_cptr := (pcb_cptr s)(kpa pcb := NULL), pcb_yptr := (pcb_yptr s)(kpa pcb := NULL)\<rparr>"
proof -
  obtain m where m: "malloc (of_nat 92) s = Some (pcb, m)" "heap_step s m hs'" using malloc_fit_heap [OF h fit] by blast
  obtain as c n bs where cs: "hs = as @ (c, False, n) # bs" and p: "pcb = c + 12" using malloc_fit_Some [OF fit] by blast
  have "VERTUAL_MEM \<le> c" "unat c + 12 + n < 4294967296" using h unfolding cs by (simp_all add: heap_def chunk_ok_def)
  then have "unat pcb \<noteq> 0" by (simp add: p unat_word_ariths word_le_nat_alt)
  then have nn: "pcb \<noteq> NULL" by auto
  obtain a b c d where m2: "m = s\<lparr>ln_prev := a, ln_next := b, ck_allocated := c, ck_size := d\<rparr>" using heap_only_fields_upd m(2) unfolding heap_step_def by blast
  have o: "other_rings s m (chunk_head s # heap_nodes hs')" using m(2) by (simp add: heap_step_def)
  let ?s1 = "m\<lparr>pcb_state := (pcb_state s)(kpa pcb := TASK_READY), pcb_pid := (pcb_pid s)(kpa pcb := - 1), pcb_start_stack := (pcb_start_stack s)(kpa pcb := 0),
      pcb_mm := (pcb_mm s)(kpa pcb := NULL),
      pcb_context := (pcb_context s)(kpa pcb := \<lparr>cx_eip = 0, cx_ebx = 0, cx_ecx = 0, cx_edx = 0, cx_esi = 0, cx_edi = 0, cx_ebp = 0, cx_esp = 0\<rparr>),
      pcb_backup_pde := (pcb_backup_pde s)(kpa pcb := pd s), pcb_parent := (pcb_parent s)(kpa pcb := NULL), pcb_waitstate := (pcb_waitstate s)(kpa pcb := NOT_WT),
      pcb_optr := (pcb_optr s)(kpa pcb := NULL), pcb_cptr := (pcb_cptr s)(kpa pcb := NULL), pcb_yptr := (pcb_yptr s)(kpa pcb := NULL)\<rparr>"
  have "create_pcb s = Some (pcb, ?s1)" using m(1) nn by (simp add: create_pcb_def m2)
  moreover have "other_rings s ?s1 (chunk_head s # heap_nodes hs')"
    by (rule other_rings_links [OF o]) (simp_all add: get_next_def get_prev_def fun_eq_iff)
  ultimately show ?thesis using nn unfolding m2 by blast
qed

lemma set_kthread_stack_block:
  assumes bl: "block_list s ((p, k) # bs)" and k: "2 < k" and p: "p = page_plus (pages s) j"
  shows "\<exists>s1 a b c d e. set_kthread_stack pcb 0 s = Some (0, s1) \<and> other_rings s s1 (free_pages_head s # map page_node (block_pages ((p, k) # bs))) \<and>
    s1 = s\<lparr>ln_prev := a, ln_next := b, free_page_num := c, pg_free_pages := d, pg_flags := e,
      pcb_start_stack := (pcb_start_stack s)(kpa pcb := j * PAGE_SIZE + pt_begin s + VERTUAL_MEM + 0x2000 - 4)\<rparr>"
proof -
  have nv: "no_victim s KTHREAD_STACK_PAGE (block_pages ((p, k) # bs))" by (simp add: no_victim_def)
  obtain m a b c d e where m: "alloc_page KTHREAD_STACK_PAGE s = Some (p + VERTUAL_MEM, m)" "other_rings s m (free_pages_head s # map page_node (block_pages ((p, k) # bs)))"
      and m2: "m = s\<lparr>ln_prev := a, ln_next := b, free_page_num := c, pg_free_pages := d, pg_flags := e\<rparr>"
    using alloc_page_block [OF bl _ _ nv] k by fastforce
  have "p \<in> set (block_pages ((p, k) # bs))" using k by (simp add: page_run_Cons)
  then have "low_page p" using bl unfolding block_list_def free_list_def by blast
  then have "unat (p + VERTUAL_MEM) \<noteq> 0" by (simp add: low_page_def word_less_nat_alt unat_word_ariths)
  then have nn: "p + VERTUAL_MEM \<noteq> NULL" by auto
  have la: "pg_to_addr_la m (p + VERTUAL_MEM) = j * PAGE_SIZE + pt_begin s + VERTUAL_MEM"
    using pg_to_addr(2) [of s j] p by (simp add: pg_to_addr_la_def m2)
  let ?s1 = "m\<lparr>pcb_start_stack := (pcb_start_stack s)(kpa pcb := j * PAGE_SIZE + pt_begin s + VERTUAL_MEM + 0x2000 - 4)\<rparr>"
  have "set_kthread_stack pcb 0 s = Some (0, ?s1)" using m(1) nn la by (simp add: set_kthread_stack_def Let_def) (simp add: m2)
  moreover have "other_rings s ?s1 (free_pages_head s # map page_node (block_pages ((p, k) # bs)))"
    by (rule other_rings_links [OF m(2)]) (simp_all add: get_next_def get_prev_def fun_eq_iff)
  ultimately show ?thesis unfolding m2 by blast
qed


lemma fork_finish_ready:
  assumes r: "ring s (proc_list s) (map pcb_node ps)" "kpa (pcb_node pcb) \<notin> kpa ` set (proc_list s # map pcb_node ps)"
    and mm: "pcb_mm s (kpa (current s)) = NULL"
    and fam: "children s (current s) cs" "pcb \<noteq> NULL" "kpa pcb \<notin> kpa ` set cs" "pcb_yptr s (kpa pcb) = NULL"
  shows "\<exists>s'. fork_finish pcb flags 0 (kernel_frame entry fn arg) s = Some (pcb_pid s (kpa pcb), s')
    \<and> ring s' (proc_list s) (map pcb_node (pcb # ps)) \<and> children s' (current s) (pcb # cs) \<and> runnable s' pcb
    \<and> cx_eip (pcb_context s' (kpa pcb)) = context_to_intr s \<and> cx_esp (pcb_context s' (kpa pcb)) = pcb_start_stack s (kpa pcb) - 64
    \<and> frames s' (kpa (pcb_start_stack s (kpa pcb) - 64)) = (kernel_frame entry fn arg)\<lparr>fr_eflags := 0x200\<rparr>
    \<and> proc_num s' = proc_num s + 1 \<and> pcb_pid s' = pcb_pid s"
proof -
  let ?f = "kernel_frame entry fn arg"
  let ?s2 = "thread_framed pcb ?f (thread_linked pcb s)"
  let ?s' = "wakeup_process pcb (link_child pcb ?s2)"
  have "ring (s\<lparr>pcb_parent := (pcb_parent s)(kpa pcb := current s)\<rparr>) (proc_list s) (map pcb_node ps)"
    using r(1) by (subst ring_links [of _ s]) (simp_all add: get_next_def get_prev_def fun_eq_iff)
  from kl.push_front [OF this r(2)]
  have rg: "ring (list_insert_after (proc_list s) (pcb_node pcb) (s\<lparr>pcb_parent := (pcb_parent s)(kpa pcb := current s)\<rparr>))
    (proc_list s) (map pcb_node (pcb # ps))" by simp
  have "ring ?s' (proc_list s) (map pcb_node (pcb # ps))"
    by (rule iffD2 [OF ring_links rg])
      (simp_all add: get_next_def get_prev_def fun_eq_iff wakeup_process_def set_state_def link_child_def Let_def
        set_cptr_def set_yptr_def st_def thread_framed_def thread_linked_def)
  moreover have "children (link_child pcb ?s2) (current s) (pcb # cs)"
  proof (rule link_child_children)
    have "kpa c \<noteq> kpa pcb" if "c \<in> set cs" for c using kpa_neqI [OF fam(3) that] by simp
    moreover have "siblings ?s2 y xs z = siblings s y xs z" for y xs z
      by (rule siblings_cong) (simp_all add: thread_framed_def Let_def)
    ultimately show "children ?s2 (current s) cs" using fam(1) by (auto simp: children_def thread_framed_def Let_def)
  qed (use fam in \<open>simp_all add: thread_framed_def Let_def\<close>)
  then have "children ?s' (current s) (pcb # cs)" unfolding wakeup_children .
  moreover have "runnable ?s' pcb" using fam(2) by (simp add: runnable_def wakeup_process_def set_state_def)
  moreover have "pcb_context ?s' = pcb_context ?s2" "frames ?s' = frames ?s2" "proc_num ?s' = proc_num ?s2" "pcb_pid ?s' = pcb_pid ?s2"
    by (simp_all add: wakeup_process_def set_state_def link_child_def Let_def set_cptr_def set_yptr_def st_def)
  moreover have "frames ?s2 (kpa (pcb_start_stack s (kpa pcb) - 64)) = ?f\<lparr>fr_eflags := 0x200\<rparr>" "proc_num ?s2 = proc_num s + 1" "pcb_pid ?s2 = pcb_pid s"
      "cx_eip (pcb_context ?s2 (kpa pcb)) = context_to_intr s" "cx_esp (pcb_context ?s2 (kpa pcb)) = pcb_start_stack s (kpa pcb) - 64"
    by (simp_all add: thread_framed_def kernel_frame_def Let_def)
  ultimately show ?thesis using fork_finish_thread [OF mm, of pcb flags entry fn arg] by simp
qed
lemma get_pid_is:
  assumes l: "length (pids s) = 128" and n: "n < 4096" "\<not> pid_used (pids s) n" "\<forall>m < n. pid_used (pids s) m"
  shows "\<exists>qs. get_pid s = (of_nat n, s\<lparr>pids := qs\<rparr>) \<and> (of_nat n :: i32) \<noteq> - 1"
proof -
  have "\<not> (\<forall>n < 4096. pid_used (pids s) n)" using n by blast
  with get_pid_free [OF l] have "\<exists>n' qs. n' < 4096 \<and> get_pid s = (of_nat n', s\<lparr>pids := qs\<rparr>) \<and> length qs = 128 \<and> \<not> pid_used (pids s) n'
      \<and> (\<forall>m < n'. pid_used (pids s) m) \<and> (\<forall>m < 4096. pid_used qs m \<longleftrightarrow> pid_used (pids s) m \<or> m = n')"
    by (simp only: if_False)
  then obtain n' qs where q: "get_pid s = (of_nat n', s\<lparr>pids := qs\<rparr>)" "\<not> pid_used (pids s) n'" "\<forall>m < n'. pid_used (pids s) m" by blast
  have "n' = n" using q(2,3) n(2,3) linorder_neqE_nat by blast
  moreover have "unat (of_nat n :: i32) = n" using n(1) by (simp add: unat_of_nat_small)
  then have "(of_nat n :: i32) \<noteq> - 1" using n(1) by auto
  ultimately show ?thesis using q(1) by blast
qed

text \<open>The cells of the heap, of the free pages and of the process list are apart, and the new control block is none of the processes.\<close>

definition fork_layout :: "'a kernel_scheme \<Rightarrow> chunk list \<Rightarrow> u32 list \<Rightarrow> u32 list \<Rightarrow> bool" where
  "fork_layout s hs pgs ps \<longleftrightarrow>
     kpa ` set (chunk_head s # heap_nodes hs) \<inter> kpa ` set (free_pages_head s # map page_node pgs) = {}
   \<and> kpa ` set (chunk_head s # heap_nodes hs) \<inter> kpa ` set (proc_list s # map pcb_node ps) = {}
   \<and> kpa ` set (free_pages_head s # map page_node pgs) \<inter> kpa ` set (proc_list s # map pcb_node ps) = {}"

text \<open>
  C24. \<open>kernel_thread\<close> with a chunk for the control block, two pages for the stack and a free pid: it returns the least free pid, and the new process has it. The process is the first of the list, runnable and the
  youngest child of its creator, and \<open>switch_to\<close> will return into \<open>context_to_intr\<close> with the stack at its interrupt frame, at the end of the two new pages; from the frame \<open>iret\<close> starts it at
  \<open>kernel_thread_entry\<close> in the kernel segments with interrupts on, the function in \<open>ebx\<close> and its argument in \<open>edx\<close>.
\<close>

theorem kernel_thread_ready:
  assumes h: "heap s hs" "malloc_fit 92 hs = Some (pcb, hs')"
    and bl: "block_list s ((p, k) # bs)" "2 < k" "p = page_plus (pages s) j"
    and pid: "length (pids s) = 128" "n < 4096" "\<not> pid_used (pids s) n" "\<forall>m < n. pid_used (pids s) m"
    and num: "\<not> MAX_PROCESS <s proc_num s"
    and r: "ring s (proc_list s) (map pcb_node ps)" "kpa (pcb_node pcb) \<notin> kpa ` set (proc_list s # map pcb_node ps)"
    and lay: "fork_layout s hs' (block_pages ((p, k) # bs)) ps"
    and fam: "pcb_mm s (kpa (current s)) = NULL" "children s (current s) cs" "kpa pcb \<notin> kpa ` set (current s # cs)"
    and fp: "fp = j * PAGE_SIZE + pt_begin s + VERTUAL_MEM + 0x2000 - 4 - 64"
  shows "\<exists>s'. kernel_thread fn arg flags s = Some (of_nat n, s') \<and> pcb_pid s' (kpa pcb) = of_nat n \<and> runnable s' pcb \<and> proc_num s' = proc_num s + 1
    \<and> ring s' (proc_list s) (map pcb_node (pcb # ps)) \<and> children s' (current s) (pcb # cs)
    \<and> cx_eip (pcb_context s' (kpa pcb)) = context_to_intr s \<and> cx_esp (pcb_context s' (kpa pcb)) = fp
    \<and> frames s' (kpa fp) = \<lparr>fr_my_eax = 0x10, fr_edi = 0, fr_esi = 0, fr_ebp = 0, fr_no_use_esp = 0, fr_ebx = fn, fr_edx = arg, fr_ecx = 0,
        fr_eax = 0, fr_intr_No = 0, fr_errorCode = 0, fr_eip = kernel_thread_entry s, fr_cs = 0x08, fr_eflags = 0x200, fr_esp = 0, fr_ss = 0x10\<rparr>"
proof -
  let ?N = "chunk_head s # heap_nodes hs'" and ?F = "free_pages_head s # map page_node (block_pages ((p, k) # bs))" and ?P = "proc_list s # map pcb_node ps"
  have dj: "kpa ` set ?N \<inter> kpa ` set ?F = {}" "kpa ` set ?N \<inter> kpa ` set ?P = {}" "kpa ` set ?F \<inter> kpa ` set ?P = {}"
    using lay unfolding fork_layout_def by blast+
  obtain s1 a b c d where c: "create_pcb s = Some (pcb, s1)" and nn: "pcb \<noteq> NULL" and o1: "other_rings s s1 ?N"
    and s1: "s1 = s\<lparr>ln_prev := a, ln_next := b, ck_allocated := c, ck_size := d,
      pcb_state := (pcb_state s)(kpa pcb := TASK_READY), pcb_pid := (pcb_pid s)(kpa pcb := - 1), pcb_start_stack := (pcb_start_stack s)(kpa pcb := 0),
      pcb_mm := (pcb_mm s)(kpa pcb := NULL),
      pcb_context := (pcb_context s)(kpa pcb := \<lparr>cx_eip = 0, cx_ebx = 0, cx_ecx = 0, cx_edx = 0, cx_esi = 0, cx_edi = 0, cx_ebp = 0, cx_esp = 0\<rparr>),
      pcb_backup_pde := (pcb_backup_pde s)(kpa pcb := pd s), pcb_parent := (pcb_parent s)(kpa pcb := NULL), pcb_waitstate := (pcb_waitstate s)(kpa pcb := NOT_WT),
      pcb_optr := (pcb_optr s)(kpa pcb := NULL), pcb_cptr := (pcb_cptr s)(kpa pcb := NULL), pcb_yptr := (pcb_yptr s)(kpa pcb := NULL)\<rparr>"
    using create_pcb_fit [OF h] by blast
  have bl1: "block_list s1 ((p, k) # bs)" by (rule block_list_other [OF bl(1) o1 dj(1)]) (simp_all add: s1)
  have p1: "p = page_plus (pages s1) j" using bl(3) by (simp add: s1)
  obtain s2 a2 b2 c2 d2 e2 where st: "set_kthread_stack pcb 0 s1 = Some (0, s2)" and o2: "other_rings s1 s2 (free_pages_head s1 # map page_node (block_pages ((p, k) # bs)))"
    and s2: "s2 = s1\<lparr>ln_prev := a2, ln_next := b2, free_page_num := c2, pg_free_pages := d2, pg_flags := e2,
      pcb_start_stack := (pcb_start_stack s1)(kpa pcb := j * PAGE_SIZE + pt_begin s1 + VERTUAL_MEM + 0x2000 - 4)\<rparr>"
    using set_kthread_stack_block [OF bl1 bl(2) p1] by blast
  have hd: "free_pages_head s1 = free_pages_head s" "pids s2 = pids s" by (simp_all add: s1 s2)
  have r2: "ring s2 (proc_list s) (map pcb_node ps)"
    using r(1) o1 o2 dj(2,3) unfolding other_rings_def hd by blast
  obtain qs where q: "get_pid s2 = (of_nat n, s2\<lparr>pids := qs\<rparr>)" and np: "(of_nat n :: i32) \<noteq> - 1"
    using get_pid_is [of s2 n] pid unfolding hd by blast
  define s3 where "s3 = s2\<lparr>pids := qs, pcb_pid := (pcb_pid s2)(kpa pcb := of_nat n)\<rparr>"
  have k: "kernel_thread fn arg flags s = fork_finish pcb flags 0 (kernel_frame (kernel_thread_entry s) fn arg) s3"
    using c st q num nn np by (simp add: kernel_thread_def do_fork_def Let_def s3_def)
  have f: "proc_list s3 = proc_list s" "current s3 = current s" "context_to_intr s3 = context_to_intr s" "proc_num s3 = proc_num s" "pcb_start_stack s3 (kpa pcb) - 64 = fp"
      "pcb_pid s3 (kpa pcb) = of_nat n" "pcb_yptr s3 (kpa pcb) = NULL" "pcb_mm s3 = (pcb_mm s)(kpa pcb := NULL)"
    by (simp_all add: s1 s2 s3_def fp)
  have r3: "ring s3 (proc_list s3) (map pcb_node ps)" unfolding f using r2 by (subst ring_links [of _ s2]) (simp_all add: get_next_def get_prev_def fun_eq_iff s3_def)
  have kc: "kpa c \<noteq> kpa pcb" if "c \<in> set cs" for c using kpa_neqI [of pcb "set cs" c] fam(3) that by auto
  have "siblings s3 y xs z = siblings s y xs z" if "set xs \<subseteq> set cs" for y xs z
    using that kc by (intro siblings_cong) (auto simp: s1 s2 s3_def)
  then have ch: "children s3 (current s3) cs" unfolding f using fam(2,3) kc by (auto simp: children_def s1 s2 s3_def)
  have mm3: "pcb_mm s3 (kpa (current s3)) = NULL" unfolding f using fam(1,3) by simp
  have kp: "kpa pcb \<notin> kpa ` set cs" using fam(3) by simp
  have rp: "kpa (pcb_node pcb) \<notin> kpa ` set (proc_list s3 # map pcb_node ps)" unfolding f by (rule r(2))
  obtain s' where "kernel_thread fn arg flags s = Some (of_nat n, s')" "ring s' (proc_list s) (map pcb_node (pcb # ps))" "children s' (current s) (pcb # cs)" "runnable s' pcb"
      "cx_eip (pcb_context s' (kpa pcb)) = context_to_intr s" "cx_esp (pcb_context s' (kpa pcb)) = fp"
      "frames s' (kpa fp) = (kernel_frame (kernel_thread_entry s) fn arg)\<lparr>fr_eflags := 0x200\<rparr>" "proc_num s' = proc_num s + 1" "pcb_pid s' (kpa pcb) = of_nat n"
    using fork_finish_ready [OF r3 rp mm3 ch nn kp f(7), of flags "kernel_thread_entry s" fn arg] unfolding k f by (auto simp: f)
  then show ?thesis by (intro exI [of _ s']) (simp add: kernel_frame_def)
qed

section \<open>Waiting\<close>

text \<open>What the search loops find on the list of processes.\<close>

definition child_of_current :: "'a kernel_scheme \<Rightarrow> u32 \<Rightarrow> bool" where
  "child_of_current s p \<longleftrightarrow> pcb_parent s (kpa p) = current s"

definition zombie :: "'a kernel_scheme \<Rightarrow> u32 \<Rightarrow> bool" where
  "zombie s p \<longleftrightarrow> pcb_state s (kpa p) = TASK_ZOMBIE"

lemma wait_scan_seg:
  assumes "seg s x (map pcb_node qs) (proc_list s)" and "proc_list s \<notin> pcb_node ` set qs"
  shows "wait_scan (get_next s x) h c s = Some (case find (\<lambda>p. child_of_current s p \<and> zombie s p) qs of
    Some p \<Rightarrow> Inr p | None \<Rightarrow> Inl (h \<or> (\<exists>p \<in> set qs. child_of_current s p), last (c # qs)))"
  using assms
proof (induction qs arbitrary: x h c)
  case Nil
  then show ?case by (subst wait_scan.simps) simp
next
  case (Cons q qs)
  then have "get_next s x = pcb_node q" "pcb_node q \<noteq> proc_list s" by auto
  moreover have "wait_scan (get_next s (pcb_node q)) h' q s = Some (case find (\<lambda>p. child_of_current s p \<and> zombie s p) qs of
      Some p \<Rightarrow> Inr p | None \<Rightarrow> Inl (h' \<or> (\<exists>p \<in> set qs. child_of_current s p), last (q # qs)))" for h'
    by (rule Cons.IH) (use Cons.prems in auto)
  ultimately show ?case
    by (subst wait_scan.simps) (auto simp: child_of_current_def zombie_def split: option.split)
qed

lemma wait_find_seg:
  assumes "seg s x (map pcb_node qs) (proc_list s)" and "proc_list s \<notin> pcb_node ` set qs"
  shows "wait_find pid (get_next s x) s = Some (find (\<lambda>p. pcb_pid s (kpa p) = pid) qs)"
  using assms
proof (induction qs arbitrary: x)
  case Nil
  then show ?case by (subst wait_find.simps) simp
next
  case (Cons q qs)
  then have "get_next s x = pcb_node q" "pcb_node q \<noteq> proc_list s" by auto
  moreover have "wait_find pid (get_next s (pcb_node q)) s = Some (find (\<lambda>p. pcb_pid s (kpa p) = pid) qs)"
    by (rule Cons.IH) (use Cons.prems in auto)
  ultimately show ?case by (subst wait_find.simps) simp
qed

lemma proc_ring_seg:
  assumes "proc_ring s ps"
  shows "seg s (proc_list s) (map pcb_node ps) (proc_list s)" and "proc_list s \<notin> pcb_node ` set ps"
  using assms ring_not_head [of s "proc_list s" "map pcb_node ps"] by (auto simp: proc_ring_def ring_def)

text \<open>The reference: which child \<open>waitpid\<close> takes, and what it answers when there is none.\<close>

definition sleep_for :: "u32 \<Rightarrow> 'a kernel_scheme \<Rightarrow> (wait_result \<times> 'a kernel_scheme) option" where
  "sleep_for c s = map_option (\<lambda>s. (Rescheduled c, s)) (schedule s)"

definition waitpid_spec :: "i32 \<Rightarrow> u32 list \<Rightarrow> 'a kernel_scheme \<Rightarrow> (wait_result \<times> 'a kernel_scheme) option" where
  "waitpid_spec pid ps s =
     (if pid = 0 then
        case find (zombie s) (filter (child_of_current s) ps) of
          Some c \<Rightarrow> wait_recycle c s
        | None \<Rightarrow> if filter (child_of_current s) ps = [] then Some (Returned (- 1), s) else sleep_for (last ps) s
      else
        case find (\<lambda>p. pcb_pid s (kpa p) = pid) ps of
          None \<Rightarrow> Some (Returned 0, s)
        | Some c \<Rightarrow> if \<not> child_of_current s c then Some (Returned (- 1), s)
                    else if zombie s c then wait_recycle c s else sleep_for c s)"

lemma find_filter: "find P (filter Q xs) = find (\<lambda>x. Q x \<and> P x) xs"
  by (induction xs) auto

lemma do_waitpid_spec:
  assumes "proc_ring s ps"
  shows "do_waitpid pid s = waitpid_spec pid ps s"
proof (cases "pid = 0")
  case True
  note scan = wait_scan_seg [OF proc_ring_seg [OF assms], of False NULL]
  have "\<exists>p \<in> set ps. child_of_current s p \<Longrightarrow> ps \<noteq> []" by auto
  with True show ?thesis
    by (auto simp: do_waitpid_def wait_any_def scan waitpid_spec_def find_filter sleep_for_def map_option_bind filter_empty_conv
        map_conv_bind_option comp_def split: option.split)
next
  case False
  note find = wait_find_seg [OF proc_ring_seg [OF assms], of pid]
  from False show ?thesis
    by (auto simp: do_waitpid_def find waitpid_spec_def wait_one_def sleep_for_def child_of_current_def zombie_def
        map_conv_bind_option comp_def split: option.split)
qed

lemma unlink_child_frame:
  "pages (unlink_child c s) = pages s" "pt_begin (unlink_child c s) = pt_begin s" "pcb_start_stack (unlink_child c s) = pcb_start_stack s"
  by (simp_all add: unlink_child_def Let_def set_cptr_def set_yptr_def st_def)

lemma page_index_div_sub4:
  assumes "k < 0x100000"
  shows "(k * PAGE_SIZE + 0xFFC) div PAGE_SIZE = (k :: u32)"
proof -
  have "unat k < 1048576" using assms by (simp add: word_less_nat_alt)
  then have "unat (k * PAGE_SIZE) = unat k * 4096" by (simp add: unat_word_ariths)
  then have "unat (k * PAGE_SIZE + 0xFFC) = unat k * 4096 + 4092" using \<open>unat k < 1048576\<close> by (simp add: unat_word_ariths)
  then show ?thesis by (simp add: word_unat_eq_iff unat_div)
qed

lemma stack_pages:
  assumes "pcb_start_stack s (kpa c) = pg_to_addr_la s pg + KTHREAD_STACK_PAGE * PAGE_SIZE - 4"
    and "pg = page_plus (pages s) k \<or> pg = page_plus (pages s) k + VERTUAL_MEM" and "0 < k" and "k < 0xFFFFF"
  shows "la_addr_to_pg s (pcb_start_stack s (kpa c) - PAGE_SIZE * KTHREAD_STACK_PAGE) = page_plus (pages s) (k - 1)"
    and "la_addr_to_pg s (pcb_start_stack s (kpa c)) = page_plus (pages s) (k + 1)"
proof -
  have a: "pg_to_addr_la s pg = k * PAGE_SIZE + pt_begin s + VERTUAL_MEM" using assms(2) by (auto simp: pg_to_addr)
  have "pcb_start_stack s (kpa c) - PAGE_SIZE * KTHREAD_STACK_PAGE - VERTUAL_MEM - pt_begin s = (k - 1) * PAGE_SIZE + 0xFFC"
    unfolding assms(1) a by (simp add: algebra_simps)
  moreover have "k - 1 < 0x100000" using assms(3,4) by unat_arith
  ultimately show "la_addr_to_pg s (pcb_start_stack s (kpa c) - PAGE_SIZE * KTHREAD_STACK_PAGE) = page_plus (pages s) (k - 1)"
    using page_index_div_sub4 [of "k - 1"] by (simp only: la_addr_to_pg_def)
  have "pcb_start_stack s (kpa c) - VERTUAL_MEM - pt_begin s = (k + 1) * PAGE_SIZE + 0xFFC"
    unfolding assms(1) a by (simp add: algebra_simps)
  moreover have "k + 1 < 0x100000" using assms(3,4) by unat_arith
  ultimately show "la_addr_to_pg s (pcb_start_stack s (kpa c)) = page_plus (pages s) (k + 1)"
    using page_index_div_sub4 [of "k + 1"] by (simp only: la_addr_to_pg_def)
qed

text \<open>
  C17. \<open>do_waitpid\<close> against a reference on the list of processes: for pid 0 it recycles the first zombie among the caller's
  children, gives up the processor when none of them is a zombie and answers \<open>-1\<close> when there are none. For another pid it recycles that
  child or waits for it, answers \<open>-1\<close> when the process has another parent, and 0 when it does not exist.
\<close>

theorem waitpid_refines:
  assumes "proc_ring s ps"
  shows "do_waitpid pid s = waitpid_spec pid ps s"
  by (rule do_waitpid_spec [OF assms])

text \<open>
  C37. The jump back into the loop of \<open>do_waitpid(0)\<close>: when the caller runs again, the process it looks at first is the last one of the list, whatever
  its parent. A zombie there is recycled even if it is the child of another process.
\<close>

theorem waitpid_takes_foreign_child:
  assumes "proc_ring s ps" and "do_waitpid 0 s = Some (Rescheduled c, s')" and "zombie t (last ps)"
  shows "do_waitpid_resume 0 c t = wait_recycle (last ps) t"
proof -
  have "c = last ps"
    using assms(2) unfolding do_waitpid_spec [OF assms(1)]
    by (auto simp: waitpid_spec_def sleep_for_def wait_recycle_def split: option.splits if_splits bind_splits)
  then show ?thesis using assms(3) by (simp add: do_waitpid_resume_def zombie_def)
qed

text \<open>
  C38. The pages of a stack are not the pages given back: \<open>set_kthread_stack\<close> leaves \<open>start_stack\<close> 4 bytes below the end of
  the two pages \<open>k\<close> and \<open>k + 1\<close> it got, so \<open>recycle_child\<close> frees the two pages from \<open>k - 1\<close> on, of which the first belongs to
  somebody else, and the second stack page is lost.
\<close>

theorem recycle_frees_wrong_pages:
  assumes "alloc_page KTHREAD_STACK_PAGE s = Some (pg, s1)" and "set_kthread_stack c 0 s = Some (0, s')"
    and "pg = page_plus (pages s1) k \<or> pg = page_plus (pages s1) k + VERTUAL_MEM" and "0 < k" and "k < 0xFFFFF"
  shows "recycle_child c s' = map_option (\<lambda>s. (0, free c (list_delete (pcb_node c) s))) (free_page (page_plus (pages s') (k - 1)) 2 (unlink_child c s'))"
proof -
  have n: "pg \<noteq> NULL" using assms(1,2) by (auto simp: set_kthread_stack_def)
  have s': "s' = s1\<lparr>pcb_start_stack := (pcb_start_stack s1)(kpa c := pg_to_addr_la s1 pg + KTHREAD_STACK_PAGE * PAGE_SIZE - 4)\<rparr>"
    using assms(1,2) n by (simp add: set_kthread_stack_def Let_def pg_to_addr_la_def)
  have "pcb_start_stack s' (kpa c) = pg_to_addr_la s' pg + KTHREAD_STACK_PAGE * PAGE_SIZE - 4" "pages s' = pages s1"
    by (simp_all add: s' pg_to_addr_la_def)
  with stack_pages(1) [of s' c pg k] assms(3-5)
  have "la_addr_to_pg s' (pcb_start_stack s' (kpa c) - PAGE_SIZE * KTHREAD_STACK_PAGE) = page_plus (pages s') (k - 1)" by simp
  moreover have "la_addr_to_pg (unlink_child c s') = la_addr_to_pg s'" by (simp add: la_addr_to_pg_def unlink_child_frame fun_eq_iff)
  ultimately show ?thesis
    by (simp add: recycle_child_def Let_def unlink_child_frame map_conv_bind_option comp_def)
qed

section \<open>Examples\<close>

definition fork_example :: kernel where
  "fork_example = (list_insert_after (proc_list kernel0) (pcb_node ex_p2) (list_init (proc_list kernel0) kernel0))
     \<lparr>idle := ex_idle, init_proc := ex_idle, current := ex_p1, pcb_parent := (\<lambda>_. 0)(kpa ex_p1 := ex_idle, kpa ex_p2 := ex_p1),
      pcb_cptr := (\<lambda>_. 0)(kpa ex_p1 := ex_p2)\<rparr>"

lemma fork_example_fields:
  "current fork_example = ex_p1" "init_proc fork_example = ex_idle" "pcb_parent fork_example = (\<lambda>_. 0)(kpa ex_p1 := ex_idle, kpa ex_p2 := ex_p1)"
  "pcb_cptr fork_example = (\<lambda>_. 0)(kpa ex_p1 := ex_p2)" "pcb_yptr fork_example = (\<lambda>_. 0)" "pcb_optr fork_example = (\<lambda>_. 0)"
  "pcb_mm fork_example = (\<lambda>_. 0)" "proc_list fork_example = 0xC0105020" "pcb_pid fork_example = (\<lambda>_. 0)" "pd fork_example = 0xC0106000"
  "pcb_start_stack fork_example = (\<lambda>_. 0)" "context_to_intr fork_example = 0xC0101020" "proc_num fork_example = 0"
  by (simp_all add: fork_example_def list_op_defs set_next_def set_prev_def Let_def) (simp_all add: kernel0_fields)

lemma fork_example_children:
  "children fork_example ex_p1 [ex_p2]" "children fork_example ex_idle []"
  by (simp_all add: children_def fork_example_fields kpa_def)

theorem family_links_witness:
  "children (unlink_child ex_p2 (link_child 0xC0300400 (fork_example\<lparr>pcb_parent := (pcb_parent fork_example)(kpa 0xC0300400 := ex_p1)\<rparr>)))
    ex_p1 [0xC0300400]"
proof -
  let ?s = "fork_example\<lparr>pcb_parent := (pcb_parent fork_example)(kpa 0xC0300400 := ex_p1)\<rparr>"
  have "children ?s ex_p1 [ex_p2]" by (simp add: children_def fork_example_fields kpa_def)
  then have "\<forall>as c bs. 0xC0300400 # [ex_p2] = as @ c # bs \<longrightarrow> children (unlink_child c (link_child 0xC0300400 ?s)) ex_p1 (as @ bs)"
    using family_links [of ?s ex_p1 "[ex_p2]" "0xC0300400"] by (simp add: fork_example_fields kpa_def)
  from this [rule_format, of "[0xC0300400]" ex_p2 "[]"] show ?thesis by simp
qed

theorem first_child_hits_directory_witness:
  "\<exists>s :: kernel. children s ex_idle [] \<and> pd s = 0xC0000000 \<and> ld (link_child ex_p1 s) (pde_slot (pd s) 0x04400000) = ex_p1"
proof -
  let ?s = "fork_example\<lparr>pd := 0xC0000000\<rparr>"
  have "children ?s ex_idle []" by (simp add: children_def fork_example_fields kpa_def)
  moreover have "pcb_parent ?s (kpa ex_p1) = ex_idle" by (simp add: fork_example_fields kpa_def)
  ultimately show ?thesis
    using first_child_hits_directory [of ?s ex_idle ex_p1] by (intro exI [of _ ?s]) (simp add: kpa_def)
qed

theorem orphans_adopted_witness:
  "\<exists>s'. send_chld_to_init fork_example = Some s' \<and> children s' ex_p1 [] \<and> children s' ex_idle [ex_p2]"
  using orphans_adopted [of fork_example "[ex_p2]" "[]"] fork_example_children by (simp add: fork_example_fields kpa_def)

text \<open>Three free pages, a heap of one free chunk and an idle process that has no children.\<close>

definition thread_example :: kernel where
  "thread_example =
     (let s = fold (list_insert_before (free_pages_head kernel0)) (map page_node (block_pages [(0x108018, 3)]))
        (list_init (free_pages_head kernel0) kernel0);
        s = list_insert_before (chunk_head kernel0) (ck_node 0xC01C0000) (list_init (chunk_head kernel0) s);
        s = list_init (proc_list kernel0) s
      in s\<lparr>pg_free_pages := (\<lambda>_. 0)(0x108018 := 3), free_page_num := 3, ck_allocated := (\<lambda>_. 0), ck_size := (\<lambda>_. 0)(0x1C0000 := 4084),
         current := ex_idle, pids := replicate 128 0, proc_num := 0\<rparr>)"

lemma thread_example_links:
  "block_list thread_example [(0x108018, 3)]" "heap thread_example [(0xC01C0000, False, 4084)]" "ring thread_example (proc_list thread_example) []"
  by (simp_all add: thread_example_def block_list_def free_list_def heap_def chunk_ok_def chunk_ext_def kernel0_fields block_pages_def page_run_def ck_node_def
      upt_rec page_plus_def ring_def list_op_defs Let_def kpa_def page_node_def low_page_def free_pages_of_def
      get_next_def get_prev_def set_next_def set_prev_def)

lemma thread_example_fields:
  "pages thread_example = 0x108000" "pt_begin thread_example = 0x1B9000" "pids thread_example = replicate 128 0" "proc_num thread_example = 0" "proc_list thread_example = 0xC0105020"
  "chunk_head thread_example = 0xC0105010" "free_pages_head thread_example = 0xC0105000" "current thread_example = ex_idle" "pcb_mm thread_example = (\<lambda>_. 0)"
  "kernel_thread_entry thread_example = 0xC0101040" "context_to_intr thread_example = 0xC0101020" "pcb_cptr thread_example = (\<lambda>_. 0)"
  by (simp_all add: thread_example_def block_pages_def page_run_def upt_rec list_op_defs Let_def set_next_def set_prev_def)
    (simp_all add: kernel0_fields)

theorem kernel_thread_ready_witness:
  "\<exists>s'. kernel_thread 0xC0108888 5 0 thread_example = Some (0, s') \<and> runnable s' 0xC01C000C \<and> ring s' 0xC0105020 [pcb_node 0xC01C000C] \<and> children s' ex_idle [0xC01C000C]
    \<and> cx_eip (pcb_context s' 0x1C000C) = 0xC0101020 \<and> cx_esp (pcb_context s' 0x1C000C) = 0xC01BBFBC
    \<and> frames s' 0x1BBFBC = \<lparr>fr_my_eax = 0x10, fr_edi = 0, fr_esi = 0, fr_ebp = 0, fr_no_use_esp = 0, fr_ebx = 0xC0108888, fr_edx = 5, fr_ecx = 0,
        fr_eax = 0, fr_intr_No = 0, fr_errorCode = 0, fr_eip = 0xC0101040, fr_cs = 0x08, fr_eflags = 0x200, fr_esp = 0, fr_ss = 0x10\<rparr>"
proof -
  let ?s = thread_example and ?hs = "[(0xC01C0000, True, 92), (0xC01C0068, False, 3980)]"
  note f = thread_example_fields
  have lay: "fork_layout ?s ?hs (block_pages [(0x108018, 3)]) []"
    by (simp add: fork_layout_def f block_pages_def page_run_def upt_rec page_plus_def page_node_def ck_node_def kpa_def)
  have c: "children ?s (current ?s) []" by (simp add: children_def f kpa_def)
  have fit: "malloc_fit 92 [(0xC01C0000, False, 4084)] = Some (0xC01C000C, ?hs)" by simp
  have p: "0x108018 = page_plus (pages ?s) 1" "length (pids ?s) = 128" "(0 :: nat) < 4096" "\<not> pid_used (pids ?s) 0" "\<forall>m < 0. pid_used (pids ?s) m" "\<not> MAX_PROCESS <s proc_num ?s"
    by (simp_all add: f page_plus_def pid_used_def word_sless_alt)
  have r: "ring ?s (proc_list ?s) (map pcb_node [])" "kpa (pcb_node 0xC01C000C) \<notin> kpa ` set (proc_list ?s # map pcb_node [])"
    using thread_example_links(3) by (simp_all add: f pcb_node_def kpa_def)
  have m: "pcb_mm ?s (kpa (current ?s)) = NULL" "kpa 0xC01C000C \<notin> kpa ` set (current ?s # [])" "0xC01BBFBC = 1 * PAGE_SIZE + pt_begin ?s + VERTUAL_MEM + 0x2000 - 4 - 64"
    by (simp_all add: f kpa_def)
  have k: "(2 :: nat) < 3" by simp
  have kp: "kpa 0xC01C000C = 0x1C000C" "kpa 0xC01BBFBC = 0x1BBFBC" by (simp_all add: kpa_def)
  from kernel_thread_ready [OF thread_example_links(2) fit thread_example_links(1) k p r lay m(1) c m(2,3), of "0xC0108888" 5 0]
  show ?thesis unfolding kp f by (elim exE conjE) (intro exI conjI, simp_all)
qed

theorem waitpid_refines_witness: "do_waitpid 7 (sched_example ex_idle) = Some (Returned 0, sched_example ex_idle)"
proof -
  have "pcb_pid (sched_example ex_idle) = pcb_pid kernel0"
    by (simp add: sched_example_def sched_list_def list_op_defs set_next_def set_prev_def Let_def)
  then have "pcb_pid (sched_example ex_idle) = (\<lambda>_. 0)" by (simp add: kernel0_fields)
  then show ?thesis using waitpid_refines [OF sched_example_ring [of ex_idle], of 7] by (simp add: waitpid_spec_def)
qed

definition wait_example :: kernel where
  "wait_example = (sched_example ex_idle)\<lparr>pcb_parent := (\<lambda>_. 0)(kpa ex_p1 := ex_idle)\<rparr>"

lemma wait_example_ring: "proc_ring wait_example [ex_p1, ex_p2]"
proof -
  have "ring wait_example h ns = ring (sched_example ex_idle) h ns" for h ns
    by (rule ring_links) (simp_all add: wait_example_def get_next_def get_prev_def fun_eq_iff)
  then show ?thesis using sched_example_ring [of ex_idle] by (simp add: proc_ring_def) (simp add: wait_example_def)
qed

theorem waitpid_takes_foreign_child_witness:
  "\<exists>c s'. do_waitpid 0 wait_example = Some (Rescheduled c, s')
    \<and> do_waitpid_resume 0 c (wait_example\<lparr>pcb_state := (\<lambda>_. TASK_ZOMBIE)\<rparr>) = wait_recycle ex_p2 (wait_example\<lparr>pcb_state := (\<lambda>_. TASK_ZOMBIE)\<rparr>)
    \<and> pcb_parent wait_example (kpa ex_p2) \<noteq> current wait_example"
proof -
  have f: "pcb_parent wait_example = (\<lambda>_. 0)(kpa ex_p1 := ex_idle)" "current wait_example = ex_idle"
    "pcb_state wait_example = (\<lambda>_. TASK_READY)(kpa ex_p2 := TASK_RUNNABLE)"
    by (simp_all add: wait_example_def sched_example_def) (simp add: kernel0_fields)
  obtain s' where "schedule wait_example = Some s'" using schedule_rr [OF wait_example_ring] by simp
  then have "do_waitpid 0 wait_example = Some (Rescheduled ex_p2, s')"
    unfolding do_waitpid_spec [OF wait_example_ring]
    by (simp add: waitpid_spec_def child_of_current_def zombie_def f sleep_for_def kpa_def)
  with waitpid_takes_foreign_child [OF wait_example_ring this, of "wait_example\<lparr>pcb_state := (\<lambda>_. TASK_ZOMBIE)\<rparr>"]
  show ?thesis by (auto simp: zombie_def f kpa_def)
qed

definition stack_example :: kernel where
  "stack_example =
     (let s = fold (list_insert_before (free_pages_head kernel0)) (map page_node (block_pages [(0x108018, 3)]))
        (list_init (free_pages_head kernel0) kernel0)
      in s\<lparr>pg_free_pages := (\<lambda>_. 0)(0x108018 := 3), free_page_num := 3\<rparr>)"

lemma stack_example_blocks: "block_list stack_example [(0x108018, 3)]"
  by (simp add: block_list_def free_list_def stack_example_def kernel0_fields block_pages_def page_run_def
      upt_rec page_plus_def ring_def list_op_defs Let_def kpa_def page_node_def low_page_def free_pages_of_def
      get_next_def get_prev_def set_next_def set_prev_def)

lemma stack_example_fields: "pages stack_example = 0x108000" "is_vmm_inited stack_example = 0"
  by (simp_all add: stack_example_def block_pages_def page_run_def upt_rec list_op_defs Let_def set_next_def set_prev_def)
    (simp_all add: kernel0_fields)

theorem recycle_frees_wrong_pages_witness:
  "\<exists>s'. set_kthread_stack ex_p1 0 stack_example = Some (0, s') \<and> pages s' = 0x108000
    \<and> recycle_child ex_p1 s' = map_option (\<lambda>s. (0, free ex_p1 (list_delete (pcb_node ex_p1) s))) (free_page 0x108000 2 (unlink_child ex_p1 s'))"
proof -
  obtain s1 a b where al: "alloc_page 2 stack_example = Some (0xC0108018, s1)"
      and s1: "s1 = stack_example\<lparr>ln_prev := a, ln_next := b, free_page_num := free_page_num stack_example - 2,
      pg_free_pages := (pg_free_pages stack_example)(page_plus 0x108018 2 := of_nat (3 - unat (2 :: u32))),
      pg_flags := (pg_flags stack_example)(page_plus 0x108018 2 := 1)\<rparr>"
    using alloc_page_block [OF stack_example_blocks, of 2] by (auto simp: no_victim_def stack_example_fields)
  have p1: "pages s1 = 0x108000" by (simp add: s1 stack_example_fields)
  obtain s' where s': "set_kthread_stack ex_p1 0 stack_example = Some (0, s')" "pages s' = pages s1"
    using al by (auto simp: set_kthread_stack_def Let_def)
  with recycle_frees_wrong_pages [OF al s'(1), of 1] p1 show ?thesis by (simp add: page_plus_def)
qed

end
