(* ===== verification/Syscall.thy ===== *)
theory Syscall
  imports Fork Console
begin

text \<open>
  System calls and interrupt dispatch: the kernel side of \<open>schedule/process/user.c\<close> and \<open>trap\<close> of \<open>idt/idt.c\<close>. A call may end in a return to the
  interrupted code, in a switch to another process in the middle of \<open>do_waitpid\<close> (its continuation is \<open>system_intr_resume\<close>), in a switch for good, or in a jump through
  an entry of the call table that is not there. Endless loops and panics are \<open>None\<close>. The screen is the state of \<open>Console\<close>, beside the kernel state; it shows what \<open>sys_print\<close> and \<open>isr_handler\<close>
  print, while the messages that the kernel prints about \<open>fork\<close>, \<open>waitpid\<close>, page faults and keys are left out of it.
\<close>

text \<open>The bytes of memory that \<open>printf\<close> reads, and the addresses of the two formats.\<close>

record texts =
  t_mem :: bytes
  lit_line :: u32     \<comment> \<open>\<open>"%s\n"\<close> of \<open>sys_print\<close>\<close>
  lit_intr :: u32     \<comment> \<open>\<open>"interrupt %d has been triggered!\n"\<close> of \<open>isr_handler\<close>\<close>

section \<open>The calls\<close>

definition sys_exit :: "u32 \<Rightarrow> 'a kernel_scheme \<Rightarrow> 'a kernel_scheme option" where
  "sys_exit arg1 s = do_exit arg1 (on_cpu sti s)"

definition sys_fork :: "'a kernel_scheme \<Rightarrow> (i32 \<times> 'a kernel_scheme) option" where
  "sys_fork s =
     (let frame = frames s (kpa (pcb_frame s (kpa (current s))))
      in do_fork 0 (fr_esp frame) frame s)"

definition sys_wait :: "u32 \<Rightarrow> 'a kernel_scheme \<Rightarrow> (wait_result \<times> 'a kernel_scheme) option" where
  "sys_wait arg1 s = do_waitpid arg1 s"

definition set_frame :: "u32 \<Rightarrow> (idtframe \<Rightarrow> idtframe) \<Rightarrow> 'a kernel_scheme \<Rightarrow> 'a kernel_scheme" where
  "set_frame fp f s = s\<lparr>frames := (frames s)(kpa fp := f (frames s (kpa fp)))\<rparr>"

definition sys_execve :: "u32 \<Rightarrow> 'a kernel_scheme \<Rightarrow> (i32 \<times> 'a kernel_scheme) option" where
  "sys_execve arg0 s =
     do {
       (user_stack_pg, s) \<leftarrow> alloc_page KTHREAD_STACK_PAGE s;
       (pte, s) \<leftarrow> get_pte (pcb_backup_pde s (kpa (current s))) (pg_to_addr_la s user_stack_pg) 1 s;
       (pte_2, s) \<leftarrow> get_pte (pcb_backup_pde s (kpa (current s))) (pg_to_addr_la s (page_plus user_stack_pg 1)) 1 s;
       let s = st pte (upd_addr (drop_bit 12 (pg_to_addr_pa s user_stack_pg)) (ld s pte)) s;
           s = st pte_2 (upd_addr (drop_bit 12 (pg_to_addr_pa s (page_plus user_stack_pg 1))) (ld s pte_2)) s;
           s = st pte (upd_sign 0x07 (ld s pte)) s;
           s = st pte_2 (upd_sign 0x07 (ld s pte_2)) s;
           frame = pcb_frame s (kpa (current s));
           stack_top = pg_to_addr_la s user_stack_pg + PAGE_SIZE * KTHREAD_STACK_PAGE - 4;
           s = set_frame frame (\<lambda>f. f\<lparr>fr_cs := 0x18 OR 0x03\<rparr>) s;
           s = set_frame frame (\<lambda>f. f\<lparr>fr_ss := 0x20 OR 0x03, fr_my_eax := 0x20 OR 0x03\<rparr>) s;
           s = set_frame frame (\<lambda>f. f\<lparr>fr_eflags := fr_eflags f OR 0x3000\<rparr>) s;
           s = set_frame frame (\<lambda>f. f\<lparr>fr_eflags := fr_eflags f OR 0x200\<rparr>) s;
           s = set_frame frame (\<lambda>f. f\<lparr>fr_esp := stack_top\<rparr>) s
       in do {
         s \<leftarrow> copy_mm (current s) 0 (mm s) s;
         (code_pg, s) \<leftarrow> alloc_page 1 s;
         (code_pte, s) \<leftarrow> get_pte (pcb_backup_pde s (kpa (current s))) (pg_to_addr_la s code_pg) 1 s;
         (vma, s) \<leftarrow> create_vma (pcb_mm s (kpa (current s))) (pg_to_addr_la s code_pg) (pg_to_addr_la s code_pg + PAGE_SIZE) 0x07 s;
         let s = st code_pte (upd_addr (drop_bit 12 (pg_to_addr_pa s code_pg)) (ld s code_pte)) s;
             s = st code_pte (upd_sign 0x07 (ld s code_pte)) s;
             s = st stack_top (exit_proc_addr s) s;
             s = memcpy_page (pg_to_addr_la s code_pg) arg0 s;
             s = set_frame frame (\<lambda>f. f\<lparr>fr_eip := pg_to_addr_la s code_pg\<rparr>) s
         in Some (0, s)
       }
     }"

definition sys_print :: "texts \<Rightarrow> u32 \<Rightarrow> console \<Rightarrow> (i32 \<times> console) option" where
  "sys_print t arg0 con =
     do {
       con \<leftarrow> printf (t_mem t) (lit_line t) [arg0] con;
       Some (0, con)
     }"

definition sys_getpid :: "'a kernel_scheme \<Rightarrow> i32 \<times> 'a kernel_scheme" where
  "sys_getpid s = (pcb_pid s (kpa (current s)), s)"

datatype syscall = Sys_exit | Sys_fork | Sys_wait | Sys_execve | Sys_getpid | Sys_print

definition system_call :: "(i32 \<times> syscall) list" where
  "system_call = [(1, Sys_exit), (2, Sys_fork), (3, Sys_wait), (4, Sys_execve), (5, Sys_getpid), (30, Sys_print)]"

text \<open>How an interrupt ends.\<close>

datatype outcome =
    Return                   \<comment> \<open>\<open>iret\<close> with the frame as it is now\<close>
  | Waiting u32              \<comment> \<open>another process runs, \<open>do_waitpid\<close> looks at this child when it is resumed\<close>
  | Switched                 \<comment> \<open>another process runs; the interrupted one goes on when it is scheduled again, or never after exit\<close>
  | Null_call                \<comment> \<open>a jump through an entry of the table that was never set\<close>
  | Wild_call                \<comment> \<open>a jump through a word outside the table\<close>

definition finish_call :: "u32 \<Rightarrow> u32 \<Rightarrow> i32 \<Rightarrow> 'a kernel_scheme \<Rightarrow> outcome \<times> 'a kernel_scheme" where
  "finish_call frame old_frame r s =
     (let s = set_frame frame (\<lambda>f. f\<lparr>fr_eax := r\<rparr>) s
      in (Return, s\<lparr>pcb_frame := (pcb_frame s)(kpa (current s) := old_frame)\<rparr>))"

definition finish_wait :: "u32 \<Rightarrow> u32 \<Rightarrow> wait_result \<times> 'a kernel_scheme \<Rightarrow> outcome \<times> 'a kernel_scheme" where
  "finish_wait frame old_frame w =
     (case w of
        (Returned r, s) \<Rightarrow> finish_call frame old_frame r s
      | (Rescheduled c, s) \<Rightarrow> (Waiting c, s))"

definition system_intr :: "texts \<Rightarrow> u32 \<Rightarrow> console \<Rightarrow> 'a kernel_scheme \<Rightarrow> (console \<times> outcome \<times> 'a kernel_scheme) option" where
  "system_intr t frame con s =
     (let f = frames s (kpa frame);
          syscall_num = fr_edx f;
          arg0 = fr_ebx f;
          arg1 = fr_ecx f;
          old_frame = pcb_frame s (kpa (current s));
          s = s\<lparr>pcb_frame := (pcb_frame s)(kpa (current s) := frame)\<rparr>
      in case map_of system_call syscall_num of
           None \<Rightarrow> Some (con, if 0 \<le>s syscall_num \<and> syscall_num \<le>s 30 then Null_call else Wild_call, s)
         | Some Sys_exit \<Rightarrow> map_option (\<lambda>s. (con, Switched, s)) (sys_exit arg1 s)
         | Some Sys_fork \<Rightarrow> map_option (\<lambda>(r, s). (con, finish_call frame old_frame r s)) (sys_fork s)
         | Some Sys_wait \<Rightarrow> map_option (\<lambda>w. (con, finish_wait frame old_frame w)) (sys_wait arg1 s)
         | Some Sys_execve \<Rightarrow> map_option (\<lambda>(r, s). (con, finish_call frame old_frame r s)) (sys_execve arg0 s)
         | Some Sys_getpid \<Rightarrow> Some (con, case sys_getpid s of (r, s) \<Rightarrow> finish_call frame old_frame r s)
         | Some Sys_print \<Rightarrow> map_option (\<lambda>(r, con). (con, finish_call frame old_frame r s)) (sys_print t arg0 con))"

text \<open>The rest of a call of \<open>sys_wait\<close> when its process runs again; the locals are its frame, the saved frame and the child.\<close>

definition system_intr_resume :: "u32 \<Rightarrow> u32 \<Rightarrow> i32 \<Rightarrow> u32 \<Rightarrow> 'a kernel_scheme \<Rightarrow> (outcome \<times> 'a kernel_scheme) option" where
  "system_intr_resume frame old_frame pid c s = map_option (finish_wait frame old_frame) (do_waitpid_resume pid c s)"

section \<open>The user side\<close>

text \<open>The registers with which the stubs execute \<open>int $0x80\<close>; the result is \<open>eax\<close> afterwards.\<close>

definition exit_proc :: "idtframe \<Rightarrow> idtframe" where
  "exit_proc f = f\<lparr>fr_edx := 1, fr_ebx := 0\<rparr>"

definition fork :: "idtframe \<Rightarrow> idtframe" where
  "fork f = f\<lparr>fr_edx := 2\<rparr>"

definition waitpid :: "i32 \<Rightarrow> idtframe \<Rightarrow> idtframe" where
  "waitpid pid f = f\<lparr>fr_edx := 3, fr_ecx := pid\<rparr>"

definition getpid :: "idtframe \<Rightarrow> idtframe" where
  "getpid f = f\<lparr>fr_edx := 5\<rparr>"

definition print :: "u32 \<Rightarrow> idtframe \<Rightarrow> idtframe" where
  "print fmt f = f\<lparr>fr_edx := 30, fr_ebx := fmt\<rparr>"

section \<open>Dispatch\<close>

definition isr_handler :: "texts \<Rightarrow> idtframe \<Rightarrow> console \<Rightarrow> console option" where
  "isr_handler t f con = (if fr_intr_No f \<noteq> 32 then printf (t_mem t) (lit_intr t) [fr_intr_No f] con else Some con)"

text \<open>\<open>cr2\<close> is the faulting address that the page fault handler reads. The keyboard handler, which only changes the keyboard and the screen, is \<open>kbd_handler\<close> of the theory of the keyboard.\<close>

definition trap :: "texts \<Rightarrow> u32 \<Rightarrow> u32 \<Rightarrow> console \<Rightarrow> 'a kernel_scheme \<Rightarrow> (console \<times> outcome \<times> 'a kernel_scheme) option" where
  "trap t cr2 frame con s =
     (let f = frames s (kpa frame);
          n = unat (fr_intr_No f)
      in if length (handlers (cpu s)) \<le> n then Some (con, Wild_call, s)
         else case handlers (cpu s) ! n of
           Isr_handler \<Rightarrow> map_option (\<lambda>con. (con, Return, s)) (isr_handler t f con)
         | Kbd_handler \<Rightarrow> Some (con, Return, s)
         | Page_fault \<Rightarrow>
             (case page_fault (fr_errorCode f) cr2 s of
                Some (Inr s) \<Rightarrow> Some (con, Return, s)
              | _ \<Rightarrow> None)
         | Timer_handler \<Rightarrow> map_option (\<lambda>s'. (con, if current s' = current s then Return else Switched, s')) (timer_handler s)
         | Switch_to_user_handler \<Rightarrow> Some (con, Return, set_frame frame (switch_to_user_handler frame) s)
         | Switch_to_kern_handler \<Rightarrow>
             (case switch_to_kern_handler f (cpu s) of (f, c) \<Rightarrow> Some (con, Return, set_frame frame (\<lambda>_. f) (s\<lparr>cpu := c\<rparr>)))
         | System_intr \<Rightarrow> system_intr t frame con s)"

section \<open>Properties\<close>

text \<open>The state after a call that only returns a value.\<close>

definition answered :: "u32 \<Rightarrow> i32 \<Rightarrow> 'a kernel_scheme \<Rightarrow> 'a kernel_scheme" where
  "answered frame r s = s\<lparr>frames := (frames s)(kpa frame := (frames s (kpa frame))\<lparr>fr_eax := r\<rparr>)\<rparr>"

lemma finish_call_answered:
  "finish_call frame (pcb_frame s (kpa (current s))) r (s\<lparr>pcb_frame := (pcb_frame s)(kpa (current s) := frame)\<rparr>) = (Return, answered frame r s)"
  by (simp add: finish_call_def set_frame_def answered_def)

lemma proc_ring_frame [simp]: "proc_ring (s\<lparr>pcb_frame := x\<rparr>) ps = proc_ring s ps"
proof -
  have "ring (s\<lparr>pcb_frame := x\<rparr>) h ns = ring s h ns" for h ns
    by (rule ring_links) (simp_all add: get_next_def get_prev_def fun_eq_iff)
  then show ?thesis by (simp add: proc_ring_def)
qed

text \<open>The state in which the interrupt frame at \<open>frame\<close> holds \<open>f\<close> after a stub has set its registers.\<close>

definition with_regs :: "u32 \<Rightarrow> (idtframe \<Rightarrow> idtframe) \<Rightarrow> idtframe \<Rightarrow> 'a kernel_scheme \<Rightarrow> 'a kernel_scheme" where
  "with_regs frame g f s = s\<lparr>frames := (frames s)(kpa frame := g f)\<rparr>"

lemma proc_ring_frames [simp]: "proc_ring (s\<lparr>frames := x\<rparr>) ps = proc_ring s ps"
proof -
  have "ring (s\<lparr>frames := x\<rparr>) h ns = ring s h ns" for h ns
    by (rule ring_links) (simp_all add: get_next_def get_prev_def fun_eq_iff)
  then show ?thesis by (simp add: proc_ring_def)
qed

lemma trap_system_call:
  assumes "length (handlers (cpu s)) = 256" "handlers (cpu s) ! 0x80 = System_intr" and "fr_intr_No (g f) = 0x80"
  shows "trap t cr2 frame con (with_regs frame g f s) = system_intr t frame con (with_regs frame g f s)"
  using assms by (simp add: trap_def with_regs_def)

lemma do_waitpid_unknown:
  assumes "proc_ring s ps" and "pid \<noteq> 0" and "\<forall>p \<in> set ps. pcb_pid s (kpa p) \<noteq> pid"
  shows "do_waitpid pid s = Some (Returned 0, s)"
proof -
  have "find (\<lambda>p. pcb_pid s (kpa p) = pid) ps = None" using assms(3) by (auto simp: find_None_iff)
  then show ?thesis using assms(2) by (simp add: do_waitpid_spec [OF assms(1)] waitpid_spec_def)
qed

lemma sys_print_text:
  assumes "cstring (t_mem t) (lit_line t) [0x25, 0x73, 0x0A]" and "cstring (t_mem t) fmt xs"
  shows "sys_print t fmt con = Some (0, put_chars (xs @ [0x0A]) con)"
proof -
  have f: "format_text [fmt \<mapsto> xs] [0x25, 0x73, 0x0A] [fmt] = Some (xs @ [0x0A])" by (simp add: conv_text_def)
  have "\<forall>p ys. [fmt \<mapsto> xs] p = Some ys \<longrightarrow> cstring (t_mem t) p ys" using assms(2) by simp
  then have "printf_loop (t_mem t) (lit_line t) [fmt] con = Some (put_chars (xs @ [0x0A]) con)" by (rule printf_loop_text [OF _ assms(1) f])
  then show ?thesis by (simp add: sys_print_def printf_def)
qed


text \<open>
  The \<open>eax\<close> with which a forked process starts is the one its parent had when it called \<open>fork\<close>, whatever its value: the child's \<open>fork\<close> does not answer 0 unless
  \<open>eax\<close> happened to be 0 before the interrupt.
\<close>

theorem forked_child_keeps_eax:
  assumes "copy_thread pcb offset f s = Some s'"
  shows "fr_eax (frames s' (kpa (pcb_frame s' (kpa pcb)))) = fr_eax f"
  using assms by (auto simp: copy_thread_def Let_def st_def split: bind_splits if_splits)

section \<open>Examples\<close>

definition intr_example :: kernel where
  "intr_example = (sched_example ex_idle)\<lparr>cpu := (cpu (sched_example ex_idle))\<lparr>handlers := (replicate 256 Isr_handler)[0x80 := System_intr]\<rparr>\<rparr>"

lemma intr_example_pid: "pcb_pid intr_example = (\<lambda>_. 0)"
proof -
  have "pcb_pid intr_example = pcb_pid kernel0"
    by (simp add: intr_example_def sched_example_def sched_list_def list_op_defs set_next_def set_prev_def Let_def)
  then show ?thesis by (simp add: kernel0_fields)
qed

lemma intr_example_ring: "proc_ring intr_example [ex_p1, ex_p2]"
  using sched_example_ring [of ex_idle] by (simp add: intr_example_def)

definition texts_example :: texts where
  "texts_example = \<lparr>t_mem = (\<lambda>_. 0)(0x100 := 0x25, 0x101 := 0x73, 0x102 := 0x0A, 0x200 := 0x68, 0x201 := 0x69), lit_line = 0x100, lit_intr = 0x300\<rparr>"


end
