(* ===== verification/HeapTest.thy ===== *)
theory HeapTest
  imports Malloc
begin

text \<open>
  The self test of the heap, \<open>test_malloc\<close> of \<open>mm/malloc.c\<close>, in the state that \<open>init\<close> leaves: a heap whose chunks lie in the frames that were handed out, and the rest of the frames free, in one block.
\<close>

section \<open>Definitions\<close>

text \<open>The five calls of one round, with the addresses they print.\<close>

definition test_malloc_round :: "'a machine_scheme \<Rightarrow> (u32 list \<times> 'a machine_scheme) option" where
  "test_malloc_round s =
     do {
       (addr1, s) \<leftarrow> malloc 1000 s;
       (addr2, s) \<leftarrow> malloc 1000 s;
       (addr3, s) \<leftarrow> malloc 5000 s;
       (addr4, s) \<leftarrow> malloc 5000 s;
       (addr5, s) \<leftarrow> malloc 5000 s;
       Some ([addr1, addr2, addr3, addr4, addr5], s)
     }"

text \<open>The addresses that all three rounds print.\<close>

definition test_malloc :: "'a machine_scheme \<Rightarrow> (u32 list \<times> 'a machine_scheme) option" where
  "test_malloc s =
     do {
       (first, s) \<leftarrow> test_malloc_round s;
       let s = fold free first s;
       (second, s) \<leftarrow> test_malloc_round s;
       let s = fold free second s;
       (third, s) \<leftarrow> test_malloc_round s;
       Some (first @ second @ third, s)
     }"

section \<open>Heap and frames\<close>

text \<open>The kernel address of frame \<open>j\<close>.\<close>

definition frame_la :: "'a machine_scheme \<Rightarrow> nat \<Rightarrow> u32" where
  "frame_la s j = of_nat j * PAGE_SIZE + pt_begin s + VERTUAL_MEM"

text \<open>
  \<open>heap_room s cs j k\<close>: the heap \<open>cs\<close> lies in the first \<open>j\<close> frames, the next \<open>k\<close> frames are free. The page structs lie between the two list heads and the first frame.
\<close>

definition room_layout :: "'a machine_scheme \<Rightarrow> nat \<Rightarrow> bool" where
  "room_layout s n \<longleftrightarrow> unat (kpa (chunk_head s)) < unat (pages s) \<and> unat (kpa (free_pages_head s)) < unat (pages s) \<and>
     kpa (chunk_head s) \<noteq> kpa (free_pages_head s) \<and> unat (pages s) + 24 * n \<le> unat (pt_begin s) \<and> unat (pt_begin s) + 4096 * n < 0x3FFF0000"

definition in_frames :: "'a machine_scheme \<Rightarrow> nat \<Rightarrow> chunk \<Rightarrow> bool" where
  "in_frames s j x \<longleftrightarrow> unat (frame_la s 0) \<le> unat (fst x) \<and> unat (fst x) + 12 + snd (snd x) \<le> unat (frame_la s j)"

definition heap_room :: "'a machine_scheme \<Rightarrow> chunk list \<Rightarrow> nat \<Rightarrow> nat \<Rightarrow> bool" where
  "heap_room s cs j k \<longleftrightarrow> heap s cs \<and> block_list s [(page_plus (pages s) (of_nat j), k)] \<and> room_layout s (j + k) \<and> list_all (in_frames s j) cs"

lemma unat_frame_la:
  assumes "room_layout s n" and "j \<le> n"
  shows "unat (frame_la s j) = unat (pt_begin s) + 0xC0000000 + 4096 * j"
proof -
  have b: "unat (pt_begin s) + 4096 * n < 0x3FFF0000" using assms(1) unfolding room_layout_def by blast
  then have "4096 * j < 4294967296" "unat (of_nat j :: u32) = j" using assms(2) by (simp_all add: unat_of_nat_small)
  then have "unat (of_nat j * PAGE_SIZE :: u32) = 4096 * j" by (simp add: unat_word_ariths)
  then show ?thesis using b assms(2) unfolding frame_la_def by (simp add: unat_word_ariths)
qed

text \<open>Chunks in the frames share no cell with the list of free pages.\<close>

lemma room_cells:
  assumes l: "room_layout s (j + k)" and cs: "list_all (in_frames s i) cs" and i: "i \<le> j + k"
  shows "kpa ` set (chunk_head s # heap_nodes cs) \<inter> kpa ` set (free_pages_head s # map page_node (block_pages [(page_plus (pages s) (of_nat j), k)])) = {}"
proof -
  have g: "unat (kpa (chunk_head s)) < unat (pages s)" "unat (kpa (free_pages_head s)) < unat (pages s)" "kpa (chunk_head s) \<noteq> kpa (free_pages_head s)"
    "unat (pages s) + 24 * (j + k) \<le> unat (pt_begin s)" "unat (pt_begin s) + 4096 * (j + k) < 0x3FFF0000"
    using l unfolding room_layout_def by blast+
  have F: "unat (frame_la s 0) = unat (pt_begin s) + 0xC0000000" "unat (frame_la s i) = unat (pt_begin s) + 0xC0000000 + 4096 * i"
    using unat_frame_la [OF l] i by simp_all
  have up: "unat (pt_begin s) \<le> unat (kpa (ck_node (fst x)))" if "x \<in> set cs" for x
  proof -
    have "in_frames s i x" using cs that by (simp add: list_all_iff)
    then have b: "unat (pt_begin s) + 0xC0000000 \<le> unat (fst x)" "unat (fst x) + 12 \<le> unat (pt_begin s) + 0xC0000000 + 4096 * i"
      using F unfolding in_frames_def by linarith+
    moreover have "4096 * i \<le> 4096 * (j + k)" using i by simp
    ultimately have "unat (fst x) + 4 < 4294967296" using g(5) by linarith
    then have u: "unat (ck_node (fst x)) = unat (fst x) + 4" by (rule unat_ck_node)
    then have "VERTUAL_MEM \<le> ck_node (fst x)" using b by (simp add: word_le_nat_alt)
    then have "unat (kpa (ck_node (fst x))) = unat (fst x) + 4 - 0xC0000000" using u by (simp add: kpa_def unat_sub)
    then show ?thesis using b by linarith
  qed
  have mid: "unat (pages s) \<le> unat (kpa (page_node q)) \<and> unat (kpa (page_node q)) < unat (pt_begin s)"
    if q: "q \<in> set (block_pages [(page_plus (pages s) (of_nat j), k)])" for q
  proof -
    obtain r where r: "r < k" "q = page_plus (page_plus (pages s) (of_nat j)) (of_nat r)" using q by (auto simp: page_run_def)
    define d n where "d = j + r" and "n = j + k"
    have d: "d < n" "q = page_plus (pages s) (of_nat d)" using r by (simp_all add: d_def n_def page_plus_add)
    have gn: "unat (pages s) + 24 * n \<le> unat (pt_begin s)" "unat (pt_begin s) + 4096 * n < 0x3FFF0000" using g(4,5) by (simp_all add: n_def)
    have "unat (of_nat d :: u32) = d" using d(1) gn(2) by (intro unat_of_nat_small) simp
    then have "unat q = unat (pages s) + 24 * d" using d gn by (simp add: page_plus_def unat_word_ariths)
    then have "unat (page_node q) = unat (pages s) + 24 * d + 16" using d(1) gn by (simp add: page_node_def unat_word_ariths)
    then show ?thesis using d(1) gn by (simp add: kpa_def word_le_nat_alt)
  qed
  let ?ps = "block_pages [(page_plus (pages s) (of_nat j), k)]"
  have "kpa (chunk_head s) \<noteq> kpa (page_node q)" if "q \<in> set ?ps" for q using g(1) mid [OF that] by auto
  moreover have "kpa (ck_node (fst x)) \<noteq> kpa (page_node q)" if "x \<in> set cs" "q \<in> set ?ps" for x q using up [OF that(1)] mid [OF that(2)] by auto
  moreover have "kpa (ck_node (fst x)) \<noteq> kpa (free_pages_head s)" if "x \<in> set cs" for x using up [OF that] g(2,4) by auto
  ultimately have "a \<noteq> b" if "a \<in> kpa ` set (chunk_head s # heap_nodes cs)" "b \<in> kpa ` set (free_pages_head s # map page_node ?ps)" for a b
    using that g(3) unfolding set_simps set_map by blast
  then show ?thesis by blast
qed

definition room_same :: "'a machine_scheme \<Rightarrow> 'a machine_scheme \<Rightarrow> bool" where
  "room_same s s' \<longleftrightarrow> pt_begin s' = pt_begin s \<and> pages s' = pages s \<and> chunk_head s' = chunk_head s \<and> free_pages_head s' = free_pages_head s \<and>
     is_vmm_inited s' = is_vmm_inited s \<and> pd s' = pd s \<and> pmem s' = pmem s \<and> machine.more s' = machine.more s"

lemma room_same_refl [simp]: "room_same s s"
  by (simp add: room_same_def)

lemma room_same_trans: "room_same s s1 \<Longrightarrow> room_same s1 s2 \<Longrightarrow> room_same s s2"
  by (simp add: room_same_def)

lemma heap_step_same: "heap_step s s' cs \<Longrightarrow> room_same s s'"
  by (simp add: heap_step_def room_same_def heap_only_fields)

lemma room_same_frames:
  assumes "room_same s s'"
  shows "frame_la s' = frame_la s" "in_frames s' = in_frames s" "room_layout s' n = room_layout s n" "pages s' = pages s"
  using assms by (simp_all add: room_same_def frame_la_def in_frames_def room_layout_def fun_eq_iff)

lemma room_step:
  assumes st: "heap_step s s' cs" and bl: "block_list s [(page_plus (pages s) (of_nat j), k)]" and l: "room_layout s (j + k)" and cs: "list_all (in_frames s j) cs"
  shows "heap_room s' cs j k"
proof -
  have h: "heap s' cs" "heap_only s s'" "other_rings s s' (chunk_head s # heap_nodes cs)" using st by (simp_all add: heap_step_def)
  have "block_list s' [(page_plus (pages s) (of_nat j), k)]"
    by (rule block_list_other [OF bl h(3) room_cells [OF l cs]]) (simp_all add: heap_only_fields [OF h(2)])
  then show ?thesis using h(1) l cs by (simp add: heap_room_def room_same_frames [OF heap_step_same [OF st]])
qed

lemma in_frames_split:
  assumes "in_frames s j (c, False, n)" and "12 + sz \<le> n"
  shows "in_frames s j (c, True, sz) \<and> in_frames s j (c + of_nat (12 + sz), False, n - (12 + sz))"
proof -
  have b: "unat (frame_la s 0) \<le> unat c" "unat c + 12 + n \<le> unat (frame_la s j)" using assms(1) by (simp_all add: in_frames_def)
  then have "unat c + (12 + sz) < 4294967296" using assms(2) unat_lt_2_32 [of "frame_la s j"] by linarith
  then have "unat (c + of_nat (12 + sz)) = unat c + (12 + sz)" by (simp add: unat_word_ariths unat_of_nat_small)
  then show ?thesis using b assms(2) by (simp add: in_frames_def)
qed

lemma room_fit:
  assumes r: "heap_room s cs j k" and fit: "malloc_fit sz cs = Some (p, cs')"
  shows "\<exists>s'. malloc (of_nat sz) s = Some (p, s') \<and> heap_room s' cs' j k \<and> room_same s s'"
proof -
  have h: "heap s cs" "list_all (in_frames s j) cs" using r by (simp_all add: heap_room_def)
  obtain s' where s': "malloc (of_nat sz) s = Some (p, s')" "heap_step s s' cs'" using malloc_fit_heap [OF h(1) fit] by blast
  obtain as c n bs where "cs = as @ (c, False, n) # bs" "12 + sz \<le> n" "cs' = as @ (c, True, sz) # (c + of_nat (12 + sz), False, n - (12 + sz)) # bs"
    using malloc_fit_Some [OF fit] by blast
  then have "list_all (in_frames s j) cs'" using h(2) in_frames_split [of s j c n sz] by simp
  then show ?thesis using room_step [OF s'(2)] r s'(1) heap_step_same [OF s'(2)] by (auto simp: heap_room_def)
qed

lemma in_frames_placed:
  assumes l: "room_layout s n" and sz: "sz < 0x30000000" and m: "m = unat (malloc_pages (sizeof_Chunk + of_nat sz))" and n: "j + m \<le> n"
  shows "list_all (in_frames s (j + m)) (placed (frame_la s j) sz m)"
proof -
  note M = malloc_pages_bound [OF sz m]
  have b: "unat (pt_begin s) + 4096 * n < 0x3FFF0000" using l unfolding room_layout_def by blast
  have F: "unat (frame_la s 0) = unat (pt_begin s) + 0xC0000000" "unat (frame_la s j) = unat (pt_begin s) + 0xC0000000 + 4096 * j"
      "unat (frame_la s (j + m)) = unat (pt_begin s) + 0xC0000000 + 4096 * j + 4096 * m"
    using unat_frame_la [OF l, of 0] unat_frame_la [OF l, of j] unat_frame_la [OF l, of "j + m"] n by simp_all
  have "unat (frame_la s j) + (12 + sz) < 4294967296" using F(2) M(1) b n by simp
  then have "unat (frame_la s j + of_nat (12 + sz)) = unat (frame_la s j) + (12 + sz)" by (simp add: unat_word_ariths unat_of_nat_small)
  then show ?thesis using F M(1) by (simp add: placed_def in_frames_def)
qed

lemma in_frames_mono: "in_frames s j x \<Longrightarrow> room_layout s n \<Longrightarrow> j \<le> i \<Longrightarrow> i \<le> n \<Longrightarrow> in_frames s i x"
  using unat_frame_la [of s n i] unat_frame_la [of s n j] by (simp add: in_frames_def)

text \<open>\<open>malloc\<close> with new pages.\<close>

lemma room_fresh:
  assumes r: "heap_room s cs j k" and m: "m \<le> k"
  shows "fresh_frames s cs (block_pages [(page_plus (pages s) (of_nat j), k)]) (frame_la s j) m"
proof -
  have l: "room_layout s (j + k)" and cs: "list_all (in_frames s j) cs" and hi: "VERTUAL_MEM \<le> chunk_head s" using r by (simp_all add: heap_room_def heap_def)
  have g: "unat (kpa (chunk_head s)) < unat (pages s)" "unat (pages s) + 24 * (j + k) \<le> unat (pt_begin s)" "unat (pt_begin s) + 4096 * (j + k) < 0x3FFF0000"
    using l unfolding room_layout_def by blast+
  have F: "unat (frame_la s j) = unat (pt_begin s) + 0xC0000000 + 4096 * j" using unat_frame_la [OF l] by simp
  have "unat (chunk_head s) = unat (kpa (chunk_head s)) + 0xC0000000" using hi by (simp add: kpa_def unat_sub word_le_nat_alt)
  then have "unat (chunk_head s) < unat (frame_la s j)" using g(1,2) F by linarith
  moreover have "{unat (frame_la s j) ..< unat (frame_la s j) + 4096 * m} \<inter> chunk_ext x = {}" if "x \<in> set cs" for x
  proof -
    have "in_frames s j x" using cs that by (simp add: list_all_iff)
    then show ?thesis by (auto simp: in_frames_def chunk_ext_def split: prod.splits)
  qed
  moreover have "VERTUAL_MEM \<le> frame_la s j" "unat (frame_la s j) + 4096 * m < 4294967296" using F g(3) m by (simp_all add: word_le_nat_alt)
  moreover note room_cells [OF l cs]
  ultimately show ?thesis by (auto simp: fresh_frames_def Int_commute)
qed

lemma room_pages:
  assumes r: "heap_room s cs j k" and none: "malloc_fit sz cs = None" and sz: "sz < 0x30000000"
    and m: "m = unat (malloc_pages (sizeof_Chunk + of_nat sz))" "m < k" and off: "is_vmm_inited s \<noteq> 1 \<or> m \<noteq> 1"
  shows "\<exists>s'. malloc (of_nat sz) s = Some (frame_la s j + 12, s') \<and> heap_room s' (cs @ placed (frame_la s j) sz m) (j + m) (k - m) \<and> room_same s s'"
proof -
  let ?p = "page_plus (pages s) (of_nat j)" and ?cs = "cs @ placed (frame_la s j) sz m"
  have h: "heap s cs" and bl: "block_list s [(?p, k)]" and l: "room_layout s (j + k)" and cs: "list_all (in_frames s j) cs" using r by (simp_all add: heap_room_def)
  have mk: "m \<le> k" using m(2) by simp
  have "m < 4294967296" using m(1) unat_lt_2_32 by simp
  then have "(of_nat m :: u32) = 1 \<longleftrightarrow> m = 1" by (simp add: word_unat_eq_iff unat_of_nat_small)
  then have nv: "no_victim s (of_nat m) (block_pages [(?p, k)])" using off by (auto simp: no_victim_def)
  obtain s1 s' x y u v where s': "malloc (of_nat sz) s = Some (frame_la s j + 12, s')" "heap_step s1 s' ?cs" "block_list s1 [(page_plus ?p (of_nat m), k - m)]"
      and s1: "s1 = s\<lparr>ln_prev := x, ln_next := y, free_page_num := free_page_num s - of_nat m, pg_free_pages := u, pg_flags := v\<rparr>"
    using malloc_pages_heap [OF h none sz m(1) bl m(2) nv refl frame_la_def room_fresh [OF r mk]] by blast
  have same: "room_same s s1" by (simp add: s1 room_same_def)
  note S = room_same_frames [OF same]
  have "list_all (in_frames s (j + m)) ?cs"
    using cs in_frames_mono [OF _ l, of j _ "j + m"] in_frames_placed [OF l sz m(1), of j] mk by (auto simp: list_all_iff)
  then have "heap_room s' ?cs (j + m) (k - m)"
    using s'(3) l mk by (intro room_step [OF s'(2)]) (simp_all add: S page_plus_add)
  then show ?thesis using s'(1) room_same_trans [OF same heap_step_same [OF s'(2)]] by blast
qed

text \<open>Fields outside the heap and the free list do not matter, and a list head may be put into an allocated chunk.\<close>

lemma heap_room_cong:
  assumes "get_next s' = get_next s" "get_prev s' = get_prev s" "ck_allocated s' = ck_allocated s" "ck_size s' = ck_size s" "chunk_head s' = chunk_head s"
    "free_pages_head s' = free_pages_head s" "free_page_num s' = free_page_num s" "pg_free_pages s' = pg_free_pages s" "pages s' = pages s" "pt_begin s' = pt_begin s"
  shows "heap_room s' cs j k = heap_room s cs j k"
proof -
  have "heap s' cs = heap s cs" using ring_links [OF assms(1,2)] assms(3-5) by (simp add: heap_def chunk_ok_def)
  moreover have "block_list s' bs = block_list s bs" for bs
    using ring_links [OF assms(1,2)] assms(6-8) by (simp add: block_list_def free_list_def free_pages_of_def)
  moreover have "in_frames s' = in_frames s" using assms(10) by (simp add: in_frames_def frame_la_def fun_eq_iff)
  ultimately show ?thesis using assms(5,6,9,10) by (simp add: heap_room_def room_layout_def)
qed

lemma room_init:
  assumes r: "heap_room s (as @ (c, b, n) # bs) j k" and w: "unat c + 12 \<le> unat w" "unat w + 8 \<le> unat c + 12 + n"
  shows "heap_room (list_init w s) (as @ (c, b, n) # bs) j k"
proof -
  let ?cs = "as @ (c, b, n) # bs" and ?ps = "block_pages [(page_plus (pages s) (of_nat j), k)]"
  have h: "heap s ?cs" and bl: "block_list s [(page_plus (pages s) (of_nat j), k)]" and l: "room_layout s (j + k)" and cs: "list_all (in_frames s j) ?cs"
    using r by (simp_all add: heap_room_def)
  note C = heap_chunk [OF h, of c b n, simplified]
  have hi: "VERTUAL_MEM \<le> w" using C(1) w(1) by (simp add: word_le_nat_alt)
  have wc: "unat w \<in> chunk_ext (c, b, n)" using w by (simp add: chunk_ext_def)
  have "w \<noteq> ck_node c" using w(1) C(9) by auto
  with heap_fresh [OF h wc] hi have fr: "kpa w \<notin> kpa ` set (chunk_head s # heap_nodes ?cs)" by simp
  have "unat (w - 4) = unat w - 4" using w(1) by (simp add: unat_sub word_le_nat_alt)
  moreover have "unat (frame_la s 0) \<le> unat c" "unat c + 12 + n \<le> unat (frame_la s j)" using cs by (simp_all add: in_frames_def)
  ultimately have "in_frames s j (w - 4, b, 0)" using w unfolding in_frames_def fst_conv snd_conv by linarith
  then have "list_all (in_frames s j) [(w - 4, b, 0)]" by simp
  from room_cells [OF l this] have "kpa w \<notin> kpa ` set (free_pages_head s # map page_node ?ps)" by (auto simp: ck_node_def)
  then have "free_list (list_init w s) ?ps" using bl by (simp add: block_list_def free_list_def ring_other_init del: set_map)
  then have "block_list (list_init w s) [(page_plus (pages s) (of_nat j), k)]"
    by (rule block_list_frame) (use bl in \<open>auto simp: block_list_def free_pages_of_def\<close>)
  moreover have "heap (list_init w s) ?cs"
    using h fr by (simp add: heap_def chunk_ok_def ring_other_init del: set_map)
  moreover have "in_frames (list_init w s) = in_frames s" by (simp add: in_frames_def frame_la_def fun_eq_iff)
  ultimately show ?thesis using l cs by (simp add: heap_room_def room_layout_def)
qed

section \<open>The test\<close>

lemma malloc_fit_skip:
  assumes "\<forall>x \<in> set as. fst (snd x)"
  shows "malloc_fit sz (as @ cs) = map_option (\<lambda>(p, cs). (p, as @ cs)) (malloc_fit sz cs)"
  using assms by (induction as) (auto simp: option.map_comp comp_def split_def option.map_ident)

abbreviation test_layout :: "u32 \<Rightarrow> nat \<Rightarrow> chunk list" where
  "test_layout c n \<equiv> [(c, True, 1000), (c + 1012, True, 1000), (c + 2024, True, 5000), (c + 7036, True, 5000), (c + 12048, True, 5000), (c + 17060, False, n - 17060)]"

lemma malloc_carve:
  assumes "heap s (as @ [(c, False, n)])" and al: "\<forall>x \<in> set as. fst (snd x)" and "12 + sz \<le> n" "m = n - (12 + sz)" "d = c + of_nat (12 + sz)"
  shows "\<exists>s'. malloc (of_nat sz) s = Some (c + 12, s') \<and> heap s' ((as @ [(c, True, sz)]) @ [(d, False, m)]) \<and> (\<forall>x \<in> set (as @ [(c, True, sz)]). fst (snd x))"
  using malloc_fit_heap [OF assms(1), of sz] assms(2-) by (auto simp: malloc_fit_skip [OF al] heap_step_def)

lemma test_malloc_round_heap:
  assumes h: "heap s (as @ [(c, False, n)])" and al: "\<forall>x \<in> set as. fst (snd x)" and n: "17060 \<le> n"
  shows "\<exists>s'. test_malloc_round s = Some ([c + 12, c + 1024, c + 2036, c + 7048, c + 12060], s') \<and> heap s' (as @ test_layout c n)"
proof -
  have le: "12 + 1000 \<le> n" "12 + 1000 \<le> n - 1012" "12 + 5000 \<le> n - 2024" "12 + 5000 \<le> n - 7036" "12 + 5000 \<le> n - 12048" using n by simp_all
  obtain s1 where 1: "malloc 1000 s = Some (c + 12, s1)" "heap s1 ((as @ [(c, True, 1000)]) @ [(c + 1012, False, n - 1012)])"
      and a1: "\<forall>x \<in> set (as @ [(c, True, 1000)]). fst (snd x)"
    using malloc_carve [OF h al, of 1000 "n - 1012" "c + 1012"] le(1) by (auto simp: algebra_simps)
  obtain s2 where 2: "malloc 1000 s1 = Some (c + 1024, s2)" "heap s2 (((as @ [(c, True, 1000)]) @ [(c + 1012, True, 1000)]) @ [(c + 2024, False, n - 2024)])"
      and a2: "\<forall>x \<in> set ((as @ [(c, True, 1000)]) @ [(c + 1012, True, 1000)]). fst (snd x)"
    using malloc_carve [OF 1(2) a1 le(2), of "n - 2024" "c + 2024"] by (auto simp: algebra_simps)
  obtain s3 where 3: "malloc 5000 s2 = Some (c + 2036, s3)" "heap s3 ((((as @ [(c, True, 1000)]) @ [(c + 1012, True, 1000)]) @ [(c + 2024, True, 5000)]) @ [(c + 7036, False, n - 7036)])"
      and a3: "\<forall>x \<in> set (((as @ [(c, True, 1000)]) @ [(c + 1012, True, 1000)]) @ [(c + 2024, True, 5000)]). fst (snd x)"
    using malloc_carve [OF 2(2) a2 le(3), of "n - 7036" "c + 7036"] by (auto simp: algebra_simps)
  obtain s4 where 4: "malloc 5000 s3 = Some (c + 7048, s4)"
      "heap s4 (((((as @ [(c, True, 1000)]) @ [(c + 1012, True, 1000)]) @ [(c + 2024, True, 5000)]) @ [(c + 7036, True, 5000)]) @ [(c + 12048, False, n - 12048)])"
      and a4: "\<forall>x \<in> set ((((as @ [(c, True, 1000)]) @ [(c + 1012, True, 1000)]) @ [(c + 2024, True, 5000)]) @ [(c + 7036, True, 5000)]). fst (snd x)"
    using malloc_carve [OF 3(2) a3 le(4), of "n - 12048" "c + 12048"] by (auto simp: algebra_simps)
  obtain s5 where 5: "malloc 5000 s4 = Some (c + 12060, s5)" "heap s5 (as @ test_layout c n)"
    using malloc_carve [OF 4(2) a4 le(5), of "n - 17060" "c + 17060"] by (auto simp: algebra_simps)
  show ?thesis using 1(1) 2(1) 3(1) 4(1) 5 by (simp add: test_malloc_round_def)
qed

lemma free_first: "heap s (as @ (c, True, n) # bs) \<Longrightarrow> \<forall>x \<in> set as. fst (snd x) \<Longrightarrow> heap (free (c + 12) s) (as @ join_next (c, False, n) bs)"
  using free_coalesces_internal [of s as c n bs] by (cases as rule: rev_cases) (auto simp: chunks_free_def joinable_def split: prod.splits)

lemma free_behind:
  assumes "heap s (as @ (c, False, m) # (d, True, n) # bs)" and "d = c + of_nat (12 + m)"
  shows "heap (free (d + 12) s) (as @ join_next (c, False, m + 12 + n) bs)"
  using free_coalesces_internal [of s "as @ [(c, False, m)]" d n bs] assms by (simp add: chunks_free_def joinable_def join_def)

lemma test_malloc_frees:
  assumes h: "heap s (as @ test_layout c n)" and al: "\<forall>x \<in> set as. fst (snd x)" and n: "17060 \<le> n"
  shows "heap (fold free [c + 12, c + 1024, c + 2036, c + 7048, c + 12060] s) (as @ [(c, False, n)])"
proof -
  define s1 where "s1 = free (c + 12) s"
  define s2 where "s2 = free (c + 1024) s1"
  define s3 where "s3 = free (c + 2036) s2"
  define s4 where "s4 = free (c + 7048) s3"
  have 1: "heap s1 (as @ [(c, False, 1000), (c + 1012, True, 1000), (c + 2024, True, 5000), (c + 7036, True, 5000), (c + 12048, True, 5000), (c + 17060, False, n - 17060)])"
    using free_first [OF h al] by (simp add: join_next_def joinable_def s1_def)
  have 2: "heap s2 (as @ [(c, False, 2012), (c + 2024, True, 5000), (c + 7036, True, 5000), (c + 12048, True, 5000), (c + 17060, False, n - 17060)])"
    using free_behind [OF 1] by (simp add: join_next_def joinable_def s2_def add.assoc)
  have 3: "heap s3 (as @ [(c, False, 7024), (c + 7036, True, 5000), (c + 12048, True, 5000), (c + 17060, False, n - 17060)])"
    using free_behind [OF 2] by (simp add: join_next_def joinable_def s3_def add.assoc)
  have 4: "heap s4 (as @ [(c, False, 12036), (c + 12048, True, 5000), (c + 17060, False, n - 17060)])"
    using free_behind [OF 3] by (simp add: join_next_def joinable_def s4_def add.assoc)
  have "heap (free (c + 12060) s4) (as @ [(c, False, n)])"
    using free_behind [OF 4] n by (simp add: join_next_def joinable_def join_def add.assoc)
  then show ?thesis by (simp add: s1_def s2_def s3_def s4_def)
qed

text \<open>The first round on the heap of the kernel: the two small chunks fit, the three large ones take two pages each.\<close>

abbreviation first_layout :: "u32 \<Rightarrow> nat \<Rightarrow> u32 \<Rightarrow> chunk list" where
  "first_layout c n a \<equiv> [(c, True, 1000), (c + 1012, True, 1000), (c + 2024, False, n - 2024), (a, True, 5000), (a + 5012, False, 3168),
     (a + 8192, True, 5000), (a + 13204, False, 3168), (a + 16384, True, 5000), (a + 21396, False, 3168)]"

lemma frame_la_next: "frame_la s (j + 2) = frame_la s j + 8192"
  by (simp add: frame_la_def algebra_simps)

lemma room_large:
  assumes "heap_room s cs j k" and "malloc_fit 5000 cs = None" and "is_vmm_inited s = 1" "2 < k" "a = frame_la s j"
  shows "\<exists>s'. malloc 5000 s = Some (a + 12, s') \<and> heap_room s' (cs @ [(a, True, 5000), (a + 5012, False, 3168)]) (j + 2) (k - 2) \<and> is_vmm_inited s' = 1 \<and> a + 8192 = frame_la s' (j + 2)"
proof -
  have m: "(2 :: nat) = unat (malloc_pages (sizeof_Chunk + of_nat 5000))" by (simp add: unat_malloc_pages)
  have off: "is_vmm_inited s \<noteq> 1 \<or> (2 :: nat) \<noteq> 1" by simp
  have sz: "(5000 :: nat) < 0x30000000" by simp
  from room_pages [OF assms(1,2) sz m assms(4) off] obtain s' where
    s': "malloc (of_nat 5000) s = Some (frame_la s j + 12, s')" "heap_room s' (cs @ placed (frame_la s j) 5000 2) (j + 2) (k - 2)" "room_same s s'" by blast
  moreover have "is_vmm_inited s' = 1" "frame_la s' = frame_la s" using s'(3) assms(3) room_same_frames(1) [OF s'(3)] by (simp_all add: room_same_def)
  moreover have "placed a 5000 2 = [(a, True, 5000), (a + 5012, False, 3168)]" by (simp add: placed_def)
  ultimately show ?thesis using frame_la_next [of s j] unfolding assms(5) by (intro exI [of _ s']) simp
qed

lemma test_malloc_first_round:
  assumes r: "heap_room s (as @ [(c, False, n)]) j k" and al: "\<forall>x \<in> set as. fst (snd x)" and n: "2024 \<le> n" "n < 7036" and k: "6 < k" and on: "is_vmm_inited s = 1"
    and a: "a = frame_la s j"
  shows "\<exists>s'. test_malloc_round s = Some ([c + 12, c + 1024, a + 12, a + 8204, a + 16396], s') \<and> heap s' (as @ first_layout c n a)"
proof -
  note skip = malloc_fit_skip [OF al]
  have kk: "2 < k" "2 < k - 2" "2 < k - 2 - 2" using k by simp_all
  obtain s1 where 1: "malloc 1000 s = Some (c + 12, s1)" "heap_room s1 (as @ [(c, True, 1000), (c + 1012, False, n - 1012)]) j k" "room_same s s1"
    using room_fit [OF r, of 1000] n by (auto simp: skip)
  obtain s2 where 2: "malloc 1000 s1 = Some (c + 1024, s2)" "heap_room s2 (as @ [(c, True, 1000), (c + 1012, True, 1000), (c + 2024, False, n - 2024)]) j k" "room_same s1 s2"
  proof -
    have "malloc_fit 1000 (as @ [(c, True, 1000), (c + 1012, False, n - 1012)]) = Some (c + 1024, as @ [(c, True, 1000), (c + 1012, True, 1000), (c + 2024, False, n - 2024)])"
      using n by (simp add: skip add.assoc)
    from room_fit [OF 1(2) this] show ?thesis using that by auto
  qed
  have v: "is_vmm_inited s2 = 1" "a = frame_la s2 j" using on a 1(3) 2(3) by (simp_all add: room_same_def frame_la_def)
  have "malloc_fit 5000 (as @ [(c, True, 1000), (c + 1012, True, 1000), (c + 2024, False, n - 2024)]) = None" using n by (simp add: skip)
  from room_large [OF 2(2) this v(1) kk(1) v(2)] obtain s3 where 3: "malloc 5000 s2 = Some (a + 12, s3)"
      "heap_room s3 (as @ [(c, True, 1000), (c + 1012, True, 1000), (c + 2024, False, n - 2024), (a, True, 5000), (a + 5012, False, 3168)]) (j + 2) (k - 2)"
      "is_vmm_inited s3 = 1" "a + 8192 = frame_la s3 (j + 2)" by auto
  have "malloc_fit 5000 (as @ [(c, True, 1000), (c + 1012, True, 1000), (c + 2024, False, n - 2024), (a, True, 5000), (a + 5012, False, 3168)]) = None" using n by (simp add: skip)
  from room_large [OF 3(2) this 3(3) kk(2) 3(4)] obtain s4 where 4: "malloc 5000 s3 = Some (a + 8204, s4)"
      "heap_room s4 (as @ [(c, True, 1000), (c + 1012, True, 1000), (c + 2024, False, n - 2024), (a, True, 5000), (a + 5012, False, 3168), (a + 8192, True, 5000), (a + 13204, False, 3168)]) (j + 2 + 2) (k - 2 - 2)"
      "is_vmm_inited s4 = 1" "a + 16384 = frame_la s4 (j + 2 + 2)" by (auto simp: add.assoc)
  have "malloc_fit 5000 (as @ [(c, True, 1000), (c + 1012, True, 1000), (c + 2024, False, n - 2024), (a, True, 5000), (a + 5012, False, 3168), (a + 8192, True, 5000), (a + 13204, False, 3168)]) = None"
    using n by (simp add: skip)
  from room_large [OF 4(2) this 4(3) kk(3) 4(4)] obtain s5 where 5: "malloc 5000 s4 = Some (a + 16396, s5)" "heap s5 (as @ first_layout c n a)"
    by (auto simp: heap_room_def add.assoc)
  show ?thesis using 1(1) 2(1) 3(1) 4(1) 5 by (simp add: test_malloc_round_def)
qed

text \<open>Freeing everything joins the pages with the chunk in front of them.\<close>

lemma free_between:
  assumes "heap s (as @ (c, False, m) # (d, True, n) # (e, False, k) # bs)" and "d = c + of_nat (12 + m)" and "e = d + of_nat (12 + n)"
    and "p = d + 12" "z = m + 12 + n + 12 + k"
  shows "heap (free p s) (as @ (c, False, z) # bs)"
proof -
  have "joinable (c, False, m + 12 + n) (e, False, k)" using assms(2,3) by (simp add: joinable_def add.assoc add.left_commute)
  then show ?thesis using free_behind [OF assms(1,2)] assms(4,5) by (simp add: join_next_def join_def)
qed

lemma test_malloc_first_frees:
  assumes h: "heap s (as @ first_layout c n a)" and al: "\<forall>x \<in> set as. fst (snd x)" and n: "2024 \<le> n" and a: "a = c + of_nat (12 + n)"
  shows "heap (fold free [c + 12, c + 1024, a + 12, a + 8204, a + 16396] s) (as @ [(c, False, n + 24576)])"
proof -
  define s1 where "s1 = free (c + 12) s"
  define s2 where "s2 = free (c + 1024) s1"
  define s3 where "s3 = free (a + 12) s2"
  define s4 where "s4 = free (a + 8204) s3"
  let ?l = "drop 3 (first_layout c n a)"
  have 1: "heap s1 (as @ (c, False, 1000) # tl (first_layout c n a))"
    using free_first [OF h al] by (simp add: join_next_def joinable_def s1_def)
  have "heap s1 (as @ (c, False, 1000) # (c + 1012, True, 1000) # (c + 2024, False, n - 2024) # ?l)" using 1 by simp
  then have 2: "heap s2 (as @ (c, False, n) # ?l)" unfolding s2_def by (rule free_between) (use n in simp_all)
  have "heap s2 (as @ (c, False, n) # (a, True, 5000) # (a + 5012, False, 3168) # drop 2 ?l)" using 2 by simp
  then have 3: "heap s3 (as @ (c, False, n + 8192) # drop 2 ?l)" unfolding s3_def by (rule free_between [OF _ a]) simp_all
  have "heap s3 (as @ (c, False, n + 8192) # (a + 8192, True, 5000) # (a + 13204, False, 3168) # drop 4 ?l)" using 3 by simp
  then have 4: "heap s4 (as @ (c, False, n + 16384) # drop 4 ?l)" unfolding s4_def by (rule free_between) (simp_all add: a)
  have "heap s4 (as @ (c, False, n + 16384) # (a + 16384, True, 5000) # (a + 21396, False, 3168) # [])" using 4 by simp
  then have "heap (free (a + 16396) s4) (as @ [(c, False, n + 24576)])" by (rule free_between) (simp_all add: a)
  then show ?thesis by (simp add: s1_def s2_def s3_def s4_def)
qed

lemma test_malloc_room:
  assumes r: "heap_room s (as @ [(c, False, n)]) j k" and al: "\<forall>x \<in> set as. fst (snd x)" and n: "2024 \<le> n" "n < 7036" and k: "6 < k" and on: "is_vmm_inited s = 1"
    and a: "a = frame_la s j" "a = c + of_nat (12 + n)"
  shows "\<exists>s'. test_malloc s = Some ([c + 12, c + 1024, a + 12, a + 8204, a + 16396] @ [c + 12, c + 1024, c + 2036, c + 7048, c + 12060]
      @ [c + 12, c + 1024, c + 2036, c + 7048, c + 12060], s') \<and> heap s' (as @ test_layout c (n + 24576))"
proof -
  let ?a = "[c + 12, c + 1024, c + 2036, c + 7048, c + 12060]" and ?l = "as @ test_layout c (n + 24576)"
  have n': "17060 \<le> n + 24576" by simp
  obtain s1 where 1: "test_malloc_round s = Some ([c + 12, c + 1024, a + 12, a + 8204, a + 16396], s1)" "heap s1 (as @ first_layout c n a)"
    using test_malloc_first_round [OF r al n k on a(1)] by blast
  define t1 where "t1 = fold free [c + 12, c + 1024, a + 12, a + 8204, a + 16396] s1"
  have "heap t1 (as @ [(c, False, n + 24576)])" unfolding t1_def by (rule test_malloc_first_frees [OF 1(2) al n(1) a(2)])
  then obtain s2 where 2: "test_malloc_round t1 = Some (?a, s2)" "heap s2 ?l" using test_malloc_round_heap [OF _ al n'] by blast
  define t2 where "t2 = fold free ?a s2"
  have "heap t2 (as @ [(c, False, n + 24576)])" unfolding t2_def by (rule test_malloc_frees [OF 2(2) al n'])
  then obtain s3 where 3: "test_malloc_round t2 = Some (?a, s3)" "heap s3 ?l" using test_malloc_round_heap [OF _ al n'] by blast
  have "test_malloc s = Some ([c + 12, c + 1024, a + 12, a + 8204, a + 16396] @ ?a @ ?a, s3)"
    unfolding test_malloc_def 1(1) by (simp add: t1_def [symmetric, simplified] 2(1) t2_def [symmetric, simplified] 3(1))
  then show ?thesis using 3(2) by blast
qed

end
