(* ===== verification/Startup.thy ===== *)
theory Startup
  imports PageInit Syscall HeapTest
begin

text \<open>
  From the boot sector to the running kernel: \<open>sign.c\<close>, which makes the boot sector, \<open>swap_init\<close> of \<open>mm/swap.c\<close>, \<open>pmm_init\<close> of \<open>mm/pmm.c\<close>, and the part of \<open>init\<close> in \<open>entry/entry.c\<close>
  that sets the kernel up. What the linker script and the machine provide is the record \<open>boot_params\<close>. The value \<open>None\<close> is a wait for the disk that never ends, a
  write outside a table, or a list that is not a ring.
\<close>

section \<open>The boot sector\<close>

text \<open>
  The file named on the command line is \<open>None\<close> when \<open>stat\<close> fails; reading and writing it succeed. The result is the exit code and the file.
\<close>

definition sign_main :: "nat \<Rightarrow> u8 list option \<Rightarrow> i32 \<times> u8 list option" where
  "sign_main argc file =
     (if argc \<noteq> 2 then (- 1, file)
      else case file of
        None \<Rightarrow> (- 1, None)
      | Some bs \<Rightarrow>
          if 510 < length bs then (- 1, file)
          else
            let buf = replicate 512 0;
                buf = bs @ drop (length bs) buf;
                buf = buf[510 := 0x55];
                buf = buf[511 := 0xAA]
            in (0, Some buf))"

section \<open>The swap disk\<close>

record ide_t =
  ideno :: u32
  cmdsets :: u32
  sect_num :: u32

text \<open>\<open>identity\<close> are the 128 words that the drive answers to the command 0xEC, and \<open>p\<close> the successive values of its status register.\<close>

definition swap_init :: "(nat \<Rightarrow> u32) \<Rightarrow> u8 list \<Rightarrow> ide_t \<Rightarrow> cpu \<Rightarrow> (ide_t \<times> cpu) option" where
  "swap_init identity p swap c =
     do {
       (_, p) \<leftarrow> waitdisk p;
       let c = outb 0x1F6 (0xE0 OR ucast (push_bit 4 (ideno swap AND 1))) c;
       (_, p) \<leftarrow> waitdisk p;
       let c = outb 0x1F7 0xEC c;
       (_, p) \<leftarrow> waitdisk p;
       let buffer = identity;
       let swap = swap\<lparr>cmdsets := buffer (164 div 4)\<rparr>;
       Some (if cmdsets swap AND 0x4000000 \<noteq> 0 then swap\<lparr>sect_num := buffer (200 div 4)\<rparr> else swap\<lparr>sect_num := buffer (120 div 4)\<rparr>, c)
     }"

section \<open>Setting the kernel up\<close>

record boot_params =
  gdt_addr :: u32
  idt_addr :: u32
  tss_addr :: u32
  kern_end :: u32
  intrs :: "nat \<Rightarrow> u32"
  memmap :: "e820_entry list"
  identity :: "nat \<Rightarrow> u32"
  status :: "u8 list"

definition pmm_init :: "u32 \<Rightarrow> e820_entry list \<Rightarrow> kernel \<Rightarrow> kernel option" where
  "pmm_init kend mmap s =
     do {
       c \<leftarrow> set_handler 14 Page_fault (cpu s);
       page_init kend mmap (s\<lparr>cpu := c\<rparr>)
     }"

text \<open>\<open>init\<close> up to \<open>kbd_init\<close>.\<close>

definition init :: "boot_params \<Rightarrow> ide_t \<Rightarrow> kernel \<Rightarrow> (ide_t \<times> kernel) option" where
  "init b swap s =
     do {
       c \<leftarrow> gdt_init (gdt_addr b) (cpu s);
       c \<leftarrow> idt_init (intrs b) (idt_addr b) c;
       s \<leftarrow> pmm_init (kern_end b) (memmap b) (s\<lparr>cpu := c\<rparr>);
       (swap, c) \<leftarrow> swap_init (identity b) (status b) swap (cpu s);
       s \<leftarrow> vmm_init (malloc_init (s\<lparr>cpu := c\<rparr>));
       let c = pic_init (cpu s);
       c \<leftarrow> tss_init (intrs b) (tss_addr b) (kern_stack s) c;
       c \<leftarrow> timer_intr_init c;
       c \<leftarrow> kbd_init c;
       Some (swap, s\<lparr>cpu := c\<rparr>)
     }"

section \<open>Lemmas\<close>

lemma gdt_init_keeps:
  assumes "length (gdt c) = 6"
  shows "\<exists>c'. gdt_init a c = Some c' \<and> length (gdt c') = 6 \<and> idt c' = idt c \<and> handlers c' = handlers c"
  using assms by (simp add: gdt_init_def set_seg_gate_desc_entry lgdt_def)

lemma idt_init_fills:
  assumes "length (idt c) = 256" and "length (handlers c) = 256"
  shows "\<exists>c'. idt_init f a c = Some c' \<and> gdt c' = gdt c \<and> handlers c' = replicate 256 Isr_handler \<and> idt c' = map (\<lambda>j. kernel_gate (f j) 0) [0..<256]"
  using assms init_handlers_all [of c 0 256] init_gates_all [of "c\<lparr>handlers := replicate 256 Isr_handler\<rparr>" 0 256 f]
  by (simp add: idt_init_def lidt_def del: upt_Suc)

lemma set_handler_sets:
  "unat v < length (handlers c) \<Longrightarrow> set_handler v h c = Some (c\<lparr>handlers := (handlers c)[unat v := h]\<rparr>)"
  by (simp add: set_handler_def)

lemma tss_init_sets:
  assumes "length (gdt c) = 6" and "length (idt c) = 256" and "length (handlers c) = 256"
  shows "\<exists>c'. tss_init f t k c = Some c' \<and> eflags c' = eflags c
    \<and> handlers c' = (((handlers c)[120 := Switch_to_user_handler])[121 := Switch_to_kern_handler])[0x80 := System_intr]
    \<and> idt c' = ((idt c)[121 := kernel_gate (f 121) 3])[0x80 := kernel_gate (f 0x80) 3]"
  using assms by (simp add: tss_init_def set_seg_gate_desc_entry ltr_def set_intr_gate_desc_igd set_handler_sets)

lemma pic_init_keeps: "gdt (pic_init c) = gdt c" "idt (pic_init c) = idt c" "handlers (pic_init c) = handlers c" "intr_on (pic_init c)"
  by (simp_all add: pic_init_def Let_def outb_def) (simp_all add: sti_def)

lemma timer_kbd_init_sets:
  assumes "length (handlers c) = 256"
  shows "\<exists>c' c''. timer_intr_init c = Some c' \<and> kbd_init c' = Some c'' \<and> handlers c'' = ((handlers c)[32 := Timer_handler])[33 := Kbd_handler]
    \<and> idt c'' = idt c \<and> eflags c'' = eflags c"
  using assms by (simp add: timer_intr_init_def kbd_init_def Let_def outb_def set_handler_sets)

abbreviation ready_polls :: "u8 list \<Rightarrow> nat" where
  "ready_polls p \<equiv> length (filter (\<lambda>v. v AND 0xC0 = 0x40) p)"

lemma waitdisk_returns: "0 < ready_polls p \<Longrightarrow> \<exists>p'. waitdisk p = Some (0, p') \<and> ready_polls p' = ready_polls p - 1"
  by (induction p) (auto simp: Let_def)

lemma swap_init_returns:
  assumes "3 \<le> ready_polls p"
  shows "\<exists>c'. swap_init f p swap c = Some (swap\<lparr>cmdsets := f 41, sect_num := if f 41 AND 0x4000000 \<noteq> 0 then f 50 else f 30\<rparr>, c')
    \<and> gdt c' = gdt c \<and> idt c' = idt c \<and> handlers c' = handlers c"
proof -
  have "0 < ready_polls p" using assms by linarith
  then obtain p1 where 1: "waitdisk p = Some (0, p1)" "ready_polls p1 = ready_polls p - 1" using waitdisk_returns by blast
  then have "0 < ready_polls p1" using assms by linarith
  then obtain p2 where 2: "waitdisk p1 = Some (0, p2)" "ready_polls p2 = ready_polls p1 - 1" using waitdisk_returns by blast
  then have "0 < ready_polls p2" using assms 1(2) by linarith
  then obtain p3 where 3: "waitdisk p2 = Some (0, p3)" using waitdisk_returns by blast
  show ?thesis using 1(1) 2(1) 3 by (simp add: swap_init_def Let_def outb_def)
qed

lemma more_cpu: "machine.more s' = machine.more (s :: kernel) \<Longrightarrow> cpu s' = cpu s"
  by (cases s; cases s') simp

lemma mmu_cong: "pmem s' = pmem s \<Longrightarrow> mmu s' dir la = mmu s dir la"
  by (simp add: mmu_walk walk_slot_cong [of s' s] split: option.split)

lemma more_list_ops [simp]:
  "machine.more (list_init a s) = machine.more s" "machine.more (list_insert_before a b s) = machine.more s"
  by (simp_all add: list_op_defs set_next_def set_prev_def Let_def)

lemma vmm_init_room:
  assumes r: "heap_room s [] j k" and k: "1 < k" and off: "is_vmm_inited s \<noteq> 1" and a: "a = frame_la s j"
  shows "\<exists>s'. vmm_init s = Some s' \<and> is_vmm_inited s' = 1 \<and> pmem s' = pmem s \<and> machine.more s' = machine.more s \<and> mm s' = a + 12 \<and> frame_la s' = frame_la s
    \<and> heap_room s' [(a, True, 28), (a + 40, False, 4044)] (j + 1) (k - 1)"
proof -
  have m: "(1 :: nat) = unat (malloc_pages (sizeof_Chunk + of_nat 28))" by (simp add: unat_malloc_pages)
  have sz: "(28 :: nat) < 0x30000000" and none: "malloc_fit 28 [] = None" by simp_all
  from room_pages [OF r none sz m k] off obtain s1 where s1: "malloc (of_nat 28) s = Some (a + 12, s1)"
      "heap_room s1 ([] @ placed a 28 1) (j + 1) (k - 1)" "room_same s s1" unfolding a by blast
  have pl: "[] @ placed a 28 1 = [] @ (a, True, 28) # [(a + 40, False, 4044)]" by (simp add: placed_def)
  let ?m = "a + 12"
  define s2 where "s2 = s1\<lparr>mm_num := (mm_num s1)(kpa ?m := 0), mm_pde := (mm_pde s1)(kpa ?m := pd s), mm_cache := (mm_cache s1)(kpa ?m := NULL)\<rparr>"
  have r2: "heap_room s2 ([] @ (a, True, 28) # [(a + 40, False, 4044)]) (j + 1) (k - 1)"
    using s1(2) heap_room_cong [of s2 s1] unfolding pl by (simp add: s2_def get_next_def get_prev_def fun_eq_iff)
  have "heap s2 ([] @ (a, True, 28) # [(a + 40, False, 4044)])" using r2 by (simp only: heap_room_def)
  from heap_chunk(2) [OF this, of a True 28] have "unat a + 40 < 4294967296" by simp
  then have u: "unat (mm_node ?m) = unat a + 24" "unat (mm_vm_fifo ?m) = unat a + 32" by (simp_all add: mm_node_def mm_vm_fifo_def unat_word_ariths)
  define s3 where "s3 = list_init (mm_vm_fifo ?m) (list_init (mm_node ?m) s2)"
  have r3: "heap_room s3 ([] @ (a, True, 28) # [(a + 40, False, 4044)]) (j + 1) (k - 1)"
    unfolding s3_def by (intro room_init) (use r2 u in simp_all)
  define s' where "s' = s3\<lparr>mm := ?m, is_vmm_inited := 1\<rparr>"
  have "heap_room s' ([] @ (a, True, 28) # [(a + 40, False, 4044)]) (j + 1) (k - 1)"
    using r3 heap_room_cong [of s' s3] by (simp add: s'_def get_next_def get_prev_def fun_eq_iff)
  moreover have "vmm_init s = Some s'"
    using s1(1) by (simp add: vmm_init_def create_mm_def Let_def s'_def s3_def s2_def)
  moreover have "pmem s' = pmem s" "machine.more s' = machine.more s" "pt_begin s' = pt_begin s" using s1(3) by (simp_all add: s'_def s3_def s2_def room_same_def)
  moreover have "is_vmm_inited s' = 1" "mm s' = a + 12" by (simp_all add: s'_def)
  ultimately show ?thesis by (intro exI [of _ s']) (simp add: frame_la_def fun_eq_iff)
qed

lemma kern_init_tables_cpu:
  fixes s :: kernel
  shows "kern_init_tables k (s\<lparr>cpu := c\<rparr>) = (kern_init_tables k s)\<lparr>cpu := c\<rparr>"
proof -
  have st: "st p v (s\<lparr>cpu := c\<rparr>) = (st p v s)\<lparr>cpu := c\<rparr>" for p v and s :: kernel by (simp add: st_def)
  have fo: "fold (\<lambda>i. st (a i) (v i)) is (s\<lparr>cpu := c\<rparr>) = (fold (\<lambda>i. st (a i) (v i)) is s)\<lparr>cpu := c\<rparr>" for a v and "is" :: "nat list" and s :: kernel
    by (induction "is" arbitrary: s) (simp_all add: st)
  have sw: "s\<lparr>cpu := c, pd := 0\<rparr> = s\<lparr>pd := 0, cpu := c\<rparr>" by simp
  show ?thesis
    unfolding kern_init_tables_def Let_def kern_init_dir_st kern_init_fst_st [abs_def] sw fo st ..
qed

section \<open>Properties\<close>

text \<open>A machine and a kernel image that can boot.\<close>

definition bootable :: "boot_params \<Rightarrow> u32 \<Rightarrow> kernel \<Rightarrow> bool" where
  "bootable b e s \<longleftrightarrow> length (gdt (cpu s)) = 6 \<and> length (idt (cpu s)) = 256 \<and> length (handlers (cpu s)) = 256
     \<and> 0x100000 \<le> kern_end b - VERTUAL_MEM \<and> kern_end b - VERTUAL_MEM \<le> 0x300000
     \<and> kpa (free_pages_head s) \<le> kern_end b - VERTUAL_MEM \<and> kpa (chunk_head s) \<le> kern_end b - VERTUAL_MEM
     \<and> VERTUAL_MEM \<le> chunk_head s \<and> kpa (chunk_head s) \<noteq> kpa (free_pages_head s) \<and> is_vmm_inited s \<noteq> 1
     \<and> map (\<lambda>x. base_lo x + length_lo x) (filter (\<lambda>x. e820_type x = 1) (tl (memmap b))) = [e] \<and> 0x800000 \<le> e \<and> e < 0x40000000
     \<and> 3 \<le> ready_polls (status b)"

definition vector :: "nat \<Rightarrow> handler" where
  "vector v = (if v = 14 then Page_fault else if v = 32 then Timer_handler else if v = 33 then Kbd_handler else if v = 120 then Switch_to_user_handler
     else if v = 121 then Switch_to_kern_handler else if v = 0x80 then System_intr else Isr_handler)"

lemma malloc_init_block:
  assumes "block_list s [(page_plus (pages s) (of_nat j), k)]" and "pages s = ROUNDUP b" and "j + k \<le> 30000" and "b \<le> 0x300000"
    and "kpa (chunk_head s) \<le> b" and "kpa (chunk_head s) \<noteq> kpa (free_pages_head s)"
  shows "block_list (malloc_init s) [(page_plus (pages s) (of_nat j), k)]"
proof (rule block_list_frame)
  let ?ps = "block_pages [(page_plus (pages s) (of_nat j), k)]"
  have fl: "free_list s ?ps" using assms(1) by (simp only: block_list_def)
  have ub: "unat b \<le> 0x300000" "unat (kpa (chunk_head s)) \<le> unat b" using assms(4,5) by (simp_all add: word_le_nat_alt)
  have rb: "unat b < unat (ROUNDUP b)" "unat (ROUNDUP b) \<le> unat b + 4096" using ROUNDUP_gt [of b] ub by simp_all
  have "kpa (chunk_head s) \<noteq> kpa (page_node q)" if q: "q \<in> set ?ps" for q
  proof -
    obtain i where i: "i < k" "q = page_plus (page_plus (ROUNDUP b) (of_nat j)) (of_nat i)"
      using q by (auto simp: block_pages_def page_run_def assms(2))
    define n where "n = j + i"
    have n: "n < 30000" using i(1) assms(3) by (simp add: n_def)
    then have un: "unat (of_nat n :: u32) = n" by (simp add: unat_of_nat_small)
    have "q = ROUNDUP b + 24 * of_nat n" by (simp add: i(2) n_def page_plus_def algebra_simps)
    then have q: "unat q = unat (ROUNDUP b) + 24 * n" using n un rb ub by (simp add: unat_word_ariths)
    then have "unat (page_node q) = unat q + 16" using n rb ub by (simp add: page_node_def unat_word_ariths)
    then have "kpa (page_node q) = page_node q" "unat (kpa (chunk_head s)) < unat (page_node q)"
      using q n rb ub by (simp_all add: word_less_nat_alt)
    then show ?thesis by auto
  qed
  then have "kpa (chunk_head s) \<notin> kpa ` set (free_pages_head s # map page_node ?ps)" using assms(6) by auto
  then show "free_list (malloc_init s) ?ps" using fl by (simp add: free_list_def malloc_init_def ring_other_init del: set_map)
  show "0 < k' \<and> free_pages_of (malloc_init s) q = of_nat k'" if "(q, k') \<in> set [(page_plus (pages s) (of_nat j), k)]" for q k'
    using that assms(1) by (auto simp: block_list_def malloc_init_def free_pages_of_def)
qed

lemma bootableD:
  assumes "bootable b e s"
  shows "length (gdt (cpu s)) = 6" "length (idt (cpu s)) = 256" "length (handlers (cpu s)) = 256" "0x100000 \<le> kern_end b - VERTUAL_MEM" "kern_end b - VERTUAL_MEM \<le> 0x300000"
    "kpa (free_pages_head s) \<le> kern_end b - VERTUAL_MEM" "kpa (chunk_head s) \<le> kern_end b - VERTUAL_MEM"
    "VERTUAL_MEM \<le> chunk_head s" "kpa (chunk_head s) \<noteq> kpa (free_pages_head s)" "is_vmm_inited s \<noteq> 1" "0x800000 \<le> e" "e < 0x40000000" "3 \<le> ready_polls (status b)"
  using assms unfolding bootable_def by blast+

lemma bootable_memmap:
  assumes "bootable b e s"
  obtains us x vs where "memmap b = hd (memmap b) # us @ x # vs" "\<forall>y \<in> set us \<union> set vs. e820_type y \<noteq> 1" "e820_type x = 1" "e = base_lo x + length_lo x"
proof -
  have "map (\<lambda>x. base_lo x + length_lo x) (filter (\<lambda>x. e820_type x = 1) (tl (memmap b))) = [e]" using assms unfolding bootable_def by blast
  then obtain x where x: "filter (\<lambda>x. e820_type x = 1) (tl (memmap b)) = x # []" "e = base_lo x + length_lo x" by (auto simp: map_eq_Cons_conv)
  then obtain us vs where u: "tl (memmap b) = us @ x # vs" "\<forall>u \<in> set us. e820_type u \<noteq> 1" "e820_type x = 1" "filter (\<lambda>x. e820_type x = 1) vs = []"
    unfolding filter_eq_Cons_iff by metis
  then have "memmap b = hd (memmap b) # us @ x # vs" by (cases "memmap b") auto
  then show ?thesis using that [of us x vs] u x(2) by (auto simp: filter_empty_conv)
qed

lemma malloc_init_room:
  assumes bl: "block_list s [(page_plus (pages s) (of_nat j), k)]" and p: "pages s = ROUNDUP b" and n: "j + k \<le> 30000" and b: "b \<le> 0x300000"
    and c: "kpa (chunk_head s) \<le> b" "VERTUAL_MEM \<le> chunk_head s" "kpa (chunk_head s) \<noteq> kpa (free_pages_head s)" "kpa (free_pages_head s) \<le> b"
    and g: "unat (pages s) + 24 * (j + k) < unat (pt_begin s)" "unat (pt_begin s) \<le> 0x400000"
  shows "heap_room (malloc_init s) [] j k"
proof -
  have ub: "unat b \<le> 0x300000" "unat (kpa (chunk_head s)) \<le> unat b" "unat (kpa (free_pages_head s)) \<le> unat b" using b c by (simp_all add: word_le_nat_alt)
  have "unat b < unat (ROUNDUP b)" using ROUNDUP_gt [of b] ub by simp
  then have "room_layout s (j + k)" using ub g n c(3) p by (simp add: room_layout_def)
  then show ?thesis using malloc_init_block [OF bl p n b c(1,3)] heap_init [OF c(2)] by (simp add: heap_room_def room_layout_def malloc_init_def)
qed

text \<open>
  The heap after \<open>vmm_init\<close>: the structure of the kernel's address space, the rest of its page, and free frames from the next page on.
\<close>

definition first_heap :: "'a machine_scheme \<Rightarrow> bool" where
  "first_heap s \<longleftrightarrow> (\<exists>j k. heap_room s [(mm s - 12, True, 28), (mm s + 28, False, 4044)] j k \<and> 6 < k \<and> frame_la s j = mm s + 4084)"

text \<open>The memory side: \<open>page_init\<close>, \<open>malloc_init\<close> and \<open>vmm_init\<close>, with any change of the processor in between.\<close>

lemma memory_comes_up:
  assumes "bootable b e s"
  shows "\<exists>s1. page_init (kern_end b) (memmap b) ((kern_init_tables 0xC0100000 s)\<lparr>cpu := c\<rparr>) = Some s1 \<and> cpu s1 = c
    \<and> (\<forall>c'. \<exists>s2. vmm_init (malloc_init (s1\<lparr>cpu := c'\<rparr>)) = Some s2 \<and> cpu s2 = c' \<and> is_vmm_inited s2 = 1 \<and> first_heap s2
        \<and> (\<forall>la. la < 0x400000 \<or> VERTUAL_MEM \<le> la \<and> la < ROUNDDOWN e + VERTUAL_MEM \<longrightarrow> mmu s2 0 la = Some (kpa la)))"
proof -
  note B = bootableD [OF assms]
  obtain us x vs where mm: "memmap b = hd (memmap b) # us @ x # vs" "\<forall>y \<in> set us \<union> set vs. e820_type y \<noteq> 1" "e820_type x = 1" "e = base_lo x + length_lo x"
    by (rule bootable_memmap [OF assms])
  have "kpa (free_pages_head (s\<lparr>cpu := c\<rparr>)) \<le> kern_end b - VERTUAL_MEM" "is_vmm_inited (s\<lparr>cpu := c\<rparr>) \<noteq> 1" using B(6,10) by simp_all
  from page_init_returns [OF B(4,5) this mm B(11,12)] obtain s1 j k where
      s1: "page_init (kern_end b) (memmap b) ((kern_init_tables 0xC0100000 s)\<lparr>cpu := c\<rparr>) = Some s1"
        "\<forall>la. la < 0x400000 \<or> VERTUAL_MEM \<le> la \<and> la < ROUNDDOWN e + VERTUAL_MEM \<longrightarrow> mmu s1 0 la = Some (kpa la)"
        "block_list s1 [(page_plus (pages s1) (of_nat j), k)]" "j + k = unat (frame_count (kern_end b - VERTUAL_MEM) e)" "8 < k"
        "pages s1 = ROUNDUP (kern_end b - VERTUAL_MEM)" "is_vmm_inited s1 \<noteq> 1" "free_pages_head s1 = free_pages_head s" "chunk_head s1 = chunk_head s"
        "machine.more s1 = machine.more (s\<lparr>cpu := c\<rparr>)" "unat (pages s1) + 24 * (j + k) < unat (pt_begin s1)" "unat (pt_begin s1) \<le> 0x400000"
    unfolding kern_init_tables_cpu by auto
  have "\<exists>s2. vmm_init (malloc_init (s1\<lparr>cpu := c'\<rparr>)) = Some s2 \<and> cpu s2 = c' \<and> is_vmm_inited s2 = 1 \<and> first_heap s2
      \<and> (\<forall>la. la < 0x400000 \<or> VERTUAL_MEM \<le> la \<and> la < ROUNDDOWN e + VERTUAL_MEM \<longrightarrow> mmu s2 0 la = Some (kpa la))" for c'
  proof -
    let ?m = "malloc_init (s1\<lparr>cpu := c'\<rparr>)"
    have "block_list (s1\<lparr>cpu := c'\<rparr>) [(page_plus (pages s1) (of_nat j), k)]"
      using s1(3) free_list_cong [of "s1\<lparr>cpu := c'\<rparr>" s1] by (simp add: block_list_def free_pages_of_def get_next_def get_prev_def fun_eq_iff)
    moreover have "j + k \<le> 30000" using s1(4) frame_count_le by simp
    ultimately have r: "heap_room ?m [] j k"
      using s1 B by (intro malloc_init_room [of "s1\<lparr>cpu := c'\<rparr>" j k "kern_end b - VERTUAL_MEM"]) simp_all
    have k: "1 < k" "is_vmm_inited ?m \<noteq> 1" using s1(5,7) by (simp_all add: malloc_init_def)
    obtain s2 where s2: "vmm_init ?m = Some s2" "is_vmm_inited s2 = 1" "pmem s2 = pmem ?m" "machine.more s2 = machine.more ?m" "mm s2 = frame_la ?m j + 12"
        "frame_la s2 = frame_la ?m" "heap_room s2 [(frame_la ?m j, True, 28), (frame_la ?m j + 40, False, 4044)] (j + 1) (k - 1)"
      using vmm_init_room [OF r k refl] by blast
    have "frame_la ?m (j + 1) = frame_la ?m j + 4096" by (simp add: frame_la_def algebra_simps)
    then have "heap_room s2 [(mm s2 - 12, True, 28), (mm s2 + 28, False, 4044)] (j + 1) (k - 1) \<and> 6 < k - 1 \<and> frame_la s2 (j + 1) = mm s2 + 4084"
      using s2(5-7) s1(5) by (simp add: add.commute)
    then have "first_heap s2" unfolding first_heap_def by blast
    moreover have "mmu s2 0 la = mmu s1 0 la" for la using s2(3) by (intro mmu_cong) (simp add: malloc_init_def)
    moreover have "cpu s2 = c'" using more_cpu [of s2 "s1\<lparr>cpu := c'\<rparr>"] s2(4) by (simp add: malloc_init_def)
    ultimately show ?thesis using s2(1,2) s1(2) by auto
  qed
  then show ?thesis using s1(1) more_cpu [OF s1(10)] by auto
qed

lemma init_returns:
  assumes "bootable b e s"
  shows "\<exists>swap' s'. init b swap (kern_init_tables 0xC0100000 s) = Some (swap', s')
    \<and> (\<forall>v < 256. handlers (cpu s') ! v = vector v)
    \<and> (\<forall>v < 256. gate_at (cpu s') v = \<lparr>gt_offset = intrs b v, gt_selector = 0x08, gt_type = gate_type,
         gt_dpl = (if v = 121 \<or> v = 0x80 then 3 else 0), gt_present = True\<rparr>)
    \<and> intr_on (cpu s') \<and> is_vmm_inited s' = 1 \<and> first_heap s'
    \<and> (\<forall>la. la < 0x400000 \<or> VERTUAL_MEM \<le> la \<and> la < ROUNDDOWN e + VERTUAL_MEM \<longrightarrow> mmu s' 0 la = Some (kpa la))"
proof -
  let ?t = "kern_init_tables 0xC0100000 s"
  note B = bootableD [OF assms]
  have "cpu ?t = cpu s" by (rule more_cpu) (simp add: kern_init_tables_frame)
  then obtain c1 where c1: "gdt_init (gdt_addr b) (cpu ?t) = Some c1" "length (gdt c1) = 6" "idt c1 = idt (cpu s)" "handlers c1 = handlers (cpu s)"
    using gdt_init_keeps [of "cpu s"] B(1) by auto
  obtain c2 where c2: "idt_init (intrs b) (idt_addr b) c1 = Some c2" "gdt c2 = gdt c1" "handlers c2 = replicate 256 Isr_handler"
      "idt c2 = map (\<lambda>j. kernel_gate (intrs b j) 0) [0..<256]"
    using idt_init_fills [of c1] c1 B(2,3) by metis
  define c3 where "c3 = c2\<lparr>handlers := (handlers c2)[14 := Page_fault]\<rparr>"
  have c3: "set_handler 14 Page_fault c2 = Some c3" by (simp add: c3_def set_handler_sets c2(3))
  obtain swap' c4 where c4: "swap_init (identity b) (status b) swap c3 = Some (swap', c4)" "gdt c4 = gdt c3" "idt c4 = idt c3" "handlers c4 = handlers c3"
    using swap_init_returns [OF B(13)] by blast
  obtain s1 s2 where s: "page_init (kern_end b) (memmap b) (?t\<lparr>cpu := c3\<rparr>) = Some s1" "cpu s1 = c3"
      "vmm_init (malloc_init (s1\<lparr>cpu := c4\<rparr>)) = Some s2" "cpu s2 = c4" "is_vmm_inited s2 = 1" "first_heap s2"
      "\<forall>la. la < 0x400000 \<or> VERTUAL_MEM \<le> la \<and> la < ROUNDDOWN e + VERTUAL_MEM \<longrightarrow> mmu s2 0 la = Some (kpa la)"
    using memory_comes_up [OF assms, of c3] by blast
  have l: "length (gdt (pic_init c4)) = 6" "length (idt (pic_init c4)) = 256" "length (handlers (pic_init c4)) = 256"
    by (simp_all add: pic_init_keeps c4 c3_def c2 c1(2) del: upt_Suc)
  obtain c5 where c5: "tss_init (intrs b) (tss_addr b) (kern_stack s2) (pic_init c4) = Some c5" "eflags c5 = eflags (pic_init c4)"
      "handlers c5 = (((handlers c3)[120 := Switch_to_user_handler])[121 := Switch_to_kern_handler])[0x80 := System_intr]"
      "idt c5 = ((idt c3)[121 := kernel_gate (intrs b 121) 3])[0x80 := kernel_gate (intrs b 0x80) 3]"
    using tss_init_sets [OF l, of "intrs b" "tss_addr b" "kern_stack s2"] unfolding pic_init_keeps c4(3,4) by blast
  obtain c6 c7 where c7: "timer_intr_init c5 = Some c6" "kbd_init c6 = Some c7" "handlers c7 = ((handlers c5)[32 := Timer_handler])[33 := Kbd_handler]" "idt c7 = idt c5" "eflags c7 = eflags c5"
    using timer_kbd_init_sets [of c5] by (auto simp: c5(3) c3_def c2(3))
  have "init b swap ?t = Some (swap', s2\<lparr>cpu := c7\<rparr>)"
    using c1(1) c2(1) c3 s c4(1) c5(1) c7(1,2) by (simp add: init_def pmm_init_def Let_def)
  moreover have "\<forall>v < 256. handlers c7 ! v = vector v"
    by (simp add: c7(3) c5(3) c3_def c2(3) nth_list_update vector_def)
  moreover have "\<forall>v < 256. gate_at c7 v = \<lparr>gt_offset = intrs b v, gt_selector = 0x08, gt_type = gate_type, gt_dpl = (if v = 121 \<or> v = 0x80 then 3 else 0), gt_present = True\<rparr>"
    by (simp add: gate_at_def c7(4) c5(4) c3_def c2(4) nth_list_update gate_of_kernel_gate del: upt_Suc)
  moreover have "intr_on c7" using pic_init_keeps(4) [of c4] by (simp add: intr_on_def c7(5) c5(2))
  moreover have "mmu (s2\<lparr>cpu := c7\<rparr>) 0 la = mmu s2 0 la" for la by (rule mmu_cong) simp
  moreover have "first_heap (s2\<lparr>cpu := c7\<rparr>)"
    using s(6) heap_room_cong [of "s2\<lparr>cpu := c7\<rparr>" s2] by (simp add: first_heap_def frame_la_def get_next_def get_prev_def fun_eq_iff)
  ultimately show ?thesis using s(5,7) by (intro exI [of _ swap'] exI [of _ "s2\<lparr>cpu := c7\<rparr>"]) simp
qed

text \<open>
  C12. The kernel comes up: on a machine that can boot (one usable range of memory behind the first entry of the BIOS map, ending at \<open>e\<close> between 8 MB and 1 GB, a kernel that ends between 1 MB and 4 MB, a disk that gets ready),
  \<open>init\<close> runs from the tables of \<open>kern_init\<close> to \<open>kbd_init\<close>. Then every interrupt vector has its handler, and only 121 and 0x80 can be raised by user code; interrupts are on,
  virtual memory is initialised, and every address of the kernel window up to the end of the memory translates to the physical address the kernel expects.
\<close>

theorem init_comes_up:
  assumes "bootable b e s"
  shows "\<exists>swap' s'. init b swap (kern_init_tables 0xC0100000 s) = Some (swap', s')
    \<and> (\<forall>v < 256. handlers (cpu s') ! v = vector v)
    \<and> (\<forall>v < 256. gate_at (cpu s') v = \<lparr>gt_offset = intrs b v, gt_selector = 0x08, gt_type = gate_type,
         gt_dpl = (if v = 121 \<or> v = 0x80 then 3 else 0), gt_present = True\<rparr>)
    \<and> intr_on (cpu s') \<and> is_vmm_inited s' = 1
    \<and> (\<forall>la. la < 0x400000 \<or> VERTUAL_MEM \<le> la \<and> la < ROUNDDOWN e + VERTUAL_MEM \<longrightarrow> mmu s' 0 la = Some (kpa la))"
  using init_returns [OF assms, of swap] by blast

text \<open>
  C27. The self test of the heap: on a machine that can boot, \<open>test_malloc\<close> runs to its end in the state that \<open>init\<close> leaves. In the first round the two chunks of 1000 bytes come from the page in which the
  address space of the kernel lies, and each chunk of 5000 bytes from two new pages. After the chunks are freed they are one again with the rest of that page, so that the second and the third round
  get all five chunks side by side. The chunks of the last round and the address space are disjoint.
\<close>

theorem test_malloc_prints:
  assumes "bootable b e s"
  shows "\<exists>swap' s' s''. init b swap (kern_init_tables 0xC0100000 s) = Some (swap', s')
    \<and> test_malloc s' = Some (map (\<lambda>d. mm s' + d) ([40, 1052, 4096, 12288, 20480] @ [40, 1052, 2064, 7076, 12088] @ [40, 1052, 2064, 7076, 12088]), s'')
    \<and> heap s'' ((mm s' - 12, True, 28) # test_layout (mm s' + 28) 28620)"
proof -
  obtain swap' s' where i: "init b swap (kern_init_tables 0xC0100000 s) = Some (swap', s')" "is_vmm_inited s' = 1" "first_heap s'"
    using init_returns [OF assms, of swap] by blast
  then obtain j k where r: "heap_room s' ([(mm s' - 12, True, 28)] @ [(mm s' + 28, False, 4044)]) j k" and k: "6 < k" and a: "mm s' + 4084 = frame_la s' j"
    unfolding first_heap_def by auto
  have al: "\<forall>x \<in> set [(mm s' - 12, True, 28 :: nat)]. fst (snd x)" by simp
  have n: "(2024 :: nat) \<le> 4044" "(4044 :: nat) < 7036" "mm s' + 4084 = mm s' + 28 + of_nat (12 + 4044)" by simp_all
  from test_malloc_room [OF r al n(1,2) k i(2) a n(3)] show ?thesis using i(1) by (auto simp: add.assoc)
qed

text \<open>
  The boot sector: \<open>sign\<close> accepts exactly the files of at most 510 bytes, and the file it writes has the 512 bytes of a sector, starts with the code, is filled with zeros and ends in the boot signature.
  Any other file is left as it was.
\<close>

theorem sign_makes_boot_sector:
  "case sign_main 2 (Some bs) of
     (r, Some file) \<Rightarrow> if length bs \<le> 510
       then r = 0 \<and> length file = 512 \<and> take (length bs) file = bs \<and> file ! 510 = 0x55 \<and> file ! 511 = 0xAA \<and> (\<forall>i. length bs \<le> i \<and> i < 510 \<longrightarrow> file ! i = 0)
       else r = - 1 \<and> file = bs
   | (r, None) \<Rightarrow> False"
  by (auto simp: sign_main_def Let_def nth_append)

theorem sign_makes_boot_sector_witness:
  "case sign_main 2 (Some [0xFA, 0xFC]) of (r, Some file) \<Rightarrow> r = 0 \<and> length file = 512 \<and> file ! 0 = 0xFA \<and> file ! 510 = 0x55 | (r, None) \<Rightarrow> False"
proof -
  obtain r out where f: "sign_main 2 (Some [0xFA, 0xFC]) = (r, Some out)" by (simp add: sign_main_def Let_def)
  then have "r = 0 \<and> length out = 512 \<and> take 2 out = [0xFA, 0xFC] \<and> out ! 510 = 0x55"
    using sign_makes_boot_sector [of "[0xFA, 0xFC]"] by (simp add: numeral_2_eq_2)
  moreover from this have "out ! 0 = 0xFA" by (metis nth_Cons_0 nth_take zero_less_numeral)
  ultimately show ?thesis using f by simp
qed

section \<open>Example\<close>

definition boot_example :: boot_params where
  "boot_example = \<lparr>gdt_addr = 0xC0104000, idt_addr = 0xC0104100, tss_addr = 0xC0104900, kern_end = 0xC0107400, intrs = (\<lambda>v. 0xC0101000 + of_nat v),
     memmap = bios_map, identity = (\<lambda>_. 0), status = [0x80, 0x40, 0x40, 0x40]\<rparr>"

lemma boot_example_bootable: "bootable boot_example 0x7FE0000 kernel0"
proof -
  have k: "cpu kernel0 = cpu0" "free_pages_head kernel0 = 0xC0105000" "chunk_head kernel0 = 0xC0105010" "is_vmm_inited kernel0 = 0" by (simp_all add: kernel0_fields)
  have l: "length (gdt cpu0) = 6" "length (idt cpu0) = 256" "length (handlers cpu0) = 256" by (simp_all add: cpu0_def)
  show ?thesis unfolding bootable_def k using l by (simp add: boot_example_def bios_map_def kpa_def)
qed

theorem init_comes_up_witness:
  "\<exists>swap' s'. init boot_example \<lparr>ideno = 1, cmdsets = 0, sect_num = 0\<rparr> (kern_init_tables 0xC0100000 kernel0) = Some (swap', s')
    \<and> handlers (cpu s') ! 0x80 = System_intr \<and> handlers (cpu s') ! 14 = Page_fault \<and> mmu s' 0 0xC7FDFFFF = Some 0x7FDFFFF"
proof -
  from init_comes_up [OF boot_example_bootable, of "\<lparr>ideno = 1, cmdsets = 0, sect_num = 0\<rparr>"] obtain swap' s' where
    s': "init boot_example \<lparr>ideno = 1, cmdsets = 0, sect_num = 0\<rparr> (kern_init_tables 0xC0100000 kernel0) = Some (swap', s')"
      "\<And>v. v < 256 \<Longrightarrow> handlers (cpu s') ! v = vector v"
      "\<And>la. la < 0x400000 \<or> VERTUAL_MEM \<le> la \<and> la < ROUNDDOWN 0x7FE0000 + VERTUAL_MEM \<Longrightarrow> mmu s' 0 la = Some (kpa la)"
    by blast
  moreover have "mmu s' 0 0xC7FDFFFF = Some (kpa 0xC7FDFFFF)" by (rule s'(3)) (simp add: ROUNDDOWN_def)
  ultimately show ?thesis by (simp add: vector_def kpa_def)
qed

theorem test_malloc_prints_witness:
  "\<exists>swap' s' s''. init boot_example \<lparr>ideno = 1, cmdsets = 0, sect_num = 0\<rparr> (kern_init_tables 0xC0100000 kernel0) = Some (swap', s')
    \<and> test_malloc s' = Some (map (\<lambda>d. mm s' + d) [40, 1052, 4096, 12288, 20480, 40, 1052, 2064, 7076, 12088, 40, 1052, 2064, 7076, 12088], s'')"
  using test_malloc_prints [OF boot_example_bootable, of "\<lparr>ideno = 1, cmdsets = 0, sect_num = 0\<rparr>"] by auto

end
