(* ===== verification/ModeSwitch.thy ===== *)
theory ModeSwitch
  imports Descr
begin

text \<open>
  The two mode switches of \<open>idt/tss.c\<close> as the processor runs them: the \<open>int\<close> instruction, the stubs of \<open>idt/intr.S\<close>, the handlers and \<open>iret\<close> on a stack in memory. The record of the processor is extended by the
  general registers and by the words of the stack; \<open>None\<close> is a protection fault. What the C code of a handler leaves on the stack below its frame is not modelled, and \<open>eip\<close> is only saved and restored.
\<close>

section \<open>Registers and stack\<close>

record core = cpu +
  r_eax :: u32
  r_ecx :: u32
  r_edx :: u32
  r_ebx :: u32
  r_esp :: u32
  r_ebp :: u32
  r_esi :: u32
  r_edi :: u32
  r_eip :: u32
  smem :: "u32 \<Rightarrow> u32"

definition push :: "u32 \<Rightarrow> core \<Rightarrow> core" where
  "push v c = c\<lparr>r_esp := r_esp c - 4, smem := (smem c)(r_esp c - 4 := v)\<rparr>"

definition top :: "core \<Rightarrow> nat \<Rightarrow> u32" where
  "top c i = smem c (r_esp c + 4 * of_nat i)"

definition read_frame :: "(u32 \<Rightarrow> u32) \<Rightarrow> u32 \<Rightarrow> idtframe" where
  "read_frame m fp = \<lparr>fr_my_eax = m fp, fr_edi = m (fp + 4), fr_esi = m (fp + 8), fr_ebp = m (fp + 12), fr_no_use_esp = m (fp + 16), fr_ebx = m (fp + 20),
     fr_edx = m (fp + 24), fr_ecx = m (fp + 28), fr_eax = m (fp + 32), fr_intr_No = m (fp + 36), fr_errorCode = m (fp + 40), fr_eip = m (fp + 44),
     fr_cs = m (fp + 48), fr_eflags = m (fp + 52), fr_esp = m (fp + 56), fr_ss = m (fp + 60)\<rparr>"

definition write_frame :: "u32 \<Rightarrow> idtframe \<Rightarrow> (u32 \<Rightarrow> u32) \<Rightarrow> u32 \<Rightarrow> u32" where
  "write_frame fp f m = m(fp := fr_my_eax f, fp + 4 := fr_edi f, fp + 8 := fr_esi f, fp + 12 := fr_ebp f, fp + 16 := fr_no_use_esp f, fp + 20 := fr_ebx f,
     fp + 24 := fr_edx f, fp + 28 := fr_ecx f, fp + 32 := fr_eax f, fp + 36 := fr_intr_No f, fp + 40 := fr_errorCode f, fp + 44 := fr_eip f,
     fp + 48 := fr_cs f, fp + 52 := fr_eflags f, fp + 56 := fr_esp f, fp + 60 := fr_ss f)"

section \<open>The processor and the stubs\<close>

abbreviation cpl :: "core \<Rightarrow> u16" where
  "cpl c \<equiv> seg_cs c AND 3"

text \<open>
  \<open>int v\<close>: the gate must be present and open to the current privilege level; from ring 3 the processor changes to the ring 0 stack of the task state segment and pushes the old one first.
\<close>

definition int_instr :: "nat \<Rightarrow> core \<Rightarrow> core option" where
  "int_instr v c =
     (let g = gate_at c v
      in if length (idt c) \<le> v \<or> \<not> gt_present g \<or> unat (gt_dpl g) < unat (cpl c) then None
         else
           let old_ss = seg_ss c;
               old_esp = r_esp c;
               c = (if cpl c \<noteq> 0 then push old_esp (push (ucast old_ss) (c\<lparr>seg_ss := t_ss0 (tss0 c), r_esp := t_esp0 (tss0 c)\<rparr>)) else c);
               c = push (r_eip c) (push (ucast (seg_cs c)) (push (eflags c) c))
           in Some (c\<lparr>seg_cs := gt_selector g, r_eip := gt_offset g, eflags := eflags c AND NOT 0x34300\<rparr>))"

definition load_data_segs :: "u16 \<Rightarrow> core \<Rightarrow> core" where
  "load_data_segs v c = c\<lparr>seg_ds := v, seg_es := v, seg_fs := v, seg_gs := v\<rparr>"

text \<open>The stub of vector \<open>v\<close> and \<open>my_push\<close> up to the call of \<open>trap\<close>.\<close>

definition isr_enter :: "nat \<Rightarrow> core \<Rightarrow> core" where
  "isr_enter v c =
     (let c = push (of_nat v) (push 0 c);
          sp = r_esp c;
          c = push (r_edi c) (push (r_esi c) (push (r_ebp c) (push sp (push (r_ebx c) (push (r_edx c) (push (r_ecx c) (push (r_eax c) c)))))));
          c = c\<lparr>r_eax := (r_eax c AND 0xFFFF0000) OR ucast (seg_ds c)\<rparr>;
          c = push (r_eax c) c;
          c = c\<lparr>r_eax := (r_eax c AND 0xFFFF0000) OR 0x10\<rparr>
      in load_data_segs (ucast (r_eax c)) c)"

text \<open>\<open>proc_after\<close> up to \<open>iret\<close>.\<close>

definition isr_leave :: "core \<Rightarrow> core" where
  "isr_leave c =
     (let f = read_frame (smem c) (r_esp c);
          c = load_data_segs (ucast (fr_my_eax f)) c
      in c\<lparr>r_edi := fr_edi f, r_esi := fr_esi f, r_ebp := fr_ebp f, r_ebx := fr_ebx f, r_edx := fr_edx f, r_ecx := fr_ecx f, r_eax := fr_eax f,
           r_esp := r_esp c + 44\<rparr>)"

definition iret :: "core \<Rightarrow> core option" where
  "iret c =
     (let new_cs = ucast (top c 1)
      in if unat (new_cs AND 3) < unat (cpl c) then None
         else if unat (cpl c) < unat (new_cs AND 3)
         then Some (c\<lparr>r_eip := top c 0, seg_cs := new_cs, eflags := top c 2, seg_ss := ucast (top c 4), r_esp := top c 3\<rparr>)
         else Some (c\<lparr>r_eip := top c 0, seg_cs := new_cs, eflags := top c 2, r_esp := r_esp c + 12\<rparr>))"

text \<open>\<open>trap\<close> for the two handlers of \<open>tss.c\<close>.\<close>

definition switch_trap :: "core \<Rightarrow> core option" where
  "switch_trap c =
     (let fp = r_esp c; f = read_frame (smem c) fp
      in case handlers c ! unat (fr_intr_No f) of
           Switch_to_user_handler \<Rightarrow> Some (c\<lparr>smem := write_frame fp (switch_to_user_handler fp f) (smem c)\<rparr>)
         | Switch_to_kern_handler \<Rightarrow> (case switch_to_kern_handler f c of (f, c) \<Rightarrow> Some (c\<lparr>smem := write_frame fp f (smem c)\<rparr>))
         | _ \<Rightarrow> None)"

definition interrupt :: "nat \<Rightarrow> core \<Rightarrow> core option" where
  "interrupt v c =
     do {
       c \<leftarrow> int_instr v c;
       c \<leftarrow> switch_trap (isr_enter v c);
       iret (isr_leave c)
     }"

section \<open>The mode switches\<close>

definition switch_to_user_mode :: "core \<Rightarrow> core option" where
  "switch_to_user_mode c =
     do {
       c \<leftarrow> interrupt 120 (c\<lparr>r_esp := r_esp c - 8\<rparr>);
       Some (c\<lparr>r_esp := r_esp c + 8\<rparr>)
     }"

text \<open>The last statement moves \<open>jmp_to_old_esp\<close> through a general register \<open>r\<close> that the compiler chooses.\<close>

datatype reg = Eax | Ecx | Edx | Ebx | Esi | Edi

definition load_reg :: "reg \<Rightarrow> u32 \<Rightarrow> core \<Rightarrow> core" where
  "load_reg r v c =
     (case r of Eax \<Rightarrow> c\<lparr>r_eax := v\<rparr> | Ecx \<Rightarrow> c\<lparr>r_ecx := v\<rparr> | Edx \<Rightarrow> c\<lparr>r_edx := v\<rparr>
      | Ebx \<Rightarrow> c\<lparr>r_ebx := v\<rparr> | Esi \<Rightarrow> c\<lparr>r_esi := v\<rparr> | Edi \<Rightarrow> c\<lparr>r_edi := v\<rparr>)"

definition switch_to_kern_mode :: "reg \<Rightarrow> core \<Rightarrow> core option" where
  "switch_to_kern_mode r c =
     do {
       c \<leftarrow> interrupt 121 c;
       let c = c\<lparr>r_esp := r_esp c + 8\<rparr>;
       let c = load_reg r (jmp_to_old_esp c) c;
       Some (c\<lparr>r_esp := jmp_to_old_esp c\<rparr>)
     }"

section \<open>Lemmas\<close>

lemma read_write_frame [simp]: "read_frame (write_frame fp f m) fp = f"
  by (simp add: read_frame_def write_frame_def)

lemma isr_leave_iret:
  assumes f: "read_frame (smem c) (r_esp c) = f"
  shows "iret (isr_leave c) =
    (let d = c\<lparr>seg_ds := ucast (fr_my_eax f), seg_es := ucast (fr_my_eax f), seg_fs := ucast (fr_my_eax f), seg_gs := ucast (fr_my_eax f),
        r_edi := fr_edi f, r_esi := fr_esi f, r_ebp := fr_ebp f, r_ebx := fr_ebx f, r_edx := fr_edx f, r_ecx := fr_ecx f, r_eax := fr_eax f, r_eip := fr_eip f,
        seg_cs := ucast (fr_cs f), eflags := fr_eflags f\<rparr>
     in if unat (ucast (fr_cs f) AND 3 :: u16) < unat (cpl c) then None
        else if unat (cpl c) < unat (ucast (fr_cs f) AND 3 :: u16) then Some (d\<lparr>seg_ss := ucast (fr_ss f), r_esp := fr_esp f\<rparr>)
        else Some (d\<lparr>r_esp := r_esp c + 56\<rparr>))"
  unfolding f [symmetric] by (simp add: iret_def isr_leave_def load_data_segs_def read_frame_def top_def Let_def add.assoc)

text \<open>The frame that the processor and the stub build; from ring 0 its last two words are what lay on the stack before.\<close>

definition entry_frame :: "nat \<Rightarrow> u32 \<Rightarrow> u32 \<Rightarrow> u32 \<Rightarrow> core \<Rightarrow> idtframe" where
  "entry_frame v fp old_esp old_ss c = \<lparr>fr_my_eax = (r_eax c AND 0xFFFF0000) OR ucast (seg_ds c), fr_edi = r_edi c, fr_esi = r_esi c, fr_ebp = r_ebp c,
     fr_no_use_esp = fp + 36, fr_ebx = r_ebx c, fr_edx = r_edx c, fr_ecx = r_ecx c, fr_eax = r_eax c, fr_intr_No = of_nat v, fr_errorCode = 0, fr_eip = r_eip c,
     fr_cs = ucast (seg_cs c), fr_eflags = eflags c, fr_esp = old_esp, fr_ss = old_ss\<rparr>"

text \<open>The state at the call of \<open>trap\<close>.\<close>

definition entered :: "nat \<Rightarrow> u32 \<Rightarrow> idtframe \<Rightarrow> core \<Rightarrow> core" where
  "entered v fp f c = c\<lparr>seg_cs := gt_selector (gate_at c v), seg_ds := 0x10, seg_es := 0x10, seg_fs := 0x10, seg_gs := 0x10, eflags := eflags c AND NOT 0x34300,
     r_eax := (((r_eax c AND 0xFFFF0000) OR ucast (seg_ds c)) AND 0xFFFF0000) OR 0x10, r_esp := fp, r_eip := gt_offset (gate_at c v), smem := write_frame fp f (smem c)\<rparr>"

text \<open>The pushes of the stub write a frame.\<close>

definition stub_words :: "u32 \<Rightarrow> idtframe \<Rightarrow> (u32 \<Rightarrow> u32) \<Rightarrow> u32 \<Rightarrow> u32" where
  "stub_words p f m = m(p - 4 := fr_eflags f, p - 8 := fr_cs f, p - 12 := fr_eip f, p - 16 := fr_errorCode f, p - 20 := fr_intr_No f, p - 24 := fr_eax f, p - 28 := fr_ecx f,
     p - 32 := fr_edx f, p - 36 := fr_ebx f, p - 40 := fr_no_use_esp f, p - 44 := fr_ebp f, p - 48 := fr_esi f, p - 52 := fr_edi f, p - 56 := fr_my_eax f)"

lemma stub_words_frame:
  assumes "m p = fr_esp f" and "m (p + 4) = fr_ss f"
  shows "stub_words p f m = write_frame (p - 56) f m"
proof -
  have "m (4 + p) = fr_ss f" using assms(2) by (simp add: add.commute)
  then show ?thesis using assms(1) by (simp add: stub_words_def write_frame_def fun_eq_iff)
qed

lemma low_half [simp]: "ucast ((x AND 0xFFFF0000) OR 0x10 :: u32) = (0x10 :: u16)"
  by (rule bit_word_eqI) (auto simp: bit_simps bit_masks_descr)

lemma enter_ring0:
  assumes "v < length (idt c)" and "gt_present (gate_at c v)" and "cpl c = 0"
  shows "map_option (isr_enter v) (int_instr v c) =
    Some (entered v (r_esp c - 56) (entry_frame v (r_esp c - 56) (smem c (r_esp c)) (smem c (r_esp c + 4)) c) c)"
proof -
  let ?f = "entry_frame v (r_esp c - 56) (smem c (r_esp c)) (smem c (r_esp c + 4)) c"
  have "stub_words (r_esp c) ?f (smem c) = write_frame (r_esp c - 56) ?f (smem c)" by (rule stub_words_frame) (simp_all add: entry_frame_def)
  then show ?thesis using assms
    unfolding entered_def by (simp add: int_instr_def isr_enter_def push_def load_data_segs_def Let_def stub_words_def entry_frame_def)
qed

lemma enter_ring3:
  assumes "v < length (idt c)" and "gt_present (gate_at c v)" and "cpl c \<noteq> 0" and "unat (cpl c) \<le> unat (gt_dpl (gate_at c v))" and e: "e = t_esp0 (tss0 c)"
  shows "map_option (isr_enter v) (int_instr v c) =
    Some (entered v (e - 64) (entry_frame v (e - 64) (r_esp c) (ucast (seg_ss c)) c) (c\<lparr>seg_ss := t_ss0 (tss0 c)\<rparr>))"
proof -
  let ?f = "entry_frame v (e - 64) (r_esp c) (ucast (seg_ss c)) c" and ?m = "(smem c)(e - 4 := ucast (seg_ss c), e - 8 := r_esp c)"
  have "stub_words (e - 8) ?f ?m = write_frame (e - 64) ?f ?m" using stub_words_frame [of ?m "e - 8" ?f] by (simp add: entry_frame_def)
  moreover have "write_frame (e - 64) ?f ?m = write_frame (e - 64) ?f (smem c)" by (simp add: write_frame_def entry_frame_def fun_eq_iff)
  ultimately show ?thesis using assms
    unfolding entered_def by (simp add: int_instr_def isr_enter_def push_def load_data_segs_def Let_def stub_words_def entry_frame_def gate_at_def)
qed

lemma interrupt_entered:
  assumes "map_option (isr_enter v) (int_instr v c) = Some e"
  shows "interrupt v c = do { c \<leftarrow> switch_trap e; iret (isr_leave c) }"
  using assms by (auto simp: interrupt_def)

definition kernel_mode :: "core \<Rightarrow> bool" where
  "kernel_mode c \<longleftrightarrow> seg_cs c = 0x08 \<and> seg_ss c = 0x10 \<and> seg_ds c = 0x10 \<and> eflags c AND 0x3000 = 0"

text \<open>The stub saves \<open>ds\<close> only and loads \<open>es\<close>, \<open>fs\<close> and \<open>gs\<close> with it in the end.\<close>

definition kernel_again :: "reg \<Rightarrow> (u32 \<Rightarrow> u32) \<Rightarrow> core \<Rightarrow> core" where
  "kernel_again r m c = load_reg r (r_esp c) (c\<lparr>seg_es := 0x10, seg_fs := 0x10, seg_gs := 0x10, jmp_to_old_esp := r_esp c, smem := m\<rparr>)"

definition user_mode :: "(u32 \<Rightarrow> u32) \<Rightarrow> core \<Rightarrow> core" where
  "user_mode m c = c\<lparr>seg_cs := 0x1B, seg_ds := 0x23, seg_es := 0x23, seg_ss := 0x23, seg_fs := 0x23, seg_gs := 0x23, eflags := eflags c OR 0x3000, smem := m\<rparr>"

lemma switch_to_user_mode_runs:
  assumes g: "120 < length (idt c)" "gate_at c 120 = \<lparr>gt_offset = x, gt_selector = 0x08, gt_type = gate_type, gt_dpl = 0, gt_present = True\<rparr>"
    and h: "handlers c ! 120 = Switch_to_user_handler" and k: "kernel_mode c"
  shows "\<exists>f. switch_to_user_mode c = Some (user_mode (write_frame (r_esp c - 64) f (smem c)) c)"
proof -
  let ?c = "c\<lparr>r_esp := r_esp c - 8\<rparr>" and ?fp = "r_esp c - 64"
  define f where "f = entry_frame 120 ?fp (smem c (r_esp c - 8)) (smem c (r_esp c - 4)) ?c"
  have "cpl ?c = 0" using k by (simp add: kernel_mode_def)
  with g have e: "map_option (isr_enter 120) (int_instr 120 ?c) = Some (entered 120 ?fp f ?c)"
    using enter_ring0 [of 120 ?c] by (simp add: gate_at_def f_def)
  let ?u = "switch_to_user_handler ?fp f"
  let ?d = "(entered 120 ?fp f ?c)\<lparr>smem := write_frame ?fp ?u (write_frame ?fp f (smem c))\<rparr>"
  have t: "switch_trap (entered 120 ?fp f ?c) = Some ?d"
    using h by (simp add: switch_trap_def entered_def Let_def f_def entry_frame_def)
  have u: "fr_cs ?u = 0x1B" "fr_ss ?u = 0x23" "fr_my_eax ?u = 0x23" "fr_eflags ?u = eflags c OR 0x3000" "fr_esp ?u = r_esp c - 8"
    "fr_edi ?u = r_edi c" "fr_esi ?u = r_esi c" "fr_ebp ?u = r_ebp c" "fr_ebx ?u = r_ebx c" "fr_edx ?u = r_edx c" "fr_ecx ?u = r_ecx c" "fr_eax ?u = r_eax c" "fr_eip ?u = r_eip c"
    by (simp_all add: switch_to_user_handler_def f_def entry_frame_def)
  have w: "write_frame ?fp ?u (write_frame ?fp f (smem c)) = write_frame ?fp ?u (smem c)" by (simp add: write_frame_def fun_eq_iff)
  have "iret (isr_leave ?d) = Some ((user_mode (write_frame ?fp ?u (smem c)) c)\<lparr>r_esp := r_esp c - 8\<rparr>)"
    using g(2) k by (subst isr_leave_iret [of _ ?u]) (simp_all add: entered_def u w user_mode_def kernel_mode_def gate_at_def)
  then have "switch_to_user_mode c = Some (user_mode (write_frame ?fp ?u (smem c)) c)"
    using t by (simp add: switch_to_user_mode_def interrupt_entered [OF e] user_mode_def)
  then show ?thesis by blast
qed

lemma iopl_cleared: "e AND 0x3000 = 0 \<Longrightarrow> (e OR 0x3000) AND NOT 0x3000 = (e :: u32)"
proof -
  assume "e AND 0x3000 = 0"
  then have "(e OR 0x3000) AND NOT 0x3000 = (e AND 0x3000) OR (e AND NOT 0x3000)" by (simp add: bit.conj_disj_distrib2)
  also have "\<dots> = e" by (simp add: bit.conj_disj_distrib [symmetric])
  finally show ?thesis .
qed

lemma switch_to_kern_mode_runs:
  assumes g: "121 < length (idt c)" "gate_at c 121 = \<lparr>gt_offset = x, gt_selector = 0x08, gt_type = gate_type, gt_dpl = 3, gt_present = True\<rparr>"
    and h: "handlers c ! 121 = Switch_to_kern_handler" and k: "kernel_mode c" and ss: "t_ss0 (tss0 c) = 0x10" and e: "e = t_esp0 (tss0 c)"
  shows "\<exists>f. switch_to_kern_mode r (user_mode m c) = Some (kernel_again r (write_frame (e - 64) f m) c)"
proof -
  let ?c = "user_mode m c" and ?fp = "e - 64"
  define f where "f = entry_frame 121 ?fp (r_esp c) 0x23 ?c"
  have "cpl ?c = 3" "gate_at ?c 121 = gate_at c 121" "idt ?c = idt c" "tss0 ?c = tss0 c" "seg_ss ?c = 0x23" "r_esp ?c = r_esp c" by (simp_all add: user_mode_def gate_at_def)
  with g have en: "map_option (isr_enter 121) (int_instr 121 ?c) = Some (entered 121 ?fp f (?c\<lparr>seg_ss := 0x10\<rparr>))"
    using enter_ring3 [of 121 ?c e] e ss by (simp add: f_def)
  let ?u = "fst (switch_to_kern_handler f c)"
  let ?d = "(entered 121 ?fp f (?c\<lparr>seg_ss := 0x10\<rparr>))\<lparr>smem := write_frame ?fp ?u (write_frame ?fp f m), jmp_to_old_esp := r_esp c\<rparr>"
  have t: "switch_trap (entered 121 ?fp f (?c\<lparr>seg_ss := 0x10\<rparr>)) = Some ?d"
    using h by (simp add: switch_trap_def entered_def Let_def user_mode_def switch_to_kern_handler_def f_def entry_frame_def)
  have u: "fr_cs ?u = 0x08" "fr_my_eax ?u = 0x10" "fr_eflags ?u = eflags c"
    "fr_edi ?u = r_edi c" "fr_esi ?u = r_esi c" "fr_ebp ?u = r_ebp c" "fr_ebx ?u = r_ebx c" "fr_edx ?u = r_edx c" "fr_ecx ?u = r_ecx c" "fr_eax ?u = r_eax c" "fr_eip ?u = r_eip c"
    using k iopl_cleared [of "eflags c"] by (simp_all add: switch_to_kern_handler_def f_def entry_frame_def user_mode_def kernel_mode_def Let_def)
  have w: "write_frame ?fp ?u (write_frame ?fp f m) = write_frame ?fp ?u m" by (simp add: write_frame_def fun_eq_iff)
  have "iret (isr_leave ?d) = Some (c\<lparr>seg_es := 0x10, seg_fs := 0x10, seg_gs := 0x10, jmp_to_old_esp := r_esp c, r_esp := e - 8, smem := write_frame ?fp ?u m\<rparr>)"
    using g(2) k by (subst isr_leave_iret [of _ ?u]) (simp_all add: entered_def u w user_mode_def kernel_mode_def gate_at_def)
  then have "switch_to_kern_mode r ?c = Some (kernel_again r (write_frame ?fp ?u m) c)"
    using t by (cases r) (simp_all add: switch_to_kern_mode_def interrupt_entered [OF en] load_reg_def kernel_again_def)
  then show ?thesis by blast
qed

text \<open>The tables after \<open>idt_init\<close> and \<open>tss_init\<close>; both leave the registers alone.\<close>

lemma tables_ready:
  fixes c :: core
  assumes l: "length (gdt c) = 6" "length (idt c) = 256" "length (handlers c) = 256" and k: "kernel_mode c"
  shows "\<exists>c1 c2. idt_init intrs a c = Some c1 \<and> tss_init intrs t stk c1 = Some c2 \<and> kernel_mode c2 \<and> length (idt c2) = 256 \<and> r_esp c2 = r_esp c \<and> smem c2 = smem c"
proof -
  define c1 where "c1 = c\<lparr>handlers := replicate 256 Isr_handler, idt := map (\<lambda>j. kernel_gate (intrs j) 0) [0..<256], idtr := \<lparr>dtr_limit = 2047, dtr_base = a\<rparr>\<rparr>"
  have 1: "idt_init intrs a c = Some c1"
    using l init_handlers_all [of c 0 256] init_gates_all [of "c\<lparr>handlers := replicate 256 Isr_handler\<rparr>" 0 256 intrs]
    by (simp add: idt_init_def c1_def lidt_def del: upt_Suc)
  have "length (gdt c1) = 6" "length (idt c1) = 256" "length (handlers c1) = 256" using l by (simp_all add: c1_def del: upt_Suc)
  then show ?thesis using 1 k
    by (simp add: tss_init_def set_seg_gate_desc_entry ltr_def set_intr_gate_desc_igd set_handler_def kernel_mode_def) (simp add: c1_def del: upt_Suc)
qed

text \<open>
  C32. The mode switches on the tables of \<open>idt_init\<close> and \<open>tss_init\<close>: \<open>switch_to_user_mode\<close> returns to its caller in ring 3, with the user segments, I/O privilege and the same stack pointer, through the eight bytes
  that it reserves for the stack segment and pointer the processor does not push. In ring 3 every \<open>int\<close> but 121 and 0x80 is refused. \<open>switch_to_kern_mode\<close> comes back from the ring 0 stack to the same stack in ring 0:
  the stack pointer, flags, \<open>cs\<close>, \<open>ds\<close>, \<open>ss\<close> and general registers are those before both calls, except for the register \<open>r\<close> through which the stack pointer is loaded; \<open>es\<close>, \<open>fs\<close> and \<open>gs\<close>, which \<open>gdt_init\<close>
  may have left at other values, are 0x10 like \<open>ds\<close>, since the stub saves \<open>ds\<close> only. In memory only the sixteen words of the two frames have changed.
\<close>

theorem mode_switch_returns:
  fixes c :: core
  assumes l: "length (gdt c) = 6" "length (idt c) = 256" "length (handlers c) = 256" and k: "kernel_mode c"
  shows "\<exists>c1 c2 m m'. idt_init intrs a c = Some c1 \<and> tss_init intrs t stk c1 = Some c2
    \<and> switch_to_user_mode c2 = Some (user_mode m c2)
    \<and> (\<forall>v. v \<noteq> 121 \<and> v \<noteq> 0x80 \<longrightarrow> int_instr v (user_mode m c2) = None)
    \<and> switch_to_kern_mode r (user_mode m c2) = Some (kernel_again r m' c2)
    \<and> (\<forall>x. (\<forall>i < 16. x \<noteq> r_esp c - 64 + 4 * of_nat i \<and> x \<noteq> stk + 0x2000 - 64 + 4 * of_nat i) \<longrightarrow> m' x = smem c x)"
proof -
  obtain c1 c2 where c: "idt_init intrs a c = Some c1" "tss_init intrs t stk c1 = Some c2" and k2: "kernel_mode c2" and n: "length (idt c2) = 256" and e: "r_esp c2 = r_esp c" "smem c2 = smem c"
    using tables_ready [OF l k] by blast
  from interrupt_tables [OF l, of intrs a t stk] c have
      gates: "\<And>v. v < 256 \<Longrightarrow> gate_at c2 v = \<lparr>gt_offset = intrs v, gt_selector = 0x08, gt_type = gate_type, gt_dpl = (if v = 121 \<or> v = 0x80 then 3 else 0), gt_present = True\<rparr>"
      and hs: "\<And>v. v < 256 \<Longrightarrow> handlers c2 ! v = (if v = 120 then Switch_to_user_handler else if v = 121 then Switch_to_kern_handler else if v = 0x80 then System_intr else Isr_handler)"
      and tss: "t_ss0 (tss0 c2) = 0x10" "t_esp0 (tss0 c2) = stk + 0x2000"
    by auto
  obtain f where f: "switch_to_user_mode c2 = Some (user_mode (write_frame (r_esp c - 64) f (smem c)) c2)"
    using switch_to_user_mode_runs [of c2 "intrs 120"] gates [of 120] hs [of 120] k2 n e by auto
  let ?m = "write_frame (r_esp c - 64) f (smem c)"
  obtain g where g: "switch_to_kern_mode r (user_mode ?m c2) = Some (kernel_again r (write_frame (stk + 0x2000 - 64) g ?m) c2)"
    using switch_to_kern_mode_runs [of c2 "intrs 121" "stk + 0x2000" r ?m] gates [of 121] hs [of 121] k2 n tss by auto
  have "int_instr v (user_mode ?m c2) = None" if "v \<noteq> 121 \<and> v \<noteq> 0x80" for v
    using that gates [of v] n by (cases "v < 256") (auto simp: int_instr_def user_mode_def gate_at_def Let_def)
  moreover have "write_frame fp h m' x = m' x" if "\<forall>i < 16. x \<noteq> fp + 4 * of_nat i" for fp h m' x
    using that by (simp add: write_frame_def numeral_eq_Suc All_less_Suc)
  ultimately show ?thesis using c f g by (intro exI [of _ c1] exI [of _ c2] exI [of _ ?m] exI [of _ "write_frame (stk + 0x2000 - 64) g ?m"]) simp
qed

section \<open>Example\<close>

definition core_example :: core where
  "core_example = cpu.extend (cpu0\<lparr>seg_cs := 0x08, seg_ds := 0x10, seg_es := 0x10, seg_ss := 0x10, seg_fs := 0x23, seg_gs := 0x23, eflags := 0x202\<rparr>)
     (core.fields 7 0 0 0 0x9F000 0 0 0 0xC0100000 (\<lambda>_. 0))"

theorem mode_switch_returns_witness:
  "\<exists>c1 c2 m m'. idt_init (\<lambda>_. 0) 0xC0104100 core_example = Some c1 \<and> tss_init (\<lambda>_. 0) 0xC0104900 0xC0105000 c1 = Some c2
    \<and> switch_to_user_mode c2 = Some (user_mode m c2) \<and> int_instr 14 (user_mode m c2) = None
    \<and> switch_to_kern_mode Eax (user_mode m c2) = Some (kernel_again Eax m' c2)
    \<and> seg_fs core_example = 0x23"
proof -
  have e: "gdt core_example = gdt cpu0" "idt core_example = idt cpu0" "handlers core_example = handlers cpu0" "kernel_mode core_example" "seg_fs core_example = 0x23"
    by (simp_all add: core_example_def cpu.defs core.defs kernel_mode_def)
  have "length (gdt core_example) = 6" "length (idt core_example) = 256" "length (handlers core_example) = 256" by (simp_all add: e cpu0_def)
  from mode_switch_returns [OF this e(4), of "\<lambda>_. 0" "0xC0104100" "0xC0104900" "0xC0105000" Eax] show ?thesis unfolding e(5) by fastforce
qed

end
