(* ===== verification/Report.thy ===== *)
theory Report
  imports Console Debug PageTable
begin

text \<open>
  What the kernel prints about itself: \<open>print_idtframe\<close> of \<open>idt/idt.c\<close>, \<open>print_memory\<close> of \<open>mm/pmm.c\<close>, \<open>default_proc_fn\<close> of \<open>schedule/process/proc.c\<close> and the output of \<open>print_backtrace\<close> and \<open>panic\<close>
  of \<open>debug_/debug.c\<close>. All of them are sequences of calls of \<open>printf\<close>; \<open>lit\<close> gives the address at which the compiler has put a string literal.
\<close>

section \<open>Definitions\<close>

type_synonym literals = "u8 list \<Rightarrow> u32"

definition ascii :: "string \<Rightarrow> u8 list" where
  "ascii = map of_char"

abbreviation newline :: string where
  "newline \<equiv> [CHR 0x0A]"

text \<open>Calls of \<open>printf\<close> one after the other, each with its format and its arguments.\<close>

fun print_calls :: "bytes \<Rightarrow> literals \<Rightarrow> (string \<times> u32 list) list \<Rightarrow> console \<Rightarrow> console option" where
  "print_calls m lit [] s = Some s"
| "print_calls m lit ((f, ap) # ls) s =
     do {
       s \<leftarrow> printf m (lit (ascii f)) ap s;
       print_calls m lit ls s
     }"

definition print_idtframe :: "bytes \<Rightarrow> literals \<Rightarrow> idtframe \<Rightarrow> console \<Rightarrow> console option" where
  "print_idtframe m lit frame = print_calls m lit
     [(''***************************'' @ newline, []),
      (''frame->my_eax: %x'' @ newline, [fr_my_eax frame]),
      (''frame->edi: %x'' @ newline, [fr_edi frame]),
      (''frame->esi: %x'' @ newline, [fr_esi frame]),
      (''frame->oesp: %x'' @ newline, [fr_no_use_esp frame]),
      (''frame->ebx: %x'' @ newline, [fr_ebx frame]),
      (''frame->edx: %x'' @ newline, [fr_edx frame]),
      (''frame->ecx: %x'' @ newline, [fr_ecx frame]),
      (''frame->eax: %x'' @ newline, [fr_eax frame]),
      (''frame->intr_No: %x'' @ newline, [fr_intr_No frame]),
      (''frame->errorCode: %x'' @ newline, [fr_errorCode frame]),
      (''frame->eip: %x'' @ newline, [fr_eip frame]),
      (''frame->cs: %x'' @ newline, [fr_cs frame]),
      (''frame->eflags: %x'' @ newline, [fr_eflags frame]),
      (''frame->esp: %x'' @ newline, [fr_esp frame]),
      (''frame->ss: %x'' @ newline, [fr_ss frame]),
      (''***************************'' @ newline, [])]"

definition print_memory :: "bytes \<Rightarrow> literals \<Rightarrow> e820_entry list \<Rightarrow> console \<Rightarrow> console option" where
  "print_memory m lit memmap = print_calls m lit
     (map (\<lambda>e. (''base_address: %x  length: %x  type: %d'' @ newline, [base_lo e, length_lo e, e820_type e])) memmap)"

definition default_proc_fn :: "bytes \<Rightarrow> literals \<Rightarrow> u32 \<Rightarrow> console \<Rightarrow> (i32 \<times> console) option" where
  "default_proc_fn m lit what_you_want_to_say s =
     do {
       s \<leftarrow> print_calls m lit [(''hello, proc No.1! %s.'' @ newline, [what_you_want_to_say])] s;
       Some (0, s)
     }"

text \<open>The lines of \<open>print_backtrace\<close> on the screen.\<close>

definition show_backtrace :: "literals \<Rightarrow> u32 \<Rightarrow> debug \<Rightarrow> console \<Rightarrow> console option" where
  "show_backtrace lit ebp d s =
     do {
       calls \<leftarrow> print_backtrace ebp d;
       print_calls (dmem d) lit (map (\<lambda>(return_addr, func_name). (''%x, %s'' @ newline, [return_addr, func_name])) calls) s
     }"

text \<open>\<open>panic\<close> up to its endless loop.\<close>

definition panic_report :: "literals \<Rightarrow> u32 \<Rightarrow> u32 \<Rightarrow> debug \<Rightarrow> console \<Rightarrow> console option" where
  "panic_report lit msg ebp d s =
     do {
       s \<leftarrow> print_calls (dmem d) lit [(''===================='' @ newline, []), (''%s'' @ newline, [msg])] s;
       s \<leftarrow> show_backtrace lit ebp d s;
       print_calls (dmem d) lit [(''===================='' @ newline, [])] s
     }"

section \<open>Lemmas\<close>

text \<open>A call prints a text: its literal is in memory, and the text is the one that the format stands for.\<close>

definition call_text :: "bytes \<Rightarrow> literals \<Rightarrow> string \<times> u32 list \<Rightarrow> u8 list \<Rightarrow> bool" where
  "call_text m lit c t \<longleftrightarrow> cstring m (lit (ascii (fst c))) (ascii (fst c))
     \<and> (\<exists>str. (\<forall>p xs. str p = Some xs \<longrightarrow> cstring m p xs) \<and> format_text str (ascii (fst c)) (snd c) = Some t)"

lemma print_calls_text: "list_all2 (call_text m lit) cs ts \<Longrightarrow> print_calls m lit cs s = Some (put_chars (concat ts) s)"
proof (induction arbitrary: s rule: list_all2_induct)
  case Nil
  then show ?case by (simp add: put_chars_def)
next
  case (Cons c cs t ts)
  obtain f ap where c: "c = (f, ap)" by (cases c)
  from Cons.hyps(1) obtain str where "\<forall>p xs. str p = Some xs \<longrightarrow> cstring m p xs" "cstring m (lit (ascii f)) (ascii f)" "format_text str (ascii f) ap = Some t"
    unfolding call_text_def c by auto
  then have "printf m (lit (ascii f)) ap s = Some (put_chars t s)" unfolding printf_def by (rule printf_loop_text)
  then show ?case using Cons.IH c by (simp add: put_chars_append)
qed

lemma print_call_text: "call_text m lit c t \<Longrightarrow> print_calls m lit [c] s = Some (put_chars t s)"
  using print_calls_text [of m lit "[c]" "[t]"] by simp

lemma ascii_simps [simp]: "ascii [] = []" "ascii (c # cs) = of_char c # ascii cs" "ascii (xs @ ys) = ascii xs @ ascii ys"
  by (simp_all add: ascii_def)

lemma format_text_plain: "0x25 \<notin> set p \<Longrightarrow> format_text str (p @ q) ap = map_option (append p) (format_text str q ap)"
proof (induction p)
  case Nil
  then show ?case by (simp add: option.map_ident)
next
  case (Cons c p)
  show ?case
  proof (cases "p @ q")
    case Nil
    then show ?thesis using Cons.prems by simp
  next
    case (Cons d r)
    then have "format_text str ((c # p) @ q) ap = map_option (Cons c) (format_text str (p @ q) ap)" using Cons.prems by simp
    then show ?thesis using Cons.IH Cons.prems by (simp add: option.map_comp o_def)
  qed
qed


lemma call_plain:
  assumes "cstring m (lit (ascii f)) (ascii f)" and "0x25 \<notin> set (ascii f)"
  shows "call_text m lit (f, []) (ascii f)"
proof -
  have "format_text (\<lambda>_. None) (ascii f @ []) [] = Some (ascii f)" by (subst format_text_plain [OF assms(2)]) simp
  then show ?thesis using assms(1) unfolding call_text_def by (intro conjI exI [of _ "\<lambda>_. None"]) simp_all
qed

lemma format_percent: "format_text str (0x25 # d # cs) ap = (case conv_text str d ap of None \<Rightarrow> None | Some (t, ap) \<Rightarrow> map_option (append t) (format_text str cs ap))"
  by simp

lemma call_hex:
  assumes "cstring m (lit (ascii (l @ ''%x'' @ newline))) (ascii (l @ ''%x'' @ newline))" and "0x25 \<notin> set (ascii l)"
  shows "call_text m lit (l @ ''%x'' @ newline, [v]) (ascii l @ num_text 16 v @ [0x0A])"
proof -
  have "format_text (\<lambda>_. None) (ascii l @ ascii (''%x'' @ newline)) [v] = Some (ascii l @ num_text 16 v @ [0x0A])"
    by (subst format_text_plain [OF assms(2)]) (simp add: conv_text_def)
  then show ?thesis using assms(1) unfolding call_text_def by (intro conjI exI [of _ "\<lambda>_. None"]) simp_all
qed

section \<open>Frames, memory map and greeting\<close>

definition frame_fields :: "idtframe \<Rightarrow> (string \<times> u32) list" where
  "frame_fields f = [(''frame->my_eax: '', fr_my_eax f), (''frame->edi: '', fr_edi f), (''frame->esi: '', fr_esi f), (''frame->oesp: '', fr_no_use_esp f),
     (''frame->ebx: '', fr_ebx f), (''frame->edx: '', fr_edx f), (''frame->ecx: '', fr_ecx f), (''frame->eax: '', fr_eax f), (''frame->intr_No: '', fr_intr_No f),
     (''frame->errorCode: '', fr_errorCode f), (''frame->eip: '', fr_eip f), (''frame->cs: '', fr_cs f), (''frame->eflags: '', fr_eflags f), (''frame->esp: '', fr_esp f), (''frame->ss: '', fr_ss f)]"

abbreviation stars :: string where
  "stars \<equiv> ''***************************'' @ newline"

lemma print_idtframe_calls: "print_idtframe m lit f = print_calls m lit ((stars, []) # map (\<lambda>(l, v). (l @ ''%x'' @ newline, [v])) (frame_fields f) @ [(stars, [])])"
  by (simp add: print_idtframe_def frame_fields_def)

definition literals_in :: "bytes \<Rightarrow> literals \<Rightarrow> string list \<Rightarrow> bool" where
  "literals_in m lit fs \<longleftrightarrow> (\<forall>f \<in> set fs. cstring m (lit (ascii f)) (ascii f))"

lemma print_idtframe_text:
  assumes "literals_in m lit (stars # map (\<lambda>(l, v). l @ ''%x'' @ newline) (frame_fields f))"
  shows "print_idtframe m lit f s = Some (put_chars (ascii stars @ concat (map (\<lambda>(l, v). ascii l @ num_text 16 v @ [0x0A]) (frame_fields f)) @ ascii stars) s)"
proof -
  let ?ts = "map (\<lambda>(l, v). ascii l @ num_text 16 v @ [0x0A]) (frame_fields f)"
  have p: "\<forall>x \<in> set (frame_fields f). 0x25 \<notin> set (ascii (fst x))" by (simp add: frame_fields_def)
  have st: "call_text m lit (stars, []) (ascii stars)" using assms by (intro call_plain) (simp_all add: literals_in_def del: ascii_simps, simp)
  have "list_all2 (call_text m lit) (map (\<lambda>(l, v). (l @ ''%x'' @ newline, [v])) (frame_fields f)) ?ts"
    using assms p call_hex [of m lit] unfolding list_all2_map1 list_all2_map2 list_all2_same literals_in_def by (fastforce simp del: ascii_simps)
  then have "list_all2 (call_text m lit) ((stars, []) # map (\<lambda>(l, v). (l @ ''%x'' @ newline, [v])) (frame_fields f) @ [(stars, [])]) (ascii stars # ?ts @ [ascii stars])"
    using st by (simp add: list_all2_appendI del: ascii_simps append.simps)
  from print_calls_text [OF this] show ?thesis unfolding print_idtframe_calls by (simp del: ascii_simps append_Cons)
qed

lemma print_memory_text:
  assumes "literals_in m lit [''base_address: %x  length: %x  type: %d'' @ newline]"
  shows "print_memory m lit es s = Some (put_chars (concat (map (\<lambda>e. ascii ''base_address: '' @ num_text 16 (base_lo e) @ ascii ''  length: '' @ num_text 16 (length_lo e)
    @ ascii ''  type: '' @ num_text 10 (e820_type e) @ [0x0A]) es)) s)"
proof -
  have "call_text m lit (''base_address: %x  length: %x  type: %d'' @ newline, [a, l, t])
      (ascii ''base_address: '' @ num_text 16 a @ ascii ''  length: '' @ num_text 16 l @ ascii ''  type: '' @ num_text 10 t @ [0x0A])" for a l t
    using assms unfolding call_text_def literals_in_def by (intro conjI exI [of _ "\<lambda>_. None"]) (simp_all add: conv_text_def)
  then have "list_all2 (call_text m lit) (map (\<lambda>e. (''base_address: %x  length: %x  type: %d'' @ newline, [base_lo e, length_lo e, e820_type e])) es)
      (map (\<lambda>e. ascii ''base_address: '' @ num_text 16 (base_lo e) @ ascii ''  length: '' @ num_text 16 (length_lo e) @ ascii ''  type: '' @ num_text 10 (e820_type e) @ [0x0A]) es)"
    unfolding list_all2_map1 list_all2_map2 list_all2_same by blast
  then show ?thesis unfolding print_memory_def by (rule print_calls_text)
qed

lemma call_string:
  assumes "cstring m (lit (ascii f)) (ascii f)" and "cstring m p t" and "format_text [p \<mapsto> t] (ascii f) ap = Some out"
  shows "call_text m lit (f, ap) out"
  using assms unfolding call_text_def by (intro conjI exI [of _ "[p \<mapsto> t]"]) (simp_all split: if_splits)

lemma default_proc_fn_text:
  assumes "literals_in m lit [''hello, proc No.1! %s.'' @ newline]" and "cstring m p t"
  shows "default_proc_fn m lit p s = Some (0, put_chars (ascii ''hello, proc No.1! '' @ t @ ascii ''.'' @ [0x0A]) s)"
proof -
  have "call_text m lit (''hello, proc No.1! %s.'' @ newline, [p]) (ascii ''hello, proc No.1! '' @ t @ ascii ''.'' @ [0x0A])"
    using assms unfolding literals_in_def by (intro call_string [OF _ assms(2)]) (simp_all add: conv_text_def)
  from print_call_text [OF this] show ?thesis unfolding default_proc_fn_def by (simp del: print_calls.simps ascii_simps append.simps)
qed

section \<open>Panic\<close>

abbreviation bar :: string where
  "bar \<equiv> ''===================='' @ newline"

lemma show_backtrace_text:
  assumes "stack_chain (dmem d) ebp rs" and "literals_in (dmem d) lit [''%x, %s'' @ newline]"
    and "\<forall>r \<in> set rs. get_func_name r d \<noteq> NULL \<longrightarrow> cstring (dmem d) (get_func_name r d) (name r)"
  shows "show_backtrace lit ebp d s = Some (put_chars (concat (map (\<lambda>r. num_text 16 r @ ascii '', '' @ name r @ [0x0A])
    (filter (\<lambda>r. get_func_name r d \<noteq> NULL \<and> VERTUAL_MEM \<le> r) rs))) s)"
proof -
  let ?rs = "filter (\<lambda>r. get_func_name r d \<noteq> NULL \<and> VERTUAL_MEM \<le> r) rs"
  have "call_text (dmem d) lit (''%x, %s'' @ newline, [r, get_func_name r d]) (num_text 16 r @ ascii '', '' @ name r @ [0x0A])" if "r \<in> set ?rs" for r
    using assms(2,3) that unfolding literals_in_def by (intro call_string [of _ _ _ "get_func_name r d" "name r"]) (simp_all add: conv_text_def)
  then have "list_all2 (call_text (dmem d) lit) (map (\<lambda>r. (''%x, %s'' @ newline, [r, get_func_name r d])) ?rs) (map (\<lambda>r. num_text 16 r @ ascii '', '' @ name r @ [0x0A]) ?rs)"
    unfolding list_all2_map1 list_all2_map2 list_all2_same by blast
  from print_calls_text [OF this] show ?thesis
    unfolding show_backtrace_def print_backtrace_def backtrace_loop_chain [OF assms(1)] by (simp add: o_def)
qed

text \<open>
  C22. What \<open>panic\<close> leaves on the screen before its endless loop: a bar, the message, one line for every caller on the stack that lies in the kernel and has a name, innermost first with its
  return address in hexadecimal, and another bar. The literals, the message and the names are strings in memory, and the chain of frame pointers ends.
\<close>

theorem panic_prints:
  assumes "stack_chain (dmem d) ebp rs" and "literals_in (dmem d) lit [bar, ''%s'' @ newline, ''%x, %s'' @ newline]" and "cstring (dmem d) msg t"
    and "\<forall>r \<in> set rs. get_func_name r d \<noteq> NULL \<longrightarrow> cstring (dmem d) (get_func_name r d) (name r)"
  shows "panic_report lit msg ebp d s = Some (put_chars (ascii bar @ t @ [0x0A]
    @ concat (map (\<lambda>r. num_text 16 r @ ascii '', '' @ name r @ [0x0A]) (filter (\<lambda>r. get_func_name r d \<noteq> NULL \<and> VERTUAL_MEM \<le> r) rs)) @ ascii bar) s)"
proof -
  have l: "literals_in (dmem d) lit [''%x, %s'' @ newline]" using assms(2) by (simp add: literals_in_def)
  have b: "call_text (dmem d) lit (bar, []) (ascii bar)" using assms(2) by (intro call_plain) (simp_all add: literals_in_def)
  have "call_text (dmem d) lit (''%s'' @ newline, [msg]) (t @ [0x0A])"
    using assms(2) by (intro call_string [OF _ assms(3)]) (simp_all add: literals_in_def conv_text_def)
  with b have "print_calls (dmem d) lit [(bar, []), (''%s'' @ newline, [msg])] s = Some (put_chars (ascii bar @ t @ [0x0A]) s)"
    using print_calls_text [of "dmem d" lit "[(bar, []), (''%s'' @ newline, [msg])]" "[ascii bar, t @ [0x0A]]"] by (simp del: print_calls.simps ascii_simps append.simps)
  then show ?thesis
    unfolding panic_report_def
    by (simp add: show_backtrace_text [OF assms(1) l assms(4)] print_call_text [OF b] put_chars_append del: print_calls.simps ascii_simps append.simps)
qed

section \<open>Example\<close>

text \<open>Literals, a message, one symbol \<open>main\<close> and a stack of one frame.\<close>

definition report_bytes :: bytes where
  "report_bytes =
     place 0x100 (ascii bar) (place 0x200 (ascii (''%s'' @ newline)) (place 0x300 (ascii (''%x, %s'' @ newline)) (place 0x400 (ascii ''no memory'') (place 0x500 (ascii ''main'')
      (place 0x3000 [0, 0, 0, 0, 0, 0, 0x10, 0xC0, 0x20] (place 0x6004 [0x10, 0, 0x10, 0xC0] (\<lambda>_. 0)))))))"

definition report_literals :: literals where
  "report_literals f = (if f = ascii bar then 0x100 else if f = ascii (''%s'' @ newline) then 0x200 else 0x300)"

definition report_example :: debug where
  "report_example = debug_example\<lparr>dmem := report_bytes, symtable_ptr := 0x3000, symtable_num := 1, strtab_ptr := 0x500\<rparr>"

lemma report_fields [simp]: "dmem report_example = report_bytes" "symtable_ptr report_example = 0x3000" "symtable_num report_example = 1" "strtab_ptr report_example = 0x500"
  by (simp_all add: report_example_def)

lemmas report_read = report_bytes_def place_at

lemma report_memory:
  "literals_in report_bytes report_literals [bar, ''%s'' @ newline, ''%x, %s'' @ newline]" "cstring report_bytes 0x400 (ascii ''no memory'')" "cstring report_bytes 0x500 (ascii ''main'')"
  by (simp_all add: literals_in_def report_literals_def) (simp_all add: report_read del: place.simps)

lemma report_stack: "stack_chain report_bytes 0x6000 [0xC0100010]"
  by (simp add: rd32_def) (simp add: report_read del: place.simps)

lemma report_name: "get_func_name 0xC0100010 report_example = 0x500"
proof -
  have "sym_at report_bytes 0x3000 = \<lparr>st_name = 0, st_value = 0xC0100000, st_size = 0x20, st_info = 0, st_other = 0, st_shndx = 0\<rparr>"
    by (simp add: sym_at_def rd32_def rd16_def) (simp add: report_read del: place.simps)
  then show ?thesis by (simp add: get_func_name_def)
qed

theorem panic_prints_witness:
  "panic_report report_literals 0x400 0x6000 report_example console0 =
     Some (put_chars (ascii (bar @ ''no memory'' @ newline @ ''0xc0100010, main'' @ newline @ bar)) console0)"
proof -
  have "num_text 16 0xC0100010 = ascii ''0xc0100010''" by (simp add: num_text_def num_digits.simps digit_table_def)
  then show ?thesis
    using panic_prints [of report_example "0x6000" "[0xC0100010]" report_literals "0x400" "ascii ''no memory''" "\<lambda>_. ascii ''main''" console0] report_memory report_stack
    by (simp add: report_name)
qed

end
