(* ===== verification/Spec2Isabelle.thy ===== *)
theory Spec2Isabelle
  imports Demand Monitor Keyboard Debug Startup ModeSwitch Report
begin

text \<open>
  A verification library for wind_os, a teaching kernel for the 80386 (\<open>src/\<close>). This theory only collects the others.

  \<^bold>\<open>The program.\<close> \<open>sign.c\<close> turns the assembled boot code into a boot sector. The boot sector (\<open>boot/bootasm.S\<close>, \<open>boot/bootmain.c\<close>) loads the
  ELF image of the kernel from the first disk and jumps to \<open>kern_init\<close> (\<open>entry/entry.c\<close>), which maps the first four megabytes twice, switches paging on
  and calls \<open>init\<close>. \<open>init\<close> sets up the segments (\<open>gdt/\<close>), the interrupt vectors (\<open>idt/\<close>), the page frames and page tables (\<open>mm/pmm.c\<close>), the swap disk
  (\<open>mm/swap.c\<close>), the heap (\<open>mm/malloc.c\<close>), the address space of the kernel (\<open>mm/vmm.c\<close>), the interrupt controller, the timer and the keyboard. Processes
  (\<open>schedule/process/\<close>) are scheduled round robin by the timer interrupt and by blocking operations; semaphores, monitors and two producer/consumer programs
  (\<open>schedule/synchronize/\<close>) are built on the scheduler. Interrupt 0x80 is the system call, interrupt 14 the page fault that brings pages in from the swap disk.
  \<open>libs/\<close> has the strings, the VGA text screen and \<open>printf\<close>; \<open>debug_/debug.c\<close> prints the names of the callers on the stack.

  \<^bold>\<open>Which theory models what.\<close>
  \<^item> \<open>Prelude\<close>: integer types, the two windows on physical memory (\<open>kpa\<close>), generic lemmas on words and lists.
  \<^item> \<open>KList\<close>: \<open>include/list.h\<close>. The locale \<open>circular_list\<close> states what its clients need of a circular list; \<open>kl\<close> interprets it on the
    operations of the code, and the free list, the heap, the areas, the FIFO of pages, the process list and the wait queues all use \<open>kl\<close>.
  \<^item> \<open>Machine\<close>: the state that the four files of \<open>mm/\<close> share, the layout of \<open>struct Page\<close> and of the table entries.
  \<^item> \<open>Ide\<close>: the transfers of \<open>mm/swap.c\<close> and the layout of the swap slots.
  \<^item> \<open>PageAlloc\<close>: \<open>alloc_page\<close>, \<open>free_page\<close>, the address conversions and \<open>swap_out\<close>.
  \<^item> \<open>PageTable\<close>, \<open>PageInit\<close>: \<open>get_pte\<close>, \<open>map\<close>, \<open>unmap\<close>, \<open>page_init\<close>, the tables of \<open>kern_init\<close>; \<open>mmu\<close> is the walk of the processor.
  \<^item> \<open>Malloc\<close>, \<open>HeapTest\<close>: \<open>mm/malloc.c\<close>. \<open>Vmm\<close>, \<open>Paging\<close>: \<open>mm/vmm.c\<close> and \<open>swap_in\<close>.
  \<^item> \<open>DemandState\<close>, \<open>Demand\<close>: all of these together, seen by a program that loads and stores; \<open>test_swap\<close> of \<open>mm/swap.c\<close> is such a program. The invariant \<open>demand\<close> spans the free list, the
    FIFO, the areas, the page tables and the disk.
  \<^item> \<open>Descr\<close>: \<open>gdt.c\<close>, \<open>idt.c\<close>, \<open>tss.c\<close>, \<open>pic.c\<close>, \<open>timer.c\<close>, the port writes and the interrupt flag.
  \<^item> \<open>ModeSwitch\<close>: a processor with a stack that executes the way into user mode and back, with the entry and exit code of \<open>intr.S\<close>.
  \<^item> \<open>Proc\<close>, \<open>Sched\<close>, \<open>Fork\<close>: \<open>proc.c\<close> and \<open>sched.c\<close>. \<open>Syscall\<close>: \<open>user.c\<close> and the dispatch of interrupts in \<open>idt.c\<close>, on the kernel state and a screen.
  \<^item> \<open>Semaphore\<close>, \<open>Monitor\<close>, \<open>ProdCons\<close>: \<open>schedule/synchronize/\<close>. The locale \<open>semaphore_spec\<close> is the contract of \<open>P\<close> and \<open>V\<close>; \<open>ks\<close> interprets it on the kernel's
    operations. The programs on top of it are step relations in which any thread may run next.
  \<^item> \<open>CString\<close>, \<open>Console\<close>, \<open>Keyboard\<close>: \<open>libs/string.c\<close>, \<open>libs/VGA.c\<close>, \<open>libs/stdio.c\<close>, \<open>idt/keyboard.c\<close>. \<open>Report\<close>: what \<open>panic\<close>, \<open>print_backtrace\<close>, \<open>print_idtframe\<close> and \<open>print_memory\<close> put on the screen.
  \<^item> \<open>Boot\<close>, \<open>Debug\<close>, \<open>Startup\<close>: \<open>boot/bootmain.c\<close>, \<open>debug_/debug.c\<close>, and \<open>sign.c\<close> with \<open>init\<close> of \<open>entry/entry.c\<close>.

  \<^bold>\<open>How the state corresponds to the code.\<close> Pointers and C integers are words of their width, and arithmetic wraps. A struct is split by field, each field a
  function of the physical address of the struct (\<open>kpa\<close> of the pointer), so that a low and a high pointer to one struct are aliases, as they are in the kernel. The records extend each other in the order
  of the components: \<open>list_heap\<close>, \<open>machine\<close>, \<open>kernel\<close>; an operation is polymorphic in what comes after its own fields. Different structs do not overlap in the
  model; where an address computed by the code could hit something else the theorems have a hypothesis on the addresses, or the property is the overlap itself
  (\<open>Fork.first_child_hits_directory\<close>). Port writes go to a log, and two hardware models (the 8259A in \<open>Descr\<close>, the ATA registers in \<open>Ide\<close>) give them a meaning.
  \<open>Boot\<close>, \<open>CString\<close> and \<open>Debug\<close> work on a flat memory of bytes.

  \<^bold>\<open>Loops and failures.\<close> Loops over linked lists and disk waits are \<open>partial_function (option)\<close>, where \<open>None\<close> is a loop that never ends; counted loops are structural
  recursions on a natural number. No fuel is used. Theorems on such a loop state that it returns, on the well-formed states named in their hypotheses. A \<open>panic\<close> is
  a value of the datatype \<open>panic\<close>; an out-of-range table write is \<open>None\<close>.

  \<^bold>\<open>What is shown.\<close> Memory: allocation and release restore the block list, \<open>map\<close> and \<open>unmap\<close> change exactly one translation (\<open>map\<close> where the address has no translation or the same one; replacing another one goes wrong), the heap implements first fit and coalesces,
  areas are found, pages are swapped out in FIFO order, and a program whose pages are swapped out
  and in all the time sees a plain memory (for as many faults as the first free block has pages; the pages that were swapped out cannot be allocated again). Processes: \<open>schedule\<close> refines an abstract round robin, is fair and only picks
  runnable processes; \<open>P\<close> and \<open>V\<close> refine an abstract semaphore; the two producer/consumer programs keep mutual exclusion and buffer bounds and do not deadlock; a new kernel
  thread starts in its entry code with its function and argument; fork, exit and wait keep the family tree. System calls give their answers; \<open>print\<close> shows its string on the screen. Start: the boot loader, \<open>page_init\<close> and \<open>init\<close> reach the state the kernel relies on, from the hypotheses \<open>bootable\<close> on the machine; the test of the
  heap that follows runs to its end and gets the same chunks in its second and third round. The switch to user mode and back returns to its caller on the same stack with the same flags and general registers,
  except for the one through which the stack pointer is loaded; \<open>es\<close>, \<open>fs\<close> and \<open>gs\<close> come back as \<open>ds\<close>.
  Input and output: \<open>printf\<close> prints the text its format stands for on an abstract terminal, a \<open>panic\<close> shows its message and the names of the callers, the keyboard gives the right characters. Properties named as errors
  show where the code does not do what its comments say.

  \<^bold>\<open>Not modelled.\<close> Assembly: \<open>bootasm.S\<close>, the stack change in \<open>switch_to\<close>, and the interrupt stubs elsewhere than in \<open>ModeSwitch\<close>; the other theories start behind
  them, at the frame or the context they build. The translation lookaside buffer: the processor of the model walks the tables for every access. The messages of the kernel
  that are no results of their own, such as those of \<open>do_waitpid\<close> and the page fault handler. The demonstration program \<open>user_main\<close> and the bodies of the two first
  kernel threads, which this version of \<open>proc_init\<close> never starts. The build files and the linker script, whose addresses are parameters.
\<close>

end
